(* ===== verification/Aura_Prelude.thy ===== *)
theory Aura_Prelude
  imports Main "HOL-Library.Word"
begin

text \<open>
  What every component of the AuraOS kernel model shares: the types of its machine
  integers, 64-bit arithmetic on values of C type \<open>size_t\<close> and \<open>uintptr_t\<close>, bytes read
  from memory as little-endian words, and the facts about bits, lists and first matches
  that the component theories use.

  A value of type \<open>size_t\<close>, \<open>uintptr_t\<close> or of a pointer type is a natural number
  below \<open>2 ^ 64\<close>; every operation that can leave that range is written with
  \<open>add64\<close>, \<open>sub64\<close> or \<open>mul64\<close>, which wrap around as the 64-bit operations of the
  source do. Bit patterns (bitmap bytes, page table entries, flags) are words.
  The collection \<open>wrap\<close> holds the rules that remove the wrap-around where the operands
  are known to be small.
\<close>

unbundle bit_operations_syntax

named_theorems wrap \<open>64-bit operations without wrap-around\<close>

type_synonym u8 = "8 word"
type_synonym u16 = "16 word"
type_synonym u32 = "32 word"
type_synonym u64 = "64 word"
type_synonym size_t = nat
type_synonym addr = nat

abbreviation NULL :: addr where
  "NULL \<equiv> 0"

abbreviation two64 :: nat where
  "two64 \<equiv> 18446744073709551616"

section \<open>64-bit arithmetic\<close>

definition add64 :: "size_t \<Rightarrow> size_t \<Rightarrow> size_t" where
  "add64 a b = (a + b) mod two64"

definition sub64 :: "size_t \<Rightarrow> size_t \<Rightarrow> size_t" where
  "sub64 a b = (a + (two64 - b mod two64)) mod two64"

definition mul64 :: "size_t \<Rightarrow> size_t \<Rightarrow> size_t" where
  "mul64 a b = (a * b) mod two64"

text \<open>\<open>(val + align - 1) & ~(align - 1)\<close>, as \<open>align_up\<close> of heap.c computes it.\<close>

definition and_not64 :: "size_t \<Rightarrow> size_t \<Rightarrow> size_t" where
  "and_not64 a m = unat ((of_nat a :: u64) AND NOT (of_nat m))"

lemma add64_id [wrap]: "a + b < two64 \<Longrightarrow> add64 a b = a + b"
  by (simp add: add64_def)

lemma sub64_id [wrap]: "b \<le> a \<Longrightarrow> a < two64 \<Longrightarrow> sub64 a b = a - b"
  by (simp add: sub64_def le_mod_geq)

lemma mul64_id [wrap]: "a * b < two64 \<Longrightarrow> mul64 a b = a * b"
  by (simp add: mul64_def)

lemma add64_lt [simp]: "add64 a b < two64"
  by (simp add: add64_def)

lemma sub64_lt [simp]: "sub64 a b < two64"
  by (simp add: sub64_def)

lemma mul64_lt [simp]: "mul64 a b < two64"
  by (simp add: mul64_def)

lemma and_not_mask_word: "(x :: 'a::len word) AND NOT (mask k) = push_bit k (drop_bit k x)"
  by (rule bit_word_eqI) (auto simp: bit_simps)

lemma unat_push_drop: "unat (push_bit k (drop_bit k (x :: 'a::len word))) = unat x div 2 ^ k * 2 ^ k"
proof -
  have "unat x div 2 ^ k * 2 ^ k \<le> unat x" by (rule div_times_less_eq_dividend)
  also have "unat x < 2 ^ LENGTH('a)" by (rule unsigned_less)
  finally show ?thesis
    by (simp add: unsigned_push_bit_eq unsigned_drop_bit_eq push_bit_nat_def drop_bit_nat_def
        take_bit_nat_eq_self)
qed

lemma and_not64_pow2:
  assumes "a < two64"
  shows "and_not64 a (2 ^ k - 1) = a div 2 ^ k * 2 ^ k"
proof -
  have m: "(of_nat (2 ^ k - 1) :: u64) = mask k"
    by (simp add: mask_eq_exp_minus_1 of_nat_diff)
  have "unat (of_nat a :: u64) = a"
    using assms by (simp add: unsigned_of_nat take_bit_nat_eq_self)
  then show ?thesis
    unfolding and_not64_def m and_not_mask_word unat_push_drop by simp
qed


section \<open>Values of words\<close>

lemma unat_of_nat_small: "n < 2 ^ LENGTH('a) \<Longrightarrow> unat (of_nat n :: 'a::len word) = n"
  by (simp only: unsigned_of_nat of_nat_id take_bit_nat_eq_self)

lemma unat_of_nat_le: "unat (of_nat n :: 'a::len word) \<le> n"
  by (simp add: unsigned_of_nat)

lemma unat_drop_bit: "unat (drop_bit k (v :: 'a::len word)) = unat v div 2 ^ k"
proof -
  have "unat v < 2 ^ LENGTH('a)" by (rule unsigned_less)
  then show ?thesis by (simp add: unsigned_drop_bit_eq drop_bit_nat_def take_bit_nat_eq_self)
qed

lemma unat_and_mask: "unat ((v :: 'a::len word) AND mask k) = unat v mod 2 ^ k"
  by (simp only: take_bit_eq_mask[symmetric] unsigned_take_bit_eq) (simp add: take_bit_eq_mod)

lemma unat_u8_lt: "unat (v :: u8) < 256"
  using unsigned_less[where 'a = nat, of v] by simp

lemma unat_u32_lt: "unat (v :: u32) < 4294967296"
  using unsigned_less[where 'a = nat, of v] by simp

lemma unat_u64_lt: "unat (v :: u64) < two64"
  using unsigned_less[where 'a = nat, of v] by simp

section \<open>Little-endian words in byte memory\<close>

text \<open>A machine word read at an address of byte memory; x86 is little-endian.\<close>

fun le_word :: "u8 list \<Rightarrow> 'a::len word" where
  "le_word [] = 0"
| "le_word (b # bs) = ucast b OR push_bit 8 (le_word bs)"

lemma bit_le_word:
  "bit (le_word bs :: 'a::len word) n \<longleftrightarrow>
     n < LENGTH('a) \<and> n div 8 < length bs \<and> bit (bs ! (n div 8)) (n mod 8)"
proof (induction bs arbitrary: n)
  case Nil
  then show ?case by simp
next
  case (Cons b bs)
  show ?case
  proof (cases "n < 8")
    case True
    then show ?thesis
      by (auto simp: bit_simps)
  next
    case False
    then have "n div 8 = Suc ((n - 8) div 8)" "n mod 8 = (n - 8) mod 8"
      by (simp_all add: le_div_geq le_mod_geq)
    with False Cons.IH[of "n - 8"] show ?thesis
      by (auto simp: bit_simps dest: bit_imp_le_length)
  qed
qed

section \<open>Loops that look for the first match\<close>

text \<open>
  \<open>for (i = a; i < n; i++) if (P(i)) return i;\<close> The searches of the program that stop at
  the first index with a property are instances of this loop.
\<close>

function first_from :: "(nat \<Rightarrow> bool) \<Rightarrow> nat \<Rightarrow> nat \<Rightarrow> nat option" where
  "first_from P i n = (if i < n then if P i then Some i else first_from P (Suc i) n else None)"
  by pat_completeness auto
termination
  by (relation "measure (\<lambda>(P, i, n). n - i)") auto

declare first_from.simps [simp del]

lemma first_from_None: "first_from P i n = None \<longleftrightarrow> (\<forall>j. i \<le> j \<and> j < n \<longrightarrow> \<not> P j)"
proof (induction P i n rule: first_from.induct)
  case (1 P i n)
  show ?case
    using 1 by (subst first_from.simps) (auto simp: le_less dest: Suc_lessI)
qed

lemma first_from_Some:
  "first_from P i n = Some k \<longleftrightarrow> i \<le> k \<and> k < n \<and> P k \<and> (\<forall>j. i \<le> j \<and> j < k \<longrightarrow> \<not> P j)"
proof (induction P i n rule: first_from.induct)
  case (1 P i n)
  show ?case
    using 1 by (subst first_from.simps) (auto simp: le_less dest: Suc_lessI)
qed

lemma first_from_cong:
  "(\<And>j. i \<le> j \<Longrightarrow> j < n \<Longrightarrow> P j = Q j) \<Longrightarrow> first_from P i n = first_from Q i n"
proof (induction P i n rule: first_from.induct)
  case (1 P i n)
  then show ?case
    by (subst (1 2) first_from.simps) auto
qed

lemma first_from_skip:
  assumes "a \<le> b" "\<And>j. a \<le> j \<Longrightarrow> j < b \<Longrightarrow> \<not> P j"
  shows "first_from P a n = first_from P b n"
proof (cases "first_from P b n")
  case None
  then have "\<forall>j. a \<le> j \<and> j < n \<longrightarrow> \<not> P j"
    using assms unfolding first_from_None by (metis not_le)
  with None show ?thesis by (simp add: first_from_None[symmetric])
next
  case (Some k)
  then have "first_from P a n = Some k"
    using assms unfolding first_from_Some by (metis le_trans not_le)
  with Some show ?thesis by simp
qed

section \<open>Builtins\<close>

text \<open>
  \<open>__builtin_ctzll\<close>: the number of trailing zero bits, defined for a nonzero argument.
\<close>

definition ctzll :: "u64 \<Rightarrow> nat" where
  "ctzll x = (case first_from (bit x) 0 64 of Some i \<Rightarrow> i | None \<Rightarrow> 64)"

lemma ctzll_bit:
  assumes "x \<noteq> 0"
  shows "ctzll x < 64" "bit x (ctzll x)" "i < ctzll x \<Longrightarrow> \<not> bit x i"
proof -
  from assms obtain n where n: "bit x n" by (metis bit_eq_iff bit_0_eq bot_apply bot_bool_def)
  then have "n < 64" using bit_imp_le_length by fastforce
  with n obtain k where k: "first_from (bit x) 0 64 = Some k"
    using first_from_None[of "bit x" 0 64] by (cases "first_from (bit x) 0 64") auto
  then have "ctzll x = k" by (simp add: ctzll_def)
  with k show "ctzll x < 64" "bit x (ctzll x)" "i < ctzll x \<Longrightarrow> \<not> bit x i"
    by (simp_all add: first_from_Some)
qed

section \<open>Linked lists in memory\<close>

text \<open>
  The list of the addresses an intrusive singly linked list goes through, from its head
  \<open>p\<close> along the link \<open>nx\<close> to NULL.
\<close>

primrec chain :: "(addr \<Rightarrow> addr) \<Rightarrow> addr \<Rightarrow> addr list \<Rightarrow> bool" where
  "chain nx p [] \<longleftrightarrow> p = NULL"
| "chain nx p (a # as) \<longleftrightarrow> p = a \<and> a \<noteq> NULL \<and> chain nx (nx a) as"

lemma chain_NULL [simp]: "chain nx NULL as \<longleftrightarrow> as = []"
  by (cases as) auto

lemma chain_nonNULL: "p \<noteq> NULL \<Longrightarrow> chain nx p as \<longleftrightarrow> (\<exists>bs. as = p # bs \<and> chain nx (nx p) bs)"
  by (cases as) auto

lemma chain_upd [simp]: "u \<notin> set as \<Longrightarrow> chain (nx(u := v)) p as = chain nx p as"
  by (induction as arbitrary: p) auto

lemma chain_cong: "(\<And>a. a \<in> set as \<Longrightarrow> nx a = nx' a) \<Longrightarrow> chain nx p as = chain nx' p as"
  by (induction as arbitrary: p) auto

lemma chain_unique: "chain nx p as \<Longrightarrow> chain nx p bs \<Longrightarrow> as = bs"
  by (induction as arbitrary: p bs) (auto simp: chain_nonNULL)

lemma chain_no_NULL: "chain nx p as \<Longrightarrow> NULL \<notin> set as"
  by (induction as arbitrary: p) auto

lemma chain_append: "chain nx p (as @ bs) \<Longrightarrow> \<exists>q. chain nx q bs"
  by (induction as arbitrary: p) auto

lemma chain_distinct: "chain nx p as \<Longrightarrow> distinct as"
proof (induction as arbitrary: p)
  case (Cons a as)
  have "a \<notin> set as"
  proof
    assume "a \<in> set as"
    then obtain xs ys where as: "as = xs @ a # ys" by (meson split_list)
    with Cons.prems have "chain nx (nx a) (xs @ a # ys)" by simp
    from chain_append[OF this] obtain q where "chain nx q (a # ys)" ..
    then have "chain nx (nx a) ys" by auto
    with Cons.prems as show False
      using chain_unique[of nx "nx a" ys "xs @ a # ys"] by auto
  qed
  with Cons show ?case by auto
qed simp

end
