(* ===== verification/Frame_Provider.thy ===== *)
theory Frame_Provider
  imports Aura_Prelude
begin

text \<open>
  The contract between the physical memory manager and its clients (the slab allocator, the
  kernel heap and the page table code): what a client may rely on when it asks for one
  frame, for a run of adjacent frames, or gives a frame back. A frame is a number; its
  physical address is the number times 4096. The facts of the clients that need no more
  than this contract are proved here, once.
\<close>

abbreviation PAGE_SIZE :: size_t where
  "PAGE_SIZE \<equiv> 4096"

locale frame_provider =
  fixes invar :: "'s \<Rightarrow> bool"
    and total :: "'s \<Rightarrow> nat"
    and used :: "'s \<Rightarrow> nat set"
    and alloc :: "'s \<Rightarrow> addr \<times> 's"
    and release :: "addr \<Rightarrow> 's \<Rightarrow> 's"
  assumes used_bounded: "used s \<subseteq> {..<total s}"
    and total_bounded: "invar s \<Longrightarrow> total s * PAGE_SIZE < two64"
    and alloc_full: "invar s \<Longrightarrow> used s = {..<total s} \<Longrightarrow> alloc s = (0, s)"
    and alloc_free: "invar s \<Longrightarrow> used s \<noteq> {..<total s} \<Longrightarrow> alloc s = (p, s') \<Longrightarrow>
      \<exists>f. f < total s \<and> f \<notin> used s \<and> p = f * PAGE_SIZE \<and> used s' = insert f (used s) \<and>
        total s' = total s \<and> invar s'"
    and release_frame: "invar s \<Longrightarrow>
      used (release p s) = used s - {p div PAGE_SIZE} \<and> total (release p s) = total s \<and>
      invar (release p s)"
begin

lemma alloc_invar: "invar s \<Longrightarrow> alloc s = (p, s') \<Longrightarrow> invar s' \<and> total s' = total s"
  by (cases "used s = {..<total s}") (auto simp: alloc_full dest: alloc_free)

lemma alloc_nonzero:
  assumes "invar s" "alloc s = (p, s')" "p \<noteq> 0"
  obtains f where "f < total s" "f \<notin> used s" "p = f * PAGE_SIZE" "used s' = insert f (used s)"
    "total s' = total s" "invar s'"
  using assms alloc_full[of s] alloc_free[of s p s'] by (cases "used s = {..<total s}") auto

text \<open>
  With frame 0 in use, as the kernel arranges at boot, the result 0 means that no frame
  is free, and only that.
\<close>

lemma alloc_zero_iff:
  assumes "invar s" "0 \<in> used s" "alloc s = (p, s')"
  shows "p = 0 \<longleftrightarrow> used s = {..<total s}"
proof
  assume "p = 0"
  with assms show "used s = {..<total s}"
    using alloc_free[of s p s'] by fastforce
qed (use assms alloc_full in simp)

lemma alloc_used_mono: "invar s \<Longrightarrow> alloc s = (p, s') \<Longrightarrow> used s \<subseteq> used s'"
  by (cases "used s = {..<total s}") (auto simp: alloc_full dest: alloc_free)

text \<open>A frame handed out is not handed out again while it is in use.\<close>

lemma alloc_fresh:
  assumes "invar s" "alloc s = (p, s')" "p \<noteq> 0" "p div PAGE_SIZE \<in> used t" "used t \<subseteq> used u"
    "invar u" "alloc u = (q, u')" "q \<noteq> 0"
  shows "p \<noteq> q"
proof -
  obtain g where "g \<notin> used u" "q = g * PAGE_SIZE"
    using assms(6-8) by (rule alloc_nonzero)
  with assms(4,5) show ?thesis by auto
qed

lemma alloc_twice_distinct:
  assumes "invar s" "alloc s = (p, s')" "p \<noteq> 0" "alloc s' = (q, s'')" "q \<noteq> 0"
  shows "p \<noteq> q"
proof -
  obtain f where f: "p = f * PAGE_SIZE" "used s' = insert f (used s)" "invar s'"
    using assms(1-3) by (rule alloc_nonzero)
  with assms show ?thesis
    by (intro alloc_fresh[of s p s' s' s' q s'']) auto
qed

lemma alloc_page_bounded:
  assumes "invar s" "alloc s = (p, s')" "p \<noteq> 0"
  shows "p mod PAGE_SIZE = 0" "p + PAGE_SIZE \<le> total s * PAGE_SIZE"
proof -
  obtain f where f: "f < total s" "p = f * PAGE_SIZE"
    using assms by (rule alloc_nonzero)
  then have "Suc f * PAGE_SIZE \<le> total s * PAGE_SIZE" by (intro mult_le_mono1) simp
  with f show "p mod PAGE_SIZE = 0" "p + PAGE_SIZE \<le> total s * PAGE_SIZE"
    by (simp_all add: add.commute)
qed

text \<open>Giving a frame back undoes its allocation, up to the provider's own bookkeeping.\<close>

lemma alloc_release:
  assumes "invar s" "alloc s = (p, s')" "p \<noteq> 0"
  shows "used (release p s') = used s"
proof -
  obtain f where f: "f \<notin> used s" "p = f * PAGE_SIZE" "used s' = insert f (used s)" "invar s'"
    using assms by (rule alloc_nonzero)
  then show ?thesis using release_frame[of s' p] by auto
qed

end

locale run_provider = frame_provider +
  fixes alloc_run :: "size_t \<Rightarrow> 's \<Rightarrow> addr \<times> 's"
  assumes run_none: "invar s \<Longrightarrow>
      n = 0 \<or> (\<forall>st. st + n \<le> total s \<longrightarrow> {st..<st + n} \<inter> used s \<noteq> {}) \<Longrightarrow> alloc_run n s = (0, s)"
    and run_some: "invar s \<Longrightarrow> 0 < n \<Longrightarrow> \<exists>st. st + n \<le> total s \<and> {st..<st + n} \<inter> used s = {} \<Longrightarrow>
      alloc_run n s = (p, s') \<Longrightarrow>
      \<exists>st. st + n \<le> total s \<and> {st..<st + n} \<inter> used s = {} \<and> p = st * PAGE_SIZE \<and>
        used s' = used s \<union> {st..<st + n} \<and> total s' = total s \<and> invar s'"
begin

lemma run_nonzero:
  assumes "invar s" "alloc_run n s = (p, s')" "p \<noteq> 0"
  obtains st where "0 < n" "0 < st" "st + n \<le> total s" "{st..<st + n} \<inter> used s = {}"
    "p = st * PAGE_SIZE" "used s' = used s \<union> {st..<st + n}" "total s' = total s" "invar s'"
proof -
  from assms have n: "0 < n" and ex: "\<exists>st. st + n \<le> total s \<and> {st..<st + n} \<inter> used s = {}"
    using run_none[of s n] by fastforce+
  from run_some[OF assms(1) n ex assms(2)] obtain st where
    "st + n \<le> total s" "{st..<st + n} \<inter> used s = {}" "p = st * PAGE_SIZE"
    "used s' = used s \<union> {st..<st + n}" "total s' = total s" "invar s'" by blast
  moreover from this(3) assms(3) have "0 < st" by simp
  ultimately show thesis using n that by blast
qed

text \<open>
  With frame 0 in use, the result 0 of a request for a run means that there is no such run,
  and that nothing changed.
\<close>

lemma run_zero:
  assumes "invar s" "0 \<in> used s" "alloc_run n s = (0, s')"
  shows "s' = s"
proof (cases "n = 0 \<or> (\<forall>st. st + n \<le> total s \<longrightarrow> {st..<st + n} \<inter> used s \<noteq> {})")
  case True
  with run_none[OF assms(1)] assms(3) show ?thesis by simp
next
  case False
  then have n: "0 < n" and ex: "\<exists>st. st + n \<le> total s \<and> {st..<st + n} \<inter> used s = {}" by auto
  from run_some[OF assms(1) n ex assms(3)] obtain st where
    "{st..<st + n} \<inter> used s = {}" "0 = st * PAGE_SIZE" by blast
  with n assms(2) show ?thesis by auto
qed

lemma run_invar:
  assumes "invar s" "alloc_run n s = (p, s')"
  shows "invar s'" "total s' = total s" "used s \<subseteq> used s'"
proof -
  have "invar s' \<and> total s' = total s \<and> used s \<subseteq> used s'"
  proof (cases "n = 0 \<or> (\<forall>st. st + n \<le> total s \<longrightarrow> {st..<st + n} \<inter> used s \<noteq> {})")
    case True
    with run_none[OF assms(1)] assms show ?thesis by simp
  next
    case False
    then have n: "0 < n" and ex: "\<exists>st. st + n \<le> total s \<and> {st..<st + n} \<inter> used s = {}" by auto
    from run_some[OF assms(1) n ex assms(2)] show ?thesis by auto
  qed
  then show "invar s'" "total s' = total s" "used s \<subseteq> used s'" by auto
qed

text \<open>Two runs that are both in use do not overlap as address ranges.\<close>

lemma run_pages_disjoint:
  assumes "invar s" "alloc_run n s = (p, s')" "p \<noteq> 0" "f \<in> used s"
  shows "{f * PAGE_SIZE..<f * PAGE_SIZE + PAGE_SIZE} \<inter> {p..<p + n * PAGE_SIZE} = {}"
proof -
  obtain st where st: "{st..<st + n} \<inter> used s = {}" "p = st * PAGE_SIZE"
    using assms(1-3) by (rule run_nonzero)
  then have "f < st \<or> st + n \<le> f"
    using assms(4) by (metis IntI atLeastLessThan_iff empty_iff not_less)
  then have "f * PAGE_SIZE + PAGE_SIZE \<le> p \<or> p + n * PAGE_SIZE \<le> f * PAGE_SIZE"
  proof
    assume "f < st"
    then have "Suc f * PAGE_SIZE \<le> st * PAGE_SIZE" by (intro mult_le_mono1) simp
    then show ?thesis using st(2) by simp
  next
    assume "st + n \<le> f"
    then have "(st + n) * PAGE_SIZE \<le> f * PAGE_SIZE" by (intro mult_le_mono1) simp
    then show ?thesis using st(2) by (simp add: algebra_simps)
  qed
  then show ?thesis by auto
qed

end

end
