(* ===== verification/Pmm.thy ===== *)
theory Pmm
  imports Frame_Provider
begin

text \<open>
  The physical memory manager, kernel/core/pmm.c: a bitmap with one bit for each 4096-byte
  frame, a count of the frames in use, and a hint below which no frame is free. First the
  state and the operations as the file has them, then its invariant, the abstract view as a
  set of frames in use, and the equivalence of the three-phase word scan with a plain scan
  for the lowest free frame. The theory ends with the interpretation of the contract
  \<open>run_provider\<close> on these operations.
\<close>

section \<open>State\<close>

text \<open>
  The bytes of the bitmap are a list of their own: the memory at \<open>bitmap_base\<close> that
  \<open>pmm_init\<close> is given, of which the manager owns the bytes it clears.
\<close>

record pmm_state =
  bitmap_base :: addr
  bitmap :: "u8 list"
  total_frames :: size_t
  used_frames :: size_t
  alloc_hint :: size_t

text \<open>The values the C compiler puts in the static variables.\<close>

definition pmm_static :: pmm_state where
  "pmm_static = \<lparr>bitmap_base = NULL, bitmap = [], total_frames = 0, used_frames = 0, alloc_hint = 0\<rparr>"

definition bit_test :: "u8 list \<Rightarrow> nat \<Rightarrow> bool" where
  "bit_test bm f \<longleftrightarrow> (bm ! (f div 8)) AND push_bit (f mod 8) 1 \<noteq> 0"

definition bit_set :: "u8 list \<Rightarrow> nat \<Rightarrow> u8 list" where
  "bit_set bm f = bm[f div 8 := (bm ! (f div 8)) OR push_bit (f mod 8) 1]"

definition bit_clear :: "u8 list \<Rightarrow> nat \<Rightarrow> u8 list" where
  "bit_clear bm f = bm[f div 8 := (bm ! (f div 8)) AND NOT (push_bit (f mod 8) 1)]"

text \<open>\<open>words[w]\<close>: eight bytes of the bitmap read as one 64-bit word.\<close>

definition bitmap_word :: "u8 list \<Rightarrow> nat \<Rightarrow> u64" where
  "bitmap_word bm w = le_word (take 8 (drop (8 * w) bm))"

section \<open>Operations\<close>

definition pmm_init :: "size_t \<Rightarrow> addr \<Rightarrow> 'a pmm_state_scheme \<Rightarrow> 'a pmm_state_scheme" where
  "pmm_init mem_size base s =
     (let n_frames = mem_size div PAGE_SIZE; bitmap_size = (n_frames + 7) div 8
      in s\<lparr>bitmap_base := base, bitmap := replicate bitmap_size 0,
           total_frames := n_frames, used_frames := 0, alloc_hint := 0\<rparr>)"

definition pmm_mark_used :: "addr \<Rightarrow> 'a pmm_state_scheme \<Rightarrow> 'a pmm_state_scheme" where
  "pmm_mark_used paddr s =
     (let frame = paddr div PAGE_SIZE
      in if frame < total_frames s \<and> \<not> bit_test (bitmap s) frame
         then s\<lparr>bitmap := bit_set (bitmap s) frame, used_frames := add64 (used_frames s) 1\<rparr>
         else s)"

definition pmm_mark_free :: "addr \<Rightarrow> 'a pmm_state_scheme \<Rightarrow> 'a pmm_state_scheme" where
  "pmm_mark_free paddr s =
     (let frame = paddr div PAGE_SIZE
      in if frame < total_frames s \<and> bit_test (bitmap s) frame
         then s\<lparr>bitmap := bit_clear (bitmap s) frame, used_frames := sub64 (used_frames s) 1,
                alloc_hint := (if frame < alloc_hint s then frame else alloc_hint s)\<rparr>
         else s)"

text \<open>The body the three phases of \<open>pmm_alloc_frame\<close> share once a frame is found.\<close>

definition take_frame :: "nat \<Rightarrow> 'a pmm_state_scheme \<Rightarrow> addr \<times> 'a pmm_state_scheme" where
  "take_frame frame s =
     (mul64 frame PAGE_SIZE,
      s\<lparr>bitmap := bit_set (bitmap s) frame, used_frames := add64 (used_frames s) 1,
        alloc_hint := add64 frame 1\<rparr>)"

text \<open>Phases 1 and 2: the first word from \<open>a\<close> up to \<open>b\<close> that has a zero bit in range.\<close>

definition scan_words :: "u8 list \<Rightarrow> nat \<Rightarrow> nat \<Rightarrow> nat \<Rightarrow> nat option" where
  "scan_words bm n_frames a b =
     map_option (\<lambda>w. w * 64 + ctzll (NOT (bitmap_word bm w)))
       (first_from (\<lambda>w. bitmap_word bm w \<noteq> NOT 0 \<and>
                        w * 64 + ctzll (NOT (bitmap_word bm w)) < n_frames) a b)"

definition pmm_alloc_frame :: "'a pmm_state_scheme \<Rightarrow> addr \<times> 'a pmm_state_scheme" where
  "pmm_alloc_frame s =
     (if total_frames s \<le> used_frames s then (0, s)
      else let total_words = total_frames s div 64; start_word = alloc_hint s div 64 in
        case scan_words (bitmap s) (total_frames s) start_word total_words of
          Some frame \<Rightarrow> take_frame frame s
        | None \<Rightarrow>
            (case scan_words (bitmap s) (total_frames s) 0 start_word of
               Some frame \<Rightarrow> take_frame frame s
             | None \<Rightarrow>
                 (case first_from (\<lambda>i. \<not> bit_test (bitmap s) i) (total_words * 64) (total_frames s) of
                    Some i \<Rightarrow> take_frame i s
                  | None \<Rightarrow> (0, s))))"

definition pmm_free_frame :: "addr \<Rightarrow> 'a pmm_state_scheme \<Rightarrow> 'a pmm_state_scheme" where
  "pmm_free_frame paddr s = pmm_mark_free paddr s"

text \<open>The scan of \<open>pmm_alloc_contiguous\<close>: \<open>count\<close> free frames seen in a row from \<open>start\<close>.\<close>

function contig_scan :: "u8 list \<Rightarrow> nat \<Rightarrow> nat \<Rightarrow> nat \<Rightarrow> nat \<Rightarrow> nat \<Rightarrow> nat option" where
  "contig_scan bm n_frames n i count start =
     (if i < n_frames then
        if \<not> bit_test bm i then
          let start' = (if count = 0 then i else start); count' = add64 count 1
          in if count' = n then Some start' else contig_scan bm n_frames n (Suc i) count' start'
        else contig_scan bm n_frames n (Suc i) 0 start
      else None)"
  by pat_completeness auto
termination
  by (relation "measure (\<lambda>(bm, n_frames, n, i, count, start). n_frames - i)") auto

declare contig_scan.simps [simp del]

definition pmm_alloc_contiguous :: "size_t \<Rightarrow> 'a pmm_state_scheme \<Rightarrow> addr \<times> 'a pmm_state_scheme" where
  "pmm_alloc_contiguous frame_count s =
     (if frame_count = 0 then (0, s)
      else case contig_scan (bitmap s) (total_frames s) frame_count 0 0 0 of
          None \<Rightarrow> (0, s)
        | Some start \<Rightarrow>
            (mul64 start PAGE_SIZE,
             s\<lparr>bitmap := fold (\<lambda>j bm. bit_set bm j) [start..<add64 start frame_count] (bitmap s),
               used_frames := add64 (used_frames s) frame_count\<rparr>))"

definition pmm_get_free_memory :: "'a pmm_state_scheme \<Rightarrow> size_t" where
  "pmm_get_free_memory s = mul64 (sub64 (total_frames s) (used_frames s)) PAGE_SIZE"

definition pmm_get_used_memory :: "'a pmm_state_scheme \<Rightarrow> size_t" where
  "pmm_get_used_memory s = mul64 (used_frames s) PAGE_SIZE"

definition pmm_get_total_memory :: "'a pmm_state_scheme \<Rightarrow> size_t" where
  "pmm_get_total_memory s = mul64 (total_frames s) PAGE_SIZE"

section \<open>The bitmap as a set of frames\<close>

lemma div_mod_8_eq: "(f::nat) div 8 = g div 8 \<Longrightarrow> f mod 8 = g mod 8 \<Longrightarrow> f = g"
  by (metis div_mod_decomp)

lemma bit_test_iff: "bit_test bm f \<longleftrightarrow> bit (bm ! (f div 8)) (f mod 8)"
  by (simp add: bit_test_def bit_iff_and_push_bit_not_eq_0)

lemma length_bit_set [simp]: "length (bit_set bm f) = length bm"
  by (simp add: bit_set_def)

lemma length_bit_clear [simp]: "length (bit_clear bm f) = length bm"
  by (simp add: bit_clear_def)

lemma bit_test_bit_set [simp]:
  assumes "f div 8 < length bm"
  shows "bit_test (bit_set bm f) g \<longleftrightarrow> g = f \<or> bit_test bm g"
proof (cases "g div 8 = f div 8")
  case True
  have "f mod 8 = g mod 8 \<longleftrightarrow> g = f" using True div_mod_8_eq by metis
  with assms True show ?thesis
    by (auto simp: bit_test_iff bit_set_def bit_simps)
qed (auto simp: bit_test_iff bit_set_def)

lemma bit_test_bit_clear [simp]:
  assumes "f div 8 < length bm"
  shows "bit_test (bit_clear bm f) g \<longleftrightarrow> g \<noteq> f \<and> bit_test bm g"
proof (cases "g div 8 = f div 8")
  case True
  have "f mod 8 = g mod 8 \<longleftrightarrow> g = f" using True div_mod_8_eq by metis
  with assms True show ?thesis
    by (auto simp: bit_test_iff bit_clear_def bit_simps)
qed (auto simp: bit_test_iff bit_clear_def)

lemma bit_bitmap_word:
  assumes "k < 64" "8 * w + 8 \<le> length bm"
  shows "bit (bitmap_word bm w) k \<longleftrightarrow> bit_test bm (w * 64 + k)"
proof -
  have "(w * 64 + k) div 8 = 8 * w + k div 8" "(w * 64 + k) mod 8 = k mod 8" "k div 8 < 8"
    using assms(1) by (auto, presburger)
  with assms show ?thesis
    by (simp add: bitmap_word_def bit_le_word bit_test_iff)
qed

definition frames_set :: "u8 list \<Rightarrow> nat \<Rightarrow> nat set" where
  "frames_set bm n = set (filter (bit_test bm) [0..<n])"

text \<open>The abstract state of the manager: how many frames there are, and which are in use.\<close>

definition pmm_used :: "'a pmm_state_scheme \<Rightarrow> nat set" where
  "pmm_used s = frames_set (bitmap s) (total_frames s)"

lemma in_frames_set [simp]: "f \<in> frames_set bm n \<longleftrightarrow> f < n \<and> bit_test bm f"
  by (auto simp: frames_set_def)

lemma finite_frames_set [simp]: "finite (frames_set bm n)"
  by (simp add: frames_set_def)

lemma in_pmm_used: "f \<in> pmm_used s \<longleftrightarrow> f < total_frames s \<and> bit_test (bitmap s) f"
  by (simp add: pmm_used_def)

lemma pmm_used_bounded: "pmm_used s \<subseteq> {..<total_frames s}"
  by (auto simp: in_pmm_used)

lemma finite_pmm_used [simp]: "finite (pmm_used s)"
  by (simp add: pmm_used_def)

lemma frames_set_bit_set:
  "f < n \<Longrightarrow> f div 8 < length bm \<Longrightarrow> frames_set (bit_set bm f) n = insert f (frames_set bm n)"
  by auto

lemma frames_set_bit_clear:
  "f div 8 < length bm \<Longrightarrow> frames_set (bit_clear bm f) n = frames_set bm n - {f}"
  by auto

section \<open>Invariant\<close>

text \<open>
  The bitmap has a bit for every frame, the counter counts the bits that are set, and every
  frame below the hint is in use. The last conjunct is what makes the second phase of the
  word scan unreachable, and the allocation the lowest free frame.
\<close>

definition pmm_wf :: "'a pmm_state_scheme \<Rightarrow> bool" where
  "pmm_wf s \<longleftrightarrow>
     length (bitmap s) = (total_frames s + 7) div 8 \<and>
     total_frames s * PAGE_SIZE < two64 \<and>
     used_frames s = card (pmm_used s) \<and>
     alloc_hint s \<le> total_frames s \<and>
     (\<forall>f < alloc_hint s. bit_test (bitmap s) f)"

lemma pmm_wf_length: "pmm_wf s \<Longrightarrow> f < total_frames s \<Longrightarrow> f div 8 < length (bitmap s)"
  by (auto simp: pmm_wf_def)

lemma pmm_wf_used_le: "pmm_wf s \<Longrightarrow> used_frames s \<le> total_frames s"
  using card_mono[OF _ pmm_used_bounded[of s]] by (simp add: pmm_wf_def)

lemma pmm_wf_used_less:
  assumes "pmm_wf s" "f < total_frames s" "\<not> bit_test (bitmap s) f"
  shows "used_frames s < total_frames s"
proof -
  have "f \<notin> pmm_used s" "f \<in> {..<total_frames s}"
    using assms(2,3) by (simp_all add: in_pmm_used)
  with pmm_used_bounded have "pmm_used s \<subset> {..<total_frames s}" by blast
  then have "card (pmm_used s) < card {..<total_frames s}"
    by (intro psubset_card_mono) auto
  with assms(1) show ?thesis by (simp add: pmm_wf_def)
qed

lemma pmm_wf_full_iff: "pmm_wf s \<Longrightarrow> total_frames s \<le> used_frames s \<longleftrightarrow> pmm_used s = {..<total_frames s}"
  using pmm_wf_used_less[of s] by (force simp: in_pmm_used pmm_wf_def)

lemma pmm_wf_total: "pmm_wf s \<Longrightarrow> total_frames s * PAGE_SIZE < two64"
  by (simp add: pmm_wf_def)

lemma pmm_wf_total': "pmm_wf s \<Longrightarrow> total_frames s < 4503599627370496"
  by (simp add: pmm_wf_def)

section \<open>Initialisation and marking\<close>

lemma bit_test_replicate_0: "f div 8 < n \<Longrightarrow> \<not> bit_test (replicate n 0) f"
  by (simp add: bit_test_iff)

lemma pmm_init_wf: "mem_size < two64 \<Longrightarrow> pmm_wf (pmm_init mem_size base s)"
  by (auto simp: pmm_wf_def pmm_init_def Let_def pmm_used_def frames_set_def bit_test_replicate_0
      filter_empty_conv)

lemma pmm_init_used: "pmm_used (pmm_init mem_size base s) = {}"
  by (auto simp: pmm_init_def Let_def in_pmm_used bit_test_replicate_0)

lemma pmm_mark_used_abs:
  assumes "pmm_wf s"
  shows "pmm_wf (pmm_mark_used p s)"
    and "pmm_used (pmm_mark_used p s) =
      pmm_used s \<union> {f. f = p div PAGE_SIZE \<and> f < total_frames s}"
    and "total_frames (pmm_mark_used p s) = total_frames s"
proof -
  let ?f = "p div PAGE_SIZE"
  show "total_frames (pmm_mark_used p s) = total_frames s"
    by (simp add: pmm_mark_used_def Let_def)
  show used: "pmm_used (pmm_mark_used p s) = pmm_used s \<union> {f. f = ?f \<and> f < total_frames s}"
    using pmm_wf_length[OF assms, of ?f]
    by (auto simp: pmm_mark_used_def Let_def in_pmm_used)
  show "pmm_wf (pmm_mark_used p s)"
  proof (cases "?f < total_frames s \<and> \<not> bit_test (bitmap s) ?f")
    case True
    then have "card (pmm_used (pmm_mark_used p s)) = Suc (used_frames s)"
      using assms unfolding used
      by (simp add: pmm_wf_def in_pmm_used Collect_conv_if)
    then show ?thesis
      using assms True pmm_wf_used_less[OF assms, of ?f] pmm_wf_total'[OF assms]
        pmm_wf_length[OF assms, of ?f]
      by (auto simp: pmm_wf_def pmm_mark_used_def Let_def wrap)
  qed (use assms in \<open>auto simp: pmm_mark_used_def Let_def\<close>)
qed

lemma pmm_mark_free_abs:
  assumes "pmm_wf s"
  shows "pmm_wf (pmm_mark_free p s)"
    and "pmm_used (pmm_mark_free p s) = pmm_used s - {p div PAGE_SIZE}"
    and "total_frames (pmm_mark_free p s) = total_frames s"
proof -
  let ?f = "p div PAGE_SIZE"
  show "total_frames (pmm_mark_free p s) = total_frames s"
    by (simp add: pmm_mark_free_def Let_def)
  show used: "pmm_used (pmm_mark_free p s) = pmm_used s - {?f}"
    using pmm_wf_length[OF assms, of ?f]
    by (auto simp: pmm_mark_free_def Let_def in_pmm_used)
  show "pmm_wf (pmm_mark_free p s)"
  proof (cases "?f < total_frames s \<and> bit_test (bitmap s) ?f")
    case True
    then have "card (pmm_used (pmm_mark_free p s)) = used_frames s - 1"
      using assms unfolding used by (simp add: pmm_wf_def in_pmm_used)
    moreover have "0 < used_frames s"
      using True assms by (auto simp: pmm_wf_def card_gt_0_iff in_pmm_used)
    ultimately show ?thesis
      using assms True pmm_wf_used_le[OF assms] pmm_wf_total'[OF assms]
        pmm_wf_length[OF assms, of ?f]
      by (auto simp: pmm_wf_def pmm_mark_free_def Let_def wrap)
  qed (use assms in \<open>auto simp: pmm_mark_free_def Let_def\<close>)
qed

section \<open>Single frames: the word scan finds the lowest free frame\<close>

text \<open>
  The reference the word scan is measured against: test the frames one by one from 0.
\<close>

definition lowest_free :: "'a pmm_state_scheme \<Rightarrow> nat option" where
  "lowest_free s = first_from (\<lambda>f. \<not> bit_test (bitmap s) f) 0 (total_frames s)"

definition alloc_lowest :: "'a pmm_state_scheme \<Rightarrow> addr \<times> 'a pmm_state_scheme" where
  "alloc_lowest s = (case lowest_free s of None \<Rightarrow> (0, s) | Some f \<Rightarrow> take_frame f s)"

lemma bitmap_word_full_iff:
  assumes "8 * w + 8 \<le> length bm"
  shows "bitmap_word bm w = NOT 0 \<longleftrightarrow> (\<forall>f. w * 64 \<le> f \<and> f < w * 64 + 64 \<longrightarrow> bit_test bm f)"
proof -
  have "bitmap_word bm w = NOT 0 \<longleftrightarrow> (\<forall>k < 64. bit (bitmap_word bm w) k)"
    by (simp add: bit_eq_iff bit_simps)
  also have "\<dots> \<longleftrightarrow> (\<forall>k < 64. bit_test bm (w * 64 + k))"
    using assms by (simp add: bit_bitmap_word)
  also have "\<dots> \<longleftrightarrow> (\<forall>f. w * 64 \<le> f \<and> f < w * 64 + 64 \<longrightarrow> bit_test bm f)"
    by (metis add_less_cancel_left le_add1 le_iff_add)
  finally show ?thesis .
qed

lemma word_first_zero:
  assumes "8 * w + 8 \<le> length bm" "bitmap_word bm w \<noteq> NOT 0"
  defines "f \<equiv> w * 64 + ctzll (NOT (bitmap_word bm w))"
  shows "f < w * 64 + 64" "\<not> bit_test bm f" "w * 64 \<le> g \<Longrightarrow> g < f \<Longrightarrow> bit_test bm g"
proof -
  let ?x = "NOT (bitmap_word bm w)"
  have nz: "?x \<noteq> 0" using assms(2) by (metis bit.double_compl)
  note c = ctzll_bit[OF nz]
  show "f < w * 64 + 64" using c(1) by (simp add: f_def)
  show "\<not> bit_test bm f"
    using c(1,2) bit_bitmap_word[OF c(1) assms(1)] by (simp add: f_def bit_simps)
  show "bit_test bm g" if "w * 64 \<le> g" "g < f"
  proof -
    have k: "g - w * 64 < ctzll ?x" "g = w * 64 + (g - w * 64)" using that by (auto simp: f_def)
    then have "bit (bitmap_word bm w) (g - w * 64)"
      using c(3)[OF k(1)] c(1) by (simp add: bit_simps)
    then show ?thesis using bit_bitmap_word[of "g - w * 64" w bm] k c(1) assms(1) by simp
  qed
qed

lemma scan_words_Some:
  assumes "scan_words bm n a b = Some f" "b \<le> n div 64" "(n + 7) div 8 \<le> length bm"
  shows "a * 64 \<le> f" "f < b * 64" "\<not> bit_test bm f" "a * 64 \<le> g \<Longrightarrow> g < f \<Longrightarrow> bit_test bm g"
proof -
  from assms(1) obtain w where
    f: "f = w * 64 + ctzll (NOT (bitmap_word bm w))"
    and w: "a \<le> w" "w < b" "bitmap_word bm w \<noteq> NOT 0"
    and before: "\<And>v. a \<le> v \<Longrightarrow> v < w \<Longrightarrow>
      bitmap_word bm v = NOT 0 \<or> n \<le> v * 64 + ctzll (NOT (bitmap_word bm v))"
    unfolding scan_words_def map_option_eq_Some first_from_Some by (auto simp: not_less)
  have len: "8 * v + 8 \<le> length bm" if "v \<le> w" for v
    using that w(2) assms(2,3) by linarith
  note z = word_first_zero[OF len[OF le_refl] w(3), folded f]
  show "a * 64 \<le> f" using w(1) f by (simp add: trans_le_add1)
  show "f < b * 64" using z(1) w(2) by linarith
  show "\<not> bit_test bm f" by (rule z(2))
  show "bit_test bm g" if g: "a * 64 \<le> g" "g < f"
  proof (cases "w * 64 \<le> g")
    case True
    then show ?thesis using z(3) g(2) by blast
  next
    case False
    define v where "v = g div 64"
    have v: "a \<le> v" "v < w" "v * 64 \<le> g" "g < v * 64 + 64"
      using g False unfolding v_def by linarith+
    have l: "8 * v + 8 \<le> length bm" using len v(2) by simp
    have "bitmap_word bm v = NOT 0"
    proof (rule ccontr)
      assume nz: "bitmap_word bm v \<noteq> NOT 0"
      have "v * 64 + ctzll (NOT (bitmap_word bm v)) < n"
        using word_first_zero(1)[OF l nz] v(2) w(2) assms(2) by linarith
      with before[OF v(1,2)] nz show False by simp
    qed
    then show ?thesis using bitmap_word_full_iff[OF l] v(3,4) by blast
  qed
qed

lemma scan_words_None:
  assumes "scan_words bm n a b = None" "b \<le> n div 64" "(n + 7) div 8 \<le> length bm"
    "a * 64 \<le> g" "g < b * 64"
  shows "bit_test bm g"
proof -
  define v where "v = g div 64"
  have v: "a \<le> v" "v < b" "v * 64 \<le> g" "g < v * 64 + 64"
    using assms(4,5) unfolding v_def by linarith+
  have l: "8 * v + 8 \<le> length bm" using v(2) assms(2,3) by linarith
  have "bitmap_word bm v = NOT 0"
  proof (rule ccontr)
    assume nz: "bitmap_word bm v \<noteq> NOT 0"
    have "v * 64 + ctzll (NOT (bitmap_word bm v)) < n"
      using word_first_zero(1)[OF l nz] v(2) assms(2) by linarith
    with nz v(1,2) assms(1) show False
      by (auto simp: scan_words_def first_from_None)
  qed
  then show ?thesis using bitmap_word_full_iff[OF l] v(3,4) by blast
qed

lemma lowest_free_Some:
  "lowest_free s = Some f \<longleftrightarrow>
     f < total_frames s \<and> \<not> bit_test (bitmap s) f \<and> (\<forall>g < f. bit_test (bitmap s) g)"
  by (simp add: lowest_free_def first_from_Some)

lemma lowest_free_None: "lowest_free s = None \<longleftrightarrow> pmm_used s = {..<total_frames s}"
  by (auto simp: lowest_free_def first_from_None in_pmm_used set_eq_iff)

text \<open>Phase 2 never finds a frame: every frame it looks at is below the hint.\<close>

lemma scan_words_below_hint:
  assumes "pmm_wf s"
  shows "scan_words (bitmap s) (total_frames s) 0 (alloc_hint s div 64) = None"
proof (rule ccontr)
  assume "scan_words (bitmap s) (total_frames s) 0 (alloc_hint s div 64) \<noteq> None"
  then obtain f where f: "scan_words (bitmap s) (total_frames s) 0 (alloc_hint s div 64) = Some f"
    by blast
  have "alloc_hint s div 64 \<le> total_frames s div 64" "(total_frames s + 7) div 8 \<le> length (bitmap s)"
    using assms by (auto simp: pmm_wf_def intro: div_le_mono)
  note r = scan_words_Some(2,3)[OF f this]
  have "f < alloc_hint s" using r(1) by linarith
  with assms r(2) show False by (simp add: pmm_wf_def)
qed

lemma pmm_alloc_frame_lowest:
  assumes wf: "pmm_wf s"
  shows "pmm_alloc_frame s = alloc_lowest s"
proof (cases "total_frames s \<le> used_frames s")
  case True
  then show ?thesis
    using pmm_wf_full_iff[OF wf] lowest_free_None[of s]
    by (simp add: pmm_alloc_frame_def alloc_lowest_def)
next
  case False
  let ?bm = "bitmap s" and ?n = "total_frames s" and ?h = "alloc_hint s"
  have hint: "\<And>f. f < ?h div 64 * 64 \<Longrightarrow> bit_test ?bm f"
    using wf by (auto simp: pmm_wf_def)
  have len: "(?n + 7) div 8 \<le> length ?bm" using wf by (simp add: pmm_wf_def)
  show ?thesis
  proof (cases "scan_words ?bm ?n (?h div 64) (?n div 64)")
    case (Some f)
    note r = scan_words_Some[OF Some le_refl len]
    have "lowest_free s = Some f"
      using r hint by (auto simp: lowest_free_Some) (metis not_le)
    with Some False show ?thesis by (simp add: pmm_alloc_frame_def alloc_lowest_def)
  next
    case None
    have "\<And>g. g < ?n div 64 * 64 \<Longrightarrow> bit_test ?bm g"
      using scan_words_None[OF None le_refl len] hint by (metis not_le)
    then have "first_from (\<lambda>i. \<not> bit_test ?bm i) (?n div 64 * 64) ?n = lowest_free s"
      unfolding lowest_free_def by (subst first_from_skip[of 0 "?n div 64 * 64"]) auto
    with None False show ?thesis
      by (simp add: pmm_alloc_frame_def alloc_lowest_def scan_words_below_hint[OF wf])
  qed
qed

lemma take_frame_abs:
  assumes wf: "pmm_wf s" and f: "lowest_free s = Some f"
  shows "fst (take_frame f s) = f * PAGE_SIZE"
    and "pmm_used (snd (take_frame f s)) = insert f (pmm_used s)"
    and "total_frames (snd (take_frame f s)) = total_frames s"
    and "pmm_wf (snd (take_frame f s))"
proof -
  from f have fr: "f < total_frames s" "\<not> bit_test (bitmap s) f" "\<forall>g < f. bit_test (bitmap s) g"
    by (simp_all add: lowest_free_Some)
  note len = pmm_wf_length[OF wf fr(1)]
  have "f * PAGE_SIZE < total_frames s * PAGE_SIZE" using fr(1) by simp
  with pmm_wf_total[OF wf] show "fst (take_frame f s) = f * PAGE_SIZE"
    by (simp add: take_frame_def mul64_id)
  show used: "pmm_used (snd (take_frame f s)) = insert f (pmm_used s)"
    using fr(1) len by (simp add: take_frame_def pmm_used_def frames_set_bit_set)
  show tot: "total_frames (snd (take_frame f s)) = total_frames s"
    by (simp add: take_frame_def)
  have "card (insert f (pmm_used s)) = Suc (used_frames s)"
    using wf fr by (simp add: pmm_wf_def in_pmm_used)
  moreover have "add64 (used_frames s) 1 = Suc (used_frames s)" "add64 f 1 = Suc f"
    using pmm_wf_used_less[OF wf fr(1,2)] pmm_wf_total'[OF wf] fr(1) by (simp_all add: wrap)
  ultimately show "pmm_wf (snd (take_frame f s))"
    using wf fr len used unfolding pmm_wf_def used
    by (auto simp: take_frame_def less_Suc_eq)
qed

section \<open>Runs of adjacent frames\<close>

definition free_run :: "u8 list \<Rightarrow> nat \<Rightarrow> nat \<Rightarrow> nat \<Rightarrow> bool" where
  "free_run bm n_frames n st \<longleftrightarrow> st + n \<le> n_frames \<and> (\<forall>f \<in> {st..<st + n}. \<not> bit_test bm f)"

text \<open>
  The scan with its counter finds the lowest start of a run of \<open>n\<close> free frames: the
  candidates from \<open>i - count\<close> on are those not yet ruled out.
\<close>

lemma contig_scan_first:
  assumes "0 < n" "n_frames < two64" "count \<le> i" "count < n" "0 < count \<longrightarrow> start = i - count"
    "i \<le> n_frames" "\<forall>f \<in> {i - count..<i}. \<not> bit_test bm f"
  shows "contig_scan bm n_frames n i count start =
    first_from (free_run bm n_frames n) (i - count) n_frames"
  using assms
proof (induction bm n_frames n i count start rule: contig_scan.induct)
  case (1 bm n_frames n i count start)
  show ?case
  proof (cases "i < n_frames")
    case False
    with "1.prems" have "first_from (free_run bm n_frames n) (i - count) n_frames = None"
      by (auto simp: first_from_None free_run_def)
    with False show ?thesis by (subst contig_scan.simps) simp
  next
    case i: True
    show ?thesis
    proof (cases "bit_test bm i")
      case True
      have "contig_scan bm n_frames n (Suc i) 0 start =
          first_from (free_run bm n_frames n) (Suc i) n_frames"
        using "1.IH"(2)[OF i] True "1.prems" i by simp
      also have "\<dots> = first_from (free_run bm n_frames n) (i - count) n_frames"
        using True "1.prems" by (intro first_from_skip[symmetric]) (force simp: free_run_def)+
      finally show ?thesis using i True by (subst contig_scan.simps) simp
    next
      case False
      have c: "add64 count 1 = Suc count" using "1.prems" i by (simp add: wrap)
      have s: "(if count = 0 then i else start) = i - count" using "1.prems" by auto
      have run: "\<forall>f \<in> {i - count..<Suc i}. \<not> bit_test bm f"
        using "1.prems"(7) False by (auto simp: less_Suc_eq)
      show ?thesis
      proof (cases "Suc count = n")
        case True
        then have "i - count + n = Suc i" using "1.prems"(3) by simp
        with run i have "free_run bm n_frames n (i - count)" by (simp add: free_run_def)
        then have "first_from (free_run bm n_frames n) (i - count) n_frames = Some (i - count)"
          using i by (auto simp: first_from_Some)
        with i False True c s show ?thesis by (subst contig_scan.simps) simp
      next
        case n: False
        have "contig_scan bm n_frames n (Suc i) (Suc count) (i - count) =
            first_from (free_run bm n_frames n) (Suc i - Suc count) n_frames"
          using "1.IH"(1)[OF i False refl refl] c s n run "1.prems" i by simp
        with i False n c s show ?thesis by (subst contig_scan.simps) simp
      qed
    qed
  qed
qed

lemma length_fold_bit_set [simp]: "length (fold (\<lambda>j bm. bit_set bm j) js bm) = length bm"
  by (induction js arbitrary: bm) auto

lemma bit_test_fold_bit_set:
  "\<forall>j \<in> set js. j div 8 < length bm \<Longrightarrow>
     bit_test (fold (\<lambda>j bm. bit_set bm j) js bm) g \<longleftrightarrow> g \<in> set js \<or> bit_test bm g"
  by (induction js arbitrary: bm) auto

definition lowest_run :: "nat \<Rightarrow> 'a pmm_state_scheme \<Rightarrow> nat option" where
  "lowest_run n s = first_from (free_run (bitmap s) (total_frames s) n) 0 (total_frames s)"

lemma free_run_used:
  "free_run (bitmap s) (total_frames s) n st \<longleftrightarrow>
     st + n \<le> total_frames s \<and> {st..<st + n} \<inter> pmm_used s = {}"
  by (auto simp: free_run_def in_pmm_used)

lemma lowest_run_None:
  assumes "0 < n"
  shows "lowest_run n s = None \<longleftrightarrow>
     (\<forall>st. st + n \<le> total_frames s \<longrightarrow> {st..<st + n} \<inter> pmm_used s \<noteq> {})"
  unfolding lowest_run_def first_from_None free_run_used using assms by fastforce

lemma lowest_run_SomeD:
  assumes "lowest_run n s = Some st"
  shows "st + n \<le> total_frames s" "{st..<st + n} \<inter> pmm_used s = {}"
    "st' < st \<Longrightarrow> st' + n \<le> total_frames s \<Longrightarrow> {st'..<st' + n} \<inter> pmm_used s \<noteq> {}"
  using assms unfolding lowest_run_def first_from_Some free_run_used by auto

lemma pmm_alloc_contiguous_lowest:
  assumes wf: "pmm_wf s" and n: "0 < n"
  shows "pmm_alloc_contiguous n s =
    (case lowest_run n s of None \<Rightarrow> (0, s)
     | Some st \<Rightarrow> (mul64 st PAGE_SIZE,
         s\<lparr>bitmap := fold (\<lambda>j bm. bit_set bm j) [st..<add64 st n] (bitmap s),
           used_frames := add64 (used_frames s) n\<rparr>))"
  using contig_scan_first[of n "total_frames s" 0 0 0 "bitmap s"] n pmm_wf_total'[OF wf]
  by (simp add: pmm_alloc_contiguous_def lowest_run_def)

lemma pmm_alloc_contiguous_abs:
  assumes wf: "pmm_wf s" and n: "0 < n" and st: "lowest_run n s = Some st"
    and r: "pmm_alloc_contiguous n s = (p, s')"
  shows "p = st * PAGE_SIZE" "pmm_used s' = pmm_used s \<union> {st..<st + n}"
    "total_frames s' = total_frames s" "pmm_wf s'"
proof -
  note run = lowest_run_SomeD(1,2)[OF st]
  note N = pmm_wf_total'[OF wf]
  have add: "add64 st n = st + n" using run(1) N by (simp add: wrap)
  have s': "s' = s\<lparr>bitmap := fold (\<lambda>j bm. bit_set bm j) [st..<st + n] (bitmap s),
      used_frames := add64 (used_frames s) n\<rparr>" and p: "p = mul64 st PAGE_SIZE"
    using r add by (simp_all add: pmm_alloc_contiguous_lowest[OF wf n] st)
  have "st * PAGE_SIZE \<le> total_frames s * PAGE_SIZE" using run(1) by simp
  with pmm_wf_total[OF wf] p show "p = st * PAGE_SIZE" by (simp add: mul64_id)
  show tot: "total_frames s' = total_frames s" by (simp add: s')
  have len: "\<forall>j \<in> set [st..<st + n]. j div 8 < length (bitmap s)"
    using pmm_wf_length[OF wf] run(1) by auto
  have test: "\<And>g. bit_test (bitmap s') g \<longleftrightarrow> g \<in> {st..<st + n} \<or> bit_test (bitmap s) g"
    using bit_test_fold_bit_set[OF len] by (simp add: s')
  show used: "pmm_used s' = pmm_used s \<union> {st..<st + n}"
    using run(1) by (auto simp: set_eq_iff in_pmm_used test tot)
  have card: "card (pmm_used s') = used_frames s + n"
    using wf run(2) unfolding used
    by (subst card_Un_disjoint) (auto simp: pmm_wf_def)
  have "card (pmm_used s') \<le> card {..<total_frames s}"
    using pmm_used_bounded[of s'] tot by (intro card_mono) auto
  then have "add64 (used_frames s) n = card (pmm_used s')"
    using card N by (simp add: wrap)
  then show "pmm_wf s'"
    using wf unfolding pmm_wf_def tot by (simp add: test) (simp add: s')
qed

section \<open>The contract\<close>

lemma pmm_alloc_frame_full:
  "pmm_wf s \<Longrightarrow> pmm_used s = {..<total_frames s} \<Longrightarrow> pmm_alloc_frame s = (0, s)"
  by (simp add: pmm_alloc_frame_lowest alloc_lowest_def flip: lowest_free_None)

lemma pmm_alloc_frame_free:
  assumes wf: "pmm_wf s" and free: "pmm_used s \<noteq> {..<total_frames s}"
    and r: "pmm_alloc_frame s = (p, s')"
  obtains f where "lowest_free s = Some f" "p = f * PAGE_SIZE"
    "pmm_used s' = insert f (pmm_used s)" "total_frames s' = total_frames s" "pmm_wf s'"
proof -
  from free obtain f where f: "lowest_free s = Some f"
    using lowest_free_None[of s] by (cases "lowest_free s") auto
  with r have "take_frame f s = (p, s')"
    by (simp add: pmm_alloc_frame_lowest[OF wf] alloc_lowest_def)
  with take_frame_abs[OF wf f] f that show thesis by simp
qed

lemma pmm_alloc_contiguous_none:
  assumes "pmm_wf s"
    and "n = 0 \<or> (\<forall>st. st + n \<le> total_frames s \<longrightarrow> {st..<st + n} \<inter> pmm_used s \<noteq> {})"
  shows "pmm_alloc_contiguous n s = (0, s)"
proof (cases "n = 0")
  case False
  then have "lowest_run n s = None" using assms(2) lowest_run_None[of n s] by simp
  with False show ?thesis by (simp add: pmm_alloc_contiguous_lowest[OF assms(1)])
qed (simp add: pmm_alloc_contiguous_def)

lemma pmm_alloc_contiguous_some:
  assumes "pmm_wf s" "0 < n" "\<exists>st. st + n \<le> total_frames s \<and> {st..<st + n} \<inter> pmm_used s = {}"
    "pmm_alloc_contiguous n s = (p, s')"
  obtains st where "lowest_run n s = Some st" "p = st * PAGE_SIZE"
    "pmm_used s' = pmm_used s \<union> {st..<st + n}" "total_frames s' = total_frames s" "pmm_wf s'"
proof -
  from assms(2,3) obtain st where st: "lowest_run n s = Some st"
    using lowest_run_None[of n s] by (cases "lowest_run n s") auto
  show thesis
    using that[OF st] pmm_alloc_contiguous_abs[OF assms(1,2) st assms(4)] by blast
qed

interpretation frames: run_provider pmm_wf total_frames pmm_used pmm_alloc_frame pmm_free_frame
  pmm_alloc_contiguous
proof (unfold_locales, goal_cases)
  case (1 s)
  show ?case by (rule pmm_used_bounded)
next
  case (2 s)
  then show ?case by (rule pmm_wf_total)
next
  case (3 s)
  then show ?case by (rule pmm_alloc_frame_full)
next
  case (4 s p s')
  then obtain f where f: "lowest_free s = Some f" "p = f * PAGE_SIZE"
    "pmm_used s' = insert f (pmm_used s)" "total_frames s' = total_frames s" "pmm_wf s'"
    by (rule pmm_alloc_frame_free)
  from f(1) have "f < total_frames s" "f \<notin> pmm_used s"
    by (simp_all add: lowest_free_Some in_pmm_used)
  with f(2-5) show ?case by blast
next
  case (5 s p)
  then show ?case
    by (simp add: pmm_free_frame_def pmm_mark_free_abs)
next
  case (6 s n)
  then show ?case by (rule pmm_alloc_contiguous_none)
next
  case (7 s n p s')
  from 7 obtain st where st: "lowest_run n s = Some st" "p = st * PAGE_SIZE"
    "pmm_used s' = pmm_used s \<union> {st..<st + n}" "total_frames s' = total_frames s" "pmm_wf s'"
    by (rule pmm_alloc_contiguous_some)
  then show ?case using lowest_run_SomeD(1,2)[OF st(1)] by blast
qed

section \<open>Runs of the manager\<close>

text \<open>Any sequence of calls of the interface of pmm.h after \<open>pmm_init\<close>.\<close>

datatype pmm_call = MarkUsed addr | MarkFree addr | AllocFrame | FreeFrame addr | AllocContiguous size_t

fun pmm_step :: "pmm_call \<Rightarrow> 'a pmm_state_scheme \<Rightarrow> 'a pmm_state_scheme" where
  "pmm_step (MarkUsed p) s = pmm_mark_used p s"
| "pmm_step (MarkFree p) s = pmm_mark_free p s"
| "pmm_step AllocFrame s = snd (pmm_alloc_frame s)"
| "pmm_step (FreeFrame p) s = pmm_free_frame p s"
| "pmm_step (AllocContiguous n) s = snd (pmm_alloc_contiguous n s)"

lemma pmm_step_wf:
  assumes "pmm_wf s"
  shows "pmm_wf (pmm_step c s)" "total_frames (pmm_step c s) = total_frames s"
proof -
  have "pmm_wf (pmm_step c s) \<and> total_frames (pmm_step c s) = total_frames s"
  proof (cases c)
    case AllocFrame
    then show ?thesis
      using frames.alloc_invar[OF assms surjective_pairing] by simp
  next
    case (AllocContiguous n)
    then show ?thesis
      using frames.run_invar(1,2)[OF assms surjective_pairing] by simp
  qed (use assms in \<open>simp_all add: pmm_mark_used_abs pmm_mark_free_abs pmm_free_frame_def\<close>)
  then show "pmm_wf (pmm_step c s)" "total_frames (pmm_step c s) = total_frames s" by auto
qed

definition pmm_run :: "pmm_call list \<Rightarrow> 'a pmm_state_scheme \<Rightarrow> 'a pmm_state_scheme" where
  "pmm_run cs s = fold pmm_step cs s"

lemma pmm_run_wf:
  "pmm_wf s \<Longrightarrow> pmm_wf (pmm_run cs s) \<and> total_frames (pmm_run cs s) = total_frames s"
  by (induction cs arbitrary: s) (auto simp: pmm_run_def pmm_step_wf)

lemma pmm_memory_counts:
  assumes "pmm_wf s"
  shows "pmm_get_used_memory s = card (pmm_used s) * PAGE_SIZE"
    "pmm_get_free_memory s = (total_frames s - card (pmm_used s)) * PAGE_SIZE"
    "pmm_get_total_memory s = total_frames s * PAGE_SIZE"
proof -
  have "used_frames s = card (pmm_used s)" using assms by (simp add: pmm_wf_def)
  then show "pmm_get_used_memory s = card (pmm_used s) * PAGE_SIZE"
    "pmm_get_free_memory s = (total_frames s - card (pmm_used s)) * PAGE_SIZE"
    "pmm_get_total_memory s = total_frames s * PAGE_SIZE"
    using pmm_wf_used_le[OF assms] pmm_wf_total'[OF assms]
    by (simp_all add: pmm_get_used_memory_def pmm_get_free_memory_def pmm_get_total_memory_def wrap)
qed

section \<open>Properties\<close>

text \<open>
  C7: The three-phase word scan of \<open>pmm_alloc_frame\<close> with its hint is equivalent to testing
  the frames one by one from frame 0: same address, same new state, and 0 with nothing
  changed when every frame is in use.
\<close>

theorem pmm_alloc_frame_equiv_linear_scan:
  assumes "pmm_wf s"
  shows "pmm_alloc_frame s =
    (case first_from (\<lambda>f. f \<notin> pmm_used s) 0 (total_frames s) of
       None \<Rightarrow> (0, s)
     | Some f \<Rightarrow> (f * PAGE_SIZE, s\<lparr>bitmap := bit_set (bitmap s) f,
                    used_frames := used_frames s + 1, alloc_hint := f + 1\<rparr>))"
proof -
  have eq: "first_from (\<lambda>f. f \<notin> pmm_used s) 0 (total_frames s) = lowest_free s"
    unfolding lowest_free_def by (intro first_from_cong) (simp add: in_pmm_used)
  show ?thesis
  proof (cases "lowest_free s")
    case (Some f)
    then have "f < total_frames s" "\<not> bit_test (bitmap s) f" by (simp_all add: lowest_free_Some)
    then have "take_frame f s = (f * PAGE_SIZE, s\<lparr>bitmap := bit_set (bitmap s) f,
        used_frames := used_frames s + 1, alloc_hint := f + 1\<rparr>)"
      using pmm_wf_used_less[OF assms, of f] pmm_wf_total'[OF assms]
      by (simp add: take_frame_def wrap)
    with Some eq show ?thesis
      by (simp add: pmm_alloc_frame_lowest[OF assms] alloc_lowest_def)
  qed (simp add: eq pmm_alloc_frame_lowest[OF assms] alloc_lowest_def)
qed


text \<open>An example: 100 frames, of which 0, 2 and 3 are in use.\<close>

definition pmm_example :: pmm_state where
  "pmm_example = pmm_run [MarkUsed 0, MarkUsed 12288, MarkUsed 8192] (pmm_init 409600 0 pmm_static)"

lemma pmm_example_abs:
  shows "pmm_wf pmm_example" "total_frames pmm_example = 100" "pmm_used pmm_example = {0, 2, 3}"
proof -
  have "total_frames (pmm_init 409600 0 pmm_static) = 100" by (simp add: pmm_init_def)
  moreover have "pmm_wf (pmm_init 409600 0 pmm_static)" by (rule pmm_init_wf) simp
  ultimately show "pmm_wf pmm_example" "total_frames pmm_example = 100" "pmm_used pmm_example = {0, 2, 3}"
    by (auto simp: pmm_example_def pmm_run_def pmm_mark_used_abs pmm_init_used)
qed

theorem pmm_alloc_frame_equiv_linear_scan_witness:
  "pmm_wf pmm_example \<and> fst (pmm_alloc_frame pmm_example) = 4096"
  using pmm_alloc_frame_equiv_linear_scan[OF pmm_example_abs(1)]
  by (simp add: pmm_example_abs first_from.simps)

text \<open>
  C9: What an allocation of a run promises: the address of the lowest run of that many
  adjacent free frames, exactly those frames newly in use, and the counters still right;
  and, when there is no such run or none was asked for, 0 and the state unchanged.
\<close>

theorem pmm_alloc_contiguous_first_fit:
  assumes "pmm_wf s" and "pmm_alloc_contiguous n s = (p, s')"
  shows "pmm_wf s' \<and>
    ((n = 0 \<or> (\<forall>st. st + n \<le> total_frames s \<longrightarrow> {st..<st + n} \<inter> pmm_used s \<noteq> {})) \<and>
           p = 0 \<and> s' = s
         \<or> (\<exists>st. 0 < n \<and> p = st * PAGE_SIZE \<and> st + n \<le> total_frames s \<and>
              {st..<st + n} \<inter> pmm_used s = {} \<and> pmm_used s' = pmm_used s \<union> {st..<st + n} \<and>
              (\<forall>st' < st. {st'..<st' + n} \<inter> pmm_used s \<noteq> {})))"
proof (rule conjI)
  show "pmm_wf s'" using assms by (rule frames.run_invar)
  show "(n = 0 \<or> (\<forall>st. st + n \<le> total_frames s \<longrightarrow> {st..<st + n} \<inter> pmm_used s \<noteq> {})) \<and>
           p = 0 \<and> s' = s
         \<or> (\<exists>st. 0 < n \<and> p = st * PAGE_SIZE \<and> st + n \<le> total_frames s \<and>
              {st..<st + n} \<inter> pmm_used s = {} \<and> pmm_used s' = pmm_used s \<union> {st..<st + n} \<and>
              (\<forall>st' < st. {st'..<st' + n} \<inter> pmm_used s \<noteq> {}))" (is "?none \<or> ?some")
  proof (cases "n = 0 \<or> (\<forall>st. st + n \<le> total_frames s \<longrightarrow> {st..<st + n} \<inter> pmm_used s \<noteq> {})")
    case True
    with pmm_alloc_contiguous_none[OF assms(1) True] assms(2) have ?none by simp
    then show ?thesis ..
  next
    case False
    then have n: "0 < n" and "\<exists>st. st + n \<le> total_frames s \<and> {st..<st + n} \<inter> pmm_used s = {}"
      by auto
    with assms obtain st where st: "lowest_run n s = Some st" "p = st * PAGE_SIZE"
      "pmm_used s' = pmm_used s \<union> {st..<st + n}"
      by (metis pmm_alloc_contiguous_some)
    note run = lowest_run_SomeD[OF st(1)]
    have "\<forall>st' < st. {st'..<st' + n} \<inter> pmm_used s \<noteq> {}" using run(1,3) by simp
    with n st run(1,2) have ?some by blast
    then show ?thesis ..
  qed
qed

theorem pmm_alloc_contiguous_first_fit_witness:
  "pmm_wf pmm_example \<and> fst (pmm_alloc_contiguous 2 pmm_example) = 16384"
proof -
  obtain p s' where r: "pmm_alloc_contiguous 2 pmm_example = (p, s')" by fastforce
  from pmm_alloc_contiguous_first_fit[OF pmm_example_abs(1) r, THEN conjunct2] obtain st where
    st: "p = st * PAGE_SIZE" "{st..<st + 2} \<inter> {0, 2, 3} = {}"
      "\<forall>st' < st. {st'..<st' + 2} \<inter> {0, 2, 3} \<noteq> {}"
    unfolding pmm_example_abs by (auto dest: spec[of _ 4])
  have "\<not> 4 < st" using st(3) by (auto dest: spec[of _ 4])
  moreover have "\<not> st \<le> 3" using st(2) by (auto simp: le_Suc_eq numeral_3_eq_3)
  ultimately have "st = 4" by simp
  with st(1) r pmm_example_abs(1) show ?thesis by simp
qed

text \<open>
  In every state the interface can reach from \<open>pmm_init\<close>, the reported used and free
  memory add up to the reported total, which is the memory given to \<open>pmm_init\<close> rounded down to
  whole frames, and the used memory is that of the frames marked in the bitmap: no sequence
  of calls makes the counter and the bitmap disagree or the counter wrap around.
\<close>

theorem pmm_memory_accounting:
  assumes "mem_size < two64" and s: "s = pmm_run calls (pmm_init mem_size base s0)"
  shows "pmm_get_used_memory s + pmm_get_free_memory s = pmm_get_total_memory s \<and>
    pmm_get_total_memory s = mem_size div PAGE_SIZE * PAGE_SIZE \<and>
    pmm_get_used_memory s = card (pmm_used s) * PAGE_SIZE"
proof -
  have wf: "pmm_wf s" and tot: "total_frames s = mem_size div PAGE_SIZE"
    using pmm_run_wf[OF pmm_init_wf[OF assms(1)], of calls base s0]
    by (simp_all add: s pmm_init_def Let_def)
  have le: "card (pmm_used s) \<le> total_frames s"
    using pmm_wf_used_le[OF wf] wf by (simp add: pmm_wf_def)
  note m = pmm_memory_counts[OF wf]
  have "pmm_get_used_memory s + pmm_get_free_memory s = pmm_get_total_memory s"
    unfolding m using le by (simp flip: add_mult_distrib)
  then show ?thesis
    unfolding m tot by simp
qed

theorem pmm_memory_accounting_witness:
  "pmm_get_used_memory pmm_example + pmm_get_free_memory pmm_example = 409600"
proof -
  have "(409600 :: nat) < two64" by simp
  from pmm_memory_accounting[OF this pmm_example_def] show ?thesis by simp
qed

text \<open>The calls that can take a frame out of use.\<close>

fun frees :: "pmm_call \<Rightarrow> addr \<Rightarrow> bool" where
  "frees (MarkFree q) p \<longleftrightarrow> q div PAGE_SIZE = p div PAGE_SIZE"
| "frees (FreeFrame q) p \<longleftrightarrow> q div PAGE_SIZE = p div PAGE_SIZE"
| "frees _ p \<longleftrightarrow> False"

lemma pmm_step_keeps_used:
  assumes "pmm_wf s" "p div PAGE_SIZE \<in> pmm_used s" "\<not> frees c p"
  shows "p div PAGE_SIZE \<in> pmm_used (pmm_step c s)"
proof (cases c)
  case AllocFrame
  then show ?thesis
    using frames.alloc_used_mono[OF assms(1) surjective_pairing] assms(2) by auto
next
  case (AllocContiguous n)
  then show ?thesis
    using frames.run_invar(3)[OF assms(1) surjective_pairing] assms(2) by auto
qed (use assms in \<open>auto simp: pmm_mark_used_abs pmm_mark_free_abs pmm_free_frame_def\<close>)

lemma pmm_run_keeps_used:
  "pmm_wf s \<Longrightarrow> p div PAGE_SIZE \<in> pmm_used s \<Longrightarrow> \<forall>c \<in> set cs. \<not> frees c p \<Longrightarrow>
    p div PAGE_SIZE \<in> pmm_used (pmm_run cs s)"
proof (induction cs arbitrary: s)
  case (Cons c cs)
  then have "p div PAGE_SIZE \<in> pmm_used (pmm_run cs (pmm_step c s))"
    by (intro Cons.IH) (simp_all add: pmm_step_wf pmm_step_keeps_used)
  then show ?case by (simp add: pmm_run_def)
qed (simp add: pmm_run_def)

text \<open>
  C8: A frame that \<open>pmm_alloc_frame\<close> has handed out is not handed out a second time, whatever
  is called in between, until a call gives that very frame back.
\<close>

theorem pmm_no_double_allocation:
  assumes "pmm_wf s" and "pmm_alloc_frame s = (p, s1)" and "p \<noteq> 0"
    and "\<forall>c \<in> set calls. \<not> frees c p"
    and "pmm_alloc_frame (pmm_run calls s1) = (q, s2)" and "q \<noteq> 0"
  shows "p \<noteq> q"
proof -
  obtain f where f: "p = f * PAGE_SIZE" "pmm_used s1 = insert f (pmm_used s)" "pmm_wf s1"
    using assms(1-3) by (rule frames.alloc_nonzero)
  then have "p div PAGE_SIZE \<in> pmm_used (pmm_run calls s1)"
    using assms(4) by (intro pmm_run_keeps_used) simp_all
  then show ?thesis
    using frames.alloc_fresh[OF assms(1-3) _ order_refl _ assms(5,6)] pmm_run_wf[OF f(3)] by blast
qed

theorem pmm_no_double_allocation_witness:
  "fst (pmm_alloc_frame pmm_example) \<noteq>
   fst (pmm_alloc_frame (pmm_run [MarkFree 12288] (snd (pmm_alloc_frame pmm_example))))"
proof -
  obtain p s1 where s1: "pmm_alloc_frame pmm_example = (p, s1)" by fastforce
  have p: "p = 4096"
    using pmm_alloc_frame_equiv_linear_scan[OF pmm_example_abs(1)] s1
    by (simp add: pmm_example_abs first_from.simps)
  then have p0: "p \<noteq> 0" by simp
  let ?s = "pmm_run [MarkFree 12288] s1"
  obtain q s2 where s2: "pmm_alloc_frame ?s = (q, s2)" by fastforce
  obtain f where f: "p = f * PAGE_SIZE" "pmm_used s1 = insert f (pmm_used pmm_example)" "pmm_wf s1"
    "total_frames s1 = total_frames pmm_example"
    using pmm_example_abs(1) s1 p0 by (rule frames.alloc_nonzero)
  have u: "pmm_wf ?s" "pmm_used ?s = insert f {0, 2}" "total_frames ?s = 100"
    using f p by (auto simp: pmm_run_def pmm_mark_free_abs pmm_example_abs)
  have "50 \<in> {..<total_frames ?s}" "50 \<notin> pmm_used ?s" using u f(1) p by auto
  then have "pmm_used ?s \<noteq> {..<total_frames ?s}" by blast
  moreover have "0 \<in> pmm_used ?s" by (simp only: u) simp
  ultimately have q: "q \<noteq> 0"
    using frames.alloc_zero_iff[OF u(1) _ s2] by (metis (lifting))
  have "p \<noteq> q"
    using p q by (intro pmm_no_double_allocation[OF pmm_example_abs(1) s1 _ _ s2]) simp_all
  then show ?thesis by (simp add: s1 s2)
qed

text \<open>
  A run that starts at frame 0 is handed out with the address 0, the value that also means
  failure: the frames are in use, and a caller that checks for 0 never uses them. The kernel
  avoids this by reserving frame 0 at boot.
\<close>

theorem pmm_run_at_frame_0_is_lost:
  "\<exists>s :: pmm_state. pmm_wf s \<and> fst (pmm_alloc_contiguous 2 s) = 0 \<and>
     pmm_used s = {} \<and> pmm_used (snd (pmm_alloc_contiguous 2 s)) = {0, 1}"
proof -
  let ?s = "pmm_init 409600 0 pmm_static"
  have s: "pmm_wf ?s" "pmm_used ?s = {}" "total_frames ?s = 100"
    by (rule pmm_init_wf, simp) (simp add: pmm_init_used, simp add: pmm_init_def)
  have l: "lowest_run 2 ?s = Some 0"
    using free_run_used[of ?s 2 0] s by (simp add: lowest_run_def first_from_Some)
  obtain p s' where r: "pmm_alloc_contiguous 2 ?s = (p, s')" by fastforce
  note a = pmm_alloc_contiguous_abs[OF s(1) _ l r]
  have "p = 0" "pmm_used s' = {0, 1}" using a(1,2) s(2) by auto
  with s r show ?thesis by (intro exI[of _ ?s]) simp
qed

end
