(* ===== verification/Slab.thy ===== *)
theory Slab
  imports Pmm
begin

text \<open>
  The slab zone allocator, kernel/core/slab.c: eight zones of fixed chunk sizes, each with an
  intrusive free list, refilled one 4096-byte frame at a time from the physical memory
  manager. The link of a free chunk is the word at its address; it is kept in
  \<open>chunk_next\<close>, and what it holds at the address of a chunk that is in use belongs to the
  client. The invariant accounts for every chunk of every page a zone has taken: it is
  either on the free list of its zone or in use, and never both.
\<close>

section \<open>State and operations\<close>

record slab_zone =
  free_list :: addr
  chunk_size :: size_t
  alloc_count :: size_t

record slab_state = pmm_state +
  zones :: "slab_zone list"
  slab_phys_offset :: addr
  chunk_next :: "addr \<Rightarrow> addr"

text \<open>The zero-initialised static variables.\<close>

definition slab_static :: slab_state where
  "slab_static = \<lparr>bitmap_base = NULL, bitmap = [], total_frames = 0, used_frames = 0, alloc_hint = 0,
     zones = replicate 8 \<lparr>free_list = NULL, chunk_size = 0, alloc_count = 0\<rparr>,
     slab_phys_offset = 0, chunk_next = (\<lambda>_. NULL)\<rparr>"

abbreviation SLAB_NUM_ZONES :: nat where
  "SLAB_NUM_ZONES \<equiv> 8"

abbreviation SLAB_PAGE_SIZE :: size_t where
  "SLAB_PAGE_SIZE \<equiv> 4096"

definition zone_chunk_size :: "size_t list" where
  "zone_chunk_size = [16, 32, 64, 128, 256, 512, 1024, 2048]"

definition slab_phys_to_virt :: "addr \<Rightarrow> 'a slab_state_scheme \<Rightarrow> addr" where
  "slab_phys_to_virt pa s = add64 pa (slab_phys_offset s)"

text \<open>One turn of the loop of \<open>zone_refill\<close>: chunk \<open>i\<close> goes to the head of the list.\<close>

definition carve_chunk :: "nat \<Rightarrow> addr \<Rightarrow> nat \<Rightarrow> 'a slab_state_scheme \<Rightarrow> 'a slab_state_scheme" where
  "carve_chunk idx base i s =
     (let z = zones s ! idx; c = add64 base (mul64 i (chunk_size z))
      in s\<lparr>chunk_next := (chunk_next s)(c := free_list z),
           zones := (zones s)[idx := z\<lparr>free_list := c\<rparr>]\<rparr>)"

definition zone_refill :: "nat \<Rightarrow> 'a slab_state_scheme \<Rightarrow> 'a slab_state_scheme" where
  "zone_refill idx s =
     (case pmm_alloc_frame s of (pa, s1) \<Rightarrow>
        if pa = 0 then s1
        else let base = slab_phys_to_virt pa s1;
                 chunks_per_page = SLAB_PAGE_SIZE div chunk_size (zones s1 ! idx);
                 s2 = fold (carve_chunk idx base) [0..<chunks_per_page] s1;
                 z = zones s2 ! idx
             in s2\<lparr>zones := (zones s2)[idx := z\<lparr>alloc_count := add64 (alloc_count z) 1\<rparr>]\<rparr>)"

definition slab_init :: "'a slab_state_scheme \<Rightarrow> 'a slab_state_scheme" where
  "slab_init s = s\<lparr>zones := map (\<lambda>i. \<lparr>free_list = NULL, chunk_size = zone_chunk_size ! i,
     alloc_count = 0\<rparr>) [0..<SLAB_NUM_ZONES]\<rparr>"

definition slab_set_phys_offset :: "addr \<Rightarrow> 'a slab_state_scheme \<Rightarrow> 'a slab_state_scheme" where
  "slab_set_phys_offset offset s = s\<lparr>slab_phys_offset := offset\<rparr>"

text \<open>None stands for the result -1.\<close>

definition size_to_zone_index :: "size_t \<Rightarrow> nat option" where
  "size_to_zone_index sz = first_from (\<lambda>i. sz \<le> zone_chunk_size ! i) 0 SLAB_NUM_ZONES"

definition zalloc :: "size_t \<Rightarrow> 'a slab_state_scheme \<Rightarrow> addr \<times> 'a slab_state_scheme" where
  "zalloc sz s =
     (if sz = 0 then (NULL, s)
      else case size_to_zone_index sz of
          None \<Rightarrow> (NULL, s)
        | Some idx \<Rightarrow>
            let s1 = (if free_list (zones s ! idx) = NULL then zone_refill idx s else s);
                z = zones s1 ! idx
            in if free_list z = NULL then (NULL, s1)
               else (free_list z,
                     s1\<lparr>zones := (zones s1)[idx := z\<lparr>free_list := chunk_next s1 (free_list z)\<rparr>]\<rparr>))"

definition zfree :: "addr \<Rightarrow> size_t \<Rightarrow> 'a slab_state_scheme \<Rightarrow> 'a slab_state_scheme" where
  "zfree ptr sz s =
     (if ptr = NULL \<or> sz = 0 then s
      else case size_to_zone_index sz of
          None \<Rightarrow> s
        | Some idx \<Rightarrow>
            let z = zones s ! idx
            in s\<lparr>chunk_next := (chunk_next s)(ptr := free_list z),
                 zones := (zones s)[idx := z\<lparr>free_list := ptr\<rparr>]\<rparr>)"

section \<open>Zones and chunks\<close>

lemma zone_cases:
  "(i :: nat) < SLAB_NUM_ZONES \<Longrightarrow> i = 0 \<or> i = 1 \<or> i = 2 \<or> i = 3 \<or> i = 4 \<or> i = 5 \<or> i = 6 \<or> i = 7"
  by arith

lemma zone_chunk_size_pow: "i < SLAB_NUM_ZONES \<Longrightarrow> zone_chunk_size ! i = 2 ^ (i + 4)"
  by (drule zone_cases) (elim disjE; simp add: zone_chunk_size_def)

lemma zone_chunk_size_dvd:
  assumes "i < SLAB_NUM_ZONES"
  shows "SLAB_PAGE_SIZE div zone_chunk_size ! i * zone_chunk_size ! i = SLAB_PAGE_SIZE"
    "0 < zone_chunk_size ! i" "0 < SLAB_PAGE_SIZE div zone_chunk_size ! i"
    "zone_chunk_size ! i \<le> 2048"
  using zone_cases[OF assms] by (elim disjE; simp add: zone_chunk_size_def)+

lemma size_to_zone_index_Some:
  "size_to_zone_index sz = Some i \<longleftrightarrow>
     i < SLAB_NUM_ZONES \<and> sz \<le> zone_chunk_size ! i \<and> (\<forall>j < i. zone_chunk_size ! j < sz)"
  by (auto simp: size_to_zone_index_def first_from_Some not_le)

lemma size_to_zone_index_None: "size_to_zone_index sz = None \<longleftrightarrow> 2048 < sz"
proof
  assume "size_to_zone_index sz = None"
  then have "\<not> sz \<le> zone_chunk_size ! 7" by (simp add: size_to_zone_index_def first_from_None)
  then show "2048 < sz" by (simp add: zone_chunk_size_def)
next
  assume "2048 < sz"
  with zone_chunk_size_dvd(4) show "size_to_zone_index sz = None"
    by (fastforce simp: size_to_zone_index_def first_from_None)
qed

text \<open>The addresses of the chunks of the frames \<open>fs\<close>.\<close>

definition chunks :: "addr \<Rightarrow> size_t \<Rightarrow> nat set \<Rightarrow> addr set" where
  "chunks off cs fs = {off + f * PAGE_SIZE + k * cs | f k. f \<in> fs \<and> k < SLAB_PAGE_SIZE div cs}"

lemma chunks_insert:
  "chunks off cs (insert f fs) =
    (\<lambda>k. off + f * PAGE_SIZE + k * cs) ` {..<SLAB_PAGE_SIZE div cs} \<union> chunks off cs fs"
  by (auto simp: chunks_def)

lemma chunks_empty [simp]: "chunks off cs {} = {}"
  by (simp add: chunks_def)

lemma chunk_in_page:
  assumes "c \<in> chunks off (zone_chunk_size ! i) fs" "i < SLAB_NUM_ZONES"
  obtains f k where "f \<in> fs" "c = off + f * PAGE_SIZE + k * zone_chunk_size ! i"
    "k * zone_chunk_size ! i + zone_chunk_size ! i \<le> SLAB_PAGE_SIZE"
proof -
  let ?cs = "zone_chunk_size ! i"
  from assms(1) obtain f k where fk: "f \<in> fs" "c = off + f * PAGE_SIZE + k * ?cs"
    "k < SLAB_PAGE_SIZE div ?cs" by (auto simp: chunks_def)
  then have "Suc k * ?cs \<le> SLAB_PAGE_SIZE div ?cs * ?cs" by (intro mult_le_mono1) simp
  with zone_chunk_size_dvd(1)[OF assms(2)] fk show thesis by (intro that) (simp_all add: add.commute)
qed

text \<open>A chunk lies within one frame, the one its address is in.\<close>

lemma chunk_frame:
  assumes "c \<in> chunks off (zone_chunk_size ! i) fs" "i < SLAB_NUM_ZONES"
    "c \<le> a" "a < c + zone_chunk_size ! i"
  shows "off \<le> c" "(a - off) div PAGE_SIZE \<in> fs"
proof -
  obtain f k where f: "f \<in> fs" "c = off + f * PAGE_SIZE + k * zone_chunk_size ! i"
    "k * zone_chunk_size ! i + zone_chunk_size ! i \<le> SLAB_PAGE_SIZE"
    using assms(1,2) by (rule chunk_in_page)
  then show "off \<le> c" by simp
  obtain d where d: "a = c + d" "d < zone_chunk_size ! i"
    using assms(3,4) by (metis add_less_cancel_left le_iff_add)
  have "a - off = k * zone_chunk_size ! i + d + f * PAGE_SIZE" using d(1) f(2) by simp
  moreover have "k * zone_chunk_size ! i + d < PAGE_SIZE" using d(2) f(3) by simp
  ultimately have "(a - off) div PAGE_SIZE = f" by simp
  with f(1) show "(a - off) div PAGE_SIZE \<in> fs" by simp
qed

lemma chunks_disjoint_frames:
  assumes "i < SLAB_NUM_ZONES" "j < SLAB_NUM_ZONES" "fs \<inter> gs = {}"
    "c \<in> chunks off (zone_chunk_size ! i) fs" "d \<in> chunks off (zone_chunk_size ! j) gs"
  shows "{c..<c + zone_chunk_size ! i} \<inter> {d..<d + zone_chunk_size ! j} = {}"
  using chunk_frame(2)[OF assms(4,1)] chunk_frame(2)[OF assms(5,2)] assms(3) by fastforce

lemma chunks_same_zone:
  assumes "i < SLAB_NUM_ZONES" "c \<in> chunks off (zone_chunk_size ! i) fs"
    "d \<in> chunks off (zone_chunk_size ! i) fs" "c \<noteq> d"
  shows "{c..<c + zone_chunk_size ! i} \<inter> {d..<d + zone_chunk_size ! i} = {}"
proof -
  let ?cs = "zone_chunk_size ! i" and ?n = "SLAB_PAGE_SIZE div zone_chunk_size ! i"
  have n: "PAGE_SIZE = ?n * ?cs" using zone_chunk_size_dvd(1)[OF assms(1)] by simp
  have "\<exists>m. x = off + m * ?cs" if "x \<in> chunks off ?cs fs" for x
  proof -
    from that obtain f k where "x = off + f * PAGE_SIZE + k * ?cs" by (auto simp: chunks_def)
    then have "x = off + (f * ?n + k) * ?cs" using n by (simp add: algebra_simps)
    then show ?thesis by blast
  qed
  with assms(2,3) obtain m l where ml: "c = off + m * ?cs" "d = off + l * ?cs" by blast
  have disj: "x + ?cs \<le> y" if "x = off + p * ?cs" "y = off + q * ?cs" "p < q" for x y p q
  proof -
    have "Suc p * ?cs \<le> q * ?cs" using that(3) by (intro mult_le_mono1) simp
    with that show ?thesis by simp
  qed
  from ml assms(4) consider "m < l" | "l < m" by (cases m l rule: linorder_cases) auto
  then show ?thesis using disj[OF ml] disj[OF ml(2,1)] by cases auto
qed

lemma chunks_nonzero: "0 \<notin> fs \<Longrightarrow> NULL \<notin> chunks off cs fs"
  by (auto simp: chunks_def)

section \<open>Invariant\<close>

text \<open>
  \<open>P i\<close> is the set of frames zone \<open>i\<close> has taken from the memory manager, \<open>L i\<close> the set of
  its chunks in use by clients.
\<close>

definition zone_inv ::
  "nat set \<Rightarrow> addr set \<Rightarrow> addr \<Rightarrow> (addr \<Rightarrow> addr) \<Rightarrow> size_t \<Rightarrow> slab_zone \<Rightarrow> bool" where
  "zone_inv pages live off nx cs z \<longleftrightarrow>
     chunk_size z = cs \<and> alloc_count z = card pages \<and>
     (\<exists>fl. chain nx (free_list z) fl \<and> set fl \<inter> live = {} \<and> set fl \<union> live = chunks off cs pages)"

definition slab_inv :: "(nat \<Rightarrow> nat set) \<Rightarrow> (nat \<Rightarrow> addr set) \<Rightarrow> 'a slab_state_scheme \<Rightarrow> bool" where
  "slab_inv P L s \<longleftrightarrow>
     pmm_wf s \<and> 0 \<in> pmm_used s \<and> slab_phys_offset s + total_frames s * PAGE_SIZE < two64 \<and>
     length (zones s) = SLAB_NUM_ZONES \<and>
     (\<forall>i < SLAB_NUM_ZONES. P i \<subseteq> pmm_used s - {0} \<and> (\<forall>j < SLAB_NUM_ZONES. i \<noteq> j \<longrightarrow> P i \<inter> P j = {}) \<and>
        zone_inv (P i) (L i) (slab_phys_offset s) (chunk_next s) (zone_chunk_size ! i) (zones s ! i))"

lemma slab_invD:
  assumes "slab_inv P L s"
  shows "pmm_wf s" "0 \<in> pmm_used s" "slab_phys_offset s + total_frames s * PAGE_SIZE < two64"
    "length (zones s) = SLAB_NUM_ZONES"
    "i < SLAB_NUM_ZONES \<Longrightarrow> P i \<subseteq> pmm_used s" "i < SLAB_NUM_ZONES \<Longrightarrow> 0 \<notin> P i"
    "i < SLAB_NUM_ZONES \<Longrightarrow> j < SLAB_NUM_ZONES \<Longrightarrow> i \<noteq> j \<Longrightarrow> P i \<inter> P j = {}"
    "i < SLAB_NUM_ZONES \<Longrightarrow>
       zone_inv (P i) (L i) (slab_phys_offset s) (chunk_next s) (zone_chunk_size ! i) (zones s ! i)"
  using assms unfolding slab_inv_def by blast+

lemma zone_inv_chunk_size: "zone_inv pages live off nx cs z \<Longrightarrow> chunk_size z = cs"
  by (simp add: zone_inv_def)

lemma zone_inv_live: "zone_inv pages live off nx cs z \<Longrightarrow> live \<subseteq> chunks off cs pages"
  by (auto simp: zone_inv_def)

lemma zone_inv_head:
  assumes "zone_inv pages live off nx cs z" "free_list z \<noteq> NULL"
  shows "free_list z \<in> chunks off cs pages" "free_list z \<notin> live"
  using assms by (auto simp: zone_inv_def chain_nonNULL)

text \<open>Links outside the free chunks of the zone do not matter.\<close>

lemma zone_inv_cong:
  assumes "zone_inv pages live off nx cs z" "\<And>a. a \<in> chunks off cs pages - live \<Longrightarrow> nx' a = nx a"
  shows "zone_inv pages live off nx' cs z"
proof -
  obtain fl where fl: "chain nx (free_list z) fl" "set fl \<inter> live = {}"
    "set fl \<union> live = chunks off cs pages" using assms(1) by (auto simp: zone_inv_def)
  then have "chain nx' (free_list z) fl"
    using assms(2) by (subst chain_cong[of fl nx' nx]) auto
  with fl assms(1) show ?thesis by (auto simp: zone_inv_def)
qed

lemma zone_inv_pop:
  assumes "zone_inv pages live off nx cs z" "free_list z \<noteq> NULL"
  shows "zone_inv pages (insert (free_list z) live) off nx cs (z\<lparr>free_list := nx (free_list z)\<rparr>)"
proof -
  obtain fl where fl: "chain nx (free_list z) fl" "set fl \<inter> live = {}"
    "set fl \<union> live = chunks off cs pages" using assms(1) by (auto simp: zone_inv_def)
  then obtain rest where rest: "fl = free_list z # rest" "chain nx (nx (free_list z)) rest"
    using assms(2) by (auto simp: chain_nonNULL)
  have "free_list z \<notin> set rest" using chain_distinct[OF fl(1)] rest(1) by simp
  with fl rest assms(1) show ?thesis by (auto simp: zone_inv_def)
qed

lemma zone_inv_push:
  assumes "zone_inv pages live off nx cs z" "c \<in> live" "c \<noteq> NULL"
  shows "zone_inv pages (live - {c}) off (nx(c := free_list z)) cs (z\<lparr>free_list := c\<rparr>)"
proof -
  obtain fl where fl: "chain nx (free_list z) fl" "set fl \<inter> live = {}"
    "set fl \<union> live = chunks off cs pages" using assms(1) by (auto simp: zone_inv_def)
  then have "chain (nx(c := free_list z)) c (c # fl)" using assms(2,3) by (auto intro: chain_upd[THEN iffD2])
  with fl assms show ?thesis by (auto simp: zone_inv_def intro!: exI[of _ "c # fl"])
qed

section \<open>Refill\<close>

lemma pmm_alloc_frame_frame:
  assumes "pmm_alloc_frame s = (p, s')"
  shows "zones s' = zones s" "slab_phys_offset s' = slab_phys_offset s" "chunk_next s' = chunk_next s"
proof -
  have "zones (snd (pmm_alloc_frame s)) = zones s \<and>
      slab_phys_offset (snd (pmm_alloc_frame s)) = slab_phys_offset s \<and>
      chunk_next (snd (pmm_alloc_frame s)) = chunk_next s"
    by (auto simp: pmm_alloc_frame_def take_frame_def Let_def split: option.split)
  with assms show "zones s' = zones s" "slab_phys_offset s' = slab_phys_offset s"
    "chunk_next s' = chunk_next s" by auto
qed

lemma pmm_abs_slab_update [simp]:
  "pmm_used (s\<lparr>zones := zs\<rparr>) = pmm_used s" "pmm_used (s\<lparr>chunk_next := nx\<rparr>) = pmm_used s"
  "pmm_wf (s\<lparr>zones := zs\<rparr>) = pmm_wf s" "pmm_wf (s\<lparr>chunk_next := nx\<rparr>) = pmm_wf s"
  by (simp_all add: pmm_used_def pmm_wf_def)

text \<open>The loop that carves a page leaves its chunks at the head of the list, the last first.\<close>

lemma carve_chunks:
  fixes s :: "'a slab_state_scheme"
  assumes "idx < length (zones s)" "chunk_size (zones s ! idx) = cs" "0 < base"
    "base + n * cs < two64" "0 < cs"
    "chain (chunk_next s) (free_list (zones s ! idx)) fl" "\<forall>a \<in> set fl. a < base \<or> base + n * cs \<le> a"
  shows "\<exists>nx p. fold (carve_chunk idx base) [0..<n] s =
      s\<lparr>chunk_next := nx, zones := (zones s)[idx := (zones s ! idx)\<lparr>free_list := p\<rparr>]\<rparr> \<and>
      chain nx p (rev (map (\<lambda>i. base + i * cs) [0..<n]) @ fl) \<and>
      (\<forall>a. a \<notin> (\<lambda>i. base + i * cs) ` {..<n} \<longrightarrow> nx a = chunk_next s a)"
  using assms(4,7)
proof (induction n)
  case 0
  have "s = s\<lparr>chunk_next := chunk_next s, zones := (zones s)[idx := (zones s ! idx)
      \<lparr>free_list := free_list (zones s ! idx)\<rparr>]\<rparr>" by simp
  with assms(6) show ?case by (intro exI[of _ "chunk_next s"] exI[of _ "free_list (zones s ! idx)"]) simp
next
  case (Suc n)
  then obtain nx p where IH: "fold (carve_chunk idx base) [0..<n] s =
      s\<lparr>chunk_next := nx, zones := (zones s)[idx := (zones s ! idx)\<lparr>free_list := p\<rparr>]\<rparr>"
    "chain nx p (rev (map (\<lambda>i. base + i * cs) [0..<n]) @ fl)"
    "\<forall>a. a \<notin> (\<lambda>i. base + i * cs) ` {..<n} \<longrightarrow> nx a = chunk_next s a" by force
  let ?c = "base + n * cs" and ?fl = "rev (map (\<lambda>i. base + i * cs) [0..<n]) @ fl"
  have "mul64 n cs = n * cs" "add64 base (n * cs) = ?c" using Suc.prems by (simp_all add: wrap)
  then have "fold (carve_chunk idx base) [0..<Suc n] s =
      s\<lparr>chunk_next := nx(?c := p), zones := (zones s)[idx := (zones s ! idx)\<lparr>free_list := ?c\<rparr>]\<rparr>"
    using IH(1) assms(1,2) by (simp add: carve_chunk_def Let_def)
  moreover have "?c \<notin> set ?fl" using Suc.prems(2) assms(5) by auto
  then have "chain (nx(?c := p)) ?c (?c # ?fl)" using IH(2) assms(3) by simp
  moreover have "\<forall>a. a \<notin> (\<lambda>i. base + i * cs) ` {..<Suc n} \<longrightarrow> (nx(?c := p)) a = chunk_next s a"
    using IH(3) by (auto simp: lessThan_Suc)
  moreover have list: "rev (map (\<lambda>i. base + i * cs) [0..<Suc n]) @ fl = ?c # ?fl" by simp
  ultimately show ?case unfolding list by blast
qed

lemma zone_refill_full:
  assumes "slab_inv P L s" "pmm_used s = {..<total_frames s}"
  shows "zone_refill idx s = s"
  using frames.alloc_full[OF slab_invD(1)[OF assms(1)] assms(2)] by (simp add: zone_refill_def)

lemma slab_inv_frame_bound:
  assumes "slab_inv P L s" "f < total_frames s"
  shows "slab_phys_offset s + f * PAGE_SIZE + PAGE_SIZE < two64"
proof -
  have "Suc f * PAGE_SIZE \<le> total_frames s * PAGE_SIZE" using assms(2) by (intro mult_le_mono1) simp
  with slab_invD(3)[OF assms(1)] show ?thesis by simp
qed

text \<open>What a refill makes of the state: the chunks of the new frame become the free list of the zone.\<close>

lemma zone_refill_eq:
  assumes inv: "slab_inv P L s" and idx: "idx < SLAB_NUM_ZONES" and empty: "free_list (zones s ! idx) = NULL"
    and r: "pmm_alloc_frame s = (f * PAGE_SIZE, s1)" and f: "f < total_frames s" "f \<noteq> 0"
  defines "cs \<equiv> zone_chunk_size ! idx" and "base \<equiv> slab_phys_offset s + f * PAGE_SIZE"
  obtains nx p where
    "zone_refill idx s = s1\<lparr>chunk_next := nx, zones := (zones s)[idx :=
       (zones s ! idx)\<lparr>free_list := p, alloc_count := add64 (alloc_count (zones s ! idx)) 1\<rparr>]\<rparr>"
    "chain nx p (rev (map (\<lambda>i. base + i * cs) [0..<SLAB_PAGE_SIZE div cs]))"
    "\<And>a. a \<notin> (\<lambda>i. base + i * cs) ` {..<SLAB_PAGE_SIZE div cs} \<Longrightarrow> nx a = chunk_next s a"
    "p = base + (SLAB_PAGE_SIZE - cs)"
proof -
  note I = slab_invD[OF inv] and fr = pmm_alloc_frame_frame[OF r]
  let ?n = "SLAB_PAGE_SIZE div cs"
  have b: "slab_phys_to_virt (f * PAGE_SIZE) s1 = base"
    using slab_inv_frame_bound[OF inv f(1)] fr by (simp add: slab_phys_to_virt_def base_def wrap add.commute)
  have cs: "chunk_size (zones s ! idx) = cs" unfolding cs_def using zone_inv_chunk_size[OF I(8)[OF idx]] .
  have ncs: "?n * cs = PAGE_SIZE" "0 < cs" "0 < ?n" unfolding cs_def using zone_chunk_size_dvd[OF idx] by simp_all
  have "\<exists>nx p. fold (carve_chunk idx base) [0..<?n] s1 =
      s1\<lparr>chunk_next := nx, zones := (zones s1)[idx := (zones s1 ! idx)\<lparr>free_list := p\<rparr>]\<rparr> \<and>
      chain nx p (rev (map (\<lambda>i. base + i * cs) [0..<?n]) @ []) \<and>
      (\<forall>a. a \<notin> (\<lambda>i. base + i * cs) ` {..<?n} \<longrightarrow> nx a = chunk_next s1 a)"
    using slab_inv_frame_bound[OF inv f(1)] idx I(4) cs fr f(2) empty ncs
    by (intro carve_chunks) (simp_all add: base_def)
  then obtain nx p where fold: "fold (carve_chunk idx base) [0..<?n] s1 =
      s1\<lparr>chunk_next := nx, zones := (zones s)[idx := (zones s ! idx)\<lparr>free_list := p\<rparr>]\<rparr>"
    and chain: "chain nx p (rev (map (\<lambda>i. base + i * cs) [0..<?n]))"
    and nx: "\<And>a. a \<notin> (\<lambda>i. base + i * cs) ` {..<?n} \<Longrightarrow> nx a = chunk_next s a"
    by (auto simp: fr)
  have "zone_refill idx s = s1\<lparr>chunk_next := nx, zones := (zones s)[idx :=
       (zones s ! idx)\<lparr>free_list := p, alloc_count := add64 (alloc_count (zones s ! idx)) 1\<rparr>]\<rparr>"
    unfolding zone_refill_def r using f(2) b fold cs fr idx I(4) by (simp add: Let_def)
  moreover have "p = base + (?n - 1) * cs" using chain ncs(3) by (cases "?n") auto
  then have "p = base + (SLAB_PAGE_SIZE - cs)" using ncs(1) by (simp add: diff_mult_distrib)
  ultimately show thesis using chain nx by (intro that)
qed

text \<open>The chunks of a new frame are none of those any zone has.\<close>

lemma fresh_chunks:
  assumes inv: "slab_inv P L s" and idx: "idx < SLAB_NUM_ZONES" "j < SLAB_NUM_ZONES" and f: "f \<notin> pmm_used s"
    and a: "a \<in> chunks off (zone_chunk_size ! j) (P j)"
  shows "a \<notin> chunks off (zone_chunk_size ! idx) {f}"
proof -
  have "f \<notin> P j" using slab_invD(5)[OF inv idx(2)] f by blast
  then show ?thesis
    using chunk_frame(2)[OF a idx(2) order_refl] chunk_frame(2)[of a off idx "{f}", OF _ idx(1) order_refl]
      zone_chunk_size_dvd(2)[OF idx(1)] zone_chunk_size_dvd(2)[OF idx(2)] by fastforce
qed

text \<open>The zone that is refilled, and the others.\<close>

lemma refilled_zone:
  assumes inv: "slab_inv P L s" and idx: "idx < SLAB_NUM_ZONES" and empty: "free_list (zones s ! idx) = NULL"
    and f: "f \<notin> pmm_used s"
    and ch: "chain nx p (rev (map (\<lambda>i. slab_phys_offset s + f * PAGE_SIZE + i * (zone_chunk_size ! idx)) [0..<SLAB_PAGE_SIZE div (zone_chunk_size ! idx)]))"
  shows "zone_inv (insert f (P idx)) (L idx) (slab_phys_offset s) nx (zone_chunk_size ! idx)
    ((zones s ! idx)\<lparr>free_list := p, alloc_count := add64 (alloc_count (zones s ! idx)) 1\<rparr>)"
proof -
  note I = slab_invD[OF inv]
  let ?cs = "zone_chunk_size ! idx" and ?off = "slab_phys_offset s"
  let ?n = "SLAB_PAGE_SIZE div ?cs" and ?z = "(zones s ! idx)\<lparr>free_list := p, alloc_count := add64 (alloc_count (zones s ! idx)) 1\<rparr>"
  let ?new = "rev (map (\<lambda>i. ?off + f * PAGE_SIZE + i * ?cs) [0..<?n])"
  have fP: "f \<notin> P idx" using I(5)[OF idx] f by blast
  have finP: "finite (P idx)" using I(5)[OF idx] finite_pmm_used finite_subset by blast
  have "card (P idx) \<le> total_frames s"
    using card_mono[OF finite_pmm_used I(5)[OF idx]] pmm_wf_used_le[OF I(1)] I(1) by (simp add: pmm_wf_def)
  then have cnt: "alloc_count ?z = card (insert f (P idx))"
    using I(8)[OF idx] finP fP pmm_wf_total'[OF I(1)] by (simp add: zone_inv_def wrap)
  obtain fl where "chain (chunk_next s) NULL fl" "set fl \<union> L idx = chunks ?off ?cs (P idx)"
    using I(8)[OF idx] empty by (auto simp: zone_inv_def)
  then have live: "L idx = chunks ?off ?cs (P idx)" by simp
  have new: "set ?new = chunks ?off ?cs {f}" by (auto simp: chunks_insert)
  show ?thesis
    unfolding zone_inv_def
  proof (intro conjI exI)
    show "chunk_size ?z = ?cs" using zone_inv_chunk_size[OF I(8)[OF idx]] by simp
    show "alloc_count ?z = card (insert f (P idx))" by (rule cnt)
    show "chain nx (free_list ?z) ?new" using ch by simp
    show "set ?new \<inter> L idx = {}"
      unfolding new live using fresh_chunks[OF inv idx idx f] by blast
    show "set ?new \<union> L idx = chunks ?off ?cs (insert f (P idx))"
      unfolding new live by (auto simp: chunks_insert)
  qed
qed

lemma zone_refill_inv:
  assumes inv: "slab_inv P L s" and idx: "idx < SLAB_NUM_ZONES"
    and empty: "free_list (zones s ! idx) = NULL"
    and free: "pmm_used s \<noteq> {..<total_frames s}"
  obtains f where "f < total_frames s" "f \<notin> pmm_used s" "f \<noteq> 0"
    "slab_inv (P(idx := insert f (P idx))) L (zone_refill idx s)"
    "free_list (zones (zone_refill idx s) ! idx) =
       slab_phys_offset s + f * PAGE_SIZE + (SLAB_PAGE_SIZE - zone_chunk_size ! idx)"
    "slab_phys_offset (zone_refill idx s) = slab_phys_offset s"
    "fst (pmm_alloc_frame s) = f * PAGE_SIZE"
    "pmm_used (zone_refill idx s) = insert f (pmm_used s)"
    "total_frames (zone_refill idx s) = total_frames s"
proof -
  note I = slab_invD[OF inv]
  let ?cs = "zone_chunk_size ! idx" and ?off = "slab_phys_offset s"
  obtain pa s1 where r: "pmm_alloc_frame s = (pa, s1)" by fastforce
  have pa: "pa \<noteq> 0" using frames.alloc_zero_iff[OF I(1,2) r] free by blast
  with I(1) r obtain f where f: "f < total_frames s" "f \<notin> pmm_used s" "pa = f * PAGE_SIZE"
    "pmm_used s1 = insert f (pmm_used s)" "total_frames s1 = total_frames s" "pmm_wf s1"
    by (rule frames.alloc_nonzero)
  note fr = pmm_alloc_frame_frame[OF r]
  have f0: "f \<noteq> 0" using f(2) I(2) by metis
  have fP: "i < SLAB_NUM_ZONES \<Longrightarrow> f \<notin> P i" for i using I(5)[of i] f(2) by blast
  let ?z = "\<lambda>p. (zones s ! idx)\<lparr>free_list := p, alloc_count := add64 (alloc_count (zones s ! idx)) 1\<rparr>"
  obtain p nx where e: "zone_refill idx s = s1\<lparr>chunk_next := nx, zones := (zones s)[idx := ?z p]\<rparr>"
    and ch: "chain nx p (rev (map (\<lambda>i. ?off + f * PAGE_SIZE + i * ?cs) [0..<SLAB_PAGE_SIZE div ?cs]))"
    and nx: "\<And>a. a \<notin> (\<lambda>i. ?off + f * PAGE_SIZE + i * ?cs) ` {..<SLAB_PAGE_SIZE div ?cs} \<Longrightarrow> nx a = chunk_next s a"
    and p: "p = ?off + f * PAGE_SIZE + (SLAB_PAGE_SIZE - ?cs)"
    by (rule zone_refill_eq[OF inv idx empty r[unfolded f(3)] f(1) f0]) (rule that)
  let ?s' = "s1\<lparr>chunk_next := nx, zones := (zones s)[idx := ?z p]\<rparr>"
  have zj: "zone_inv (P j) (L j) ?off nx (zone_chunk_size ! j) (zones s ! j)" if j: "j < SLAB_NUM_ZONES" for j
  proof (rule zone_inv_cong[OF I(8)[OF j]])
    fix a assume "a \<in> chunks ?off (zone_chunk_size ! j) (P j) - L j"
    then have "a \<notin> chunks ?off ?cs {f}" using fresh_chunks[OF inv idx j f(2)] by blast
    then show "nx a = chunk_next s a" using nx by (auto simp: chunks_insert)
  qed
  have "slab_inv (P(idx := insert f (P idx))) L ?s'"
    unfolding slab_inv_def
  proof (intro conjI allI impI)
    fix i assume i: "i < SLAB_NUM_ZONES"
    show "(P(idx := insert f (P idx))) i \<subseteq> pmm_used ?s' - {0}"
      using I(5,6)[OF i] f(4) f0 by auto
    show "zone_inv ((P(idx := insert f (P idx))) i) (L i) (slab_phys_offset ?s') (chunk_next ?s')
        (zone_chunk_size ! i) (zones ?s' ! i)"
      using refilled_zone[OF inv idx empty f(2) ch] zj[OF i] I(4) i fr by (cases "i = idx") simp_all
    show "(P(idx := insert f (P idx))) i \<inter> (P(idx := insert f (P idx))) j = {}"
      if "j < SLAB_NUM_ZONES" "i \<noteq> j" for j
      using I(7)[OF i that] fP i that by auto
  qed (use f I fr in simp_all)
  then show thesis
    using that[OF f(1,2) f0] e p idx I(4) fr r f(3-5) by simp
qed

section \<open>Allocation and release\<close>

lemma slab_inv_zone_update:
  assumes inv: "slab_inv P L s" and idx: "idx < SLAB_NUM_ZONES"
    and z: "zone_inv (P idx) live (slab_phys_offset s) nx (zone_chunk_size ! idx) z"
    and nx: "\<And>a. a \<notin> chunks (slab_phys_offset s) (zone_chunk_size ! idx) (P idx) \<Longrightarrow> nx a = chunk_next s a"
  shows "slab_inv P (L(idx := live)) (s\<lparr>chunk_next := nx, zones := (zones s)[idx := z]\<rparr>)"
proof -
  note I = slab_invD[OF inv]
  let ?s = "s\<lparr>chunk_next := nx, zones := (zones s)[idx := z]\<rparr>"
  have zj: "zone_inv (P j) (L j) (slab_phys_offset s) nx (zone_chunk_size ! j) (zones s ! j)"
    if j: "j < SLAB_NUM_ZONES" "j \<noteq> idx" for j
  proof (rule zone_inv_cong[OF I(8)[OF j(1)]])
    fix a assume "a \<in> chunks (slab_phys_offset s) (zone_chunk_size ! j) (P j) - L j"
    then have "a \<in> chunks (slab_phys_offset s) (zone_chunk_size ! j) (P j)" by blast
    then have "a \<notin> chunks (slab_phys_offset s) (zone_chunk_size ! idx) (P idx)"
      using chunks_disjoint_frames[OF j(1) idx I(7)[OF j(1) idx j(2)], of a "slab_phys_offset s" a]
        zone_chunk_size_dvd(2)[OF j(1)] zone_chunk_size_dvd(2)[OF idx] by auto
    then show "nx a = chunk_next s a" by (rule nx)
  qed
  show ?thesis
    unfolding slab_inv_def
  proof (intro conjI allI impI)
    fix i assume i: "i < SLAB_NUM_ZONES"
    show "P i \<subseteq> pmm_used ?s - {0}" using I(5,6)[OF i] by auto
    show "zone_inv (P i) ((L(idx := live)) i) (slab_phys_offset ?s) (chunk_next ?s)
        (zone_chunk_size ! i) (zones ?s ! i)"
      using z zj[OF i] I(4) i by (cases "i = idx") simp_all
    show "P i \<inter> P j = {}" if "j < SLAB_NUM_ZONES" "i \<noteq> j" for j
      using I(7)[OF i that] .
  qed (use I in simp_all)
qed

lemma slab_inv_pop:
  assumes inv: "slab_inv P L s" and idx: "idx < SLAB_NUM_ZONES"
    and head: "free_list (zones s ! idx) = c" "c \<noteq> NULL"
  shows "slab_inv P (L(idx := insert c (L idx)))
    (s\<lparr>zones := (zones s)[idx := (zones s ! idx)\<lparr>free_list := chunk_next s c\<rparr>]\<rparr>)"
    and "c \<in> chunks (slab_phys_offset s) (zone_chunk_size ! idx) (P idx)" "c \<notin> L idx"
proof -
  note z = slab_invD(8)[OF inv idx]
  show "c \<in> chunks (slab_phys_offset s) (zone_chunk_size ! idx) (P idx)" "c \<notin> L idx"
    using zone_inv_head[OF z] head by simp_all
  have "s = s\<lparr>chunk_next := chunk_next s\<rparr>" by simp
  then show "slab_inv P (L(idx := insert c (L idx)))
    (s\<lparr>zones := (zones s)[idx := (zones s ! idx)\<lparr>free_list := chunk_next s c\<rparr>]\<rparr>)"
    using slab_inv_zone_update[OF inv idx zone_inv_pop[OF z, unfolded head(1), OF head(2)]] by metis
qed

lemma slab_init_inv:
  assumes "pmm_wf s" "0 \<in> pmm_used s" "slab_phys_offset s + total_frames s * PAGE_SIZE < two64"
  shows "slab_inv (\<lambda>_. {}) (\<lambda>_. {}) (slab_init s)"
proof -
  have "pmm_wf (slab_init s)" "pmm_used (slab_init s) = pmm_used s" using assms(1) by (simp_all add: slab_init_def)
  then show ?thesis
    using assms by (auto simp: slab_inv_def slab_init_def zone_inv_def)
qed

text \<open>The last step of \<open>zalloc\<close>: take the head of the list.\<close>

definition pop_chunk :: "nat \<Rightarrow> 'a slab_state_scheme \<Rightarrow> 'a slab_state_scheme" where
  "pop_chunk idx s =
     (let z = zones s ! idx
      in s\<lparr>zones := (zones s)[idx := z\<lparr>free_list := chunk_next s (free_list z)\<rparr>]\<rparr>)"

lemma zalloc_cases:
  assumes inv: "slab_inv P L s" and "0 < sz" and i: "size_to_zone_index sz = Some i"
  obtains (Full) "zalloc sz s = (NULL, s)" "free_list (zones s ! i) = NULL"
      "pmm_used s = {..<total_frames s}"
  | (Hit) "zalloc sz s = (free_list (zones s ! i), pop_chunk i s)" "free_list (zones s ! i) \<noteq> NULL"
  | (Refill) f where "zalloc sz s = (free_list (zones (zone_refill i s) ! i), pop_chunk i (zone_refill i s))"
      "free_list (zones s ! i) = NULL" "f < total_frames s" "f \<notin> pmm_used s"
      "slab_inv (P(i := insert f (P i))) L (zone_refill i s)"
      "slab_phys_offset (zone_refill i s) = slab_phys_offset s"
      "free_list (zones (zone_refill i s) ! i) =
         slab_phys_offset s + f * PAGE_SIZE + (SLAB_PAGE_SIZE - zone_chunk_size ! i)"
      "free_list (zones (zone_refill i s) ! i) \<noteq> NULL" "fst (pmm_alloc_frame s) = f * PAGE_SIZE"
      "pmm_used (zone_refill i s) = insert f (pmm_used s)"
      "total_frames (zone_refill i s) = total_frames s"
proof -
  from i have idx: "i < SLAB_NUM_ZONES" by (simp add: size_to_zone_index_Some)
  show thesis
  proof (cases "free_list (zones s ! i) = NULL")
    case False
    then show thesis using assms(2) i by (intro Hit) (simp_all add: zalloc_def pop_chunk_def Let_def)
  next
    case empty: True
    show thesis
    proof (cases "pmm_used s = {..<total_frames s}")
      case True
      with empty show thesis
        using assms(2) i zone_refill_full[OF inv True, of i]
        by (intro Full) (simp_all add: zalloc_def Let_def)
    next
      case False
      obtain f where f: "f < total_frames s" "f \<notin> pmm_used s" "f \<noteq> 0"
        "slab_inv (P(i := insert f (P i))) L (zone_refill i s)"
        "free_list (zones (zone_refill i s) ! i) =
           slab_phys_offset s + f * PAGE_SIZE + (SLAB_PAGE_SIZE - zone_chunk_size ! i)"
        "slab_phys_offset (zone_refill i s) = slab_phys_offset s"
        "fst (pmm_alloc_frame s) = f * PAGE_SIZE"
        "pmm_used (zone_refill i s) = insert f (pmm_used s)"
        "total_frames (zone_refill i s) = total_frames s"
        using inv idx empty False by (rule zone_refill_inv)
      moreover have "free_list (zones (zone_refill i s) ! i) \<noteq> NULL" using f(3,5) by simp
      ultimately show thesis
        using assms(2) i empty by (intro Refill[of f]) (simp_all add: zalloc_def pop_chunk_def Let_def)
    qed
  qed
qed

lemma zalloc_inv:
  assumes inv: "slab_inv P L s" and "0 < sz" and i: "size_to_zone_index sz = Some i"
    and r: "zalloc sz s = (c, s')" and c: "c \<noteq> NULL"
  obtains P' where "slab_inv P' (L(i := insert c (L i))) s'" "c \<notin> L i"
    "c \<in> chunks (slab_phys_offset s) (zone_chunk_size ! i) (P' i)"
    "slab_phys_offset s' = slab_phys_offset s" "\<And>j. P j \<subseteq> P' j"
proof -
  from i have idx: "i < SLAB_NUM_ZONES" by (simp add: size_to_zone_index_Some)
  from inv assms(2) i show thesis
  proof (cases rule: zalloc_cases)
    case Full
    with r c show thesis by simp
  next
    case Hit
    with r have "c = free_list (zones s ! i)" "s' = pop_chunk i s" by simp_all
    with slab_inv_pop[OF inv idx _ c] show thesis
      by (intro that[of P]) (simp_all add: pop_chunk_def Let_def)
  next
    case (Refill f)
    with r have "c = free_list (zones (zone_refill i s) ! i)" "s' = pop_chunk i (zone_refill i s)"
      by simp_all
    with slab_inv_pop[OF Refill(5) idx _ c] Refill(6) show thesis
      by (intro that[of "P(i := insert f (P i))"]) (auto simp: pop_chunk_def Let_def)
  qed
qed

lemma zfree_inv:
  assumes inv: "slab_inv P L s" and "0 < sz" and i: "size_to_zone_index sz = Some i"
    and live: "c \<in> L i"
  shows "slab_inv P (L(i := L i - {c})) (zfree c sz s)" "free_list (zones (zfree c sz s) ! i) = c"
    "slab_phys_offset (zfree c sz s) = slab_phys_offset s" "c \<noteq> NULL"
proof -
  from i have idx: "i < SLAB_NUM_ZONES" by (simp add: size_to_zone_index_Some)
  note z = slab_invD(8)[OF inv idx]
  have in_c: "c \<in> chunks (slab_phys_offset s) (zone_chunk_size ! i) (P i)"
    using zone_inv_live[OF z] live by blast
  with chunks_nonzero[OF slab_invD(6)[OF inv idx]] show c: "c \<noteq> NULL" by metis
  let ?z = "zones s ! i"
  have f: "zfree c sz s = s\<lparr>chunk_next := (chunk_next s)(c := free_list ?z),
      zones := (zones s)[i := ?z\<lparr>free_list := c\<rparr>]\<rparr>"
    using c assms(2) i by (simp add: zfree_def Let_def)
  show "slab_inv P (L(i := L i - {c})) (zfree c sz s)"
    unfolding f using in_c
    by (intro slab_inv_zone_update[OF inv idx zone_inv_push[OF z live c]]) auto
  show "free_list (zones (zfree c sz s) ! i) = c"
    "slab_phys_offset (zfree c sz s) = slab_phys_offset s"
    unfolding f using idx slab_invD(4)[OF inv] by simp_all
qed

section \<open>Clients\<close>

text \<open>
  What a state of the allocator can be while clients use it as slab.h asks: they free a
  chunk they hold with a size of the class they asked for, and write only inside chunks they
  hold. In between, the other parts of the kernel take frames from the memory manager; none
  of them gives one back. \<open>L i\<close> are the chunks of zone \<open>i\<close> that clients hold.
\<close>

inductive slab_reach :: "(nat \<Rightarrow> addr set) \<Rightarrow> 'a slab_state_scheme \<Rightarrow> bool" where
  init: "pmm_wf s \<Longrightarrow> 0 \<in> pmm_used s \<Longrightarrow>
    slab_phys_offset s + total_frames s * PAGE_SIZE < two64 \<Longrightarrow> slab_reach (\<lambda>_. {}) (slab_init s)"
| alloc: "slab_reach L s \<Longrightarrow> 0 < sz \<Longrightarrow> size_to_zone_index sz = Some i \<Longrightarrow> zalloc sz s = (c, s') \<Longrightarrow>
    slab_reach (if c = NULL then L else L(i := insert c (L i))) s'"
| free: "slab_reach L s \<Longrightarrow> 0 < sz \<Longrightarrow> size_to_zone_index sz = Some i \<Longrightarrow> c \<in> L i \<Longrightarrow>
    slab_reach (L(i := L i - {c})) (zfree c sz s)"
| client_write: "slab_reach L s \<Longrightarrow> i < SLAB_NUM_ZONES \<Longrightarrow> c \<in> L i \<Longrightarrow>
    c \<le> a \<Longrightarrow> a < c + zone_chunk_size ! i \<Longrightarrow> slab_reach L (s\<lparr>chunk_next := (chunk_next s)(a := v)\<rparr>)"
| others: "slab_reach L s \<Longrightarrow> \<forall>p. \<not> frees c p \<Longrightarrow> slab_reach L (pmm_step c s)"

lemma pmm_step_frame:
  "zones (pmm_step c s) = zones s" "slab_phys_offset (pmm_step c s) = slab_phys_offset s"
  "chunk_next (pmm_step c s) = chunk_next s"
  by (cases c; auto simp: pmm_mark_used_def pmm_mark_free_def pmm_free_frame_def Let_def
      pmm_alloc_contiguous_def pmm_alloc_frame_frame[OF surjective_pairing] split: option.split)+

lemma slab_inv_others:
  assumes inv: "slab_inv P L s" and c: "\<forall>p. \<not> frees c p"
  shows "slab_inv P L (pmm_step c s)"
proof -
  note I = slab_invD[OF inv]
  have u: "f \<in> pmm_used (pmm_step c s)" if "f \<in> pmm_used s" for f
    using pmm_step_keeps_used[OF I(1), of "f * PAGE_SIZE" c] that c by simp
  then have "pmm_used s - {0} \<subseteq> pmm_used (pmm_step c s) - {0}" by blast
  then show ?thesis
    using inv u unfolding slab_inv_def pmm_step_frame pmm_step_wf(2)[OF I(1)]
    by (meson order_trans pmm_step_wf(1))
qed

lemma slab_inv_live_chunk:
  "slab_inv P L s \<Longrightarrow> i < SLAB_NUM_ZONES \<Longrightarrow> c \<in> L i \<Longrightarrow>
     c \<in> chunks (slab_phys_offset s) (zone_chunk_size ! i) (P i)"
  using zone_inv_live[OF slab_invD(8)] by blast

lemma slab_inv_client_write:
  assumes inv: "slab_inv P L s" and i: "i < SLAB_NUM_ZONES" and c: "c \<in> L i"
    and a: "c \<le> a" "a < c + zone_chunk_size ! i"
  shows "slab_inv P L (s\<lparr>chunk_next := (chunk_next s)(a := v)\<rparr>)"
proof -
  note I = slab_invD[OF inv]
  have zj: "zone_inv (P j) (L j) (slab_phys_offset s) ((chunk_next s)(a := v)) (zone_chunk_size ! j)
      (zones s ! j)" if j: "j < SLAB_NUM_ZONES" for j
  proof (rule zone_inv_cong[OF I(8)[OF j]])
    fix d assume d: "d \<in> chunks (slab_phys_offset s) (zone_chunk_size ! j) (P j) - L j"
    have "d \<noteq> a"
    proof
      assume "d = a"
      note cc = slab_inv_live_chunk[OF inv i c]
      have "d \<in> {c..<c + zone_chunk_size ! i} \<inter> {d..<d + zone_chunk_size ! j}"
        using a \<open>d = a\<close> zone_chunk_size_dvd(2)[OF j] by simp
      with chunks_same_zone[OF i cc] chunks_disjoint_frames[OF i j I(7)[OF i j] cc] d c
      show False by (cases "i = j") blast+
    qed
    then show "((chunk_next s)(a := v)) d = chunk_next s d" by simp
  qed
  then show ?thesis using inv unfolding slab_inv_def by simp
qed

lemma slab_reach_inv: "slab_reach L s \<Longrightarrow> \<exists>P. slab_inv P L s"
proof (induction rule: slab_reach.induct)
  case (init s)
  then show ?case using slab_init_inv by blast
next
  case (alloc L s sz i c s')
  from alloc.IH obtain P where inv: "slab_inv P L s" ..
  show ?case
  proof (cases "c = NULL")
    case True
    from inv alloc.hyps(2,3) have "s' = s"
      using alloc.hyps(4) True by (cases rule: zalloc_cases) simp_all
    with True inv show ?thesis by auto
  next
    case False
    from inv alloc.hyps(2-4) False obtain P' where "slab_inv P' (L(i := insert c (L i))) s'"
      by (rule zalloc_inv)
    with False show ?thesis by (simp only: if_False) blast
  qed
next
  case (free L s sz i c)
  then show ?case using zfree_inv(1) by blast
next
  case (client_write L s i c a v)
  then show ?case using slab_inv_client_write by blast
next
  case (others L s c)
  then show ?case using slab_inv_others by blast
qed

lemma slab_inv_disjoint:
  assumes inv: "slab_inv P L s" and i: "i < SLAB_NUM_ZONES" "c \<in> L i"
    and j: "j < SLAB_NUM_ZONES" "d \<in> L j" and ne: "c \<noteq> d \<or> i \<noteq> j"
  shows "{c..<c + zone_chunk_size ! i} \<inter> {d..<d + zone_chunk_size ! j} = {}"
proof -
  note cc = slab_inv_live_chunk[OF inv i] and dc = slab_inv_live_chunk[OF inv j]
  show ?thesis
  proof (cases "i = j")
    case True
    then show ?thesis using chunks_same_zone[OF i(1) cc] dc ne by blast
  next
    case False
    then show ?thesis
      using chunks_disjoint_frames[OF i(1) j(1) slab_invD(7)[OF inv i(1) j(1)] cc dc] by blast
  qed
qed

section \<open>Properties\<close>

text \<open>
  C17: Two chunks that clients hold never share a byte, and every byte of a chunk lies in a
  frame that the physical memory manager has marked in use, so that nobody else is given it.
  This holds in every state clients can reach, with anything written into the held chunks.
\<close>

theorem slab_live_chunks_disjoint:
  assumes "slab_reach L s" and "i < SLAB_NUM_ZONES" and "c \<in> L i"
  shows "(\<forall>j d. j < SLAB_NUM_ZONES \<and> d \<in> L j \<and> (c \<noteq> d \<or> i \<noteq> j) \<longrightarrow>
      {c..<c + zone_chunk_size ! i} \<inter> {d..<d + zone_chunk_size ! j} = {}) \<and>
    (\<lambda>a. (a - slab_phys_offset s) div PAGE_SIZE) ` {c..<c + zone_chunk_size ! i} \<subseteq> pmm_used s - {0}"
proof -
  obtain P where inv: "slab_inv P L s" using slab_reach_inv[OF assms(1)] ..
  have "(a - slab_phys_offset s) div PAGE_SIZE \<in> pmm_used s - {0}"
    if "a \<in> {c..<c + zone_chunk_size ! i}" for a
  proof -
    have "(a - slab_phys_offset s) div PAGE_SIZE \<in> P i"
      using that chunk_frame(2)[OF slab_inv_live_chunk[OF inv assms(2,3)] assms(2)] by simp
    moreover have "P i \<subseteq> pmm_used s - {0}" using inv assms(2) unfolding slab_inv_def by simp
    ultimately show ?thesis by (rule rev_subsetD)
  qed
  then have "(\<lambda>a. (a - slab_phys_offset s) div PAGE_SIZE) ` {c..<c + zone_chunk_size ! i}
      \<subseteq> pmm_used s - {0}" by (rule image_subsetI)
  moreover have "\<forall>j d. j < SLAB_NUM_ZONES \<and> d \<in> L j \<and> (c \<noteq> d \<or> i \<noteq> j) \<longrightarrow>
      {c..<c + zone_chunk_size ! i} \<inter> {d..<d + zone_chunk_size ! j} = {}"
    by (intro allI impI, elim conjE) (rule slab_inv_disjoint[OF inv assms(2,3)])
  ultimately show ?thesis by (rule conjI[rotated])
qed

lemma chunks_aligned:
  assumes "i < SLAB_NUM_ZONES" and "off mod PAGE_SIZE = 0" and "c \<in> chunks off (zone_chunk_size ! i) fs"
  shows "c mod zone_chunk_size ! i = 0"
proof -
  have p: "zone_chunk_size ! i dvd PAGE_SIZE"
    using zone_chunk_size_dvd(1)[OF assms(1)] by (metis dvd_triv_right)
  have off: "zone_chunk_size ! i dvd off"
    using dvd_trans[OF p] assms(2) by (simp add: mod_eq_0_iff_dvd)
  obtain f k where c: "c = off + f * PAGE_SIZE + k * zone_chunk_size ! i"
    using assms(3) by (auto simp: chunks_def)
  have "zone_chunk_size ! i dvd c"
    unfolding c by (intro dvd_add dvd_triv_right off dvd_mult p)
  then show ?thesis by simp
qed

text \<open>
  C22: \<open>zalloc\<close> of 1 to 2048 bytes returns either NULL, when the free list of its zone is empty
  and no physical frame is free, changing nothing; or a chunk of the smallest size class that
  fits, aligned to its size, that no client holds and that overlaps no chunk a client holds.
  The offset between physical and virtual addresses is a whole number of pages.
\<close>

theorem zalloc_result:
  assumes "slab_reach L s" and "0 < sz" and "sz \<le> 2048" and "slab_phys_offset s mod PAGE_SIZE = 0"
    and "zalloc sz s = (c, s')"
  shows "\<exists>i < SLAB_NUM_ZONES. sz \<le> zone_chunk_size ! i \<and> (\<forall>j < i. zone_chunk_size ! j < sz) \<and>
    (if c = NULL then s' = s \<and> free_list (zones s ! i) = NULL \<and> pmm_used s = {..<total_frames s}
     else c mod zone_chunk_size ! i = 0 \<and>
       (\<forall>j < SLAB_NUM_ZONES. \<forall>d \<in> L j.
          {c..<c + zone_chunk_size ! i} \<inter> {d..<d + zone_chunk_size ! j} = {}))"
proof -
  obtain P where inv: "slab_inv P L s" using slab_reach_inv[OF assms(1)] ..
  obtain i where i: "size_to_zone_index sz = Some i"
    using assms(3) size_to_zone_index_None[of sz] by (cases "size_to_zone_index sz") auto
  then have idx: "i < SLAB_NUM_ZONES" "sz \<le> zone_chunk_size ! i" "\<forall>j < i. zone_chunk_size ! j < sz"
    by (simp_all add: size_to_zone_index_Some)
  have "if c = NULL then s' = s \<and> free_list (zones s ! i) = NULL \<and> pmm_used s = {..<total_frames s}
     else c mod zone_chunk_size ! i = 0 \<and>
       (\<forall>j < SLAB_NUM_ZONES. \<forall>d \<in> L j.
          {c..<c + zone_chunk_size ! i} \<inter> {d..<d + zone_chunk_size ! j} = {})"
  proof (cases "c = NULL")
    case True
    with inv assms(2) i assms(5) show ?thesis by (cases rule: zalloc_cases) simp_all
  next
    case False
    obtain P' where P': "slab_inv P' (L(i := insert c (L i))) s'" "c \<notin> L i"
      "c \<in> chunks (slab_phys_offset s) (zone_chunk_size ! i) (P' i)"
      using inv assms(2) i assms(5) False by (rule zalloc_inv)
    have "c mod zone_chunk_size ! i = 0" by (rule chunks_aligned[OF idx(1) assms(4) P'(3)])
    moreover have "{c..<c + zone_chunk_size ! i} \<inter> {d..<d + zone_chunk_size ! j} = {}"
      if "j < SLAB_NUM_ZONES" "d \<in> L j" for j d
    proof -
      have "c \<noteq> d \<or> i \<noteq> j" using that(2) P'(2) by blast
      moreover have "c \<in> (L(i := insert c (L i))) i" "d \<in> (L(i := insert c (L i))) j"
        using that(2) by auto
      ultimately show ?thesis using slab_inv_disjoint[OF P'(1) idx(1) _ that(1)] by blast
    qed
    ultimately show ?thesis using False by simp
  qed
  with idx show ?thesis by blast
qed

text \<open>
  A freed chunk is the next one its zone hands out, to any request of its size class.
\<close>

theorem zfree_then_zalloc:
  assumes "slab_reach L s" and "c \<in> L i" and "0 < sz" and "0 < sz'"
    and "size_to_zone_index sz = Some i" and "size_to_zone_index sz' = Some i"
  shows "fst (zalloc sz' (zfree c sz s)) = c"
proof -
  obtain P where inv: "slab_inv P L s" using slab_reach_inv[OF assms(1)] ..
  note f = zfree_inv[OF inv assms(3,5,2)]
  from f(1) assms(4,6) show ?thesis
    using f(2,4) by (cases rule: zalloc_cases) simp_all
qed

text \<open>
  No chunk is lost: the number of pages a zone has taken, times the chunks in a page, is
  the number of chunks clients hold plus the length of its free list.
\<close>

theorem slab_chunk_accounting:
  assumes "slab_reach L s" and "i < SLAB_NUM_ZONES"
  shows "\<exists>fl. chain (chunk_next s) (free_list (zones s ! i)) fl \<and>
    alloc_count (zones s ! i) * (SLAB_PAGE_SIZE div chunk_size (zones s ! i)) =
      card (L i) + length fl"
proof -
  obtain P where inv: "slab_inv P L s" using slab_reach_inv[OF assms(1)] ..
  let ?cs = "zone_chunk_size ! i" and ?off = "slab_phys_offset s"
  note z = slab_invD(8)[OF inv assms(2)]
  obtain fl where fl: "chain (chunk_next s) (free_list (zones s ! i)) fl" "set fl \<inter> L i = {}"
    "set fl \<union> L i = chunks ?off ?cs (P i)" using z by (auto simp: zone_inv_def)
  have finP: "finite (P i)" using slab_invD(5)[OF inv assms(2)] finite_pmm_used finite_subset by blast
  have cs: "0 < ?cs" "?cs * (SLAB_PAGE_SIZE div ?cs) = PAGE_SIZE"
    using zone_chunk_size_dvd[OF assms(2)] by (simp_all add: mult.commute)
  have img: "chunks ?off ?cs (P i) =
      (\<lambda>(f, k). ?off + f * PAGE_SIZE + k * ?cs) ` (P i \<times> {..<SLAB_PAGE_SIZE div ?cs})"
    by (auto simp: chunks_def)
  have "inj_on (\<lambda>(f, k). ?off + f * PAGE_SIZE + k * ?cs) (P i \<times> {..<SLAB_PAGE_SIZE div ?cs})"
  proof (rule inj_onI, clarsimp)
    fix f k g l assume k: "k < SLAB_PAGE_SIZE div ?cs" "l < SLAB_PAGE_SIZE div ?cs"
      and eq: "f * PAGE_SIZE + k * ?cs = g * PAGE_SIZE + l * ?cs"
    have b: "k * ?cs < PAGE_SIZE" "l * ?cs < PAGE_SIZE"
      using k cs by (metis mult.commute mult_less_mono2)+
    have "(f * PAGE_SIZE + k * ?cs) div PAGE_SIZE = f" using b(1) by simp
    moreover have "(g * PAGE_SIZE + l * ?cs) div PAGE_SIZE = g" using b(2) by simp
    ultimately have "f = g" using eq by metis
    with eq cs(1) show "f = g \<and> k = l" by simp
  qed
  then have card: "card (chunks ?off ?cs (P i)) = card (P i) * (SLAB_PAGE_SIZE div ?cs)"
    unfolding img by (simp add: card_image card_cartesian_product)
  have "finite (chunks ?off ?cs (P i))" unfolding img using finP by simp
  then have fin: "finite (L i)" unfolding fl(3)[symmetric] by simp
  have "card (set fl \<union> L i) = length fl + card (L i)"
    using fl(2) fin chain_distinct[OF fl(1)] by (simp add: card_Un_disjoint distinct_card)
  with card fl(3) have "alloc_count (zones s ! i) * (SLAB_PAGE_SIZE div chunk_size (zones s ! i)) =
      card (L i) + length fl"
    using z by (simp add: zone_inv_def)
  with fl(1) show ?thesis by blast
qed

text \<open>
  The first chunk a refilled zone hands out is the last of its new page, and not the first:
  the loop pushes the chunks in ascending order onto the head of the list.
\<close>

theorem refilled_zone_starts_at_page_end:
  assumes "slab_reach L s" and "0 < sz" and "size_to_zone_index sz = Some i"
    and "free_list (zones s ! i) = NULL" and "pmm_used s \<noteq> {..<total_frames s}"
  shows "fst (zalloc sz s) = slab_phys_offset s + fst (pmm_alloc_frame s) +
    (SLAB_PAGE_SIZE - zone_chunk_size ! i)"
proof -
  obtain P where inv: "slab_inv P L s" using slab_reach_inv[OF assms(1)] ..
  from inv assms(2,3) show ?thesis
    using assms(4,5) by (cases rule: zalloc_cases) simp_all
qed

section \<open>An example\<close>

definition slab_start :: slab_state where
  "slab_start = slab_init (pmm_mark_used 0 (pmm_init 409600 0 slab_static))"

definition slab_one :: slab_state where
  "slab_one = snd (zalloc 10 slab_start)"

abbreviation held_one :: "nat \<Rightarrow> addr set" where
  "held_one \<equiv> (\<lambda>_. {})(0 := {8176})"

lemma zone_of_10: "size_to_zone_index 10 = Some 0"
  and zone_of_100: "size_to_zone_index 100 = Some 3"
  by (simp_all add: size_to_zone_index_def first_from.simps zone_chunk_size_def)

lemma slab_start_facts:
  shows "slab_reach (\<lambda>_. {}) slab_start" "pmm_used slab_start = {0}" "total_frames slab_start = 100"
    "free_list (zones slab_start ! i) = NULL \<or> 8 \<le> i" "slab_phys_offset slab_start = 0"
proof -
  let ?s = "pmm_mark_used 0 (pmm_init 409600 0 slab_static)"
  have wf: "pmm_wf (pmm_init 409600 0 slab_static)" by (rule pmm_init_wf) simp
  have tot: "total_frames (pmm_init 409600 0 slab_static) = 100" by (simp add: pmm_init_def)
  have s: "pmm_wf ?s" "pmm_used ?s = {0}" "total_frames ?s = 100"
    using pmm_mark_used_abs[OF wf, of 0] tot by (simp_all add: pmm_init_used Collect_conv_if)
  have off: "slab_phys_offset ?s = 0"
    by (simp add: pmm_mark_used_def pmm_init_def slab_static_def Let_def)
  show "slab_reach (\<lambda>_. {}) slab_start"
    unfolding slab_start_def by (rule slab_reach.init) (simp_all add: s off)
  show "pmm_used slab_start = {0}" "total_frames slab_start = 100" "slab_phys_offset slab_start = 0"
    using s off by (simp_all add: slab_start_def slab_init_def)
  show "free_list (zones slab_start ! i) = NULL \<or> 8 \<le> i"
    by (cases "i < 8") (simp_all add: slab_start_def slab_init_def)
qed

lemma alloc_frame_addr:
  assumes "pmm_wf s" "first_from (\<lambda>f. f \<notin> pmm_used s) 0 (total_frames s) = Some f"
  shows "fst (pmm_alloc_frame s) = f * PAGE_SIZE"
proof -
  have "first_from (\<lambda>f. f \<notin> pmm_used s) 0 (total_frames s) = lowest_free s"
    unfolding lowest_free_def by (intro first_from_cong) (simp add: in_pmm_used)
  with assms(2) have "lowest_free s = Some f" by simp
  with take_frame_abs(1)[OF assms(1) this] show ?thesis
    by (simp add: pmm_alloc_frame_lowest[OF assms(1)] alloc_lowest_def)
qed

lemma slab_one_facts:
  shows "zalloc 10 slab_start = (8176, slab_one)" "slab_reach held_one slab_one"
    "pmm_used slab_one = {0, 1}" "total_frames slab_one = 100" "slab_phys_offset slab_one = 0"
proof -
  note S = slab_start_facts
  obtain P where inv: "slab_inv P (\<lambda>_. {}) slab_start" using slab_reach_inv[OF S(1)] ..
  have "50 \<in> {..<total_frames slab_start}" "50 \<notin> pmm_used slab_start" by (simp_all add: S)
  then have ne: "pmm_used slab_start \<noteq> {..<total_frames slab_start}" by blast
  have a: "fst (pmm_alloc_frame slab_start) = 4096"
    using alloc_frame_addr[OF slab_invD(1)[OF inv], of 1] by (simp add: S first_from.simps)
  have e: "free_list (zones slab_start ! 0) = NULL" using S(4)[of 0] by simp
  have cs: "zone_chunk_size ! 0 = 16" by (simp add: zone_chunk_size_def)
  from inv zero_less_numeral zone_of_10
  have *: "zalloc 10 slab_start = (8176, slab_one) \<and> pmm_used slab_one = {0, 1} \<and>
      total_frames slab_one = 100 \<and> slab_phys_offset slab_one = 0"
  proof (cases rule: zalloc_cases)
    case Full
    with ne show ?thesis by simp
  next
    case Hit
    with e show ?thesis by simp
  next
    case (Refill f)
    then have "f = 1" using a by simp
    with Refill show ?thesis
      by (auto simp: slab_one_def S cs pop_chunk_def Let_def)
  qed
  then show z: "zalloc 10 slab_start = (8176, slab_one)" and "pmm_used slab_one = {0, 1}"
    "total_frames slab_one = 100" "slab_phys_offset slab_one = 0" by blast+
  show "slab_reach held_one slab_one"
    using slab_reach.alloc[OF S(1) zero_less_numeral zone_of_10 z] by simp
qed

lemma slab_one_second:
  obtains d s' where "zalloc 100 slab_one = (d, s')" "d \<noteq> NULL" "slab_reach (held_one(3 := {d})) s'"
proof -
  note S = slab_one_facts
  obtain P where inv: "slab_inv P held_one slab_one" using slab_reach_inv[OF S(2)] ..
  obtain d s' where z: "zalloc 100 slab_one = (d, s')" by fastforce
  have "50 \<in> {..<total_frames slab_one}" "50 \<notin> pmm_used slab_one" by (simp_all add: S)
  then have "pmm_used slab_one \<noteq> {..<total_frames slab_one}" by blast
  with inv zero_less_numeral zone_of_100 have d: "d \<noteq> NULL"
    using z by (cases rule: zalloc_cases) simp_all
  with slab_reach.alloc[OF S(2) zero_less_numeral zone_of_100 z] have "slab_reach (held_one(3 := {d})) s'"
    by simp
  with z d that show thesis by blast
qed

theorem slab_live_chunks_disjoint_witness:
  "\<exists>d s'. zalloc 100 slab_one = (d, s') \<and> d \<noteq> NULL \<and> {8176..<8192} \<inter> {d..<d + 128} = {}"
proof -
  obtain d s' where d: "zalloc 100 slab_one = (d, s')" "d \<noteq> NULL" "slab_reach (held_one(3 := {d})) s'"
    by (rule slab_one_second)
  have "(\<forall>j e. j < SLAB_NUM_ZONES \<and> e \<in> (held_one(3 := {d})) j \<and> (8176 \<noteq> e \<or> 0 \<noteq> j) \<longrightarrow>
      {8176..<8176 + zone_chunk_size ! 0} \<inter> {e..<e + zone_chunk_size ! j} = {}) \<and>
    (\<lambda>a. (a - slab_phys_offset s') div PAGE_SIZE) ` {8176..<8176 + zone_chunk_size ! 0}
      \<subseteq> pmm_used s' - {0}"
    by (rule slab_live_chunks_disjoint[OF d(3)]) simp_all
  then have "{8176..<8176 + zone_chunk_size ! 0} \<inter> {d..<d + zone_chunk_size ! 3} = {}"
    by (elim conjE allE[of _ 3] allE[of _ d] mp) simp
  then show ?thesis
    using d(1,2) by (simp add: zone_chunk_size_def)
qed

theorem zalloc_result_witness:
  "\<exists>c s'. zalloc 100 slab_one = (c, s') \<and> c \<noteq> NULL \<and> c mod 128 = 0 \<and>
     {c..<c + 128} \<inter> {8176..<8192} = {}"
proof -
  obtain d s' where d: "zalloc 100 slab_one = (d, s')" "d \<noteq> NULL" "slab_reach (held_one(3 := {d})) s'"
    by (rule slab_one_second)
  have "slab_phys_offset slab_one mod PAGE_SIZE = 0" by (simp add: slab_one_facts)
  with d(1) have "\<exists>i < SLAB_NUM_ZONES. 100 \<le> zone_chunk_size ! i \<and>
    (\<forall>j < i. zone_chunk_size ! j < 100) \<and>
    (if d = NULL then s' = slab_one \<and> free_list (zones slab_one ! i) = NULL \<and>
       pmm_used slab_one = {..<total_frames slab_one}
     else d mod zone_chunk_size ! i = 0 \<and>
       (\<forall>j < SLAB_NUM_ZONES. \<forall>c \<in> held_one j.
          {d..<d + zone_chunk_size ! i} \<inter> {c..<c + zone_chunk_size ! j} = {}))"
    by (intro zalloc_result[OF slab_one_facts(2)]) simp_all
  then obtain i where i: "i < SLAB_NUM_ZONES" "100 \<le> zone_chunk_size ! i"
    "\<forall>j < i. zone_chunk_size ! j < 100" "d mod zone_chunk_size ! i = 0"
    "\<forall>j < SLAB_NUM_ZONES. \<forall>c \<in> held_one j.
       {d..<d + zone_chunk_size ! i} \<inter> {c..<c + zone_chunk_size ! j} = {}"
    using d(2) by auto
  have "i = 3"
    using i(1-3) zone_of_100 size_to_zone_index_Some[of 100 i] by simp
  moreover have "{d..<d + zone_chunk_size ! i} \<inter> {8176..<8176 + zone_chunk_size ! 0} = {}"
    by (rule i(5)[rule_format]) simp_all
  ultimately show ?thesis using d(1,2) i(4) by (simp add: zone_chunk_size_def)
qed

theorem zfree_then_zalloc_witness: "fst (zalloc 16 (zfree 8176 10 slab_one)) = 8176"
proof -
  have "size_to_zone_index 16 = Some 0"
    by (simp add: size_to_zone_index_def first_from.simps zone_chunk_size_def)
  then show ?thesis
    by (intro zfree_then_zalloc[OF slab_one_facts(2) _ _ _ zone_of_10]) simp_all
qed

theorem slab_chunk_accounting_witness:
  "\<exists>fl. chain (chunk_next slab_one) (free_list (zones slab_one ! 0)) fl \<and>
     alloc_count (zones slab_one ! 0) * (SLAB_PAGE_SIZE div chunk_size (zones slab_one ! 0)) =
       1 + length fl"
  using slab_chunk_accounting[OF slab_one_facts(2), of 0] by simp

theorem refilled_zone_starts_at_page_end_witness: "fst (zalloc 10 slab_start) = 4096 + (4096 - 16)"
proof -
  note S = slab_start_facts
  obtain P where inv: "slab_inv P (\<lambda>_. {}) slab_start" using slab_reach_inv[OF S(1)] ..
  have "50 \<in> {..<total_frames slab_start}" "50 \<notin> pmm_used slab_start" by (simp_all add: S)
  then have "pmm_used slab_start \<noteq> {..<total_frames slab_start}" by blast
  moreover have "fst (pmm_alloc_frame slab_start) = 4096"
    using alloc_frame_addr[OF slab_invD(1)[OF inv], of 1] by (simp add: S first_from.simps)
  moreover have "free_list (zones slab_start ! 0) = NULL" using S(4)[of 0] by simp
  ultimately show ?thesis
    using refilled_zone_starts_at_page_end[OF S(1) zero_less_numeral zone_of_10]
    by (simp add: S zone_chunk_size_def)
qed

end
