(* ===== verification/Cformat.thy ===== *)
theory Cformat
  imports Aura_Prelude "HOL-Library.Monad_Syntax"
begin

text \<open>
  The text formatting the kernel shares: the digit loops of \<open>print_number\<close> and
  \<open>print_hex_pointer\<close> (arch/x86_shared/serial.c), \<open>vga_printf\<close> (drivers/vga.c) and
  \<open>tui_printf_at\<close> (drivers/tui.c), each with the bound of its buffer, and the variable
  arguments of C. A C string is the list of its characters before the NUL byte.
\<close>

text \<open>The string that a character buffer holds.\<close>

definition c_string :: "char list \<Rightarrow> string" where
  "c_string buf = takeWhile (\<lambda>c. c \<noteq> CHR 0x00) buf"

section \<open>Variable arguments\<close>

text \<open>
  What \<open>va_arg\<close> reads: a string pointer, NULL or not; an integer of 32 bits; a pointer.
  Reading an argument that is not there, or of another kind, is undefined: the result is None.
\<close>

datatype c_arg = CStr "string option" | CInt u32 | CPtr u64

fun va_str :: "c_arg list \<Rightarrow> (string option \<times> c_arg list) option" where
  "va_str (CStr s # as) = Some (s, as)"
| "va_str _ = None"

fun va_int :: "c_arg list \<Rightarrow> (u32 \<times> c_arg list) option" where
  "va_int (CInt v # as) = Some (v, as)"
| "va_int _ = None"

fun va_ptr :: "c_arg list \<Rightarrow> (u64 \<times> c_arg list) option" where
  "va_ptr (CPtr p # as) = Some (p, as)"
| "va_ptr _ = None"

fun_cases va_str_Some: "va_str as = Some r"
fun_cases va_int_Some: "va_int as = Some r"

section \<open>Digit loops\<close>

definition hex_digits :: string where
  "hex_digits = ''0123456789abcdef''"

definition dec_digit :: "nat \<Rightarrow> char" where
  "dec_digit d = char_of (48 + d)"

text \<open>
  \<open>while (v != 0) { tmp[i++] = '0' + v % 10; v /= 10; }\<close> with a buffer of \<open>n\<close> characters: the
  buffer when the loop ends, or None when a digit is written past its end.
\<close>

function dec_loop :: "nat \<Rightarrow> u32 \<Rightarrow> string \<Rightarrow> string option" where
  "dec_loop n v tmp =
     (if v = 0 then Some tmp
      else if n \<le> length tmp then None
      else dec_loop n (of_nat (unat v div 10)) (tmp @ [dec_digit (unat v mod 10)]))"
  by pat_completeness auto
termination
proof (relation "measure (\<lambda>(n, v, tmp). unat v)", goal_cases)
  case (2 n v tmp)
  have "unat v \<noteq> 0" using 2 by (simp add: unat_eq_zero)
  then have "unat v div 10 < unat v" by simp
  with unat_of_nat_le[of "unat v div 10"] have "unat (of_nat (unat v div 10) :: u32) < unat v"
    by (rule le_less_trans)
  then show ?case by simp
qed simp

text \<open>\<open>while (v != 0) { tmp[i++] = hex_digits[v & 0xF]; v >>= 4; }\<close>\<close>

function hex_loop :: "nat \<Rightarrow> 'a::len word \<Rightarrow> string \<Rightarrow> string option" where
  "hex_loop n v tmp =
     (if v = 0 then Some tmp
      else if n \<le> length tmp then None
      else hex_loop n (drop_bit 4 v) (tmp @ [hex_digits ! unat (v AND 0xF)]))"
  by pat_completeness auto
termination
proof (relation "measure (\<lambda>(n, v, tmp). unat v)", goal_cases)
  case (2 n v tmp)
  then have "unat v \<noteq> 0" by (simp add: unat_eq_zero)
  then have "unat (drop_bit 4 v) < unat v" unfolding unat_drop_bit by simp
  then show ?case by simp
qed simp

declare dec_loop.simps [simp del] hex_loop.simps [simp del]

section \<open>Numerals\<close>

text \<open>The reference: the numeral of a number, most significant digit first; none for 0.\<close>

fun numeral_of :: "nat \<Rightarrow> nat \<Rightarrow> string" where
  "numeral_of b n = (if n = 0 \<or> b < 2 then [] else numeral_of b (n div b) @ [hex_digits ! (n mod b)])"

declare numeral_of.simps [simp del]

lemma numeral_of_0 [simp]: "numeral_of b 0 = []"
  by (simp add: numeral_of.simps)

text \<open>Reading a numeral back.\<close>

definition digit_value :: "char \<Rightarrow> nat option" where
  "digit_value c = first_from (\<lambda>i. hex_digits ! i = c) 0 16"

definition read_numeral :: "nat \<Rightarrow> string \<Rightarrow> nat" where
  "read_numeral b ds = fold (\<lambda>c n. n * b + (case digit_value c of Some d \<Rightarrow> d | None \<Rightarrow> 0)) ds 0"

lemma length_hex_digits [simp]: "length hex_digits = 16"
  by (simp add: hex_digits_def)

lemma distinct_hex_digits: "distinct hex_digits"
  by (simp add: hex_digits_def)

lemma digit_value_hex: "d < 16 \<Longrightarrow> digit_value (hex_digits ! d) = Some d"
  using nth_eq_iff_index_eq[OF distinct_hex_digits] by (auto simp: digit_value_def first_from_Some)

lemma dec_digit_hex: "d < 10 \<Longrightarrow> dec_digit d = hex_digits ! d"
proof -
  assume "d < 10"
  then have "d \<in> set [0..<10]" by simp
  moreover have "\<forall>d\<in>set [0..<10]. dec_digit d = hex_digits ! d" by code_simp
  ultimately show ?thesis by blast
qed

lemma read_numeral_of: "1 < b \<Longrightarrow> b \<le> 16 \<Longrightarrow> read_numeral b (numeral_of b n) = n"
proof (induction n rule: less_induct)
  case (less n)
  show ?case
  proof (cases "n = 0")
    case False
    then have "n div b < n" "n mod b < 16" using less.prems by (auto intro: less_le_trans[OF mod_less_divisor])
    with less.IH[OF this(1)] less.prems False show ?thesis
      by (subst numeral_of.simps) (simp add: read_numeral_def digit_value_hex)
  qed (simp add: read_numeral_def)
qed

lemma length_numeral_of: "1 < b \<Longrightarrow> n < b ^ k \<Longrightarrow> length (numeral_of b n) \<le> k"
proof (induction k arbitrary: n)
  case (Suc k)
  then have "n div b < b ^ k" by (simp add: less_mult_imp_div_less mult.commute)
  from Suc.IH[OF Suc.prems(1) this] show ?case by (subst numeral_of.simps) simp
qed simp

lemma numeral_of_nonempty: "1 < b \<Longrightarrow> 0 < n \<Longrightarrow> numeral_of b n \<noteq> []"
  by (subst numeral_of.simps) simp

text \<open>The loops write the numeral backwards, and stay within a buffer that has room for it.\<close>

lemma dec_loop_numeral:
  "length tmp + length (numeral_of 10 (unat v)) \<le> n \<Longrightarrow>
     dec_loop n v tmp = Some (tmp @ rev (numeral_of 10 (unat v)))"
proof (induction n v tmp rule: dec_loop.induct)
  case (1 n v tmp)
  show ?case
  proof (cases "v = 0")
    case False
    then have "unat v \<noteq> 0" by (simp add: unat_eq_zero)
    then have num: "numeral_of 10 (unat v) = numeral_of 10 (unat v div 10) @ [dec_digit (unat v mod 10)]"
      by (subst numeral_of.simps) (simp add: dec_digit_hex)
    have "unat (of_nat (unat v div 10) :: u32) = unat v div 10"
      using unat_u32_lt[of v] by (intro unat_of_nat_small) simp
    with 1 False num show ?thesis by (subst dec_loop.simps) simp
  qed (simp add: dec_loop.simps)
qed

lemma and_15_mod: "unat ((v :: 'a::len word) AND 15) = unat v mod 16"
proof -
  have "(15 :: 'a word) = mask 4" by (simp add: mask_eq_exp_minus_1)
  then show ?thesis by (simp only: unat_and_mask) simp
qed

lemma hex_loop_numeral:
  "length tmp + length (numeral_of 16 (unat v)) \<le> n \<Longrightarrow>
     hex_loop n v tmp = Some (tmp @ rev (numeral_of 16 (unat v)))"
proof (induction n v tmp rule: hex_loop.induct)
  case (1 n v tmp)
  show ?case
  proof (cases "v = 0")
    case False
    then have "unat v \<noteq> 0" by (simp add: unat_eq_zero)
    then have num: "numeral_of 16 (unat v) = numeral_of 16 (unat v div 16) @ [hex_digits ! unat (v AND 15)]"
      by (subst numeral_of.simps) (simp add: and_15_mod)
    have "unat (drop_bit 4 v) = unat v div 16" by (simp only: unat_drop_bit) simp
    with False num 1(2) have "\<not> n \<le> length tmp"
      "length (tmp @ [hex_digits ! unat (v AND 15)]) + length (numeral_of 16 (unat (drop_bit 4 v))) \<le> n"
      by simp_all
    from 1(1)[OF False this] num \<open>unat (drop_bit 4 v) = _\<close> this(1) False show ?thesis
      by (subst hex_loop.simps) (simp only: if_False, simp)
  qed (simp add: hex_loop.simps)
qed

lemma length_dec_u32: "length (numeral_of 10 (unat (v :: u32))) \<le> 10"
  using unat_u32_lt[of v] by (intro length_numeral_of) simp_all

lemma length_hex_u32: "length (numeral_of 16 (unat (v :: u32))) \<le> 8"
  using unat_u32_lt[of v] by (intro length_numeral_of) simp_all

lemma length_hex_u64: "length (numeral_of 16 (unat (v :: u64))) \<le> 16"
  using unat_u64_lt[of v] by (intro length_numeral_of) simp_all

text \<open>What every number formatter of the kernel prints.\<close>

definition number_text :: "nat \<Rightarrow> nat \<Rightarrow> string" where
  "number_text b n = (if n = 0 then ''0'' else numeral_of b n)"

lemma read_number_text: "1 < b \<Longrightarrow> b \<le> 16 \<Longrightarrow> read_numeral b (number_text b n) = n"
  using digit_value_hex[of 0] by (simp add: number_text_def read_numeral_of) (simp add: read_numeral_def hex_digits_def)

definition signed_text :: "u32 \<Rightarrow> string" where
  "signed_text v = (if sint v < 0 then ''-'' else []) @ number_text 10 (nat \<bar>sint v\<bar>)"

section \<open>Loops\<close>

text \<open>\<open>for (i = a; i < b; i++)\<close>, whose body may fail.\<close>

function for_loop :: "nat \<Rightarrow> nat \<Rightarrow> (nat \<Rightarrow> 's \<Rightarrow> 's option) \<Rightarrow> 's \<Rightarrow> 's option" where
  "for_loop a b f s = (if a < b then do { s' \<leftarrow> f a s; for_loop (Suc a) b f s' } else Some s)"
  by pat_completeness auto
termination
  by (relation "measure (\<lambda>(a, b, f, s). b - a)") auto

declare for_loop.simps [simp del]

lemma for_loop_rule:
  assumes "P a s" and "\<And>i s. a \<le> i \<Longrightarrow> i < b \<Longrightarrow> P i s \<Longrightarrow> \<exists>s'. f i s = Some s' \<and> P (Suc i) s'" and "a \<le> b"
  shows "\<exists>s'. for_loop a b f s = Some s' \<and> P b s'"
  using assms
proof (induction a b f s rule: for_loop.induct)
  case (1 a b f s)
  show ?case
  proof (cases "a < b")
    case True
    obtain s1 where s1: "f a s = Some s1" "P (Suc a) s1" using 1(3)[OF order_refl True 1(2)] by blast
    have "\<exists>s'. for_loop (Suc a) b f s1 = Some s' \<and> P b s'"
      using 1(1)[OF True s1] 1(3) True by simp
    with s1(1) True show ?thesis by (subst for_loop.simps) simp
  next
    case False
    with 1(2,4) show ?thesis by (subst for_loop.simps) simp
  qed
qed

section \<open>Sending characters\<close>

text \<open>\<open>while (*s) put(*s++)\<close> and \<open>while (i > 0) put(tmp[--i])\<close>, where \<open>put\<close> may fail to return.\<close>

primrec send :: "(char \<Rightarrow> 's \<Rightarrow> 's option) \<Rightarrow> string \<Rightarrow> 's \<Rightarrow> 's option" where
  "send put [] s = Some s"
| "send put (c # cs) s = do { s' \<leftarrow> put c s; send put cs s' }"

function send_back :: "(char \<Rightarrow> 's \<Rightarrow> 's option) \<Rightarrow> string \<Rightarrow> 's \<Rightarrow> 's option" where
  "send_back put tmp s = (if tmp = [] then Some s else do { s' \<leftarrow> put (last tmp) s; send_back put (butlast tmp) s' })"
  by pat_completeness auto
termination
  by (relation "measure (\<lambda>(put, tmp, s). length tmp)") auto

declare send_back.simps [simp del]

lemma send_back_rev: "send_back put tmp s = send put (rev tmp) s"
proof (induction tmp arbitrary: s rule: rev_induct)
  case (snoc c cs)
  then have "send_back put cs = send put (rev cs)" by (intro ext)
  then show ?case by (subst send_back.simps) simp
qed (simp add: send_back.simps)

lemma send_append: "send put (a @ b) s = do { s' \<leftarrow> send put a s; send put b s' }"
  by (induction a arbitrary: s) (simp_all add: bind_assoc)

text \<open>
  The loop of a \<open>printf\<close>: characters are sent as they are, up to a percent sign, whose
  conversion is the next character; \<open>lone\<close> is what happens when the format ends after a percent
  sign.
\<close>

fun printf_loop :: "(char \<Rightarrow> 's \<Rightarrow> 's option) \<Rightarrow> (char \<Rightarrow> c_arg list \<Rightarrow> 's \<Rightarrow> (c_arg list \<times> 's) option) \<Rightarrow>
    ('s \<Rightarrow> 's option) \<Rightarrow> string \<Rightarrow> c_arg list \<Rightarrow> 's \<Rightarrow> 's option" where
  "printf_loop put directive lone [] args s = Some s"
| "printf_loop put directive lone [c] args s = (if c \<noteq> CHR ''%'' then put c s else lone s)"
| "printf_loop put directive lone (c # d # cs) args s =
     (if c \<noteq> CHR ''%'' then do { s' \<leftarrow> put c s; printf_loop put directive lone (d # cs) args s' }
      else do { (args', s') \<leftarrow> directive d args s; printf_loop put directive lone cs args' s' })"

text \<open>
  The reference: the text of a format, where \<open>conv\<close> gives the text of one conversion and the
  arguments left, and \<open>lone\<close> the text of a percent sign at the end.
\<close>

fun format_text :: "(char \<Rightarrow> c_arg list \<Rightarrow> (string \<times> c_arg list) option) \<Rightarrow> string option \<Rightarrow> string \<Rightarrow> c_arg list \<Rightarrow>
    string option" where
  "format_text conv lone [] args = Some []"
| "format_text conv lone [c] args = (if c \<noteq> CHR ''%'' then Some [c] else lone)"
| "format_text conv lone (c # d # cs) args =
     (if c \<noteq> CHR ''%'' then map_option ((#) c) (format_text conv lone (d # cs) args)
      else do { (t, args') \<leftarrow> conv d args; map_option ((@) t) (format_text conv lone cs args') })"

lemma induct_two [case_names Nil One Two]:
  assumes "P []" and "\<And>c. P [c]" and "\<And>c d cs. P (d # cs) \<Longrightarrow> P cs \<Longrightarrow> P (c # d # cs)"
  shows "P xs"
proof -
  have "P xs \<and> (\<forall>c. P (c # xs))" by (induction xs) (use assms in auto)
  then show ?thesis ..
qed

section \<open>The contract of a character device\<close>

text \<open>
  What formatted output relies on: in a good state the device takes any character, and
  \<open>shown s t s'\<close> says that \<open>s'\<close> is \<open>s\<close> after the text \<open>t\<close>.
\<close>

locale char_device =
  fixes ok :: "'s \<Rightarrow> bool"
    and put :: "char \<Rightarrow> 's \<Rightarrow> 's option"
    and shown :: "'s \<Rightarrow> string \<Rightarrow> 's \<Rightarrow> bool"
  assumes put_shown: "ok s \<Longrightarrow> \<exists>s'. put c s = Some s' \<and> ok s' \<and> shown s [c] s'"
    and shown_refl: "shown s [] s"
    and shown_trans: "shown s a s' \<Longrightarrow> shown s' b s'' \<Longrightarrow> shown s (a @ b) s''"
begin

lemma send_shown: "ok s \<Longrightarrow> \<exists>s'. send put t s = Some s' \<and> ok s' \<and> shown s t s'"
proof (induction t arbitrary: s)
  case Nil
  then show ?case by (simp add: shown_refl)
next
  case (Cons c t)
  obtain s1 where s1: "put c s = Some s1" "ok s1" "shown s [c] s1" using put_shown[OF Cons.prems] by blast
  obtain s2 where s2: "send put t s1 = Some s2" "ok s2" "shown s1 t s2" using Cons.IH[OF s1(2)] by blast
  have "shown s (c # t) s2" using shown_trans[OF s1(3) s2(3)] by simp
  with s1 s2 show ?case by simp
qed

text \<open>
  If every conversion sends the text that \<open>conv\<close> gives for it, or fails where it gives none, then
  so does the loop with the text of the whole format.
\<close>

lemma printf_shown:
  assumes directive: "\<And>d args s t args'. ok s \<Longrightarrow> conv d args = Some (t, args') \<Longrightarrow>
      \<exists>s'. directive d args s = Some (args', s') \<and> ok s' \<and> shown s t s'"
    and none: "\<And>d args s. ok s \<Longrightarrow> conv d args = None \<Longrightarrow> directive d args s = None"
    and lone: "\<And>s t. ok s \<Longrightarrow> ltext = Some t \<Longrightarrow> \<exists>s'. lone s = Some s' \<and> ok s' \<and> shown s t s'"
    and lone_none: "\<And>s. ltext = None \<Longrightarrow> lone s = None"
  shows "ok s \<Longrightarrow> case format_text conv ltext fmt args of
      Some t \<Rightarrow> \<exists>s'. printf_loop put directive lone fmt args s = Some s' \<and> ok s' \<and> shown s t s'
    | None \<Rightarrow> printf_loop put directive lone fmt args s = None"
proof (induction fmt arbitrary: args s rule: induct_two)
  case Nil
  then show ?case by (simp add: shown_refl)
next
  case (One c)
  show ?case
  proof (cases "c = CHR ''%''")
    case False
    then show ?thesis using put_shown[OF One, of c] by auto
  next
    case True
    then show ?thesis using lone[OF One] lone_none by (auto split: option.split)
  qed
next
  case (Two c d cs)
  show ?case
  proof (cases "c = CHR ''%''")
    case False
    obtain s1 where s1: "put c s = Some s1" "ok s1" "shown s [c] s1" using put_shown[OF Two.prems] by blast
    have "shown s (c # t) s2" if "shown s1 t s2" for t s2 using shown_trans[OF s1(3) that] by simp
    with Two.IH(1)[OF s1(2), of args] s1 False show ?thesis by (fastforce split: option.splits)
  next
    case True
    show ?thesis
    proof (cases "conv d args")
      case None
      then show ?thesis using True none[OF Two.prems None] by simp
    next
      case (Some r)
      obtain t args' where r: "conv d args = Some (t, args')" using Some by (cases r) auto
      obtain s1 where s1: "directive d args s = Some (args', s1)" "ok s1" "shown s t s1"
        using directive[OF Two.prems r] by blast
      have "shown s (t @ u) s2" if "shown s1 u s2" for u s2 using shown_trans[OF s1(3) that] .
      with Two.IH(2)[OF s1(2), of args'] s1 True r show ?thesis
        by (fastforce split: option.splits)
    qed
  qed
qed

end

text \<open>Absolute values of signed numbers.\<close>

lemma unat_uminus_sint: "sint (v :: u32) < 0 \<Longrightarrow> unat (- v) = nat \<bar>sint v\<bar>"
proof -
  assume neg: "sint v < 0"
  have "- v = of_int (- sint v)" by simp
  also have "\<dots> = of_nat (nat \<bar>sint v\<bar>)" using neg by (simp only: of_nat_nat) simp
  finally have "- v = of_nat (nat \<bar>sint v\<bar>)" .
  moreover have "nat \<bar>sint v\<bar> < 2 ^ LENGTH(32)" using neg sint_ge[of v] by simp
  ultimately show ?thesis by (simp only: unat_of_nat_small)
qed

lemma unat_sint_nonneg: "\<not> sint (v :: u32) < 0 \<Longrightarrow> unat v = nat \<bar>sint v\<bar>"
proof -
  assume nn: "\<not> sint v < 0"
  then have "uint v = sint v" using sint_lt[of v] by (simp add: uint_sint take_bit_int_eq_self)
  with nn show ?thesis by (simp add: nat_uint_eq[symmetric])
qed

section \<open>Properties\<close>

text \<open>
  Number formatting is safe and loses nothing: for every 32-bit number the decimal digits
  fit the 10 characters of their buffer and the hexadecimal ones the 8 of theirs, for every pointer
  the digits fit 17 characters, and the digits, read from the last to the first, stand for the
  number.
\<close>

theorem digit_loops_roundtrip:
  fixes v :: u32 and p :: u64
  shows "map_option (read_numeral 10 \<circ> rev) (dec_loop 10 v []) = Some (unat v) \<and>
    map_option (read_numeral 16 \<circ> rev) (hex_loop 8 v []) = Some (unat v) \<and>
    map_option (read_numeral 16 \<circ> rev) (hex_loop 17 p []) = Some (unat p)"
  using dec_loop_numeral[of "[]" v 10] hex_loop_numeral[of "[]" v 8] hex_loop_numeral[of "[]" p 17]
    length_dec_u32[of v] length_hex_u32[of v] length_hex_u64[of p] by (simp add: read_numeral_of)

end
