(* ===== verification/Serial.thy ===== *)
theory Serial
  imports Cformat
begin

text \<open>
  The serial port: kernel/arch/x86_shared/serial.c, a 16550 UART driven through the I/O ports.
  The device is the parameter \<open>dev\<close>: \<open>dev t p\<close> is what the t-th read of a port gives when
  it is a read of port \<open>p\<close>. Writes to ports are recorded in order.
\<close>

section \<open>I/O ports\<close>

record io_state =
  io_reads :: nat
  io_out :: "(u16 \<times> u8) list"

type_synonym device = "nat \<Rightarrow> u16 \<Rightarrow> u8"

definition outb :: "u16 \<Rightarrow> u8 \<Rightarrow> 'a io_state_scheme \<Rightarrow> 'a io_state_scheme" where
  "outb port val s = s\<lparr>io_out := io_out s @ [(port, val)]\<rparr>"

definition inb :: "device \<Rightarrow> u16 \<Rightarrow> 'a io_state_scheme \<Rightarrow> u8 \<times> 'a io_state_scheme" where
  "inb dev port s = (dev (io_reads s) port, s\<lparr>io_reads := Suc (io_reads s)\<rparr>)"

section \<open>The driver\<close>

abbreviation COM1 :: u16 where
  "COM1 \<equiv> 0x3F8"

text \<open>The registers of the UART, relative to its port, and their bits.\<close>

abbreviation REG_DIV_HI :: u16 where "REG_DIV_HI \<equiv> 1"
abbreviation REG_IER :: u16 where "REG_IER \<equiv> 1"
abbreviation REG_FCR :: u16 where "REG_FCR \<equiv> 2"
abbreviation REG_LCR :: u16 where "REG_LCR \<equiv> 3"
abbreviation REG_MCR :: u16 where "REG_MCR \<equiv> 4"
abbreviation REG_LSR :: u16 where "REG_LSR \<equiv> 5"
abbreviation LSR_THRE :: u8 where "LSR_THRE \<equiv> 0x20"
abbreviation LSR_DR :: u8 where "LSR_DR \<equiv> 1"
abbreviation LCR_8N1 :: u8 where "LCR_8N1 \<equiv> 0x03"
abbreviation LCR_DLAB :: u8 where "LCR_DLAB \<equiv> 0x80"
abbreviation FCR_ENABLE :: u8 where "FCR_ENABLE \<equiv> 0xC7"
abbreviation MCR_DTR_RTS_OUT2 :: u8 where "MCR_DTR_RTS_OUT2 \<equiv> 0x0B"

definition serial_init :: "u16 \<Rightarrow> u32 \<Rightarrow> 'a io_state_scheme \<Rightarrow> 'a io_state_scheme" where
  "serial_init port baud s =
     (let baud = (if baud = 0 then 115200 else baud);
          divisor = ucast (115200 div baud :: u32) :: u16;
          s = outb (port + REG_IER) 0x00 s;
          s = outb (port + REG_LCR) LCR_DLAB s;
          s = outb port (ucast (divisor AND 0xFF)) s;
          s = outb (port + REG_DIV_HI) (ucast (drop_bit 8 divisor)) s;
          s = outb (port + REG_LCR) LCR_8N1 s;
          s = outb (port + REG_FCR) FCR_ENABLE s
      in outb (port + REG_MCR) MCR_DTR_RTS_OUT2 s)"

definition LSR_ready :: "u8 \<Rightarrow> bool" where
  "LSR_ready v \<longleftrightarrow> v AND LSR_THRE \<noteq> 0"

text \<open>The busy wait may not end: then the result is None.\<close>

partial_function (option) serial_putc :: "device \<Rightarrow> u16 \<Rightarrow> char \<Rightarrow> 'a io_state_scheme \<Rightarrow> 'a io_state_scheme option" where
  "serial_putc dev port c s =
     (let r = inb dev (port + REG_LSR) s
      in if \<not> LSR_ready (fst r) then serial_putc dev port c (snd r) else Some (outb port (of_char c) (snd r)))"

definition serial_has_char :: "device \<Rightarrow> u16 \<Rightarrow> 'a io_state_scheme \<Rightarrow> bool \<times> 'a io_state_scheme" where
  "serial_has_char dev port s = (case inb dev (port + REG_LSR) s of (v, s') \<Rightarrow> (v AND LSR_DR \<noteq> 0, s'))"

definition serial_getc :: "device \<Rightarrow> u16 \<Rightarrow> 'a io_state_scheme \<Rightarrow> char \<times> 'a io_state_scheme" where
  "serial_getc dev port s =
     (case serial_has_char dev port s of (b, s1) \<Rightarrow>
        if \<not> b then (CHR 0x00, s1) else (case inb dev port s1 of (v, s2) \<Rightarrow> (char_of (unat v), s2)))"

definition serial_puts :: "device \<Rightarrow> u16 \<Rightarrow> string \<Rightarrow> 'a io_state_scheme \<Rightarrow> 'a io_state_scheme option" where
  "serial_puts dev port = send (serial_putc dev port)"

definition print_number :: "device \<Rightarrow> u16 \<Rightarrow> u32 \<Rightarrow> bool \<Rightarrow> 'a io_state_scheme \<Rightarrow> 'a io_state_scheme option" where
  "print_number dev port v hex s =
     (if v = 0 then serial_putc dev port (CHR ''0'') s
      else do {
        tmp \<leftarrow> (if hex then hex_loop 8 v [] else dec_loop 10 v []);
        send_back (serial_putc dev port) tmp s
      })"

definition print_signed :: "device \<Rightarrow> u16 \<Rightarrow> u32 \<Rightarrow> 'a io_state_scheme \<Rightarrow> 'a io_state_scheme option" where
  "print_signed dev port v s =
     (if sint v < 0
      then do { s1 \<leftarrow> serial_putc dev port (CHR ''-'') s; print_number dev port (of_int (- sint v)) False s1 }
      else print_number dev port v False s)"

definition print_string :: "device \<Rightarrow> u16 \<Rightarrow> string option \<Rightarrow> 'a io_state_scheme \<Rightarrow> 'a io_state_scheme option" where
  "print_string dev port str s =
     (case str of None \<Rightarrow> serial_puts dev port ''(null)'' s | Some t \<Rightarrow> serial_puts dev port t s)"

definition print_hex_pointer :: "device \<Rightarrow> u16 \<Rightarrow> u64 \<Rightarrow> 'a io_state_scheme \<Rightarrow> 'a io_state_scheme option" where
  "print_hex_pointer dev port p s =
     do {
       s1 \<leftarrow> serial_puts dev port ''0x'' s;
       if p = 0 then serial_putc dev port (CHR ''0'') s1
       else do { tmp \<leftarrow> hex_loop 17 p []; send_back (serial_putc dev port) tmp s1 }
     }"

definition serial_directive :: "device \<Rightarrow> u16 \<Rightarrow> char \<Rightarrow> c_arg list \<Rightarrow> 'a io_state_scheme \<Rightarrow>
    (c_arg list \<times> 'a io_state_scheme) option" where
  "serial_directive dev port c args s =
     (if c = CHR ''s'' then do { (v, args') \<leftarrow> va_str args; s' \<leftarrow> print_string dev port v s; Some (args', s') }
      else if c = CHR ''d'' then do { (v, args') \<leftarrow> va_int args; s' \<leftarrow> print_signed dev port v s; Some (args', s') }
      else if c = CHR ''u'' then do { (v, args') \<leftarrow> va_int args; s' \<leftarrow> print_number dev port v False s; Some (args', s') }
      else if c = CHR ''x'' then do { (v, args') \<leftarrow> va_int args; s' \<leftarrow> print_number dev port v True s; Some (args', s') }
      else if c = CHR ''p'' then do { (v, args') \<leftarrow> va_ptr args; s' \<leftarrow> print_hex_pointer dev port v s; Some (args', s') }
      else if c = CHR ''c'' then do { (v, args') \<leftarrow> va_int args; s' \<leftarrow> serial_putc dev port (char_of (unat v)) s; Some (args', s') }
      else if c = CHR ''%'' then do { s' \<leftarrow> serial_putc dev port (CHR ''%'') s; Some (args, s') }
      else do { s1 \<leftarrow> serial_putc dev port (CHR ''%'') s; s2 \<leftarrow> serial_putc dev port c s1; Some (args, s2) })"

definition serial_printf :: "device \<Rightarrow> u16 \<Rightarrow> string option \<Rightarrow> c_arg list \<Rightarrow> 'a io_state_scheme \<Rightarrow> 'a io_state_scheme option" where
  "serial_printf dev port fmt args s =
     (case fmt of
        None \<Rightarrow> Some s
      | Some f \<Rightarrow> printf_loop (serial_putc dev port) (serial_directive dev port) (serial_putc dev port (CHR ''%'')) f args s)"

section \<open>What is printed\<close>

text \<open>The text of each conversion.\<close>

definition serial_conv :: "char \<Rightarrow> c_arg list \<Rightarrow> (string \<times> c_arg list) option" where
  "serial_conv c args =
     (if c = CHR ''s'' then map_option (map_prod (case_option ''(null)'' id) id) (va_str args)
      else if c = CHR ''d'' then map_option (map_prod signed_text id) (va_int args)
      else if c = CHR ''u'' then map_option (map_prod (number_text 10 \<circ> unat) id) (va_int args)
      else if c = CHR ''x'' then map_option (map_prod (number_text 16 \<circ> unat) id) (va_int args)
      else if c = CHR ''p'' then map_option (map_prod (\<lambda>p. ''0x'' @ number_text 16 (unat p)) id) (va_ptr args)
      else if c = CHR ''c'' then map_option (map_prod (\<lambda>v. [char_of (unat v)]) id) (va_int args)
      else if c = CHR ''%'' then Some (''%'', args)
      else Some ([CHR ''%'', c], args))"

definition serial_text :: "string \<Rightarrow> c_arg list \<Rightarrow> string option" where
  "serial_text = format_text serial_conv (Some ''%'')"

text \<open>The transmitter becomes ready again and again.\<close>

definition uart_live :: "device \<Rightarrow> u16 \<Rightarrow> bool" where
  "uart_live dev port \<longleftrightarrow> (\<forall>t. \<exists>t' \<ge> t. LSR_ready (dev t' (port + 5)))"

text \<open>\<open>s'\<close> is \<open>s\<close> after the text \<open>t\<close> was sent.\<close>

definition serial_shown :: "u16 \<Rightarrow> 'a io_state_scheme \<Rightarrow> string \<Rightarrow> 'a io_state_scheme \<Rightarrow> bool" where
  "serial_shown port s t s' \<longleftrightarrow> (\<exists>n. s' = s\<lparr>io_reads := n, io_out := io_out s @ map (\<lambda>c. (port, of_char c)) t\<rparr>)"

lemma serial_putc_ready:
  assumes "LSR_ready (dev (io_reads s + k) (port + 5))" "\<And>j. j < k \<Longrightarrow> \<not> LSR_ready (dev (io_reads s + j) (port + 5))"
  shows "serial_putc dev port c s = Some (s\<lparr>io_reads := Suc (io_reads s + k), io_out := io_out s @ [(port, of_char c)]\<rparr>)"
  using assms
proof (induction k arbitrary: s)
  case 0
  then show ?case by (subst serial_putc.simps) (simp add: inb_def outb_def)
next
  case (Suc k)
  let ?s = "s\<lparr>io_reads := Suc (io_reads s)\<rparr>"
  have "\<not> LSR_ready (dev (io_reads ?s + j) (port + 5))" if "j < k" for j
    using Suc.prems(2)[of "Suc j"] that by simp
  moreover have "LSR_ready (dev (io_reads ?s + k) (port + 5))" using Suc.prems(1) by simp
  ultimately show ?case
    using Suc.IH[of ?s] Suc.prems(2)[of 0] by (subst serial_putc.simps) (simp add: inb_def)
qed

lemma serial_putc_returns:
  "serial_putc dev port c s = Some s' \<Longrightarrow> \<exists>t \<ge> io_reads s. LSR_ready (dev t (port + 5))"
proof (induction rule: serial_putc.raw_induct[rotated, consumes 1])
  case (1 putc dev port c s r)
  show ?case
  proof (cases "LSR_ready (dev (io_reads s) (port + 5))")
    case False
    then show ?thesis using 1(1)[of dev port c "snd (inb dev (port + 5) s)" r] 1(2)
      by (auto simp: inb_def Let_def intro: Suc_leD)
  qed auto
qed

lemma serial_putc_live:
  assumes "uart_live dev port"
  shows "\<exists>s'. serial_putc dev port c s = Some s' \<and> serial_shown port s [c] s'"
proof -
  let ?P = "\<lambda>k. LSR_ready (dev (io_reads s + k) (port + 5))"
  obtain t where t: "io_reads s \<le> t" "LSR_ready (dev t (port + 5))" using assms unfolding uart_live_def by blast
  then have "?P (t - io_reads s)" by simp
  then have "?P (Least ?P)" by (rule LeastI)
  moreover have "\<not> ?P j" if "j < Least ?P" for j using that by (rule not_less_Least)
  ultimately have "serial_putc dev port c s =
      Some (s\<lparr>io_reads := Suc (io_reads s + Least ?P), io_out := io_out s @ [(port, of_char c)]\<rparr>)"
    by (rule serial_putc_ready)
  then show ?thesis unfolding serial_shown_def by auto
qed

interpretation serial: char_device "\<lambda>_. uart_live dev port" "serial_putc dev port" "serial_shown port" for dev port
proof (unfold_locales, goal_cases)
  case (1 s c)
  then show ?case using serial_putc_live by blast
next
  case (2 s)
  then show ?case unfolding serial_shown_def by (intro exI[of _ "io_reads s"]) simp
next
  case (3 s a s' b s'')
  then show ?case unfolding serial_shown_def by auto
qed

lemma print_number_shown:
  assumes "uart_live dev port"
  shows "\<exists>s'. print_number dev port v hex s = Some s' \<and> serial_shown port s (number_text (if hex then 16 else 10) (unat v)) s'"
proof (cases "v = 0")
  case True
  then show ?thesis using serial_putc_live[OF assms] by (simp add: print_number_def number_text_def)
next
  case False
  let ?b = "if hex then 16 else 10"
  have "(if hex then hex_loop 8 v [] else dec_loop 10 v []) = Some (rev (numeral_of ?b (unat v)))"
    using hex_loop_numeral[of "[]" v 8] dec_loop_numeral[of "[]" v 10] length_hex_u32[of v] length_dec_u32[of v] by simp
  then have "print_number dev port v hex s = send (serial_putc dev port) (numeral_of ?b (unat v)) s"
    using False by (simp add: print_number_def send_back_rev)
  with serial.send_shown[OF assms, of "numeral_of ?b (unat v)" s] False show ?thesis
    by (auto simp: number_text_def unat_eq_zero)
qed

lemma print_signed_shown:
  assumes "uart_live dev port"
  shows "\<exists>s'. print_signed dev port v s = Some s' \<and> serial_shown port s (signed_text v) s'"
proof (cases "sint v < 0")
  case False
  with unat_sint_nonneg[of v] print_number_shown[OF assms, of v False s] show ?thesis
    by (simp add: print_signed_def signed_text_def)
next
  case True
  obtain s1 where s1: "serial_putc dev port (CHR ''-'') s = Some s1" "serial_shown port s ''-'' s1"
    using serial_putc_live[OF assms] by blast
  have "unat (of_int (- sint v) :: u32) = nat \<bar>sint v\<bar>" using unat_uminus_sint[OF True] by simp
  with print_number_shown[OF assms, of "of_int (- sint v)" False s1] obtain s2 where
    s2: "print_number dev port (of_int (- sint v)) False s1 = Some s2"
      "serial_shown port s1 (number_text 10 (nat \<bar>sint v\<bar>)) s2" by auto
  from serial.shown_trans[OF s1(2) s2(2)] True s1(1) s2(1) show ?thesis
    by (simp add: print_signed_def signed_text_def)
qed

lemma print_hex_pointer_shown:
  assumes "uart_live dev port"
  shows "\<exists>s'. print_hex_pointer dev port p s = Some s' \<and> serial_shown port s (''0x'' @ number_text 16 (unat p)) s'"
proof -
  obtain s1 where s1: "serial_puts dev port ''0x'' s = Some s1" "serial_shown port s ''0x'' s1"
    using serial.send_shown[OF assms] unfolding serial_puts_def by blast
  have "\<exists>s2. (if p = 0 then serial_putc dev port (CHR ''0'') s1
      else do { tmp \<leftarrow> hex_loop 17 p []; send_back (serial_putc dev port) tmp s1 }) = Some s2 \<and>
      serial_shown port s1 (number_text 16 (unat p)) s2"
  proof (cases "p = 0")
    case True
    then show ?thesis using serial_putc_live[OF assms] by (simp add: number_text_def)
  next
    case False
    have "hex_loop 17 p [] = Some (rev (numeral_of 16 (unat p)))"
      using hex_loop_numeral[of "[]" p 17] length_hex_u64[of p] by simp
    with serial.send_shown[OF assms, of "numeral_of 16 (unat p)" s1] False show ?thesis
      by (auto simp: number_text_def unat_eq_zero send_back_rev)
  qed
  then obtain s2 where "(if p = 0 then serial_putc dev port (CHR ''0'') s1
      else do { tmp \<leftarrow> hex_loop 17 p []; send_back (serial_putc dev port) tmp s1 }) = Some s2"
    "serial_shown port s1 (number_text 16 (unat p)) s2" by blast
  with s1(1) serial.shown_trans[OF s1(2)] show ?thesis
    unfolding print_hex_pointer_def s1(1) Option.bind.bind_lunit by blast
qed

lemma serial_directive_shown:
  assumes live: "uart_live dev port" and conv: "serial_conv c args = Some (t, args')"
  shows "\<exists>s'. serial_directive dev port c args s = Some (args', s') \<and> serial_shown port s t s'"
proof -
  note L = print_number_shown[OF live] print_signed_shown[OF live] print_hex_pointer_shown[OF live]
    serial_putc_live[OF live] serial.send_shown[OF live, folded serial_puts_def]
  have two: "\<exists>s1 s2. serial_putc dev port (CHR ''%'') s = Some s1 \<and> serial_putc dev port c s1 = Some s2 \<and>
      serial_shown port s [CHR ''%'', c] s2"
  proof -
    obtain s1 where s1: "serial_putc dev port (CHR ''%'') s = Some s1" "serial_shown port s ''%'' s1"
      using L(4) by blast
    obtain s2 where s2: "serial_putc dev port c s1 = Some s2" "serial_shown port s1 [c] s2"
      using L(4) by blast
    from serial.shown_trans[OF s1(2) s2(2)] s1(1) s2(1) show ?thesis by simp
  qed
  have str: "\<exists>s'. print_string dev port v s = Some s' \<and> serial_shown port s (case_option ''(null)'' id v) s'" for v
    using L(5)[of "case_option ''(null)'' id v" s] by (cases v) (auto simp: print_string_def)
  consider (s) v where "c = CHR ''s''" "va_str args = Some (v, args')" "t = case_option ''(null)'' id v"
    | (d) v where "c = CHR ''d''" "va_int args = Some (v, args')" "t = signed_text v"
    | (u) v where "c = CHR ''u''" "va_int args = Some (v, args')" "t = number_text 10 (unat v)"
    | (x) v where "c = CHR ''x''" "va_int args = Some (v, args')" "t = number_text 16 (unat v)"
    | (p) v where "c = CHR ''p''" "va_ptr args = Some (v, args')" "t = ''0x'' @ number_text 16 (unat v)"
    | (c) v where "c = CHR ''c''" "va_int args = Some (v, args')" "t = [char_of (unat v)]"
    | (percent) "c = CHR ''%''" "t = ''%''" "args' = args"
    | (other) "c \<notin> set ''sduxpc%''" "t = [CHR ''%'', c]" "args' = args"
    using conv by (auto simp: serial_conv_def split: if_split_asm)
  then show ?thesis
  proof cases
    case (s v)
    then show ?thesis using str[of v] by (auto simp: serial_directive_def)
  next
    case (d v)
    then show ?thesis using L(2)[of v s] by (auto simp: serial_directive_def)
  next
    case (u v)
    then show ?thesis using L(1)[of v False s] by (auto simp: serial_directive_def)
  next
    case (x v)
    then show ?thesis using L(1)[of v True s] by (auto simp: serial_directive_def)
  next
    case (p v)
    then show ?thesis using L(3)[of v s] by (auto simp: serial_directive_def)
  next
    case (c v)
    then show ?thesis using L(4)[of "char_of (unat v)" s] by (auto simp: serial_directive_def)
  next
    case percent
    then show ?thesis using L(4)[of "CHR ''%''" s] by (auto simp: serial_directive_def)
  next
    case other
    then show ?thesis using two by (auto simp: serial_directive_def)
  qed
qed

lemma serial_directive_none: "serial_conv c args = None \<Longrightarrow> serial_directive dev port c args s = None"
  by (auto simp: serial_conv_def serial_directive_def split: if_split_asm)

lemma serial_printf_shown:
  assumes "uart_live dev port"
  shows "case serial_text fmt args of
      Some t \<Rightarrow> \<exists>s'. serial_printf dev port (Some fmt) args s = Some s' \<and> serial_shown port s t s'
    | None \<Rightarrow> serial_printf dev port (Some fmt) args s = None"
proof -
  have "case format_text serial_conv (Some ''%'') fmt args of
      Some t \<Rightarrow> \<exists>s'. printf_loop (serial_putc dev port) (serial_directive dev port) (serial_putc dev port (CHR ''%'')) fmt args s =
        Some s' \<and> uart_live dev port \<and> serial_shown port s t s'
    | None \<Rightarrow> printf_loop (serial_putc dev port) (serial_directive dev port) (serial_putc dev port (CHR ''%'')) fmt args s = None"
    by (rule serial.printf_shown)
       (use assms serial_directive_shown serial_directive_none serial_putc_live in auto)
  then show ?thesis
    unfolding serial_text_def serial_printf_def by (cases "format_text serial_conv (Some ''%'') fmt args") auto
qed

section \<open>Properties\<close>

text \<open>A device whose transmitter is always ready.\<close>

definition ready_device :: device where
  "ready_device t p = 0x60"

lemma ready_device_live: "uart_live ready_device port"
  by (auto simp: uart_live_def ready_device_def LSR_ready_def)

text \<open>
  \<open>serial_putc\<close> sends its character, once, and returns, exactly when the transmitter becomes
  ready at some poll; it never returns on a port whose transmitter stays busy.
\<close>

theorem serial_putc_liveness:
  "(case serial_putc dev port c s of
      None \<Rightarrow> \<forall>t \<ge> io_reads s. \<not> LSR_ready (dev t (port + 5))
    | Some s' \<Rightarrow> (\<exists>t \<ge> io_reads s. LSR_ready (dev t (port + 5)) \<and> s' = s\<lparr>io_reads := Suc t, io_out := io_out s @ [(port, of_char c)]\<rparr>))"
proof (cases "\<exists>t \<ge> io_reads s. LSR_ready (dev t (port + 5))")
  case False
  then have "serial_putc dev port c s = None"
    using serial_putc_returns[of dev port c s] by (cases "serial_putc dev port c s") auto
  with False show ?thesis by simp
next
  case True
  let ?P = "\<lambda>k. LSR_ready (dev (io_reads s + k) (port + 5))"
  obtain t where "io_reads s \<le> t" "LSR_ready (dev t (port + 5))" using True by blast
  then have "?P (t - io_reads s)" by simp
  then have P: "?P (Least ?P)" by (rule LeastI)
  moreover have "\<not> ?P j" if "j < Least ?P" for j using that by (rule not_less_Least)
  ultimately have "serial_putc dev port c s =
      Some (s\<lparr>io_reads := Suc (io_reads s + Least ?P), io_out := io_out s @ [(port, of_char c)]\<rparr>)"
    by (rule serial_putc_ready)
  with P show ?thesis by (auto intro!: exI[of _ "io_reads s + Least ?P"])
qed

theorem serial_putc_liveness_witness:
  "serial_putc ready_device COM1 (CHR ''A'') \<lparr>io_reads = 0, io_out = []\<rparr> =
     Some \<lparr>io_reads = 1, io_out = [(COM1, 65)]\<rparr>"
proof -
  have "serial_putc ready_device COM1 (CHR ''A'') \<lparr>io_reads = 0, io_out = []\<rparr> \<noteq> None"
    using serial_putc_liveness[where dev = ready_device and port = COM1 and c = "CHR ''A''" and
        s = "\<lparr>io_reads = 0, io_out = []\<rparr>"]
    by (rule contrapos_pn) (simp add: ready_device_def LSR_ready_def exI[of _ 0])
  then show ?thesis by (subst serial_putc.simps) (simp add: ready_device_def LSR_ready_def inb_def outb_def)
qed

text \<open>
  On a live port \<open>serial_printf\<close> returns and sends exactly the text of its format, for every
  format and all arguments that match it; the numbers it formats never overflow their buffers. It
  has no result only where a conversion finds no argument of its kind.
\<close>

theorem serial_printf_prints:
  assumes "uart_live dev port"
  shows "case serial_text fmt args of
      Some t \<Rightarrow> \<exists>n. serial_printf dev port (Some fmt) args s =
        Some (s\<lparr>io_reads := n, io_out := io_out s @ map (\<lambda>c. (port, of_char c)) t\<rparr>)
    | None \<Rightarrow> serial_printf dev port (Some fmt) args s = None"
  using serial_printf_shown[OF assms, of fmt args s] by (auto simp: serial_shown_def split: option.splits)

theorem serial_printf_prints_witness:
  "\<exists>n. serial_printf ready_device COM1 (Some ''%s=%d!'') [CStr (Some ''x''), CInt (-7)] \<lparr>io_reads = 0, io_out = []\<rparr> =
     Some \<lparr>io_reads = n, io_out = map (\<lambda>c. (COM1, of_char c)) ''x=-7!''\<rparr>"
proof -
  have "serial_text ''%s=%d!'' [CStr (Some ''x''), CInt (-7)] = Some ''x=-7!''" by code_simp
  with serial_printf_prints[OF ready_device_live, where fmt = "''%s=%d!''" and port = COM1 and
      args = "[CStr (Some ''x''), CInt (-7)]" and s = "\<lparr>io_reads = 0, io_out = []\<rparr>"]
  show ?thesis by simp
qed

end
