(* ===== verification/Vga_Console.thy ===== *)
theory Vga_Console
  imports Serial
begin

text \<open>
  The text console: kernel/drivers/vga.c, 80 by 25 cells of video memory at 0xB8000, each a
  character and a color, with a cursor. The memory is a list of 2000 cells; a write
  outside them, which would hit other memory, is None.
\<close>

section \<open>State\<close>

abbreviation VGA_WIDTH :: nat where
  "VGA_WIDTH \<equiv> 80"

abbreviation VGA_HEIGHT :: nat where
  "VGA_HEIGHT \<equiv> 25"

record vga_state = io_state +
  vga_mem :: "u16 list"
  vga_row :: nat
  vga_col :: nat
  vga_color :: u8

definition vga_store :: "nat \<Rightarrow> u16 \<Rightarrow> 'a vga_state_scheme \<Rightarrow> 'a vga_state_scheme option" where
  "vga_store i v s = (if i < length (vga_mem s) then Some (s\<lparr>vga_mem := (vga_mem s)[i := v]\<rparr>) else None)"

section \<open>Operations\<close>

definition vga_entry_color :: "u8 \<Rightarrow> u8 \<Rightarrow> u8" where
  "vga_entry_color fg bg = push_bit 4 bg OR (fg AND 0x0F)"

definition vga_entry :: "char \<Rightarrow> u8 \<Rightarrow> u16" where
  "vga_entry uc color = of_char uc OR push_bit 8 (ucast color)"

definition vga_set_color :: "u8 \<Rightarrow> u8 \<Rightarrow> 'a vga_state_scheme \<Rightarrow> 'a vga_state_scheme" where
  "vga_set_color fg bg s = s\<lparr>vga_color := vga_entry_color fg bg\<rparr>"

definition vga_clear :: "'a vga_state_scheme \<Rightarrow> 'a vga_state_scheme option" where
  "vga_clear s = do {
     s1 \<leftarrow> for_loop 0 VGA_HEIGHT (\<lambda>y. for_loop 0 VGA_WIDTH (\<lambda>x s.
             vga_store (y * VGA_WIDTH + x) (vga_entry (CHR '' '') (vga_color s)) s)) s;
     Some (s1\<lparr>vga_row := 0, vga_col := 0\<rparr>)
   }"

text \<open>Of \<open>enum vga_color\<close>, the colors the kernel uses.\<close>

abbreviation VGA_COLOR_BLACK :: u8 where "VGA_COLOR_BLACK \<equiv> 0"
abbreviation VGA_COLOR_LIGHT_GREY :: u8 where "VGA_COLOR_LIGHT_GREY \<equiv> 7"
abbreviation VGA_COLOR_DARK_GREY :: u8 where "VGA_COLOR_DARK_GREY \<equiv> 8"
abbreviation VGA_COLOR_LIGHT_GREEN :: u8 where "VGA_COLOR_LIGHT_GREEN \<equiv> 10"
abbreviation VGA_COLOR_LIGHT_CYAN :: u8 where "VGA_COLOR_LIGHT_CYAN \<equiv> 11"
abbreviation VGA_COLOR_LIGHT_RED :: u8 where "VGA_COLOR_LIGHT_RED \<equiv> 12"
abbreviation VGA_COLOR_LIGHT_MAGENTA :: u8 where "VGA_COLOR_LIGHT_MAGENTA \<equiv> 13"
abbreviation VGA_COLOR_LIGHT_BROWN :: u8 where "VGA_COLOR_LIGHT_BROWN \<equiv> 14"
abbreviation VGA_COLOR_WHITE :: u8 where "VGA_COLOR_WHITE \<equiv> 15"

definition vga_init :: "'a vga_state_scheme \<Rightarrow> 'a vga_state_scheme option" where
  "vga_init s = vga_clear (vga_set_color VGA_COLOR_LIGHT_GREY VGA_COLOR_BLACK s)"

definition vga_scroll :: "'a vga_state_scheme \<Rightarrow> 'a vga_state_scheme option" where
  "vga_scroll s = do {
     s1 \<leftarrow> for_loop 1 VGA_HEIGHT (\<lambda>y. for_loop 0 VGA_WIDTH (\<lambda>x s.
             vga_store ((y - 1) * VGA_WIDTH + x) (vga_mem s ! (y * VGA_WIDTH + x)) s)) s;
     s2 \<leftarrow> for_loop 0 VGA_WIDTH (\<lambda>x s.
             vga_store ((VGA_HEIGHT - 1) * VGA_WIDTH + x) (vga_entry (CHR '' '') (vga_color s)) s) s1;
     Some (s2\<lparr>vga_row := VGA_HEIGHT - 1\<rparr>)
   }"

definition vga_newline :: "'a vga_state_scheme \<Rightarrow> 'a vga_state_scheme option" where
  "vga_newline s =
     (let s1 = s\<lparr>vga_col := 0, vga_row := vga_row s + 1\<rparr>
      in if VGA_HEIGHT \<le> vga_row s1
         then do { s2 \<leftarrow> vga_scroll s1; Some (s2\<lparr>vga_row := VGA_HEIGHT - 1\<rparr>) }
         else Some s1)"

definition vga_putc :: "char \<Rightarrow> 'a vga_state_scheme \<Rightarrow> 'a vga_state_scheme option" where
  "vga_putc c s =
     (if c = CHR 0x0A then vga_newline s
      else do {
        s1 \<leftarrow> vga_store (vga_row s * VGA_WIDTH + vga_col s) (vga_entry c (vga_color s)) s;
        let s2 = s1\<lparr>vga_col := vga_col s1 + 1\<rparr>;
        if VGA_WIDTH \<le> vga_col s2 then vga_newline s2 else Some s2
      })"

definition vga_puts :: "string \<Rightarrow> 'a vga_state_scheme \<Rightarrow> 'a vga_state_scheme option" where
  "vga_puts = send vga_putc"

text \<open>
  \<open>do { buf[i++] = '0' + val % 10; val /= 10; } while (val);\<close> is the loop above after one round
  without a test; the buffer has \<open>n\<close> characters.
\<close>

definition dec_do_loop :: "nat \<Rightarrow> u32 \<Rightarrow> string option" where
  "dec_do_loop n v = (if n = 0 then None else dec_loop n (of_nat (unat v div 10)) [dec_digit (unat v mod 10)])"

definition hex_do_loop :: "nat \<Rightarrow> u32 \<Rightarrow> string option" where
  "hex_do_loop n v = (if n = 0 then None else hex_loop n (drop_bit 4 v) [hex_digits ! unat (v AND 0xF)])"

text \<open>
  In the conversion \<open>%d\<close> the negation of the least integer overflows, which is undefined: None.
\<close>

definition vga_directive :: "char \<Rightarrow> c_arg list \<Rightarrow> 'a vga_state_scheme \<Rightarrow> (c_arg list \<times> 'a vga_state_scheme) option" where
  "vga_directive c args s =
     (if c = CHR ''s'' then do { (v, args') \<leftarrow> va_str args;
        s' \<leftarrow> vga_puts (case v of Some t \<Rightarrow> t | None \<Rightarrow> ''(null)'') s; Some (args', s') }
      else if c = CHR ''c'' then do { (v, args') \<leftarrow> va_int args; s' \<leftarrow> vga_putc (char_of (unat v)) s; Some (args', s') }
      else if c = CHR ''d'' then do {
        (v, args') \<leftarrow> va_int args;
        s1 \<leftarrow> (if sint v < 0 then vga_putc (CHR ''-'') s else Some s);
        v1 \<leftarrow> (if sint v < 0 then if sint v = - 2147483648 then None else Some (- v) else Some v);
        buf \<leftarrow> dec_do_loop 12 v1;
        s' \<leftarrow> send_back vga_putc buf s1;
        Some (args', s') }
      else if c = CHR ''u'' then do { (v, args') \<leftarrow> va_int args; buf \<leftarrow> dec_do_loop 12 v;
        s' \<leftarrow> send_back vga_putc buf s; Some (args', s') }
      else if c = CHR ''x'' then do { (v, args') \<leftarrow> va_int args; buf \<leftarrow> hex_do_loop 9 v;
        s' \<leftarrow> send_back vga_putc buf s; Some (args', s') }
      else if c = CHR ''%'' then do { s' \<leftarrow> vga_putc (CHR ''%'') s; Some (args, s') }
      else do { s1 \<leftarrow> vga_putc (CHR ''%'') s; s2 \<leftarrow> vga_putc c s1; Some (args, s2) })"

text \<open>After a percent sign at its end the loop reads past the format: None.\<close>

definition vga_printf :: "string \<Rightarrow> c_arg list \<Rightarrow> 'a vga_state_scheme \<Rightarrow> 'a vga_state_scheme option" where
  "vga_printf fmt args s = printf_loop vga_putc vga_directive (\<lambda>_. None) fmt args s"

section \<open>The screen as lines\<close>

text \<open>
  The specification of the console: lines of cells, a cursor, and a newline that drops the first
  line when there is no room for another one.
\<close>

record terminal =
  lines :: "u16 list list"
  cursor_row :: nat
  cursor_col :: nat

definition term_newline :: "u16 \<Rightarrow> terminal \<Rightarrow> terminal" where
  "term_newline blank t =
     (if Suc (cursor_row t) < length (lines t) then t\<lparr>cursor_row := Suc (cursor_row t), cursor_col := 0\<rparr>
      else t\<lparr>lines := tl (lines t) @ [replicate VGA_WIDTH blank], cursor_row := length (lines t) - 1, cursor_col := 0\<rparr>)"

definition term_putc :: "u8 \<Rightarrow> char \<Rightarrow> terminal \<Rightarrow> terminal" where
  "term_putc color c t =
     (if c = CHR 0x0A then term_newline (vga_entry (CHR '' '') color) t
      else let r = cursor_row t; k = cursor_col t;
               t1 = t\<lparr>lines := (lines t)[r := (lines t ! r)[k := vga_entry c color]], cursor_col := Suc k\<rparr>
           in if Suc k < VGA_WIDTH then t1 else term_newline (vga_entry (CHR '' '') color) t1)"

definition vga_line :: "u16 list \<Rightarrow> nat \<Rightarrow> u16 list" where
  "vga_line m r = take VGA_WIDTH (drop (r * VGA_WIDTH) m)"

definition vga_abs :: "'a vga_state_scheme \<Rightarrow> terminal" where
  "vga_abs s = \<lparr>lines = map (vga_line (vga_mem s)) [0..<VGA_HEIGHT], cursor_row = vga_row s, cursor_col = vga_col s\<rparr>"

definition vga_ok :: "'a vga_state_scheme \<Rightarrow> bool" where
  "vga_ok s \<longleftrightarrow> length (vga_mem s) = 2000 \<and> vga_row s < VGA_HEIGHT \<and> vga_col s < VGA_WIDTH"

section \<open>The memory operations\<close>

text \<open>\<open>s'\<close> differs from \<open>s\<close> in the console only, and not in its color.\<close>

definition vga_frame :: "'a vga_state_scheme \<Rightarrow> 'a vga_state_scheme \<Rightarrow> bool" where
  "vga_frame s s' \<longleftrightarrow> s' = s\<lparr>vga_mem := vga_mem s', vga_row := vga_row s', vga_col := vga_col s'\<rparr>"

lemma vga_frame_refl [simp]: "vga_frame s s"
  by (simp add: vga_frame_def)

lemma vga_frame_trans: "vga_frame s s' \<Longrightarrow> vga_frame s' s'' \<Longrightarrow> vga_frame s s''"
  unfolding vga_frame_def by (cases s; cases s'; cases s'') simp

lemma vga_frame_color: "vga_frame s s' \<Longrightarrow> vga_color s' = vga_color s"
  unfolding vga_frame_def by (cases s; cases s') simp

lemma vga_frame_upd [simp]:
  "vga_frame s (s\<lparr>vga_mem := m\<rparr>)" "vga_frame s (s\<lparr>vga_row := r\<rparr>)" "vga_frame s (s\<lparr>vga_col := k\<rparr>)"
  by (simp_all add: vga_frame_def)

lemma length_vga_line [simp]: "length m = 2000 \<Longrightarrow> r < VGA_HEIGHT \<Longrightarrow> length (vga_line m r) = VGA_WIDTH"
  by (simp add: vga_line_def)

lemma nth_vga_line: "length m = 2000 \<Longrightarrow> r < VGA_HEIGHT \<Longrightarrow> k < VGA_WIDTH \<Longrightarrow> vga_line m r ! k = m ! (r * VGA_WIDTH + k)"
  by (simp add: vga_line_def)

text \<open>A loop that stores \<open>g m i\<close> in the cells \<open>j, j+1, ...\<close>, row by row.\<close>

lemma store_row:
  assumes P: "length m0 = 2000" "j + n \<le> 2000" "\<And>m x. length m = 2000 \<Longrightarrow> x < n \<Longrightarrow> (\<forall>i<2000. j + x \<le> i \<longrightarrow> m ! i = m0 ! i) \<Longrightarrow>
      v x (s\<lparr>vga_mem := m\<rparr>) = g x"
  shows "\<exists>m. for_loop 0 n (\<lambda>x s. vga_store (j + x) (v x s) s) (s\<lparr>vga_mem := m0\<rparr>) = Some (s\<lparr>vga_mem := m\<rparr>) \<and> length m = 2000 \<and>
    (\<forall>i<2000. m ! i = (if j \<le> i \<and> i < j + n then g (i - j) else m0 ! i))"
proof -
  let ?P = "\<lambda>x s'. \<exists>m. s' = s\<lparr>vga_mem := m\<rparr> \<and> length m = 2000 \<and>
    (\<forall>i<2000. m ! i = (if j \<le> i \<and> i < j + x then g (i - j) else m0 ! i))"
  have "\<exists>s'. for_loop 0 n (\<lambda>x s. vga_store (j + x) (v x s) s) (s\<lparr>vga_mem := m0\<rparr>) = Some s' \<and> ?P n s'"
  proof (rule for_loop_rule)
    show "?P 0 (s\<lparr>vga_mem := m0\<rparr>)" using P(1) by (intro exI[of _ m0]) auto
    fix x s' assume x: "x < n" and "?P x s'"
    then obtain m where m: "s' = s\<lparr>vga_mem := m\<rparr>" "length m = 2000"
      "\<forall>i<2000. m ! i = (if j \<le> i \<and> i < j + x then g (i - j) else m0 ! i)" by blast
    have "v x s' = g x" unfolding m(1) by (rule P(3)[OF m(2) x]) (simp add: m(3))
    moreover have "\<forall>i<2000. (m[j + x := g x]) ! i = (if j \<le> i \<and> i < j + Suc x then g (i - j) else m0 ! i)"
      using m(2,3) P(2) x by (auto simp: nth_list_update)
    moreover have "vga_store (j + x) (g x) s' = Some (s\<lparr>vga_mem := m[j + x := g x]\<rparr>)"
      using m(1,2) P(2) x by (simp add: vga_store_def)
    ultimately show "\<exists>s''. vga_store (j + x) (v x s') s' = Some s'' \<and> ?P (Suc x) s''"
      using m(2) by (intro exI[of _ "s\<lparr>vga_mem := m[j + x := g x]\<rparr>"] conjI exI[of _ "m[j + x := g x]"]) simp_all
  qed simp
  then show ?thesis by blast
qed

lemma vga_clear_ok:
  assumes "length (vga_mem s) = 2000"
  shows "vga_clear s = Some (s\<lparr>vga_mem := replicate 2000 (vga_entry (CHR '' '') (vga_color s)), vga_row := 0, vga_col := 0\<rparr>)"
proof -
  let ?b = "vga_entry (CHR '' '') (vga_color s)"
  let ?row = "\<lambda>y. for_loop 0 VGA_WIDTH (\<lambda>x s. vga_store (y * VGA_WIDTH + x) (vga_entry (CHR '' '') (vga_color s)) s)"
  let ?P = "\<lambda>y s'. \<exists>m. s' = s\<lparr>vga_mem := m\<rparr> \<and> length m = 2000 \<and> (\<forall>i < y * VGA_WIDTH. m ! i = ?b)"
  have "\<exists>s'. for_loop 0 VGA_HEIGHT ?row s = Some s' \<and> ?P VGA_HEIGHT s'"
  proof (rule for_loop_rule)
    show "?P 0 s" using assms by (intro exI[of _ "vga_mem s"]) simp
    fix y s' assume y: "y < VGA_HEIGHT" and "?P y s'"
    then obtain m where m: "s' = s\<lparr>vga_mem := m\<rparr>" "length m = 2000" "\<forall>i < y * VGA_WIDTH. m ! i = ?b" by blast
    obtain m' where m': "?row y (s\<lparr>vga_mem := m\<rparr>) = Some (s\<lparr>vga_mem := m'\<rparr>)" "length m' = 2000"
      "\<forall>i<2000. m' ! i = (if y * VGA_WIDTH \<le> i \<and> i < y * VGA_WIDTH + VGA_WIDTH then ?b else m ! i)"
      using store_row[of m "y * VGA_WIDTH" VGA_WIDTH "\<lambda>_ s. vga_entry (CHR '' '') (vga_color s)" s "\<lambda>_. ?b"] m(2) y by auto
    have "\<forall>i < Suc y * VGA_WIDTH. m' ! i = ?b" using m'(3) m(3) y by auto
    with m' show "\<exists>s''. ?row y s' = Some s'' \<and> ?P (Suc y) s''" unfolding m(1) by blast
  qed simp
  then obtain m where m: "for_loop 0 VGA_HEIGHT ?row s = Some (s\<lparr>vga_mem := m\<rparr>)" "length m = 2000" "\<forall>i<2000. m ! i = ?b"
    by auto
  have "m = replicate 2000 ?b" using m(2,3) by (intro nth_equalityI) simp_all
  with m(1) show ?thesis by (simp add: vga_clear_def)
qed

lemma vga_scroll_ok:
  assumes "length (vga_mem s) = 2000"
  shows "vga_scroll s = Some (s\<lparr>vga_mem := drop VGA_WIDTH (vga_mem s) @ replicate VGA_WIDTH (vga_entry (CHR '' '') (vga_color s)), vga_row := VGA_HEIGHT - 1\<rparr>)"
proof -
  let ?b = "vga_entry (CHR '' '') (vga_color s)" and ?M = "vga_mem s"
  let ?row = "\<lambda>y. for_loop 0 VGA_WIDTH (\<lambda>x s. vga_store ((y - 1) * VGA_WIDTH + x) (vga_mem s ! (y * VGA_WIDTH + x)) s)"
  let ?P = "\<lambda>y s'. \<exists>m. s' = s\<lparr>vga_mem := m\<rparr> \<and> length m = 2000 \<and>
    (\<forall>i<2000. m ! i = (if i < (y - 1) * VGA_WIDTH then ?M ! (i + VGA_WIDTH) else ?M ! i))"
  have "\<exists>s'. for_loop 1 VGA_HEIGHT ?row s = Some s' \<and> ?P VGA_HEIGHT s'"
  proof (rule for_loop_rule)
    show "?P 1 s" using assms by (intro exI[of _ ?M]) simp
    fix y s' assume y: "1 \<le> y" "y < VGA_HEIGHT" and "?P y s'"
    then obtain m where m: "s' = s\<lparr>vga_mem := m\<rparr>" "length m = 2000"
      "\<forall>i<2000. m ! i = (if i < (y - 1) * VGA_WIDTH then ?M ! (i + VGA_WIDTH) else ?M ! i)" by blast
    obtain m' where m': "?row y (s\<lparr>vga_mem := m\<rparr>) = Some (s\<lparr>vga_mem := m'\<rparr>)" "length m' = 2000"
      "\<forall>i<2000. m' ! i = (if (y - 1) * VGA_WIDTH \<le> i \<and> i < (y - 1) * VGA_WIDTH + VGA_WIDTH then
        ?M ! (y * VGA_WIDTH + (i - (y - 1) * VGA_WIDTH)) else m ! i)"
    proof -
      have "vga_mem (s\<lparr>vga_mem := m0\<rparr>) ! (y * VGA_WIDTH + x) = ?M ! (y * VGA_WIDTH + x)"
        if "x < VGA_WIDTH" "\<forall>i<2000. (y - 1) * VGA_WIDTH + x \<le> i \<longrightarrow> m0 ! i = m ! i" for m0 x
      proof -
        have i: "y * VGA_WIDTH + x < 2000" "(y - 1) * VGA_WIDTH + x \<le> y * VGA_WIDTH + x"
          "\<not> y * VGA_WIDTH + x < (y - 1) * VGA_WIDTH" using that(1) y by linarith+
        have "m0 ! (y * VGA_WIDTH + x) = m ! (y * VGA_WIDTH + x)" using that(2) i(1,2) by blast
        also have "\<dots> = ?M ! (y * VGA_WIDTH + x)" using m(3) i(1,3) by simp
        finally show ?thesis by simp
      qed
      moreover have "(y - 1) * VGA_WIDTH + VGA_WIDTH \<le> 2000" using y by linarith
      ultimately show thesis
        using store_row[of m "(y - 1) * VGA_WIDTH" VGA_WIDTH "\<lambda>x s. vga_mem s ! (y * VGA_WIDTH + x)" s
          "\<lambda>x. ?M ! (y * VGA_WIDTH + x)"] m(2) that by blast
    qed
    have "m' ! i = (if i < (Suc y - 1) * VGA_WIDTH then ?M ! (i + VGA_WIDTH) else ?M ! i)" if i: "i < 2000" for i
    proof (cases "(y - 1) * VGA_WIDTH \<le> i \<and> i < (y - 1) * VGA_WIDTH + VGA_WIDTH")
      case True
      then have "y * VGA_WIDTH + (i - (y - 1) * VGA_WIDTH) = i + VGA_WIDTH" "i < y * VGA_WIDTH" using y by linarith+
      with True m'(3) i show ?thesis by simp
    next
      case False
      then have "i < (y - 1) * VGA_WIDTH \<longleftrightarrow> i < y * VGA_WIDTH" using y by linarith
      with False m'(3) m(3) i show ?thesis by auto
    qed
    with m'(1,2) show "\<exists>s''. ?row y s' = Some s'' \<and> ?P (Suc y) s''" unfolding m(1) by blast
  qed simp
  then obtain m where m: "for_loop 1 VGA_HEIGHT ?row s = Some (s\<lparr>vga_mem := m\<rparr>)" "length m = 2000"
    "\<forall>i<2000. m ! i = (if i < 1920 then ?M ! (i + VGA_WIDTH) else ?M ! i)" by auto
  obtain m' where m': "for_loop 0 VGA_WIDTH (\<lambda>x s. vga_store ((VGA_HEIGHT - 1) * VGA_WIDTH + x) (vga_entry (CHR '' '') (vga_color s)) s)
      (s\<lparr>vga_mem := m\<rparr>) = Some (s\<lparr>vga_mem := m'\<rparr>)" "length m' = 2000"
    "\<forall>i<2000. m' ! i = (if 1920 \<le> i \<and> i < 2000 then ?b else m ! i)"
    using store_row[of m 1920 VGA_WIDTH "\<lambda>_ s. vga_entry (CHR '' '') (vga_color s)" s "\<lambda>_. ?b"] m(2) by auto
  have "m' = drop VGA_WIDTH ?M @ replicate VGA_WIDTH ?b"
    using m'(2,3) m(3) assms by (intro nth_equalityI) (simp_all add: nth_append add.commute)
  with m(1) m'(1) show ?thesis by (simp add: vga_scroll_def)
qed

section \<open>The console refines its specification\<close>

lemma vga_line_scroll:
  assumes "length m = 2000" "r < VGA_HEIGHT"
  shows "vga_line (drop VGA_WIDTH m @ replicate VGA_WIDTH b) r =
    (if r < 24 then vga_line m (Suc r) else replicate VGA_WIDTH b)"
proof (cases "r < 24")
  case True
  then have "r * VGA_WIDTH + VGA_WIDTH \<le> length (drop VGA_WIDTH m)" using assms by simp
  with True show ?thesis by (simp add: vga_line_def add.commute)
next
  case False
  then have "r = 24" using assms(2) by simp
  then show ?thesis using assms(1) by (simp add: vga_line_def)
qed

lemma vga_lines_scroll:
  assumes "length m = 2000"
  shows "map (vga_line (drop VGA_WIDTH m @ replicate VGA_WIDTH b)) [0..<VGA_HEIGHT] =
    tl (map (vga_line m) [0..<VGA_HEIGHT]) @ [replicate VGA_WIDTH b]"
proof (rule nth_equalityI)
  fix r assume "r < length (map (vga_line (drop VGA_WIDTH m @ replicate VGA_WIDTH b)) [0..<VGA_HEIGHT])"
  then have r: "r < VGA_HEIGHT" by simp
  with vga_line_scroll[OF assms r, of b]
  show "map (vga_line (drop VGA_WIDTH m @ replicate VGA_WIDTH b)) [0..<VGA_HEIGHT] ! r =
      (tl (map (vga_line m) [0..<VGA_HEIGHT]) @ [replicate VGA_WIDTH b]) ! r"
    by (simp add: nth_append nth_tl del: upt_rec_numeral)
qed (simp del: upt_rec_numeral)

lemma vga_newline_refines:
  assumes "length (vga_mem s) = 2000" "vga_row s < VGA_HEIGHT"
  shows "\<exists>s'. vga_newline s = Some s' \<and> vga_ok s' \<and> vga_frame s s' \<and>
    vga_abs s' = term_newline (vga_entry (CHR '' '') (vga_color s)) (vga_abs s)"
proof (cases "Suc (vga_row s) < VGA_HEIGHT")
  case True
  then show ?thesis
    using assms by (simp add: vga_newline_def Let_def vga_ok_def vga_abs_def term_newline_def vga_frame_def del: upt_rec_numeral)
next
  case False
  let ?s1 = "s\<lparr>vga_col := 0, vga_row := vga_row s + 1\<rparr>"
  have r: "vga_row s = 24" using False assms(2) by simp
  have n: "vga_newline s = Some (s\<lparr>vga_mem := drop VGA_WIDTH (vga_mem s) @ replicate VGA_WIDTH (vga_entry (CHR '' '') (vga_color s)),
      vga_row := 24, vga_col := 0\<rparr>)"
    using vga_scroll_ok[of ?s1] assms(1) r by (simp add: vga_newline_def)
  show ?thesis unfolding n
    using assms(1) r by (simp add: vga_ok_def vga_abs_def term_newline_def vga_frame_def vga_lines_scroll del: upt_rec_numeral)
qed

lemma vga_line_upd:
  assumes "length m = 2000" "r < VGA_HEIGHT" "k < VGA_WIDTH" "q < VGA_HEIGHT"
  shows "vga_line (m[r * VGA_WIDTH + k := v]) q = (if q = r then (vga_line m r)[k := v] else vga_line m q)"
proof (rule nth_equalityI)
  fix i assume "i < length (vga_line (m[r * VGA_WIDTH + k := v]) q)"
  then have i: "i < VGA_WIDTH" using assms by simp
  have "q * VGA_WIDTH + i = r * VGA_WIDTH + k \<longleftrightarrow> q = r \<and> i = k"
  proof
    assume e: "q * VGA_WIDTH + i = r * VGA_WIDTH + k"
    have "q = (q * VGA_WIDTH + i) div VGA_WIDTH" "r = (r * VGA_WIDTH + k) div VGA_WIDTH" using i assms(3) by simp_all
    then show "q = r \<and> i = k" using e by simp
  qed simp
  then show "vga_line (m[r * VGA_WIDTH + k := v]) q ! i = (if q = r then (vga_line m r)[k := v] else vga_line m q) ! i"
    using assms i by (auto simp: nth_vga_line nth_list_update)
qed (use assms in simp)

lemma vga_putc_refines:
  assumes "vga_ok s"
  shows "\<exists>s'. vga_putc c s = Some s' \<and> vga_ok s' \<and> vga_frame s s' \<and> vga_abs s' = term_putc (vga_color s) c (vga_abs s)"
proof (cases "c = CHR 0x0A")
  case True
  then show ?thesis using vga_newline_refines[of s] assms by (simp add: vga_putc_def term_putc_def vga_ok_def)
next
  case False
  have ok: "length (vga_mem s) = 2000" "vga_row s < VGA_HEIGHT" "vga_col s < VGA_WIDTH"
    using assms by (simp_all add: vga_ok_def)
  let ?v = "vga_entry c (vga_color s)"
  let ?i = "vga_row s * VGA_WIDTH + vga_col s"
  let ?s = "s\<lparr>vga_mem := (vga_mem s)[?i := ?v], vga_col := Suc (vga_col s)\<rparr>"
  have i: "?i < 2000" using ok by linarith
  have st: "vga_store ?i ?v s = Some (s\<lparr>vga_mem := (vga_mem s)[?i := ?v]\<rparr>)" using i ok(1) by (simp add: vga_store_def)
  have "map (vga_line ((vga_mem s)[?i := ?v])) [0..<VGA_HEIGHT] =
      (map (vga_line (vga_mem s)) [0..<VGA_HEIGHT])[vga_row s := (vga_line (vga_mem s) (vga_row s))[vga_col s := ?v]]"
    using ok by (intro nth_equalityI) (simp_all add: vga_line_upd nth_list_update del: upt_rec_numeral)
  then have abs: "vga_abs ?s = (vga_abs s)\<lparr>lines := (lines (vga_abs s))[cursor_row (vga_abs s) :=
      (lines (vga_abs s) ! cursor_row (vga_abs s))[cursor_col (vga_abs s) := ?v]], cursor_col := Suc (cursor_col (vga_abs s))\<rparr>"
    using ok by (simp add: vga_abs_def del: upt_rec_numeral)
  have col: "cursor_col (vga_abs s) = vga_col s" by (simp add: vga_abs_def)
  have fr: "vga_frame s ?s" by (simp add: vga_frame_def)
  have p: "vga_putc c s = (if VGA_WIDTH \<le> Suc (vga_col s) then vga_newline ?s else Some ?s)"
    using False st by (simp add: vga_putc_def)
  show ?thesis
  proof (cases "Suc (vga_col s) < VGA_WIDTH")
    case True
    then have "vga_ok ?s" using ok by (simp add: vga_ok_def)
    with True abs fr False show ?thesis unfolding p term_putc_def col by (simp add: Let_def)
  next
    case full: False
    obtain s' where s': "vga_newline ?s = Some s'" "vga_ok s'" "vga_frame ?s s'"
      "vga_abs s' = term_newline (vga_entry (CHR '' '') (vga_color s)) (vga_abs ?s)"
      using vga_newline_refines[of ?s] ok by auto
    with full abs False vga_frame_trans[OF fr s'(3)] show ?thesis unfolding p term_putc_def col by (simp add: Let_def)
  qed
qed

definition vga_shown :: "'a vga_state_scheme \<Rightarrow> string \<Rightarrow> 'a vga_state_scheme \<Rightarrow> bool" where
  "vga_shown s t s' \<longleftrightarrow> vga_frame s s' \<and> vga_abs s' = fold (term_putc (vga_color s)) t (vga_abs s)"

interpretation console: char_device vga_ok vga_putc vga_shown
proof (unfold_locales, goal_cases)
  case (1 s c)
  then show ?case using vga_putc_refines[of s c] by (auto simp: vga_shown_def)
next
  case (2 s)
  then show ?case by (simp add: vga_shown_def)
next
  case (3 s a s' b s'')
  then show ?case using vga_frame_trans[of s s' s''] vga_frame_color[of s s'] by (simp add: vga_shown_def)
qed

section \<open>Formatted output\<close>

text \<open>The text of each conversion; none where the code is undefined.\<close>

definition vga_conv :: "char \<Rightarrow> c_arg list \<Rightarrow> (string \<times> c_arg list) option" where
  "vga_conv c args =
     (if c = CHR ''s'' then map_option (map_prod (case_option ''(null)'' id) id) (va_str args)
      else if c = CHR ''c'' then map_option (map_prod (\<lambda>v. [char_of (unat v)]) id) (va_int args)
      else if c = CHR ''d'' then do { (v, args') \<leftarrow> va_int args;
        if sint v = - 2147483648 then None else Some (signed_text v, args') }
      else if c = CHR ''u'' then map_option (map_prod (number_text 10 \<circ> unat) id) (va_int args)
      else if c = CHR ''x'' then map_option (map_prod (number_text 16 \<circ> unat) id) (va_int args)
      else if c = CHR ''%'' then Some (''%'', args)
      else Some ([CHR ''%'', c], args))"

definition vga_text :: "string \<Rightarrow> c_arg list \<Rightarrow> string option" where
  "vga_text = format_text vga_conv None"

lemma dec_do_loop_text: "10 \<le> n \<Longrightarrow> dec_do_loop n v = Some (rev (number_text 10 (unat v)))"
proof -
  assume n: "10 \<le> n"
  let ?w = "of_nat (unat v div 10) :: u32"
  have w: "unat ?w = unat v div 10" using unat_u32_lt[of v] by (intro unat_of_nat_small) simp
  have num: "number_text 10 (unat v) = numeral_of 10 (unat v div 10) @ [dec_digit (unat v mod 10)]"
    by (cases "unat v = 0") (simp_all add: number_text_def dec_digit_hex numeral_of.simps[of 10 "unat v"], simp add: hex_digits_def)
  have "length (numeral_of 10 (unat v div 10)) \<le> 9"
    using unat_u32_lt[of v] by (intro length_numeral_of) simp_all
  then have "dec_loop n ?w [dec_digit (unat v mod 10)] = Some ([dec_digit (unat v mod 10)] @ rev (numeral_of 10 (unat v div 10)))"
    using dec_loop_numeral[of "[dec_digit (unat v mod 10)]" ?w n] w n by simp
  then show ?thesis using n num by (simp add: dec_do_loop_def)
qed

lemma hex_do_loop_text: "8 \<le> n \<Longrightarrow> hex_do_loop n v = Some (rev (number_text 16 (unat v)))"
proof -
  assume n: "8 \<le> n"
  have w: "unat (drop_bit 4 v) = unat v div 16" by (simp only: unat_drop_bit) simp
  let ?d = "hex_digits ! unat (v AND 15)"
  have num: "number_text 16 (unat v) = numeral_of 16 (unat v div 16) @ [?d]"
    by (cases "unat v = 0") (simp_all add: number_text_def and_15_mod numeral_of.simps[of 16 "unat v"], simp add: hex_digits_def)
  have "length (numeral_of 16 (unat v div 16)) \<le> 7"
    using unat_u32_lt[of v] by (intro length_numeral_of) simp_all
  then have "hex_loop n (drop_bit 4 v) [?d] = Some ([?d] @ rev (numeral_of 16 (unat v div 16)))"
    using hex_loop_numeral[of "[?d]" "drop_bit 4 v" n] w n by (simp only: w) simp
  then show ?thesis using n num by (simp only: hex_do_loop_def) simp
qed

lemma vga_directive_shown:
  assumes ok: "vga_ok s" and conv: "vga_conv c args = Some (t, args')"
  shows "\<exists>s'. vga_directive c args s = Some (args', s') \<and> vga_ok s' \<and> vga_shown s t s'"
proof -
  note send = console.send_shown and two = console.put_shown
  consider (s) v where "c = CHR ''s''" "va_str args = Some (v, args')" "t = case_option ''(null)'' id v"
    | (c) v where "c = CHR ''c''" "va_int args = Some (v, args')" "t = [char_of (unat v)]"
    | (d) v where "c = CHR ''d''" "va_int args = Some (v, args')" "t = signed_text v" "sint v \<noteq> - 2147483648"
    | (u) v where "c = CHR ''u''" "va_int args = Some (v, args')" "t = number_text 10 (unat v)"
    | (x) v where "c = CHR ''x''" "va_int args = Some (v, args')" "t = number_text 16 (unat v)"
    | (percent) "c = CHR ''%''" "t = ''%''" "args' = args"
    | (other) "c \<notin> set ''scdux%''" "t = [CHR ''%'', c]" "args' = args"
    using conv by (auto simp: vga_conv_def split: if_split_asm bind_split_asm)
  then show ?thesis
  proof cases
    case (s v)
    then have "(case v of None \<Rightarrow> ''(null)'' | Some t \<Rightarrow> t) = t" by (cases v) simp_all
    with s send[OF ok, of t] show ?thesis by (auto simp: vga_directive_def vga_puts_def simp del: send.simps)
  next
    case (c v)
    then show ?thesis using console.put_shown[OF ok, of "char_of (unat v)"] by (auto simp: vga_directive_def)
  next
    case (d v)
    show ?thesis
    proof (cases "sint v < 0")
      case True
      have t: "t = ''-'' @ number_text 10 (unat (- v))" using d True by (simp add: signed_text_def unat_uminus_sint)
      obtain s1 where s1: "vga_putc (CHR ''-'') s = Some s1" "vga_ok s1" "vga_shown s ''-'' s1"
        using console.put_shown[OF ok] by blast
      obtain s2 where s2: "send vga_putc (number_text 10 (unat (- v))) s1 = Some s2" "vga_ok s2"
        "vga_shown s1 (number_text 10 (unat (- v))) s2" using send[OF s1(2)] by blast
      have "vga_directive c args s = Some (args', s2)"
        using d True s1(1) s2(1) by (simp add: vga_directive_def dec_do_loop_text send_back_rev)
      with console.shown_trans[OF s1(3) s2(3)] s2(2) show ?thesis unfolding t by blast
    next
      case False
      have t: "t = number_text 10 (unat v)" using d False by (simp add: signed_text_def unat_sint_nonneg)
      with send[OF ok, of t] d False show ?thesis by (auto simp: vga_directive_def dec_do_loop_text send_back_rev)
    qed
  next
    case (u v)
    then show ?thesis using send[OF ok, of t] by (auto simp: vga_directive_def dec_do_loop_text send_back_rev)
  next
    case (x v)
    then show ?thesis using send[OF ok, of t] by (auto simp: vga_directive_def hex_do_loop_text send_back_rev)
  next
    case percent
    then show ?thesis using console.put_shown[OF ok, of "CHR ''%''"] by (auto simp: vga_directive_def)
  next
    case other
    then show ?thesis using send[OF ok, of t] by (auto simp: vga_directive_def bind_eq_Some_conv)
  qed
qed

lemma vga_directive_none:
  assumes "vga_ok s" "vga_conv c args = None"
  shows "vga_directive c args s = None"
proof -
  consider "c = CHR ''s''" "va_str args = None" | "c \<in> set ''cux''" "va_int args = None"
    | "c = CHR ''d''" "\<And>v args'. va_int args = Some (v, args') \<Longrightarrow> sint v = - 2147483648"
    using assms(2) by (auto simp: vga_conv_def split: if_split_asm bind_split_asm)
  then show ?thesis by cases (auto simp: vga_directive_def split: bind_split)
qed

lemma vga_printf_shown:
  "vga_ok s \<Longrightarrow> case vga_text fmt args of
      Some t \<Rightarrow> \<exists>s'. vga_printf fmt args s = Some s' \<and> vga_ok s' \<and> vga_shown s t s'
    | None \<Rightarrow> vga_printf fmt args s = None"
  unfolding vga_text_def vga_printf_def
  by (rule console.printf_shown) (use vga_directive_shown vga_directive_none in auto)

section \<open>Properties\<close>

text \<open>The console the properties are exercised on, as \<open>vga_init\<close> leaves it.\<close>

definition vga_start :: vga_state where
  "vga_start = \<lparr>io_reads = 0, io_out = [], vga_mem = replicate 2000 0x720, vga_row = 0, vga_col = 0, vga_color = 7\<rparr>"

lemma vga_start_ok: "vga_ok vga_start"
  by (simp add: vga_start_def vga_ok_def)

text \<open>
  The console implements its specification. Every character is written, never outside the 2000
  cells of the screen; the cursor stays on the screen; lines, cursor and scrolling are those of
  the terminal; nothing else changes.
\<close>

theorem vga_putc_refinement:
  assumes "vga_ok s"
  shows "\<exists>s'. vga_putc c s = Some s' \<and> vga_ok s' \<and> vga_abs s' = term_putc (vga_color s) c (vga_abs s) \<and>
    s' = s\<lparr>vga_mem := vga_mem s', vga_row := vga_row s', vga_col := vga_col s'\<rparr>"
  using vga_putc_refines[OF assms, of c] unfolding vga_frame_def by blast

theorem vga_putc_refinement_witness:
  "\<exists>s'. vga_putc (CHR ''A'') vga_start = Some s' \<and> vga_ok s' \<and>
     cursor_col (vga_abs s') = 1 \<and> lines (vga_abs s') ! 0 ! 0 = 0x741"
proof -
  obtain s' where s': "vga_putc (CHR ''A'') vga_start = Some s'" "vga_ok s'"
    "vga_abs s' = term_putc 7 (CHR ''A'') (vga_abs vga_start)"
    using vga_putc_refinement[OF vga_start_ok, of "CHR ''A''"] by (auto simp: vga_start_def)
  have "vga_entry (CHR ''A'') 7 = 0x741" by code_simp
  moreover have "vga_abs vga_start = \<lparr>lines = map (vga_line (replicate 2000 0x720)) [0..<VGA_HEIGHT], cursor_row = 0, cursor_col = 0\<rparr>"
    by (simp only: vga_abs_def vga_start_def vga_state.simps)
  ultimately have "cursor_col (vga_abs s') = 1 \<and> lines (vga_abs s') ! 0 ! 0 = 0x741"
    unfolding s'(3) by (simp add: term_putc_def vga_line_def)
  with s'(1,2) show ?thesis by blast
qed

text \<open>
  C40: \<open>vga_printf\<close> shows exactly the text of its format. It has no result in three cases, all
  undefined in C: a conversion without an argument of its kind, the least integer for \<open>%d\<close>, and a
  format that ends after a percent sign, behind whose end the loop goes on reading.
\<close>

theorem vga_printf_prints:
  assumes "vga_ok s"
  shows "case vga_text fmt args of
      Some t \<Rightarrow> \<exists>s'. vga_printf fmt args s = Some s' \<and> vga_ok s' \<and> vga_abs s' = fold (term_putc (vga_color s)) t (vga_abs s)
    | None \<Rightarrow> vga_printf fmt args s = None"
  using vga_printf_shown[OF assms, of fmt args] by (auto simp: vga_shown_def split: option.splits)

theorem vga_printf_prints_witness:
  "(\<exists>s'. vga_printf ''%u%c'' [CInt 42, CInt 33] vga_start = Some s' \<and> vga_abs s' = fold (term_putc 7) ''42!'' (vga_abs vga_start)) \<and>
   vga_printf ''100%'' [] vga_start = None"
proof -
  have t: "vga_text ''%u%c'' [CInt 42, CInt 33] = Some ''42!''" "vga_text ''100%'' [] = None" by code_simp+
  have c: "vga_color vga_start = 7" by (simp add: vga_start_def)
  from vga_printf_prints[OF vga_start_ok, of "''%u%c''" "[CInt 42, CInt 33]"]
    vga_printf_prints[OF vga_start_ok, of "''100%''" "[]"]
  show ?thesis unfolding t option.case c by blast
qed

end
