(* ===== verification/Sched.thy ===== *)
theory Sched
  imports Vga_Console
begin

text \<open>
  The cooperative scheduler: kernel/core/sched.c, a table of 8 tasks run round-robin, with the
  context switch of kernel/arch/x86_shared/switch.S, which its stacks are built for. The
  kernel stacks are 8-byte words of memory; a register and a stack word is a number below
  \<open>2 ^ 64\<close>. What depends on where the linker puts things is a parameter: the address of the
  task table, of \<open>task_trampoline\<close>, and of the instruction after the call of \<open>switch_to\<close>.
\<close>

section \<open>State\<close>

abbreviation TASK_MAX :: nat where
  "TASK_MAX \<equiv> 8"

abbreviation KSTACK_SIZE :: nat where
  "KSTACK_SIZE \<equiv> 4096"

datatype task_state = TASK_READY | TASK_RUNNING | TASK_BLOCKED

record task_struct =
  saved_rsp :: addr
  pid :: u32
  task_name :: "char list"
  task_state :: task_state
  task_ticks :: u64

text \<open>The registers that a context switch saves, and the stack memory.\<close>

record cpu_state = vga_state +
  rsp :: addr
  rip :: addr
  rbx :: nat
  rbp :: nat
  r12 :: nat
  r13 :: nat
  r14 :: nat
  r15 :: nat
  kmem :: "addr \<Rightarrow> nat"

record sched_state = cpu_state +
  tasks :: "task_struct list"
  cur_task :: nat
  task_count :: nat

text \<open>
  \<open>sizeof(struct task_struct)\<close> is 4160: the members before \<open>kstack\<close> end at 56, and the
  stack is aligned to 16 bytes. The top of the stack of task \<open>i\<close> is the end of its entry.
\<close>

definition kstack_top :: "addr \<Rightarrow> nat \<Rightarrow> addr" where
  "kstack_top base i = base + 4160 * i + 64 + KSTACK_SIZE"

section \<open>Context switch\<close>

definition pushq :: "nat \<Rightarrow> 'a cpu_state_scheme \<Rightarrow> 'a cpu_state_scheme" where
  "pushq v s = s\<lparr>rsp := sub64 (rsp s) 8, kmem := (kmem s)(sub64 (rsp s) 8 := v)\<rparr>"

definition popq :: "'a cpu_state_scheme \<Rightarrow> nat \<times> 'a cpu_state_scheme" where
  "popq s = (kmem s (rsp s), s\<lparr>rsp := add64 (rsp s) 8\<rparr>)"

definition push_regs :: "'a cpu_state_scheme \<Rightarrow> 'a cpu_state_scheme" where
  "push_regs s =
     (let s = pushq (rbx s) s;
          s = pushq (rbp s) s;
          s = pushq (r12 s) s;
          s = pushq (r13 s) s;
          s = pushq (r14 s) s
      in pushq (r15 s) s)"

definition pop_regs_ret :: "'a cpu_state_scheme \<Rightarrow> 'a cpu_state_scheme" where
  "pop_regs_ret s =
     (let (v, s) = popq s; s = s\<lparr>r15 := v\<rparr>;
          (v, s) = popq s; s = s\<lparr>r14 := v\<rparr>;
          (v, s) = popq s; s = s\<lparr>r13 := v\<rparr>;
          (v, s) = popq s; s = s\<lparr>r12 := v\<rparr>;
          (v, s) = popq s; s = s\<lparr>rbp := v\<rparr>;
          (v, s) = popq s; s = s\<lparr>rbx := v\<rparr>;
          (v, s) = popq s
      in s\<lparr>rip := v\<rparr>)"

definition switch_to :: "nat \<Rightarrow> nat \<Rightarrow> 'a sched_state_scheme \<Rightarrow> 'a sched_state_scheme" where
  "switch_to prev next s =
     (let s = push_regs s;
          s = s\<lparr>tasks := (tasks s)[prev := (tasks s ! prev)\<lparr>saved_rsp := rsp s\<rparr>]\<rparr>;
          s = s\<lparr>rsp := saved_rsp (tasks s ! next)\<rparr>
      in pop_regs_ret s)"

section \<open>Operations\<close>

text \<open>\<open>for (j = 0; j < limit && src[j]; j++) { dst[j] = src[j]; dst[j + 1] = '\0'; }\<close>\<close>

fun copy_name :: "nat \<Rightarrow> nat \<Rightarrow> string \<Rightarrow> char list \<Rightarrow> char list" where
  "copy_name j limit [] dst = dst"
| "copy_name j limit (c # cs) dst =
     (if j < limit then copy_name (Suc j) limit cs (dst[j := c, Suc j := CHR 0x00]) else dst)"

definition task_blank :: "nat \<Rightarrow> task_struct \<Rightarrow> task_struct" where
  "task_blank i t = t\<lparr>task_state := TASK_BLOCKED, saved_rsp := 0, pid := of_nat i, task_ticks := 0,
     task_name := (task_name t)[0 := CHR 0x00]\<rparr>"

definition sched_init :: "device \<Rightarrow> 'a sched_state_scheme \<Rightarrow> 'a sched_state_scheme option" where
  "sched_init dev s =
     (let ts = map (\<lambda>i. task_blank i (tasks s ! i)) [0..<TASK_MAX];
          t0 = (ts ! 0)\<lparr>task_state := TASK_RUNNING, pid := 0, task_ticks := 0\<rparr>;
          t0 = t0\<lparr>task_name := copy_name 0 (length ''idle'') ''idle'' (task_name t0)\<rparr>;
          s = s\<lparr>tasks := ts[0 := t0], cur_task := 0, task_count := 1\<rparr>
      in do {
        s1 \<leftarrow> serial_printf dev COM1 (Some ''[OK] Scheduler initialized (task 0: idle, cooperative RR)\<newline>'') [] s;
        vga_printf ''[OK] Scheduler initialized\<newline>'' [] s1
      })"

text \<open>\<open>*(--sp) = v\<close>\<close>

definition stack_store :: "nat \<Rightarrow> addr \<times> (addr \<Rightarrow> nat) \<Rightarrow> addr \<times> (addr \<Rightarrow> nat)" where
  "stack_store v r = (case r of (sp, m) \<Rightarrow> (sub64 sp 8, m(sub64 sp 8 := v)))"

definition build_stack :: "addr \<Rightarrow> addr \<Rightarrow> addr \<Rightarrow> (addr \<Rightarrow> nat) \<Rightarrow> addr \<times> (addr \<Rightarrow> nat)" where
  "build_stack top_addr trampoline entry m =
     fold stack_store [entry, trampoline, 0, 0, 0, 0, 0, 0] (and_not64 top_addr 15, m)"

definition sched_create_task :: "device \<Rightarrow> addr \<Rightarrow> addr \<Rightarrow> string option \<Rightarrow> addr \<Rightarrow> 'a sched_state_scheme \<Rightarrow>
    (int \<times> 'a sched_state_scheme) option" where
  "sched_create_task dev base trampoline name entry s =
     (case name of
        None \<Rightarrow> Some (-1, s)
      | Some name \<Rightarrow>
          if entry = NULL then Some (-1, s)
          else if TASK_MAX \<le> task_count s then Some (-1, s)
          else
            let idx = task_count s;
                t = (tasks s ! idx)\<lparr>pid := of_nat idx, task_state := TASK_READY, task_ticks := 0\<rparr>;
                t = t\<lparr>task_name := copy_name 0 31 name (task_name t)\<rparr>;
                (sp, m) = build_stack (kstack_top base idx) trampoline entry (kmem s);
                t = t\<lparr>saved_rsp := sp\<rparr>;
                s = s\<lparr>tasks := (tasks s)[idx := t], kmem := m, task_count := task_count s + 1\<rparr>
            in do {
              s1 \<leftarrow> serial_printf dev COM1 (Some ''[OK] Task '%s' created (pid=%u, stack @ %p)\<newline>'')
                     [CStr (Some (c_string (task_name t))), CInt (pid t), CPtr (of_nat sp)] s;
              s2 \<leftarrow> vga_printf ''[OK] Task '%s' created (pid=%u)\<newline>'' [CStr (Some (c_string (task_name t))), CInt (pid t)] s1;
              Some (int idx, s2)
            })"

definition next_ready :: "nat \<Rightarrow> task_struct list \<Rightarrow> nat option" where
  "next_ready prev ts =
     map_option (\<lambda>i. (prev + i) mod TASK_MAX)
       (first_from (\<lambda>i. task_state (ts ! ((prev + i) mod TASK_MAX)) = TASK_READY) 1 (TASK_MAX + 1))"

definition sched_yield :: "addr \<Rightarrow> 'a sched_state_scheme \<Rightarrow> 'a sched_state_scheme" where
  "sched_yield return_addr s =
     (let prev = cur_task s in
      case next_ready prev (tasks s) of
        None \<Rightarrow> s
      | Some next \<Rightarrow>
          let ts = tasks s;
              ts = (if task_state (ts ! prev) = TASK_RUNNING then ts[prev := (ts ! prev)\<lparr>task_state := TASK_READY\<rparr>] else ts);
              ts = ts[next := (ts ! next)\<lparr>task_state := TASK_RUNNING\<rparr>];
              ts = ts[prev := (ts ! prev)\<lparr>task_ticks := task_ticks (ts ! prev) + 1\<rparr>]
          in switch_to prev next (pushq return_addr (s\<lparr>tasks := ts, cur_task := next\<rparr>)))"

definition sched_current :: "'a sched_state_scheme \<Rightarrow> task_struct" where
  "sched_current s = tasks s ! cur_task s"

section \<open>Invariant\<close>

text \<open>
  The tasks created so far fill the table from its start; one of them runs and the others are
  ready.
\<close>

definition sched_ok :: "'a sched_state_scheme \<Rightarrow> bool" where
  "sched_ok s \<longleftrightarrow> length (tasks s) = TASK_MAX \<and> 1 \<le> task_count s \<and> task_count s \<le> TASK_MAX \<and> cur_task s < task_count s \<and>
     (\<forall>i < TASK_MAX. pid (tasks s ! i) = of_nat i \<and> length (task_name (tasks s ! i)) = 32 \<and>
        task_state (tasks s ! i) =
          (if i = cur_task s then TASK_RUNNING else if i < task_count s then TASK_READY else TASK_BLOCKED))"

text \<open>
  What can happen: the scheduler is set up, tasks are created and yield, and in between the code of
  the running task changes registers, memory and console, but not the table.
\<close>

inductive sched_reach :: "'a sched_state_scheme \<Rightarrow> bool" where
  init: "uart_live dev COM1 \<Longrightarrow> vga_ok s \<Longrightarrow> length (tasks s) = TASK_MAX \<Longrightarrow>
     \<forall>t\<in>set (tasks s). length (task_name t) = 32 \<Longrightarrow> sched_init dev s = Some s' \<Longrightarrow> sched_reach s'"
| create: "sched_reach s \<Longrightarrow> uart_live dev COM1 \<Longrightarrow> sched_create_task dev base trampoline name entry s = Some (ret, s') \<Longrightarrow>
     sched_reach s'"
| yield: "sched_reach s \<Longrightarrow> sched_reach (sched_yield return_addr s)"
| run: "sched_reach s \<Longrightarrow> vga_ok s' \<Longrightarrow> tasks s' = tasks s \<Longrightarrow> cur_task s' = cur_task s \<Longrightarrow> task_count s' = task_count s \<Longrightarrow>
     sched_reach s'"

section \<open>Logging leaves the scheduler alone\<close>

lemma sched_more:
  assumes "vga_state.more s' = vga_state.more s"
  shows "tasks s' = tasks s" "cur_task s' = cur_task s" "task_count s' = task_count s" "kmem s' = kmem s" "rsp s' = rsp s"
  using assms by (cases s, cases s', simp)+

lemma vga_frame_more: "vga_frame s s' \<Longrightarrow> vga_state.more s' = vga_state.more s"
  unfolding vga_frame_def by (cases s; cases s') simp

lemma sched_log:
  assumes "uart_live dev COM1" "vga_ok s" "serial_text f a = Some t" "vga_text g b = Some u"
  shows "\<exists>s1 s2. serial_printf dev COM1 (Some f) a s = Some s1 \<and> vga_printf g b s1 = Some s2 \<and> vga_ok s2 \<and>
    vga_state.more s2 = vga_state.more s"
proof -
  obtain s1 where s1: "serial_printf dev COM1 (Some f) a s = Some s1" "serial_shown COM1 s t s1"
    using serial_printf_shown[OF assms(1), of f a s] assms(3) by auto
  have "vga_ok s1" "vga_state.more s1 = vga_state.more s"
    using s1(2) assms(2) by (auto simp: serial_shown_def vga_ok_def)
  moreover obtain s2 where "vga_printf g b s1 = Some s2" "vga_ok s2" "vga_shown s1 u s2"
    using vga_printf_shown[OF \<open>vga_ok s1\<close>, of g b] assms(4) by auto
  moreover from this(3) have "vga_state.more s2 = vga_state.more s1" by (simp add: vga_shown_def vga_frame_more)
  ultimately show ?thesis using s1(1) by auto
qed

section \<open>The operations keep the invariant\<close>

lemma length_copy_name [simp]: "length (copy_name j n cs dst) = length dst"
  by (induction j n cs dst rule: copy_name.induct) simp_all

lemma sched_init_ok:
  assumes "uart_live dev COM1" "vga_ok s" "length (tasks s) = TASK_MAX" "\<forall>t\<in>set (tasks s). length (task_name t) = 32"
  shows "\<exists>s'. sched_init dev s = Some s' \<and> vga_ok s' \<and> sched_ok s' \<and> cur_task s' = 0 \<and> task_count s' = 1"
proof -
  let ?ts = "map (\<lambda>i. task_blank i (tasks s ! i)) [0..<TASK_MAX]"
  let ?t0 = "(?ts ! 0)\<lparr>task_state := TASK_RUNNING, pid := 0, task_ticks := 0\<rparr>"
  let ?t1 = "?t0\<lparr>task_name := copy_name 0 (length ''idle'') ''idle'' (task_name ?t0)\<rparr>"
  let ?s = "s\<lparr>tasks := ?ts[0 := ?t1], cur_task := 0, task_count := 1\<rparr>"
  have ok: "vga_ok ?s" using assms(2) by (simp add: vga_ok_def)
  have "serial_text ''[OK] Scheduler initialized (task 0: idle, cooperative RR)\<newline>'' [] \<noteq> None"
    "vga_text ''[OK] Scheduler initialized\<newline>'' [] \<noteq> None" by code_simp+
  then obtain t u where "serial_text ''[OK] Scheduler initialized (task 0: idle, cooperative RR)\<newline>'' [] = Some t"
    "vga_text ''[OK] Scheduler initialized\<newline>'' [] = Some u" by blast
  from sched_log[OF assms(1) ok this] obtain s1 s2 where
    r: "serial_printf dev COM1 (Some ''[OK] Scheduler initialized (task 0: idle, cooperative RR)\<newline>'') [] ?s = Some s1"
      "vga_printf ''[OK] Scheduler initialized\<newline>'' [] s1 = Some s2" "vga_ok s2" "vga_state.more s2 = vga_state.more ?s" by blast
  have "sched_init dev s = Some s2" using r(1,2) by (simp only: sched_init_def Let_def Option.bind.bind_lunit)
  moreover have "pid (tasks s2 ! i) = of_nat i \<and> length (task_name (tasks s2 ! i)) = 32 \<and>
      task_state (tasks s2 ! i) = (if i = 0 then TASK_RUNNING else TASK_BLOCKED)" if "i < TASK_MAX" for i
    using sched_more(1)[OF r(4)] assms(3,4) that
    by (cases "i = 0") (simp_all add: task_blank_def nth_list_update del: upt_rec_numeral)
  moreover have "length (tasks s2) = TASK_MAX" "cur_task s2 = 0" "task_count s2 = 1"
    using sched_more[OF r(4)] assms(3) by simp_all
  ultimately show ?thesis using r(3) by (intro exI[of _ s2]) (simp add: sched_ok_def)
qed

lemma create_texts:
  "\<exists>t. serial_text ''[OK] Task '%s' created (pid=%u, stack @ %p)\<newline>'' [CStr (Some n), CInt p, CPtr sp] = Some t"
  "\<exists>t. vga_text ''[OK] Task '%s' created (pid=%u)\<newline>'' [CStr (Some n), CInt p] = Some t"
  by (simp_all add: serial_text_def vga_text_def serial_conv_def vga_conv_def)

text \<open>What creating a task does: an error, or the next entry of the table is filled.\<close>

lemma sched_create_cases [consumes 3, case_names Error Created]:
  assumes "uart_live dev COM1" "vga_ok s" "sched_ok s"
  obtains "sched_create_task dev base trampoline name entry s = Some (-1, s)"
      "name = None \<or> entry = NULL \<or> task_count s = TASK_MAX"
    | n s' where "name = Some n" "entry \<noteq> NULL" "task_count s < TASK_MAX"
      "sched_create_task dev base trampoline name entry s = Some (int (task_count s), s')" "vga_ok s'" "sched_ok s'"
      "cur_task s' = cur_task s" "task_count s' = task_count s + 1"
      "\<And>i. i \<noteq> task_count s \<Longrightarrow> tasks s' ! i = tasks s ! i"
      "(saved_rsp (tasks s' ! task_count s), kmem s') = build_stack (kstack_top base (task_count s)) trampoline entry (kmem s)"
proof -
  have O: "length (tasks s) = TASK_MAX" "1 \<le> task_count s" "task_count s \<le> TASK_MAX" "cur_task s < task_count s"
    "\<And>i. i < TASK_MAX \<Longrightarrow> pid (tasks s ! i) = of_nat i" "\<And>i. i < TASK_MAX \<Longrightarrow> length (task_name (tasks s ! i)) = 32"
    "\<And>i. i < TASK_MAX \<Longrightarrow> task_state (tasks s ! i) =
      (if i = cur_task s then TASK_RUNNING else if i < task_count s then TASK_READY else TASK_BLOCKED)"
    using assms(3) by (simp_all add: sched_ok_def)
  show thesis
  proof (cases "name = None \<or> entry = NULL \<or> task_count s = TASK_MAX")
    case True
    then have "sched_create_task dev base trampoline name entry s = Some (-1, s)"
      by (auto simp: sched_create_task_def split: option.split)
    with True show thesis by (intro that(1))
  next
    case False
    then obtain n where n: "name = Some n" "entry \<noteq> NULL" "task_count s < TASK_MAX" using O(3) by auto
    let ?idx = "task_count s"
    obtain sp m where sp: "build_stack (kstack_top base ?idx) trampoline entry (kmem s) = (sp, m)" by fastforce
    let ?t = "(tasks s ! ?idx)\<lparr>pid := of_nat ?idx, task_state := TASK_READY, task_ticks := 0,
        task_name := copy_name 0 31 n (task_name (tasks s ! ?idx)), saved_rsp := sp\<rparr>"
    let ?s = "s\<lparr>tasks := (tasks s)[?idx := ?t], kmem := m, task_count := ?idx + 1\<rparr>"
    have ok: "vga_ok ?s" using assms(2) by (simp add: vga_ok_def)
    obtain t u where "serial_text ''[OK] Task '%s' created (pid=%u, stack @ %p)\<newline>'' [CStr (Some (c_string (task_name ?t))), CInt (pid ?t), CPtr (of_nat sp)] = Some t"
      "vga_text ''[OK] Task '%s' created (pid=%u)\<newline>'' [CStr (Some (c_string (task_name ?t))), CInt (pid ?t)] = Some u"
      using create_texts by meson
    from sched_log[OF assms(1) ok this] obtain s1 s2 where
      r: "serial_printf dev COM1 (Some ''[OK] Task '%s' created (pid=%u, stack @ %p)\<newline>'') [CStr (Some (c_string (task_name ?t))), CInt (pid ?t), CPtr (of_nat sp)] ?s = Some s1"
        "vga_printf ''[OK] Task '%s' created (pid=%u)\<newline>'' [CStr (Some (c_string (task_name ?t))), CInt (pid ?t)] s1 = Some s2"
        "vga_ok s2" "vga_state.more s2 = vga_state.more ?s" by blast
    have cr: "sched_create_task dev base trampoline name entry s = Some (int ?idx, s2)"
      using r(1,2) n sp by (simp add: sched_create_task_def Let_def)
    note M = sched_more[OF r(4)]
    have ts: "tasks s2 ! i = (if i = ?idx then ?t else tasks s ! i)" for i
      using M(1) O(1) n(3) by (simp add: nth_list_update)
    have "sched_ok s2"
      using O n(3) M by (auto simp: sched_ok_def nth_list_update)
    then show thesis
      using n cr r(3) M sp ts by (intro that(2)[of n s2]) simp_all
  qed
qed

section \<open>The next task\<close>

lemma next_ready_ok:
  assumes "sched_ok s"
  shows "next_ready (cur_task s) (tasks s) = (if task_count s = 1 then None else Some (Suc (cur_task s) mod task_count s))"
proof -
  let ?c = "cur_task s" and ?n = "task_count s"
  have O: "1 \<le> ?n" "?n \<le> TASK_MAX" "?c < ?n" using assms by (simp_all add: sched_ok_def)
  let ?P = "\<lambda>i. task_state (tasks s ! ((?c + i) mod TASK_MAX)) = TASK_READY"
  have st: "?P i \<longleftrightarrow> (?c + i) mod TASK_MAX \<noteq> ?c \<and> (?c + i) mod TASK_MAX < ?n" for i
    using assms by (simp add: sched_ok_def)
  show ?thesis
  proof (cases "?n = 1")
    case True
    have "\<not> ?P j" for j unfolding st using True O(3) by linarith
    then have "first_from ?P 1 (TASK_MAX + 1) = None" by (simp only: first_from_None) simp
    with True show ?thesis by (simp add: next_ready_def)
  next
    case False
    show ?thesis
    proof (cases "Suc ?c < ?n")
      case True
      then have "first_from ?P 1 (TASK_MAX + 1) = Some 1" using O(2) by (simp add: first_from_Some st)
      with True O False show ?thesis by (simp add: next_ready_def)
    next
      case last: False
      have c: "Suc ?c = ?n" using last O(3) by simp
      have "first_from ?P 1 (TASK_MAX + 1) = Some (TASK_MAX - ?c)"
      proof -
        have e: "(?c + (TASK_MAX - ?c)) mod TASK_MAX = 0" using O by simp
        have "?P (TASK_MAX - ?c)" using st[of "TASK_MAX - ?c", unfolded e] O c False by auto
        moreover have "\<not> ?P j" if "1 \<le> j \<and> j < TASK_MAX - ?c" for j
        proof -
          have "(?c + j) mod TASK_MAX = ?c + j" by (intro mod_less) (use that in linarith)
          then show ?thesis using st[of j] that c by simp
        qed
        moreover have "1 \<le> TASK_MAX - ?c" "TASK_MAX - ?c < TASK_MAX + 1" using O by simp_all
        ultimately show ?thesis unfolding first_from_Some by blast
      qed
      then show ?thesis using O c False by (simp add: next_ready_def)
    qed
  qed
qed

lemma switch_to_table:
  "\<exists>r. tasks (switch_to p q s) = (tasks s)[p := (tasks s ! p)\<lparr>saved_rsp := r\<rparr>]"
  "cur_task (switch_to p q s) = cur_task s" "task_count (switch_to p q s) = task_count s"
  "vga_ok (switch_to p q s) = vga_ok s"
  by (auto simp: switch_to_def push_regs_def pop_regs_ret_def Let_def pushq_def popq_def vga_ok_def)

lemma list_update_pqp: "p \<noteq> q \<Longrightarrow> xs[p := a, q := b, p := c] = xs[p := c, q := b]"
  by (metis list_update_overwrite list_update_swap)

lemma sched_yield_ok:
  assumes "sched_ok s"
  shows "sched_ok (sched_yield r s)" "cur_task (sched_yield r s) = Suc (cur_task s) mod task_count s"
    "task_count (sched_yield r s) = task_count s" "vga_ok s \<Longrightarrow> vga_ok (sched_yield r s)"
proof -
  have O: "length (tasks s) = TASK_MAX" "1 \<le> task_count s" "task_count s \<le> TASK_MAX" "cur_task s < task_count s"
    using assms by (simp_all add: sched_ok_def)
  let ?p = "cur_task s" and ?q = "Suc (cur_task s) mod task_count s"
  have "sched_ok (sched_yield r s) \<and> cur_task (sched_yield r s) = ?q \<and> task_count (sched_yield r s) = task_count s \<and>
      (vga_ok s \<longrightarrow> vga_ok (sched_yield r s))"
  proof (cases "task_count s = 1")
    case True
    then show ?thesis
      using O(4) assms next_ready_ok[OF assms] by (simp add: sched_yield_def Let_def)
  next
    case False
    have q: "?q < task_count s" "?q \<noteq> ?p"
    proof -
      show "?q < task_count s" using O(2) by simp
      show "?q \<noteq> ?p"
      proof (cases "Suc ?p < task_count s")
        case last: False
        then have "Suc ?p = task_count s" using O by simp
        then have "?q = 0" by simp
        then show ?thesis using last False O by linarith
      qed simp
    qed
    define ts where "ts = (tasks s)[?p := (tasks s ! ?p)\<lparr>task_state := TASK_READY, task_ticks := task_ticks (tasks s ! ?p) + 1\<rparr>,
        ?q := (tasks s ! ?q)\<lparr>task_state := TASK_RUNNING\<rparr>]"
    have p: "task_state (tasks s ! ?p) = TASK_RUNNING" using assms O by (simp add: sched_ok_def)
    let ?s = "pushq r (s\<lparr>tasks := ts, cur_task := ?q\<rparr>)"
    have y: "sched_yield r s = switch_to ?p ?q ?s"
    proof -
      have "(let ts = tasks s; ts = if task_state (ts ! ?p) = TASK_RUNNING then ts[?p := (ts ! ?p)\<lparr>task_state := TASK_READY\<rparr>] else ts;
          ts = ts[?q := (ts ! ?q)\<lparr>task_state := TASK_RUNNING\<rparr>] in ts[?p := (ts ! ?p)\<lparr>task_ticks := task_ticks (ts ! ?p) + 1\<rparr>]) = ts"
        using p q(2) O by (simp add: Let_def ts_def list_update_pqp)
      then show ?thesis using False by (simp add: sched_yield_def next_ready_ok[OF assms] Let_def)
    qed
    obtain sp where sw: "tasks (switch_to ?p ?q ?s) = ts[?p := (ts ! ?p)\<lparr>saved_rsp := sp\<rparr>]"
      using switch_to_table(1)[of ?p ?q ?s] by (auto simp: pushq_def)
    have eq: "cur_task (switch_to ?p ?q ?s) = ?q" "task_count (switch_to ?p ?q ?s) = task_count s" "vga_ok (switch_to ?p ?q ?s) = vga_ok s"
      using switch_to_table(2-4)[of ?p ?q ?s] by (simp_all add: pushq_def vga_ok_def)
    have "pid (tasks (switch_to ?p ?q ?s) ! i) = of_nat i \<and> length (task_name (tasks (switch_to ?p ?q ?s) ! i)) = 32 \<and>
        task_state (tasks (switch_to ?p ?q ?s) ! i) =
          (if i = ?q then TASK_RUNNING else if i < task_count s then TASK_READY else TASK_BLOCKED)" if i: "i < TASK_MAX" for i
      unfolding sw using assms O q i by (auto simp: ts_def nth_list_update sched_ok_def)
    moreover have "length (tasks (switch_to ?p ?q ?s)) = TASK_MAX" unfolding sw using O(1) by (simp add: ts_def)
    ultimately show ?thesis
      unfolding y using eq q O by (simp add: sched_ok_def)
  qed
  then show "sched_ok (sched_yield r s)" "cur_task (sched_yield r s) = ?q" "task_count (sched_yield r s) = task_count s"
    "vga_ok s \<Longrightarrow> vga_ok (sched_yield r s)" by simp_all
qed

lemma sched_reach_ok: "sched_reach s \<Longrightarrow> sched_ok s \<and> vga_ok s"
proof (induction rule: sched_reach.induct)
  case (init dev s s')
  then show ?case using sched_init_ok[OF init(1-4)] by auto
next
  case (create s dev base trampoline name entry ret s')
  show ?case
    by (rule sched_create_cases[of dev s base trampoline name entry]) (use create in auto)
next
  case (yield s r)
  then show ?case using sched_yield_ok by blast
next
  case (run s s')
  then show ?case by (simp add: sched_ok_def)
qed

text \<open>Running on, with \<open>k\<close> yields and any code of the tasks in between, but no new task.\<close>

inductive sched_runs :: "nat \<Rightarrow> 'a sched_state_scheme \<Rightarrow> 'a sched_state_scheme \<Rightarrow> bool" where
  refl: "sched_runs 0 s s"
| yield: "sched_runs k s t \<Longrightarrow> sched_runs (Suc k) s (sched_yield return_addr t)"
| run: "sched_runs k s t \<Longrightarrow> vga_ok t' \<Longrightarrow> tasks t' = tasks t \<Longrightarrow> cur_task t' = cur_task t \<Longrightarrow> task_count t' = task_count t \<Longrightarrow>
     sched_runs k s t'"

lemma sched_runs_cur:
  assumes "sched_runs k s t" "sched_ok s"
  shows "sched_ok t \<and> task_count t = task_count s \<and> cur_task t = (cur_task s + k) mod task_count s"
  using assms
proof (induction rule: sched_runs.induct)
  case (refl s)
  then show ?case by (simp add: sched_ok_def)
next
  case (yield k s t r)
  then have t: "sched_ok t" "task_count t = task_count s" "cur_task t = (cur_task s + k) mod task_count s" by simp_all
  show ?case using sched_yield_ok(1-3)[OF t(1), of r] t(2,3) by (simp add: mod_Suc_eq)
next
  case (run k s t t')
  then show ?case by (simp add: sched_ok_def)
qed

section \<open>The stack of a new task, and what a switch saves\<close>

lemma push_regs_eq:
  assumes "48 \<le> rsp s" "rsp s < two64"
  shows "push_regs s = s\<lparr>rsp := rsp s - 48, kmem := (kmem s)(rsp s - 8 := rbx s, rsp s - 16 := rbp s, rsp s - 24 := r12 s,
    rsp s - 32 := r13 s, rsp s - 40 := r14 s, rsp s - 48 := r15 s)\<rparr>"
  using assms by (simp add: push_regs_def pushq_def Let_def wrap)

lemma pop_regs_ret_eq:
  assumes "rsp s + 56 < two64"
  shows "pop_regs_ret s = s\<lparr>rsp := rsp s + 56, r15 := kmem s (rsp s), r14 := kmem s (rsp s + 8), r13 := kmem s (rsp s + 16),
    r12 := kmem s (rsp s + 24), rbp := kmem s (rsp s + 32), rbx := kmem s (rsp s + 40), rip := kmem s (rsp s + 48)\<rparr>"
  using assms by (cases s) (simp add: pop_regs_ret_def popq_def Let_def wrap add.commute)

definition saved_regs :: "'a cpu_state_scheme \<Rightarrow> addr \<Rightarrow> nat" where
  "saved_regs s = (kmem s)(rsp s - 8 := rbx s, rsp s - 16 := rbp s, rsp s - 24 := r12 s,
     rsp s - 32 := r13 s, rsp s - 40 := r14 s, rsp s - 48 := r15 s)"

lemma switch_to_eq:
  assumes "p \<noteq> q" "48 \<le> rsp s" "rsp s < two64" "saved_rsp (tasks s ! q) + 56 < two64"
    and f: "f = saved_rsp (tasks s ! q)"
  shows "switch_to p q s = s\<lparr>tasks := (tasks s)[p := (tasks s ! p)\<lparr>saved_rsp := rsp s - 48\<rparr>], kmem := saved_regs s,
    rsp := f + 56, r15 := saved_regs s f, r14 := saved_regs s (f + 8), r13 := saved_regs s (f + 16),
    r12 := saved_regs s (f + 24), rbp := saved_regs s (f + 32), rbx := saved_regs s (f + 40), rip := saved_regs s (f + 48)\<rparr>"
proof -
  let ?s1 = "s\<lparr>kmem := saved_regs s, rsp := f, tasks := (tasks s)[p := (tasks s ! p)\<lparr>saved_rsp := rsp s - 48\<rparr>]\<rparr>"
  have "push_regs s = s\<lparr>rsp := rsp s - 48, kmem := saved_regs s\<rparr>"
    unfolding saved_regs_def by (rule push_regs_eq[OF assms(2,3)])
  then have "switch_to p q s = pop_regs_ret ?s1"
    using assms(1) f by (cases s) (simp add: switch_to_def Let_def)
  moreover have "rsp ?s1 + 56 < two64" using assms(4) f by simp
  ultimately show ?thesis using pop_regs_ret_eq[of ?s1] by (cases s) simp
qed

lemma build_stack_frame:
  assumes "base mod 16 = 0" "kstack_top base i < two64"
  shows "build_stack (kstack_top base i) tr entry m = (kstack_top base i - 64,
    m(kstack_top base i - 8 := entry, kstack_top base i - 16 := tr, kstack_top base i - 24 := 0, kstack_top base i - 32 := 0,
      kstack_top base i - 40 := 0, kstack_top base i - 48 := 0, kstack_top base i - 56 := 0, kstack_top base i - 64 := 0))"
proof -
  let ?top = "kstack_top base i"
  have d: "?top mod 16 = 0" using assms(1) by (simp add: kstack_top_def mod_add_eq[symmetric] mod_mult_left_eq[symmetric, of 4160])
  have "and_not64 ?top 15 = ?top div 16 * 16" using and_not64_pow2[of ?top 4] assms(2) by simp
  then have a: "and_not64 ?top 15 = ?top" using d div_mult_mod_eq[of ?top 16] by linarith
  obtain T where T: "?top = T" "64 \<le> T" "T < two64" using assms(2) by (simp add: kstack_top_def)
  show ?thesis unfolding build_stack_def a unfolding T(1) using T(2,3) by (simp add: stack_store_def wrap)
qed

lemma switch_roundtrip:
  assumes "p \<noteq> q" "p < length (tasks s)" "48 \<le> rsp s" "rsp s + 8 < two64" "saved_rsp (tasks s ! q) + 56 < two64"
    and t: "saved_rsp (tasks t ! p) = saved_rsp (tasks (switch_to p q s) ! p)"
      "\<And>a. rsp s - 48 \<le> a \<Longrightarrow> a < rsp s + 8 \<Longrightarrow> kmem t a = kmem (switch_to p q s) a"
    and r: "r \<noteq> p" "48 \<le> rsp t" "rsp t < two64" "rsp t \<le> rsp s - 48 \<or> rsp s + 56 \<le> rsp t"
  defines "u \<equiv> switch_to r p t"
  shows "rsp u = rsp s + 8 \<and> rip u = kmem s (rsp s) \<and> rbx u = rbx s \<and> rbp u = rbp s \<and> r12 u = r12 s \<and> r13 u = r13 s \<and>
    r14 u = r14 s \<and> r15 u = r15 s"
proof -
  have S: "switch_to p q s = s\<lparr>tasks := (tasks s)[p := (tasks s ! p)\<lparr>saved_rsp := rsp s - 48\<rparr>], kmem := saved_regs s,
      rsp := saved_rsp (tasks s ! q) + 56, r15 := saved_regs s (saved_rsp (tasks s ! q)), r14 := saved_regs s (saved_rsp (tasks s ! q) + 8),
      r13 := saved_regs s (saved_rsp (tasks s ! q) + 16), r12 := saved_regs s (saved_rsp (tasks s ! q) + 24),
      rbp := saved_regs s (saved_rsp (tasks s ! q) + 32), rbx := saved_regs s (saved_rsp (tasks s ! q) + 40),
      rip := saved_regs s (saved_rsp (tasks s ! q) + 48)\<rparr>"
    using assms(1,3,4,5) by (intro switch_to_eq) simp_all
  define f where "f = rsp s - 48"
  have f: "rsp s = f + 48" using assms(3) by (simp add: f_def)
  have tf: "saved_rsp (tasks t ! p) = f" using t(1) assms(2) by (simp add: S f_def)
  have m: "kmem t a = saved_regs s a" if "f \<le> a" "a < f + 56" for a
    using t(2)[of a] that f by (simp add: S)
  have away: "saved_regs t a = kmem t a" if "f \<le> a" "a < f + 56" for a
  proof -
    have "a \<noteq> rsp t - 8" "a \<noteq> rsp t - 16" "a \<noteq> rsp t - 24" "a \<noteq> rsp t - 32" "a \<noteq> rsp t - 40" "a \<noteq> rsp t - 48"
      using r(2,4) that f by linarith+
    then show ?thesis by (simp add: saved_regs_def)
  qed
  have U: "u = t\<lparr>tasks := (tasks t)[r := (tasks t ! r)\<lparr>saved_rsp := rsp t - 48\<rparr>], kmem := saved_regs t,
      rsp := f + 56, r15 := saved_regs t f, r14 := saved_regs t (f + 8), r13 := saved_regs t (f + 16), r12 := saved_regs t (f + 24),
      rbp := saved_regs t (f + 32), rbx := saved_regs t (f + 40), rip := saved_regs t (f + 48)\<rparr>"
    unfolding u_def using r(1-3) tf assms(4) f by (intro switch_to_eq) simp_all
  have g: "saved_regs s f = r15 s" "saved_regs s (f + 8) = r14 s" "saved_regs s (f + 16) = r13 s" "saved_regs s (f + 24) = r12 s"
    "saved_regs s (f + 32) = rbp s" "saved_regs s (f + 40) = rbx s" "saved_regs s (f + 48) = kmem s (f + 48)"
    unfolding saved_regs_def f by simp_all
  have e: "saved_regs t (f + k) = saved_regs s (f + k)" if "k < 56" for k
    using away[of "f + k"] m[of "f + k"] that by simp
  have e0: "saved_regs t f = saved_regs s f" using e[of 0] by simp
  have b: "f + 56 = rsp s + 8" "f + 48 = rsp s" using f by simp_all
  have R: "rsp u = f + 56" "rip u = saved_regs t (f + 48)" "rbx u = saved_regs t (f + 40)" "rbp u = saved_regs t (f + 32)"
    "r12 u = saved_regs t (f + 24)" "r13 u = saved_regs t (f + 16)" "r14 u = saved_regs t (f + 8)" "r15 u = saved_regs t f"
    by (simp_all add: U)
  have "saved_regs t (f + 48) = kmem s (rsp s)" using e[of 48] g(7) b(2) by simp
  then show ?thesis
    unfolding R using b(1) e0 e[of 8] e[of 16] e[of 24] e[of 32] e[of 40] g(1-6) by simp
qed

section \<open>Properties\<close>

text \<open>A scheduler to exercise the properties on, and what follows from setting it up.\<close>

definition sched_static :: sched_state where
  "sched_static = vga_state.extend vga_start
     \<lparr>rsp = 0x9000, rip = 0, rbx = 1, rbp = 2, r12 = 3, r13 = 4, r14 = 5, r15 = 6, kmem = (\<lambda>_. 0),
      tasks = replicate TASK_MAX \<lparr>saved_rsp = 0, pid = 0, task_name = replicate 32 (CHR 0x00), task_state = TASK_READY, task_ticks = 0\<rparr>,
      cur_task = 0, task_count = 0\<rparr>"

lemma sched_static_init:
  obtains s where "sched_init ready_device sched_static = Some s" "sched_reach s" "cur_task s = 0" "task_count s = 1"
proof -
  have "vga_ok sched_static" "length (tasks sched_static) = TASK_MAX" "\<forall>t\<in>set (tasks sched_static). length (task_name t) = 32"
    by (simp_all add: sched_static_def vga_start_def vga_ok_def vga_state.defs)
  note s = ready_device_live this
  obtain s' where "sched_init ready_device sched_static = Some s'" "cur_task s' = 0" "task_count s' = 1"
    using sched_init_ok[OF s] by blast
  moreover from this(1) have "sched_reach s'" by (rule sched_reach.init[OF s])
  ultimately show thesis by (intro that)
qed

lemma sched_static_create:
  obtains s s' where "sched_init ready_device sched_static = Some s"
    "sched_create_task ready_device 0x20000 0x5000 (Some ''t'') 0x6000 s = Some (1, s')" "sched_reach s'" "cur_task s' = 0" "task_count s' = 2"
    "tasks s' ! 0 = tasks s ! 0" "saved_rsp (tasks s' ! 1) = 0x22040"
    "kmem s' = (kmem s)(0x22078 := 0x6000, 0x22070 := 0x5000, 0x22068 := 0, 0x22060 := 0, 0x22058 := 0, 0x22050 := 0, 0x22048 := 0, 0x22040 := 0)"
proof -
  obtain s where s: "sched_init ready_device sched_static = Some s" "sched_reach s" "cur_task s = 0" "task_count s = 1"
    by (rule sched_static_init)
  have top: "kstack_top 0x20000 1 = 0x22080" by (simp add: kstack_top_def)
  have ok: "sched_ok s" "vga_ok s" using sched_reach_ok[OF s(2)] by simp_all
  from ready_device_live ok(2,1) show thesis
  proof (cases rule: sched_create_cases[where base = "0x20000" and trampoline = "0x5000" and name = "Some ''t''" and entry = "0x6000"])
    case Error
    then show thesis using s(4) by simp
  next
    case (Created n s')
    have b: "build_stack (kstack_top 0x20000 1) 0x5000 0x6000 (kmem s) = (kstack_top 0x20000 1 - 64, (kmem s)(kstack_top 0x20000 1 - 8 := 0x6000,
        kstack_top 0x20000 1 - 16 := 0x5000, kstack_top 0x20000 1 - 24 := 0, kstack_top 0x20000 1 - 32 := 0,
        kstack_top 0x20000 1 - 40 := 0, kstack_top 0x20000 1 - 48 := 0, kstack_top 0x20000 1 - 56 := 0, kstack_top 0x20000 1 - 64 := 0))"
      by (rule build_stack_frame) (simp_all add: kstack_top_def)
    have cr: "sched_create_task ready_device 0x20000 0x5000 (Some ''t'') 0x6000 s = Some (1, s')" using Created(4) s(4) by simp
    have "sched_reach s'" by (rule sched_reach.create[OF s(2) ready_device_live cr])
    then show thesis using s cr Created(7-10) b by (intro that[of s s']) (simp_all add: kstack_top_def)
  qed
qed

text \<open>
  C33: In every reachable state exactly one task runs, the current one; every other task created
  so far is ready, so that no task is lost, and the rest of the table is blocked; each task has the
  pid of its place in the table.
\<close>

theorem sched_one_running:
  assumes "sched_reach s"
  shows "cur_task s < task_count s \<and> task_count s \<le> TASK_MAX \<and> length (tasks s) = TASK_MAX \<and> task_state (sched_current s) = TASK_RUNNING \<and>
    (\<forall>i < TASK_MAX. pid (tasks s ! i) = of_nat i \<and>
       (task_state (tasks s ! i) = TASK_RUNNING \<longleftrightarrow> i = cur_task s) \<and>
       (task_state (tasks s ! i) = TASK_BLOCKED \<longleftrightarrow> task_count s \<le> i))"
  using sched_reach_ok[OF assms] by (auto simp: sched_ok_def sched_current_def)

theorem sched_one_running_witness:
  "\<exists>s. sched_init ready_device sched_static = Some s \<and> task_state (sched_current s) = TASK_RUNNING \<and>
     task_state (tasks s ! 7) = TASK_BLOCKED"
proof -
  obtain s where s: "sched_init ready_device sched_static = Some s" "sched_reach s" "cur_task s = 0" "task_count s = 1"
    by (rule sched_static_init)
  from sched_one_running[OF s(2)] s(1,3,4) show ?thesis by auto
qed

text \<open>
  C34: The scheduler is a fair round robin: whatever the tasks do in between, after \<open>k\<close> yields the
  task \<open>k\<close> places further in the cycle of the created tasks runs, so that each task gets its
  turn within as many yields as there are tasks.
\<close>

theorem sched_round_robin:
  assumes "sched_reach s" and "sched_runs k s t"
  shows "cur_task t = (cur_task s + k) mod task_count s \<and>
    (\<forall>i < task_count s. \<exists>j < task_count s. (cur_task t + j) mod task_count s = i)"
proof -
  have ok: "sched_ok s" using sched_reach_ok[OF assms(1)] by blast
  have t: "cur_task t = (cur_task s + k) mod task_count s" "cur_task t < task_count s"
    using sched_runs_cur[OF assms(2) ok] by (auto simp: sched_ok_def)
  have "\<exists>j < task_count s. (cur_task t + j) mod task_count s = i" if i: "i < task_count s" for i
  proof (cases "cur_task t \<le> i")
    case True
    then show ?thesis using i by (intro exI[of _ "i - cur_task t"]) simp
  next
    case False
    then have "cur_task t + (i + task_count s - cur_task t) = i + task_count s" using t(2) by simp
    then have "(cur_task t + (i + task_count s - cur_task t)) mod task_count s = i" using i by simp
    moreover have "i + task_count s - cur_task t < task_count s" using False t(2) by linarith
    ultimately show ?thesis by blast
  qed
  with t(1) show ?thesis by blast
qed

theorem sched_round_robin_witness:
  "\<exists>s s'. sched_init ready_device sched_static = Some s \<and>
     sched_create_task ready_device 0x20000 0x5000 (Some ''t'') 0x6000 s = Some (1, s') \<and>
     cur_task (sched_yield 0x700 s') = 1 \<and> cur_task (sched_yield 0x700 (sched_yield 0x700 s')) = 0"
proof -
  obtain s s' where s: "sched_init ready_device sched_static = Some s"
    "sched_create_task ready_device 0x20000 0x5000 (Some ''t'') 0x6000 s = Some (1, s')" "sched_reach s'" "cur_task s' = 0" "task_count s' = 2"
    by (rule sched_static_create)
  note one = sched_runs.yield[OF sched_runs.refl, where return_addr = "0x700" and s = s']
  note two = sched_runs.yield[OF one, where return_addr = "0x700"]
  have "cur_task (sched_yield 0x700 s') = 1" using sched_round_robin[OF s(3) one] s(4,5) by simp
  moreover have "cur_task (sched_yield 0x700 (sched_yield 0x700 s')) = 0" using sched_round_robin[OF s(3) two] s(4,5) by simp
  ultimately show ?thesis using s(1,2) by blast
qed

text \<open>
  The first switch to a task whose stack holds the frame that \<open>sched_create_task\<close> builds.
\<close>

lemma first_switch:
  assumes T: "64 \<le> T" "T < two64"
    and frame: "m = m0(T - 8 := entry, T - 16 := trampoline, T - 24 := 0, T - 32 := 0, T - 40 := 0, T - 48 := 0, T - 56 := 0, T - 64 := 0)"
    and p: "p \<noteq> q" "saved_rsp (tasks t ! q) = T - 64" "\<forall>a. T - 64 \<le> a \<and> a < T \<longrightarrow> kmem t a = m a"
      "48 \<le> rsp t" "rsp t < two64" "rsp t \<le> T - 64 \<or> T + 48 \<le> rsp t" and u: "u = switch_to p q t"
  shows "rip u = trampoline \<and> kmem u (rsp u) = entry \<and> rsp u + 8 = T \<and>
    rbx u = 0 \<and> rbp u = 0 \<and> r12 u = 0 \<and> r13 u = 0 \<and> r14 u = 0 \<and> r15 u = 0"
proof -
  define f where "f = T - 64"
  have f: "T = f + 64" using T by (simp add: f_def)
  have away: "saved_regs t (f + k) = m (f + k)" if k: "k < 64" for k
  proof -
    have "f + k \<noteq> rsp t - 8" "f + k \<noteq> rsp t - 16" "f + k \<noteq> rsp t - 24" "f + k \<noteq> rsp t - 32" "f + k \<noteq> rsp t - 40" "f + k \<noteq> rsp t - 48"
      using p(4,6) k f by linarith+
    moreover have "kmem t (f + k) = m (f + k)" using p(3) k f by simp
    ultimately show ?thesis by (simp add: saved_regs_def)
  qed
  have U: "u = t\<lparr>tasks := (tasks t)[p := (tasks t ! p)\<lparr>saved_rsp := rsp t - 48\<rparr>], kmem := saved_regs t,
      rsp := f + 56, r15 := saved_regs t f, r14 := saved_regs t (f + 8), r13 := saved_regs t (f + 16), r12 := saved_regs t (f + 24),
      rbp := saved_regs t (f + 32), rbx := saved_regs t (f + 40), rip := saved_regs t (f + 48)\<rparr>"
    unfolding u using p(1,2,4,5) T f by (intro switch_to_eq) simp_all
  have k: "m (f + 56) = entry" "m (f + 48) = trampoline" "m (f + 40) = 0" "m (f + 32) = 0"
    "m (f + 24) = 0" "m (f + 16) = 0" "m (f + 8) = 0" "m f = 0"
    unfolding frame f by simp_all
  show ?thesis unfolding U
    using away[of 0] away[of 8] away[of 16] away[of 24] away[of 32] away[of 40] away[of 48] away[of 56] k f by simp
qed

text \<open>
  C35: \<open>sched_create_task\<close> returns -1 and changes nothing if a pointer is NULL or the table is full.
  Otherwise it returns the next pid; and when the new task is first switched to, whichever task
  runs before and whatever happened in between outside its stack, execution goes on in
  \<open>task_trampoline\<close> with zeroed registers, its entry on top of the stack, and below it the
  stack aligned to 16 bytes.
\<close>

theorem sched_create_result:
  assumes "sched_reach s" and "uart_live dev COM1" and "base mod 16 = 0" and "kstack_top base TASK_MAX < two64"
  shows "\<exists>ret s'. sched_create_task dev base trampoline name entry s = Some (ret, s') \<and>
    (if name = None \<or> entry = NULL \<or> task_count s = TASK_MAX then ret = -1 \<and> s' = s
     else ret = int (task_count s) \<and> cur_task s' = cur_task s \<and> (\<forall>i. i \<noteq> task_count s \<longrightarrow> tasks s' ! i = tasks s ! i) \<and>
       (\<forall>p t. let idx = task_count s; top_addr = kstack_top base idx; u = switch_to p idx t in
          p \<noteq> idx \<and> saved_rsp (tasks t ! idx) = saved_rsp (tasks s' ! idx) \<and>
          (\<forall>a. top_addr - 64 \<le> a \<and> a < top_addr \<longrightarrow> kmem t a = kmem s' a) \<and>
          48 \<le> rsp t \<and> rsp t < two64 \<and> (rsp t \<le> top_addr - 64 \<or> top_addr + 48 \<le> rsp t) \<longrightarrow>
          rip u = trampoline \<and> kmem u (rsp u) = entry \<and> rsp u + 8 = top_addr \<and> top_addr mod 16 = 0 \<and>
          rbx u = 0 \<and> rbp u = 0 \<and> r12 u = 0 \<and> r13 u = 0 \<and> r14 u = 0 \<and> r15 u = 0))"
proof -
  have ok: "sched_ok s" "vga_ok s" using sched_reach_ok[OF assms(1)] by simp_all
  from assms(2) ok(2,1) show ?thesis
  proof (cases rule: sched_create_cases[where base = base and trampoline = trampoline and name = name and entry = entry])
    case Error
    then show ?thesis by auto
  next
    case (Created n s')
    let ?i = "task_count s"
    obtain T where T: "kstack_top base ?i = T" by blast
    have T8: "64 \<le> T" "T < two64" using assms(4) Created(3) T by (simp_all add: kstack_top_def)
    have al: "T mod 16 = 0"
      using assms(3) unfolding T[symmetric] kstack_top_def by (simp add: mod_add_eq[symmetric] mod_mult_left_eq[symmetric, of 4160])
    have b: "saved_rsp (tasks s' ! ?i) = T - 64" "kmem s' = (kmem s)(T - 8 := entry, T - 16 := trampoline, T - 24 := 0,
        T - 32 := 0, T - 40 := 0, T - 48 := 0, T - 56 := 0, T - 64 := 0)"
      using Created(10) build_stack_frame[OF assms(3), of ?i trampoline entry "kmem s"] T T8 by simp_all
    have first: "rip u = trampoline \<and> kmem u (rsp u) = entry \<and> rsp u + 8 = T \<and> T mod 16 = 0 \<and>
        rbx u = 0 \<and> rbp u = 0 \<and> r12 u = 0 \<and> r13 u = 0 \<and> r14 u = 0 \<and> r15 u = 0"
      if p: "p \<noteq> ?i" "saved_rsp (tasks t ! ?i) = saved_rsp (tasks s' ! ?i)" "\<forall>a. T - 64 \<le> a \<and> a < T \<longrightarrow> kmem t a = kmem s' a"
        "48 \<le> rsp t" "rsp t < two64" "rsp t \<le> T - 64 \<or> T + 48 \<le> rsp t" and u: "u = switch_to p ?i t" for p t u
      using first_switch[OF T8 b(2) p(1) _ p(3-6) u] p(2) b(1) al by simp
    have F: "\<forall>p t. p \<noteq> ?i \<and> saved_rsp (tasks t ! ?i) = saved_rsp (tasks s' ! ?i) \<and>
        (\<forall>a. T - 64 \<le> a \<and> a < T \<longrightarrow> kmem t a = kmem s' a) \<and> 48 \<le> rsp t \<and> rsp t < two64 \<and> (rsp t \<le> T - 64 \<or> T + 48 \<le> rsp t) \<longrightarrow>
        rip (switch_to p ?i t) = trampoline \<and> kmem (switch_to p ?i t) (rsp (switch_to p ?i t)) = entry \<and>
        rsp (switch_to p ?i t) + 8 = T \<and> T mod 16 = 0 \<and> rbx (switch_to p ?i t) = 0 \<and> rbp (switch_to p ?i t) = 0 \<and>
        r12 (switch_to p ?i t) = 0 \<and> r13 (switch_to p ?i t) = 0 \<and> r14 (switch_to p ?i t) = 0 \<and> r15 (switch_to p ?i t) = 0"
      using first by blast
    have nc: "(name = None \<or> entry = NULL \<or> ?i = TASK_MAX) = False" using Created(1-3) by simp
    show ?thesis unfolding T Let_def nc if_False using Created(4,7,9) F by blast
  qed
qed

theorem sched_create_result_witness:
  "\<exists>s ret s'. sched_init ready_device sched_static = Some s \<and>
     sched_create_task ready_device 0x20000 0x5000 (Some ''t'') 0x6000 s = Some (1, s') \<and>
     sched_create_task ready_device 0x20000 0x5000 None 0x6000 s = Some (-1, s)"
proof -
  obtain s where s: "sched_init ready_device sched_static = Some s" "sched_reach s" "cur_task s = 0" "task_count s = 1"
    by (rule sched_static_init)
  have top: "kstack_top 0x20000 TASK_MAX < two64" by (simp add: kstack_top_def)
  from sched_create_result[OF s(2) ready_device_live _ top, where trampoline = "0x5000" and name = "Some ''t''" and entry = "0x6000"]
    sched_create_result[OF s(2) ready_device_live _ top, where trampoline = "0x5000" and name = None and entry = "0x6000"] s(1,4)
  show ?thesis by auto
qed

text \<open>
  A context switch loses nothing: a task that switched away gets back its registers, its stack
  pointer and its return address when any task switches to it again, provided that its saved
  frame and its entry in the table were left alone in between.
\<close>

theorem switch_to_roundtrip:
  assumes "p \<noteq> q" and "p < length (tasks s)" and "48 \<le> rsp s" and "rsp s + 8 < two64" and "saved_rsp (tasks s ! q) + 56 < two64"
    and "saved_rsp (tasks t ! p) = saved_rsp (tasks (switch_to p q s) ! p)"
    and "\<And>a. rsp s - 48 \<le> a \<Longrightarrow> a < rsp s + 8 \<Longrightarrow> kmem t a = kmem (switch_to p q s) a"
    and "r \<noteq> p" and "48 \<le> rsp t" and "rsp t < two64" and "rsp t \<le> rsp s - 48 \<or> rsp s + 56 \<le> rsp t"
  shows "rsp (switch_to r p t) = rsp s + 8 \<and> rip (switch_to r p t) = kmem s (rsp s) \<and>
    rbx (switch_to r p t) = rbx s \<and> rbp (switch_to r p t) = rbp s \<and> r12 (switch_to r p t) = r12 s \<and>
    r13 (switch_to r p t) = r13 s \<and> r14 (switch_to r p t) = r14 s \<and> r15 (switch_to r p t) = r15 s"
  using assms by (rule switch_roundtrip)

theorem switch_to_roundtrip_witness:
  "rbx (switch_to 1 0 ((switch_to 0 1 sched_static)\<lparr>rsp := 0x8000, rbx := 77\<rparr>)) = 1"
proof -
  let ?t = "(switch_to 0 1 sched_static)\<lparr>rsp := 0x8000, rbx := 77\<rparr>"
  have s: "rsp sched_static = 0x9000" "rbx sched_static = 1" "length (tasks sched_static) = TASK_MAX" "saved_rsp (tasks sched_static ! 1) = 0"
    by (simp_all add: sched_static_def vga_state.defs)
  have "rbx (switch_to 1 0 ?t) = rbx sched_static"
    using switch_to_roundtrip[of 0 1 sched_static ?t 1] s by simp
  with s(2) show ?thesis by simp
qed

end
