(* ===== verification/Vmm.thy ===== *)
theory Vmm
  imports Pmm
begin

text \<open>
  Paging: kernel/arch/x86_64/vmm.c, which maps, unmaps and translates pages in the four levels of
  page tables of x86-64, taking frames for missing tables from the physical memory manager.
  The tables are 64-bit words of physical memory, which the kernel sees under the same addresses.
\<close>

section \<open>State\<close>

record vmm_state = pmm_state +
  pt_mem :: "addr \<Rightarrow> u64"
  cr3 :: u64
  tlb_invalidated :: "u64 list"

abbreviation PTE_PRESENT :: u64 where
  "PTE_PRESENT \<equiv> 1"

abbreviation PTE_WRITABLE :: u64 where
  "PTE_WRITABLE \<equiv> 2"

abbreviation PTE_USER :: u64 where
  "PTE_USER \<equiv> 4"

abbreviation PTE_ADDR_MASK :: u64 where
  "PTE_ADDR_MASK \<equiv> 0x000FFFFFFFFFF000"

definition PML4_INDEX :: "u64 \<Rightarrow> nat" where
  "PML4_INDEX virt = unat (drop_bit 39 virt AND 0x1FF)"

definition PDPT_INDEX :: "u64 \<Rightarrow> nat" where
  "PDPT_INDEX virt = unat (drop_bit 30 virt AND 0x1FF)"

definition PD_INDEX :: "u64 \<Rightarrow> nat" where
  "PD_INDEX virt = unat (drop_bit 21 virt AND 0x1FF)"

definition PT_INDEX :: "u64 \<Rightarrow> nat" where
  "PT_INDEX virt = unat (drop_bit 12 virt AND 0x1FF)"

section \<open>Operations\<close>

definition vmm_invlpg :: "u64 \<Rightarrow> 'a vmm_state_scheme \<Rightarrow> 'a vmm_state_scheme" where
  "vmm_invlpg virt s = s\<lparr>tlb_invalidated := tlb_invalidated s @ [virt]\<rparr>"

definition vmm_switch_pml4 :: "addr \<Rightarrow> 'a vmm_state_scheme \<Rightarrow> 'a vmm_state_scheme" where
  "vmm_switch_pml4 pml4 s = s\<lparr>cr3 := of_nat pml4\<rparr>"

definition vmm_init :: "'a vmm_state_scheme \<Rightarrow> 'a vmm_state_scheme" where
  "vmm_init s = vmm_switch_pml4 (unat (cr3 s)) s"

text \<open>\<open>for (int i = 0; i < 512; i++) table[i] = 0;\<close>\<close>

definition zero_table :: "addr \<Rightarrow> (addr \<Rightarrow> u64) \<Rightarrow> addr \<Rightarrow> u64" where
  "zero_table t m = fold (\<lambda>i m. m(t + 8 * i := 0)) [0..<512] m"

text \<open>
  One of the three steps down: the table that an entry points to, allocated, cleared and
  linked when the entry is not present. The result of \<open>pmm_alloc_frame\<close> is used as it is.
\<close>

definition next_table :: "addr \<Rightarrow> nat \<Rightarrow> 'a vmm_state_scheme \<Rightarrow> addr \<times> 'a vmm_state_scheme" where
  "next_table tbl idx s =
     (if pt_mem s (tbl + 8 * idx) AND PTE_PRESENT = 0
      then case pmm_alloc_frame s of (t, s1) \<Rightarrow>
             let s2 = s1\<lparr>pt_mem := zero_table t (pt_mem s1)\<rparr>
             in (t, s2\<lparr>pt_mem := (pt_mem s2)(tbl + 8 * idx := of_nat t OR PTE_PRESENT OR PTE_WRITABLE OR PTE_USER)\<rparr>)
      else (unat (pt_mem s (tbl + 8 * idx) AND PTE_ADDR_MASK), s))"

definition vmm_map_page :: "addr \<Rightarrow> u64 \<Rightarrow> u64 \<Rightarrow> u64 \<Rightarrow> 'a vmm_state_scheme \<Rightarrow> 'a vmm_state_scheme" where
  "vmm_map_page pml4 virt phys flags s =
     (case next_table pml4 (PML4_INDEX virt) s of (pdpt, s) \<Rightarrow>
      case next_table pdpt (PDPT_INDEX virt) s of (pd, s) \<Rightarrow>
      case next_table pd (PD_INDEX virt) s of (pt, s) \<Rightarrow>
        vmm_invlpg virt (s\<lparr>pt_mem := (pt_mem s)(pt + 8 * PT_INDEX virt :=
          (phys AND PTE_ADDR_MASK) OR (flags AND NOT PTE_ADDR_MASK) OR PTE_PRESENT)\<rparr>))"

text \<open>The table that a present entry points to; the early return is None.\<close>

definition present_table :: "'a vmm_state_scheme \<Rightarrow> addr \<Rightarrow> nat \<Rightarrow> addr option" where
  "present_table s tbl idx =
     (let e = pt_mem s (tbl + 8 * idx) in if e AND PTE_PRESENT = 0 then None else Some (unat (e AND PTE_ADDR_MASK)))"

definition vmm_unmap_page :: "addr \<Rightarrow> u64 \<Rightarrow> 'a vmm_state_scheme \<Rightarrow> 'a vmm_state_scheme" where
  "vmm_unmap_page pml4 virt s =
     (case present_table s pml4 (PML4_INDEX virt) of None \<Rightarrow> s | Some pdpt \<Rightarrow>
      case present_table s pdpt (PDPT_INDEX virt) of None \<Rightarrow> s | Some pd \<Rightarrow>
      case present_table s pd (PD_INDEX virt) of None \<Rightarrow> s | Some pt \<Rightarrow>
        if pt_mem s (pt + 8 * PT_INDEX virt) AND PTE_PRESENT = 0 then s
        else vmm_invlpg virt (s\<lparr>pt_mem := (pt_mem s)(pt + 8 * PT_INDEX virt := 0)\<rparr>))"

definition vmm_virt_to_phys :: "addr \<Rightarrow> u64 \<Rightarrow> 'a vmm_state_scheme \<Rightarrow> u64" where
  "vmm_virt_to_phys pml4 virt s =
     (case present_table s pml4 (PML4_INDEX virt) of None \<Rightarrow> 0 | Some pdpt \<Rightarrow>
      case present_table s pdpt (PDPT_INDEX virt) of None \<Rightarrow> 0 | Some pd \<Rightarrow>
      case present_table s pd (PD_INDEX virt) of None \<Rightarrow> 0 | Some pt \<Rightarrow>
        let e = pt_mem s (pt + 8 * PT_INDEX virt) in
        if e AND PTE_PRESENT = 0 then 0 else (e AND PTE_ADDR_MASK) OR (virt AND 0xFFF))"

section \<open>The address space that the tables describe\<close>

text \<open>
  Walking down from a table along a list of indices, as the processor does. The address space
  is a map from pages, each named by its four indices, to the entries that map them.
\<close>

fun walk :: "(addr \<Rightarrow> u64) \<Rightarrow> addr \<Rightarrow> nat list \<Rightarrow> addr option" where
  "walk m t [] = Some t"
| "walk m t (i # is) =
     (let e = m (t + 8 * i) in if e AND PTE_PRESENT = 0 then None else walk m (unat (e AND PTE_ADDR_MASK)) is)"

definition page_path :: "u64 \<Rightarrow> nat list" where
  "page_path virt = [PML4_INDEX virt, PDPT_INDEX virt, PD_INDEX virt, PT_INDEX virt]"

definition address_space :: "(addr \<Rightarrow> u64) \<Rightarrow> addr \<Rightarrow> nat list \<Rightarrow> u64 option" where
  "address_space m root p =
     (case walk m root (butlast p) of None \<Rightarrow> None
      | Some t \<Rightarrow> let e = m (t + 8 * last p) in if e AND PTE_PRESENT = 0 then None else Some e)"

text \<open>The paths of tables: at most three indices.\<close>

definition table_path :: "nat list \<Rightarrow> bool" where
  "table_path p \<longleftrightarrow> length p \<le> 3 \<and> (\<forall>i\<in>set p. i < 512)"

text \<open>
  The tables form a tree: a different table for every path, each in a frame of its own that is
  marked in use. Addresses of frames fit the address bits of an entry.
\<close>

definition vmm_ok :: "addr \<Rightarrow> 'a vmm_state_scheme \<Rightarrow> bool" where
  "vmm_ok root s \<longleftrightarrow> pmm_wf s \<and> 0 \<in> pmm_used s \<and> total_frames s * PAGE_SIZE \<le> 2 ^ 52 \<and>
     (\<forall>p t. table_path p \<and> walk (pt_mem s) root p = Some t \<longrightarrow> t mod PAGE_SIZE = 0 \<and> t div PAGE_SIZE \<in> pmm_used s) \<and>
     (\<forall>p q t. table_path p \<and> table_path q \<and> walk (pt_mem s) root p = Some t \<and> walk (pt_mem s) root q = Some t \<longrightarrow> p = q)"

lemma walk_snoc:
  "walk m t (p @ [i]) = (case walk m t p of None \<Rightarrow> None
     | Some u \<Rightarrow> if m (u + 8 * i) AND PTE_PRESENT = 0 then None else Some (unat (m (u + 8 * i) AND PTE_ADDR_MASK)))"
  by (induction p arbitrary: t) (simp_all add: Let_def)

lemma walk_append: "walk m t (p @ q) = (case walk m t p of None \<Rightarrow> None | Some u \<Rightarrow> walk m u q)"
  by (induction p arbitrary: t) (simp_all add: Let_def)

lemma index_less: "PML4_INDEX v < 512" "PDPT_INDEX v < 512" "PD_INDEX v < 512" "PT_INDEX v < 512"
proof -
  have "unat (w AND 0x1FF) < 512" for w :: u64
  proof -
    have "(0x1FF :: u64) = mask 9" by (simp add: mask_eq_exp_minus_1)
    then have "unat (w AND 0x1FF) = unat w mod 2 ^ 9" by (simp only: unat_and_mask)
    then show ?thesis by simp
  qed
  then show "PML4_INDEX v < 512" "PDPT_INDEX v < 512" "PD_INDEX v < 512" "PT_INDEX v < 512"
    by (simp_all add: PML4_INDEX_def PDPT_INDEX_def PD_INDEX_def PT_INDEX_def)
qed

lemma table_slots:
  assumes "t mod PAGE_SIZE = 0" "u mod PAGE_SIZE = 0" "i < 512" "j < 512"
  shows "t + 8 * i = u + 8 * j \<longleftrightarrow> t = u \<and> i = (j :: nat)"
proof
  assume e: "t + 8 * i = u + 8 * j"
  obtain a b where "t = PAGE_SIZE * a" "u = PAGE_SIZE * b" using mod_0_imp_dvd[OF assms(1)] mod_0_imp_dvd[OF assms(2)] by (auto elim!: dvdE)
  moreover from this have "(t + 8 * i) div PAGE_SIZE = a" "(u + 8 * j) div PAGE_SIZE = b" using assms(3,4) by simp_all
  ultimately have "t = u" using e by simp
  with e show "t = u \<and> i = j" by simp
qed simp

lemma zero_table_eq: "zero_table t m a = (if \<exists>i < 512. a = t + 8 * i then 0 else m a)"
proof -
  have "fold (\<lambda>i m. m(t + 8 * i := 0)) [0..<n] m a = (if \<exists>i < n. a = t + 8 * i then 0 else m a)" for n
    by (induction n) (auto simp: less_Suc_eq)
  then show ?thesis by (simp only: zero_table_def)
qed

text \<open>The entry that links a frame.\<close>

lemma addr_mask: "PTE_ADDR_MASK = push_bit 12 (mask 40)"
  by (simp add: mask_eq_exp_minus_1)

lemma frame_address_masked:
  assumes "t mod PAGE_SIZE = 0" "t < 2 ^ 52"
  shows "(of_nat t :: u64) AND PTE_ADDR_MASK = of_nat t"
proof -
  obtain f where f: "t = PAGE_SIZE * f" using mod_0_imp_dvd[OF assms(1)] by (auto elim!: dvdE)
  then have f40: "f < 2 ^ 40" using assms(2) by simp
  have x: "(of_nat t :: u64) = push_bit 12 (of_nat f)" by (simp add: f push_bit_eq_mult)
  have "(of_nat f :: u64) AND mask 40 = of_nat f"
    using f40 by (simp add: take_bit_eq_mask[symmetric] take_bit_of_nat take_bit_nat_eq_self)
  then show ?thesis unfolding x addr_mask push_bit_and[symmetric] by simp
qed

lemma link_entry:
  assumes "t mod PAGE_SIZE = 0" "t < 2 ^ 52"
  shows "((of_nat t :: u64) OR PTE_PRESENT OR PTE_WRITABLE OR PTE_USER) AND PTE_PRESENT \<noteq> 0"
    "unat (((of_nat t :: u64) OR PTE_PRESENT OR PTE_WRITABLE OR PTE_USER) AND PTE_ADDR_MASK) = t"
proof -
  have d: "(x OR y) AND z = x AND z OR y AND z" for x y z :: u64 by (rule bit.conj_disj_distrib2)
  have "bit (((of_nat t :: u64) OR PTE_PRESENT OR PTE_WRITABLE OR PTE_USER) AND PTE_PRESENT) 0" by (simp add: bit_simps)
  then show "((of_nat t :: u64) OR PTE_PRESENT OR PTE_WRITABLE OR PTE_USER) AND PTE_PRESENT \<noteq> 0" by (metis bit_0_eq bot_apply bot_bool_def)
  have "((of_nat t :: u64) OR PTE_PRESENT OR PTE_WRITABLE OR PTE_USER) AND PTE_ADDR_MASK = of_nat t"
    unfolding d frame_address_masked[OF assms] by simp
  then show "unat (((of_nat t :: u64) OR PTE_PRESENT OR PTE_WRITABLE OR PTE_USER) AND PTE_ADDR_MASK) = t"
    using assms(2) by (simp only:) (rule unat_of_nat_small, simp)
qed

section \<open>One step down\<close>

lemma pmm_alloc_more: "pmm_alloc_frame s = (p, s') \<Longrightarrow> pmm_state.more s' = pmm_state.more s"
  by (auto simp: pmm_alloc_frame_def take_frame_def Let_def split: option.splits if_splits)

lemma vmm_more:
  assumes "pmm_state.more s' = pmm_state.more s"
  shows "pt_mem s' = pt_mem s" "cr3 s' = cr3 s" "tlb_invalidated s' = tlb_invalidated s"
  using assms by (cases s, cases s', simp)+

lemma pmm_upd_pt_mem [simp]:
  "pmm_wf (s\<lparr>pt_mem := m\<rparr>) = pmm_wf s" "pmm_used (s\<lparr>pt_mem := m\<rparr>) = pmm_used s"
  "pmm_wf (s\<lparr>tlb_invalidated := l\<rparr>) = pmm_wf s" "pmm_used (s\<lparr>tlb_invalidated := l\<rparr>) = pmm_used s"
  by (simp_all add: pmm_wf_def pmm_used_def)

lemma vmm_okD:
  assumes "vmm_ok root s"
  shows "pmm_wf s" "0 \<in> pmm_used s" "total_frames s * PAGE_SIZE \<le> 2 ^ 52"
    "table_path p \<Longrightarrow> walk (pt_mem s) root p = Some t \<Longrightarrow> t mod PAGE_SIZE = 0"
    "table_path p \<Longrightarrow> walk (pt_mem s) root p = Some t \<Longrightarrow> t div PAGE_SIZE \<in> pmm_used s"
    "table_path p \<Longrightarrow> table_path q \<Longrightarrow> walk (pt_mem s) root p = Some t \<Longrightarrow> walk (pt_mem s) root q = Some t \<Longrightarrow> p = q"
  using assms unfolding vmm_ok_def by blast+

lemma vmm_okI:
  assumes "pmm_wf s" "0 \<in> pmm_used s" "total_frames s * PAGE_SIZE \<le> 2 ^ 52"
    "\<And>p t. table_path p \<Longrightarrow> walk (pt_mem s) root p = Some t \<Longrightarrow> t mod PAGE_SIZE = 0 \<and> t div PAGE_SIZE \<in> pmm_used s"
    "\<And>p q t. table_path p \<Longrightarrow> table_path q \<Longrightarrow> walk (pt_mem s) root p = Some t \<Longrightarrow> walk (pt_mem s) root q = Some t \<Longrightarrow> p = q"
  shows "vmm_ok root s"
  using assms unfolding vmm_ok_def by blast

text \<open>A walk depends on the entries it reads only.\<close>

lemma walk_same:
  assumes "\<And>q j r u. p = q @ j # r \<Longrightarrow> walk m root q = Some u \<Longrightarrow> m' (u + 8 * j) = m (u + 8 * j)"
  shows "walk m' root p = walk m root p"
  using assms
proof (induction p rule: rev_induct)
  case (snoc i p)
  have IH: "walk m' root p = walk m root p" by (rule snoc.IH) (use snoc.prems in force)
  show ?case
  proof (cases "walk m root p")
    case (Some u)
    with snoc.prems[of p i "[]"] have "m' (u + 8 * i) = m (u + 8 * i)" by simp
    then show ?thesis by (simp only: walk_snoc IH)  (simp add: Some)
  qed (simp add: walk_snoc IH)
qed simp

text \<open>Writing one entry of one table changes no walk but those through that entry.\<close>

lemma walk_upd:
  assumes ok: "\<And>q u. table_path q \<Longrightarrow> walk m root q = Some u \<Longrightarrow> u mod PAGE_SIZE = 0"
    and inj: "\<And>q. table_path q \<Longrightarrow> walk m root q = Some t \<Longrightarrow> q = p"
    and p: "t mod PAGE_SIZE = 0" "i < 512"
    and q: "length q \<le> 4" "\<forall>j\<in>set q. j < 512" "\<forall>r. q \<noteq> p @ i # r"
  shows "walk (m(t + 8 * i := v)) root q = walk m root q"
proof (rule walk_same)
  fix q' j r u assume e: "q = q' @ j # r" and u: "walk m root q' = Some u"
  have tp: "table_path q'" using q(1,2) e by (auto simp: table_path_def)
  have "u + 8 * j \<noteq> t + 8 * i"
  proof
    assume "u + 8 * j = t + 8 * i"
    then have "u = t" "j = i" using table_slots[OF ok[OF tp u] p(1) _ p(2), of j] q(2) e by auto
    with inj[OF tp] u q(3) e show False by simp
  qed
  then show "(m(t + 8 * i := v)) (u + 8 * j) = m (u + 8 * j)" by simp
qed

lemma walk_zero:
  assumes ok: "\<And>q u. table_path q \<Longrightarrow> walk m root q = Some u \<Longrightarrow> u mod PAGE_SIZE = 0 \<and> u \<noteq> f"
    and f: "f mod PAGE_SIZE = 0" and q: "length q \<le> 4" "\<forall>j\<in>set q. j < 512"
  shows "walk (zero_table f m) root q = walk m root q"
proof (rule walk_same)
  fix q' j r u assume e: "q = q' @ j # r" and u: "walk m root q' = Some u"
  have tp: "table_path q'" using q e by (auto simp: table_path_def)
  have "\<not> (\<exists>i < 512. u + 8 * j = f + 8 * i)"
    using table_slots[OF _ f, of u j] ok[OF tp u] q(2) e by auto
  then show "zero_table f m (u + 8 * j) = m (u + 8 * j)" by (simp only: zero_table_eq if_False)
qed

text \<open>The tables after the fresh frame \<open>f\<close> has been linked as table \<open>i\<close> of the table at \<open>t\<close>.\<close>

definition linked :: "addr \<Rightarrow> nat \<Rightarrow> addr \<Rightarrow> (addr \<Rightarrow> u64) \<Rightarrow> addr \<Rightarrow> u64" where
  "linked t i f m = (zero_table f m)(t + 8 * i := of_nat f OR PTE_PRESENT OR PTE_WRITABLE OR PTE_USER)"

lemma linked_walk:
  assumes ok: "vmm_ok root s" and p: "length p \<le> 2" "\<forall>j\<in>set p. j < 512" and w: "walk (pt_mem s) root p = Some t" and i: "i < 512"
    and absent: "pt_mem s (t + 8 * i) AND PTE_PRESENT = 0" and f: "f mod PAGE_SIZE = 0" "f < 2 ^ 52" "f div PAGE_SIZE \<notin> pmm_used s"
  shows "walk (linked t i f (pt_mem s)) root (p @ [i]) = Some f"
    "length q \<le> 4 \<Longrightarrow> \<forall>j\<in>set q. j < 512 \<Longrightarrow> q \<noteq> p @ [i] \<Longrightarrow> walk (linked t i f (pt_mem s)) root q = walk (pt_mem s) root q"
    "j < 512 \<Longrightarrow> linked t i f (pt_mem s) (f + 8 * j) = 0" "walk (pt_mem s) root (p @ i # r) = None"
proof -
  note V = vmm_okD[OF ok]
  have tp: "table_path p" using p by (simp add: table_path_def)
  let ?m = "pt_mem s" and ?z = "zero_table f (pt_mem s)" and ?m' = "linked t i f (pt_mem s)"
  have fresh: "u mod PAGE_SIZE = 0 \<and> u \<noteq> f" if "table_path q" "walk ?m root q = Some u" for q u
    using V(4,5)[OF that] f(3) by auto
  have z: "walk ?z root q = walk ?m root q" if "length q \<le> 4" "\<forall>j\<in>set q. j < 512" for q
    by (rule walk_zero[OF fresh f(1) that])
  have zt: "walk ?z root q = walk ?m root q" if "table_path q" for q using z that by (simp add: table_path_def)
  have t0: "t mod PAGE_SIZE = 0" using V(4)[OF tp w] .
  have inj: "q = p" if "table_path q" "walk ?z root q = Some t" for q
    using V(6)[OF that(1) tp] that w zt by simp
  have off: "walk ?m' root q = walk ?m root q" if "length q \<le> 4" "\<forall>j\<in>set q. j < 512" "\<forall>r. q \<noteq> p @ i # r" for q
  proof -
    have "walk ?m' root q = walk ?z root q"
      unfolding linked_def by (rule walk_upd[OF _ inj t0 i that]) (use V(4) zt in simp)
    with z that show ?thesis by simp
  qed
  have "walk ?m' root p = Some t" using off[of p] p w by (auto simp: table_path_def)
  then show at: "walk ?m' root (p @ [i]) = Some f"
    using link_entry[OF f(1,2)] by (simp add: walk_snoc linked_def)
  show zero: "?m' (f + 8 * j) = 0" if "j < 512" for j
    using table_slots[OF f(1) t0 that i] fresh[OF tp w] that by (auto simp: zero_table_eq linked_def)
  show was: "walk ?m root (p @ i # r) = None" for r
    using walk_append[of ?m root p "i # r"] w absent by (simp add: Let_def)
  have below: "walk ?m' root (p @ i # j # r) = None" if "j < 512" for j r
    using walk_append[of ?m' root "p @ [i]" "j # r"] at zero[OF that] by simp
  show "walk ?m' root q = walk ?m root q" if Q: "length q \<le> 4" "\<forall>j\<in>set q. j < 512" "q \<noteq> p @ [i]" for q
  proof (cases "\<exists>r. q = p @ i # r")
    case True
    then obtain j r where "q = p @ i # j # r" using Q(3) by (metis neq_Nil_conv)
    with below[of j r] was[of "j # r"] Q(2) show ?thesis by simp
  qed (use off Q in blast)
qed

lemma linked_space:
  assumes ok: "vmm_ok root s" and p: "length p \<le> 2" "\<forall>j\<in>set p. j < 512" and w: "walk (pt_mem s) root p = Some t" and i: "i < 512"
    and absent: "pt_mem s (t + 8 * i) AND PTE_PRESENT = 0" and f: "f mod PAGE_SIZE = 0" "f < 2 ^ 52" "f div PAGE_SIZE \<notin> pmm_used s"
    and q: "length q = 4" "\<forall>j\<in>set q. j < 512"
  shows "address_space (linked t i f (pt_mem s)) root q = address_space (pt_mem s) root q"
proof -
  note V = vmm_okD[OF ok] and W = linked_walk[OF ok p w i absent f]
  have tp: "table_path p" using p by (simp add: table_path_def)
  obtain b j where b: "q = b @ [j]" using q(1) by (cases q rule: rev_cases) auto
  have tb: "table_path b" "j < 512" using q b by (simp_all add: table_path_def)
  show ?thesis
  proof (cases "b = p @ [i]")
    case True
    then show ?thesis using W(1) W(3)[OF tb(2)] W(4)[of "[]"] b by (simp add: address_space_def butlast_append)
  next
    case False
    then have wb: "walk (linked t i f (pt_mem s)) root b = walk (pt_mem s) root b"
      using W(2)[of b] tb(1) by (simp add: table_path_def)
    show ?thesis
    proof (cases "walk (pt_mem s) root b")
      case (Some u)
      have u: "u mod PAGE_SIZE = 0" "u \<noteq> f" using V(4,5)[OF tb(1) Some] f(3) by auto
      then have nz: "\<not> (\<exists>k < 512. u + 8 * j = f + 8 * k)" using table_slots[OF u(1) f(1) tb(2)] by auto
      have "u + 8 * j \<noteq> t + 8 * i"
      proof
        assume "u + 8 * j = t + 8 * i"
        then have "u = t \<and> j = i" by (rule iffD1[OF table_slots[OF u(1) V(4)[OF tp w] tb(2) i]])
        then have "b = p" using V(6)[OF tb(1) tp] Some w by simp
        then show False using b q(1) p(1) by simp
      qed
      then have "linked t i f (pt_mem s) (u + 8 * j) = pt_mem s (u + 8 * j)" using nz by (auto simp: zero_table_eq linked_def)
      then show ?thesis using b wb Some by (simp add: address_space_def)
    qed (use b wb in \<open>simp add: address_space_def\<close>)
  qed
qed

lemma linked_ok:
  assumes ok: "vmm_ok root s" and p: "length p \<le> 2" "\<forall>j\<in>set p. j < 512" and w: "walk (pt_mem s) root p = Some t" and i: "i < 512"
    and absent: "pt_mem s (t + 8 * i) AND PTE_PRESENT = 0" and f: "f mod PAGE_SIZE = 0" "f < 2 ^ 52" "f div PAGE_SIZE \<notin> pmm_used s"
    and s1: "pmm_wf s1" "pmm_used s1 = insert (f div PAGE_SIZE) (pmm_used s)" "total_frames s1 = total_frames s"
  shows "vmm_ok root (s1\<lparr>pt_mem := linked t i f (pt_mem s)\<rparr>)"
proof (rule vmm_okI)
  note V = vmm_okD[OF ok] and W = linked_walk[OF ok p w i absent f]
  let ?s = "s1\<lparr>pt_mem := linked t i f (pt_mem s)\<rparr>"
  have walk': "walk (pt_mem ?s) root q = (if q = p @ [i] then Some f else walk (pt_mem s) root q)" if "table_path q" for q
    using W(1) W(2)[of q] that by (auto simp: table_path_def)
  have fresh: "u \<noteq> f" if "table_path q" "walk (pt_mem s) root q = Some u" for q u using V(5)[OF that] f(3) by auto
  show "u mod PAGE_SIZE = 0 \<and> u div PAGE_SIZE \<in> pmm_used ?s" if "table_path q" "walk (pt_mem ?s) root q = Some u" for q u
    using walk'[OF that(1)] that V(4,5)[OF that(1)] s1(2) f(1) by (auto split: if_split_asm)
  show "q = q'" if "table_path q" "table_path q'" "walk (pt_mem ?s) root q = Some u" "walk (pt_mem ?s) root q' = Some u" for q q' u
    using walk'[OF that(1)] walk'[OF that(2)] that fresh[OF that(1)] fresh[OF that(2)] V(6)[OF that(1,2)]
    by (auto split: if_split_asm)
qed (use s1 vmm_okD[OF ok] in simp_all)

text \<open>
  One step down from the table of path \<open>p\<close>, when a frame is left: it ends in the table of path
  \<open>p @ [i]\<close>, keeps the tree, and changes no other table and no page.
\<close>

lemma next_table_ok:
  assumes ok: "vmm_ok root s" and p: "length p \<le> 2" "\<forall>j\<in>set p. j < 512" and w: "walk (pt_mem s) root p = Some t" and i: "i < 512"
    and free: "card (pmm_used s) < total_frames s"
  obtains u s' where "next_table t i s = (u, s')" "vmm_ok root s'" "walk (pt_mem s') root (p @ [i]) = Some u"
    "\<And>q. length q \<le> 4 \<Longrightarrow> \<forall>j\<in>set q. j < 512 \<Longrightarrow> q \<noteq> p @ [i] \<Longrightarrow> walk (pt_mem s') root q = walk (pt_mem s) root q"
    "card (pmm_used s') \<le> card (pmm_used s) + 1" "total_frames s' = total_frames s" "cr3 s' = cr3 s" "pmm_used s \<subseteq> pmm_used s'"
    "tlb_invalidated s' = tlb_invalidated s"
    "\<And>q. length q = 4 \<Longrightarrow> \<forall>j\<in>set q. j < 512 \<Longrightarrow> address_space (pt_mem s') root q = address_space (pt_mem s) root q"
proof (cases "pt_mem s (t + 8 * i) AND PTE_PRESENT = 0")
  case False
  then have "next_table t i s = (unat (pt_mem s (t + 8 * i) AND PTE_ADDR_MASK), s)" by (simp add: next_table_def)
  moreover have "walk (pt_mem s) root (p @ [i]) = Some (unat (pt_mem s (t + 8 * i) AND PTE_ADDR_MASK))"
    using w False by (simp add: walk_snoc)
  ultimately show thesis using ok by (intro that) simp_all
next
  case True
  note V = vmm_okD[OF ok]
  obtain f s1 where al: "pmm_alloc_frame s = (f, s1)" by fastforce
  have nf: "pmm_used s \<noteq> {..<total_frames s}" using free by (metis card_lessThan nat_neq_iff)
  obtain g where g: "f = g * PAGE_SIZE" "g \<notin> pmm_used s" "pmm_used s1 = insert g (pmm_used s)" "total_frames s1 = total_frames s" "pmm_wf s1"
    "g < total_frames s"
    using frames.alloc_free[OF V(1) nf al] by (elim exE conjE) (rule that)
  note M = vmm_more[OF pmm_alloc_more[OF al]]
  have f: "f mod PAGE_SIZE = 0" "f < 2 ^ 52" "f div PAGE_SIZE \<notin> pmm_used s" using g(1,2,6) V(3) by simp_all
  let ?s = "s1\<lparr>pt_mem := linked t i f (pt_mem s)\<rparr>"
  have nt: "next_table t i s = (f, ?s)" using True al M(1) by (simp add: next_table_def linked_def Let_def)
  have u: "pmm_used s1 = insert (f div PAGE_SIZE) (pmm_used s)" using g(1,3) by simp
  have c: "card (pmm_used s1) \<le> card (pmm_used s) + 1" unfolding g(3) using g(2) by simp
  show thesis
    by (rule that[OF nt linked_ok[OF ok p w i True f g(5) u g(4)]])
      (use linked_walk(1,2)[OF ok p w i True f] linked_space[OF ok p w i True f] c g(3,4) M in \<open>simp_all add: subset_insertI\<close>)
qed

section \<open>Mapping, unmapping and translating\<close>

lemma present_table_walk:
  "walk (pt_mem s) root p = Some t \<Longrightarrow> present_table s t i = walk (pt_mem s) root (p @ [i])"
  by (simp add: present_table_def walk_snoc Let_def)

lemma path_range: "\<forall>i\<in>set (page_path v). i < 512" "length (page_path v) = 4"
  using index_less[of v] by (simp_all add: page_path_def)

lemma virt_to_phys_space:
  "vmm_virt_to_phys root v s = (case address_space (pt_mem s) root (page_path v) of None \<Rightarrow> 0
     | Some e \<Rightarrow> (e AND PTE_ADDR_MASK) OR (v AND 0xFFF))"
  by (simp add: vmm_virt_to_phys_def present_table_def address_space_def page_path_def Let_def)

text \<open>Writing an entry of a last table changes exactly one page.\<close>

lemma write_page:
  fixes e :: u64
  assumes ok: "vmm_ok root s" and p: "length p = 3" "\<forall>j\<in>set p. j < 512" and w: "walk (pt_mem s) root p = Some t" and i: "i < 512"
  defines "s' \<equiv> s\<lparr>pt_mem := (pt_mem s)(t + 8 * i := e)\<rparr>"
  shows "vmm_ok root s'"
    "length q = 4 \<Longrightarrow> \<forall>j\<in>set q. j < 512 \<Longrightarrow> address_space (pt_mem s') root q =
      (if q = p @ [i] then if e AND PTE_PRESENT = 0 then None else Some e else address_space (pt_mem s) root q)"
proof -
  note V = vmm_okD[OF ok]
  have tp: "table_path p" using p by (simp add: table_path_def)
  have t0: "t mod PAGE_SIZE = 0" using V(4)[OF tp w] .
  let ?m' = "(pt_mem s)(t + 8 * i := e)"
  have tab: "walk ?m' root q = walk (pt_mem s) root q" if "table_path q" for q
    by (rule walk_upd[OF V(4) V(6)[OF _ tp _ w] t0 i]) (use that p in \<open>auto simp: table_path_def\<close>)
  show "vmm_ok root s'"
    using V tab by (intro vmm_okI) (simp_all add: s'_def del: fun_upd_apply)
  assume q: "length q = 4" "\<forall>j\<in>set q. j < 512"
  obtain b j where b: "q = b @ [j]" using q(1) by (cases q rule: rev_cases) auto
  have tb: "table_path b" "j < 512" using q b by (simp_all add: table_path_def)
  show "address_space (pt_mem s') root q =
      (if q = p @ [i] then if e AND PTE_PRESENT = 0 then None else Some e else address_space (pt_mem s) root q)"
  proof (cases "walk (pt_mem s) root b")
    case None
    then show ?thesis using b w tab[OF tb(1)] by (auto simp: address_space_def s'_def simp del: fun_upd_apply)
  next
    case (Some u)
    have "u + 8 * j = t + 8 * i \<longleftrightarrow> b = p \<and> j = i"
    proof
      assume "u + 8 * j = t + 8 * i"
      then have "u = t" "j = i" using table_slots[OF V(4)[OF tb(1) Some] t0 tb(2) i] by simp_all
      with V(6)[OF tb(1) tp Some] w show "b = p \<and> j = i" by simp
    qed (use Some w in auto)
    then show ?thesis using b Some tab[OF tb(1)] by (auto simp: address_space_def s'_def Let_def)
  qed
qed

lemma vmm_invlpg_same [simp]:
  "pt_mem (vmm_invlpg v s) = pt_mem s" "vmm_ok root (vmm_invlpg v s) = vmm_ok root s" "total_frames (vmm_invlpg v s) = total_frames s"
  "pmm_used (vmm_invlpg v s) = pmm_used s" "tlb_invalidated (vmm_invlpg v s) = tlb_invalidated s @ [v]"
  by (simp_all add: vmm_invlpg_def vmm_ok_def)

definition mapping_entry :: "u64 \<Rightarrow> u64 \<Rightarrow> u64" where
  "mapping_entry phys flags = (phys AND PTE_ADDR_MASK) OR (flags AND NOT PTE_ADDR_MASK) OR PTE_PRESENT"

lemma mapping_entry_bits:
  "mapping_entry phys flags AND PTE_PRESENT \<noteq> 0" "mapping_entry phys flags AND PTE_ADDR_MASK = phys AND PTE_ADDR_MASK"
proof -
  have "bit (mapping_entry phys flags AND PTE_PRESENT) 0" by (simp add: mapping_entry_def bit_simps)
  then show "mapping_entry phys flags AND PTE_PRESENT \<noteq> 0" by (metis bit_0_eq bot_apply bot_bool_def)
  have d: "(x OR y) AND z = x AND z OR y AND z" for x y z :: u64 by (rule bit.conj_disj_distrib2)
  have m: "(x AND NOT z) AND z = 0" "(x AND z) AND z = x AND z" for x z :: u64
    by (rule bit_word_eqI; auto simp: bit_and_iff bit_not_iff)+
  have "PTE_PRESENT AND PTE_ADDR_MASK = 0" by simp
  then show "mapping_entry phys flags AND PTE_ADDR_MASK = phys AND PTE_ADDR_MASK"
    unfolding mapping_entry_def d m by (simp only: or.right_neutral)
qed

lemma vmm_map_page_ok:
  fixes virt phys flags :: u64
  assumes ok: "vmm_ok root s" and free: "card (pmm_used s) + 3 \<le> total_frames s"
  defines "s' \<equiv> vmm_map_page root virt phys flags s"
  shows "vmm_ok root s'" "tlb_invalidated s' = tlb_invalidated s @ [virt]" "pmm_used s \<subseteq> pmm_used s'"
    "card (pmm_used s') \<le> card (pmm_used s) + 3"
    "length q = 4 \<Longrightarrow> \<forall>j\<in>set q. j < 512 \<Longrightarrow> address_space (pt_mem s') root q =
      (if q = page_path virt then Some (mapping_entry phys flags) else address_space (pt_mem s) root q)"
proof -
  note ix = index_less[of virt]
  let ?a = "PML4_INDEX virt" and ?b = "PDPT_INDEX virt" and ?c = "PD_INDEX virt" and ?d = "PT_INDEX virt"
  obtain t1 s1 where 1: "next_table root ?a s = (t1, s1)" "vmm_ok root s1" "walk (pt_mem s1) root [?a] = Some t1"
    "card (pmm_used s1) \<le> card (pmm_used s) + 1" "total_frames s1 = total_frames s" "pmm_used s \<subseteq> pmm_used s1"
    "tlb_invalidated s1 = tlb_invalidated s"
    "\<And>q. length q = 4 \<Longrightarrow> \<forall>j\<in>set q. j < 512 \<Longrightarrow> address_space (pt_mem s1) root q = address_space (pt_mem s) root q"
    by (rule next_table_ok[OF ok, of "[]" root ?a]) (use ix free in auto)
  obtain t2 s2 where 2: "next_table t1 ?b s1 = (t2, s2)" "vmm_ok root s2" "walk (pt_mem s2) root [?a, ?b] = Some t2"
    "card (pmm_used s2) \<le> card (pmm_used s1) + 1" "total_frames s2 = total_frames s1" "pmm_used s1 \<subseteq> pmm_used s2"
    "tlb_invalidated s2 = tlb_invalidated s1"
    "\<And>q. length q = 4 \<Longrightarrow> \<forall>j\<in>set q. j < 512 \<Longrightarrow> address_space (pt_mem s2) root q = address_space (pt_mem s1) root q"
    by (rule next_table_ok[OF 1(2), of "[?a]" t1 ?b]) (use ix free 1 in auto)
  obtain t3 s3 where 3: "next_table t2 ?c s2 = (t3, s3)" "vmm_ok root s3" "walk (pt_mem s3) root [?a, ?b, ?c] = Some t3"
    "card (pmm_used s3) \<le> card (pmm_used s2) + 1" "total_frames s3 = total_frames s2" "pmm_used s2 \<subseteq> pmm_used s3"
    "tlb_invalidated s3 = tlb_invalidated s2"
    "\<And>q. length q = 4 \<Longrightarrow> \<forall>j\<in>set q. j < 512 \<Longrightarrow> address_space (pt_mem s3) root q = address_space (pt_mem s2) root q"
    by (rule next_table_ok[OF 2(2), of "[?a, ?b]" t2 ?c]) (use ix free 1 2 in auto)
  let ?s4 = "s3\<lparr>pt_mem := (pt_mem s3)(t3 + 8 * ?d := mapping_entry phys flags)\<rparr>"
  have s': "s' = vmm_invlpg virt ?s4"
    unfolding s'_def vmm_map_page_def 1(1) 2(1) 3(1) prod.case mapping_entry_def ..
  have r: "length [?a, ?b, ?c] = 3" "\<forall>j\<in>set [?a, ?b, ?c]. j < 512" using ix by simp_all
  note W = write_page[OF 3(2) r 3(3) ix(4), where e = "mapping_entry phys flags"]
  show "vmm_ok root s'" unfolding s' using W(1) by simp
  show "tlb_invalidated s' = tlb_invalidated s @ [virt]" unfolding s' using 1(7) 2(7) 3(7) by simp
  show "pmm_used s \<subseteq> pmm_used s'" unfolding s' using 1(6) 2(6) 3(6) by auto
  show "card (pmm_used s') \<le> card (pmm_used s) + 3" unfolding s' using 1(4) 2(4) 3(4) by simp
  show "address_space (pt_mem s') root q =
      (if q = page_path virt then Some (mapping_entry phys flags) else address_space (pt_mem s) root q)"
    if q: "length q = 4" "\<forall>j\<in>set q. j < 512"
  proof -
    have "address_space (pt_mem s') root q = address_space (pt_mem ?s4) root q" unfolding s' by simp
    also have "\<dots> = (if q = [?a, ?b, ?c] @ [?d] then Some (mapping_entry phys flags) else address_space (pt_mem s3) root q)"
      using W(2)[OF q] mapping_entry_bits(1) by simp
    also have "address_space (pt_mem s3) root q = address_space (pt_mem s) root q" using 1(8)[OF q] 2(8)[OF q] 3(8)[OF q] by simp
    finally show ?thesis by (simp add: page_path_def)
  qed
qed

lemma vmm_unmap_page_ok:
  fixes virt :: u64
  assumes ok: "vmm_ok root s"
  defines "s' \<equiv> vmm_unmap_page root virt s"
  shows "vmm_ok root s'" "pmm_used s' = pmm_used s"
    "length q = 4 \<Longrightarrow> \<forall>j\<in>set q. j < 512 \<Longrightarrow> address_space (pt_mem s') root q =
      (if q = page_path virt then None else address_space (pt_mem s) root q)"
    "tlb_invalidated s' = tlb_invalidated s @ (if address_space (pt_mem s) root (page_path virt) = None then [] else [virt])"
proof -
  let ?p = "[PML4_INDEX virt, PDPT_INDEX virt, PD_INDEX virt]" and ?d = "PT_INDEX virt"
  have pp: "page_path virt = ?p @ [?d]" by (simp add: page_path_def)
  have u: "s' = (case walk (pt_mem s) root ?p of None \<Rightarrow> s | Some t \<Rightarrow>
      if pt_mem s (t + 8 * ?d) AND PTE_PRESENT = 0 then s else vmm_invlpg virt (s\<lparr>pt_mem := (pt_mem s)(t + 8 * ?d := 0)\<rparr>))"
    by (simp add: s'_def vmm_unmap_page_def present_table_def Let_def)
  have r: "length ?p = 3" "\<forall>j\<in>set ?p. j < 512" using index_less[of virt] by simp_all
  have "vmm_ok root s' \<and> pmm_used s' = pmm_used s \<and>
      (length q = 4 \<longrightarrow> (\<forall>j\<in>set q. j < 512) \<longrightarrow> address_space (pt_mem s') root q =
        (if q = page_path virt then None else address_space (pt_mem s) root q)) \<and>
      tlb_invalidated s' = tlb_invalidated s @ (if address_space (pt_mem s) root (page_path virt) = None then [] else [virt])"
  proof (cases "walk (pt_mem s) root ?p")
    case None
    then have "s' = s" "address_space (pt_mem s) root (page_path virt) = None" by (simp_all add: u address_space_def pp)
    with ok show ?thesis by simp
  next
    case (Some t)
    have as: "address_space (pt_mem s) root (page_path virt) =
        (if pt_mem s (t + 8 * ?d) AND PTE_PRESENT = 0 then None else Some (pt_mem s (t + 8 * ?d)))"
      using Some by (simp add: address_space_def pp)
    show ?thesis
    proof (cases "pt_mem s (t + 8 * ?d) AND PTE_PRESENT = 0")
      case True
      then have "s' = s" using Some by (simp add: u)
      with ok as True show ?thesis by simp
    next
      case False
      then have s': "s' = vmm_invlpg virt (s\<lparr>pt_mem := (pt_mem s)(t + 8 * ?d := 0)\<rparr>)" using Some by (simp add: u)
      note W = write_page[OF ok r Some index_less(4)[of virt], where e = 0, folded pp]
      show ?thesis unfolding s' vmm_invlpg_same using W as False by (simp del: fun_upd_apply)
    qed
  qed
  then show "vmm_ok root s'" "pmm_used s' = pmm_used s"
    "length q = 4 \<Longrightarrow> \<forall>j\<in>set q. j < 512 \<Longrightarrow> address_space (pt_mem s') root q =
      (if q = page_path virt then None else address_space (pt_mem s) root q)"
    "tlb_invalidated s' = tlb_invalidated s @ (if address_space (pt_mem s) root (page_path virt) = None then [] else [virt])"
    by blast+
qed

section \<open>Properties\<close>

text \<open>A machine of 100 frames, with frame 0 and the empty root table in frame 1 in use.\<close>

definition vmm_start :: vmm_state where
  "vmm_start = pmm_state.extend (pmm_mark_used 4096 (pmm_mark_used 0 (pmm_init 409600 0 pmm_static)))
     \<lparr>pt_mem = (\<lambda>_. 0), cr3 = 4096, tlb_invalidated = []\<rparr>"

lemma vmm_start_ok: "vmm_ok 4096 vmm_start" "card (pmm_used vmm_start) + 3 \<le> total_frames vmm_start"
proof -
  let ?s = "pmm_mark_used 4096 (pmm_mark_used 0 (pmm_init 409600 0 pmm_static))"
  have wf: "pmm_wf (pmm_init 409600 0 pmm_static)" by (rule pmm_init_wf) simp
  have tot: "total_frames (pmm_init 409600 0 pmm_static) = 100" by (simp add: pmm_init_def)
  have wf1: "pmm_wf (pmm_mark_used 0 (pmm_init 409600 0 pmm_static))"
    "pmm_used (pmm_mark_used 0 (pmm_init 409600 0 pmm_static)) = {0}"
    "total_frames (pmm_mark_used 0 (pmm_init 409600 0 pmm_static)) = 100"
    using pmm_mark_used_abs[OF wf, of 0] tot by (simp_all add: pmm_init_used Collect_conv_if)
  have s: "pmm_wf ?s" "pmm_used ?s = {0, 1}" "total_frames ?s = 100"
    using pmm_mark_used_abs[OF wf1(1), of 4096] wf1 by (auto simp: Collect_conv_if)
  have e: "pmm_wf vmm_start = pmm_wf ?s" "pmm_used vmm_start = pmm_used ?s" "total_frames vmm_start = total_frames ?s"
    by (simp_all add: vmm_start_def pmm_state.defs pmm_wf_def pmm_used_def)
  have w: "walk (pt_mem vmm_start) 4096 p = (if p = [] then Some 4096 else None)" for p
    by (cases p) (simp_all add: vmm_start_def pmm_state.defs)
  show "vmm_ok 4096 vmm_start"
    using s e by (intro vmm_okI) (auto simp: w split: if_split_asm)
  show "card (pmm_used vmm_start) + 3 \<le> total_frames vmm_start" using s e by simp
qed

text \<open>
  C37: Mapping. With three frames left, \<open>vmm_map_page\<close> maps exactly the page asked for to the
  frame and flags asked for and leaves every other page of the address space as it was, however
  many tables it had to add; a translation in the page gives the frame with the offset of the
  address. The tables still form a tree in frames marked in use, and the translation cache is
  told.
\<close>

theorem vmm_map_page_result:
  assumes "vmm_ok root s" and "card (pmm_used s) + 3 \<le> total_frames s"
  shows "let s' = vmm_map_page root virt phys flags s in
    vmm_ok root s' \<and> tlb_invalidated s' = tlb_invalidated s @ [virt] \<and>
    (\<forall>v. address_space (pt_mem s') root (page_path v) =
       (if page_path v = page_path virt then Some ((phys AND PTE_ADDR_MASK) OR (flags AND NOT PTE_ADDR_MASK) OR PTE_PRESENT)
        else address_space (pt_mem s) root (page_path v))) \<and>
    (\<forall>v. vmm_virt_to_phys root v s' =
       (if page_path v = page_path virt then (phys AND PTE_ADDR_MASK) OR (v AND 0xFFF) else vmm_virt_to_phys root v s))"
proof -
  let ?s' = "vmm_map_page root virt phys flags s"
  note M = vmm_map_page_ok[OF assms, where virt = virt and phys = phys and flags = flags]
  have a: "address_space (pt_mem ?s') root (page_path v) =
      (if page_path v = page_path virt then Some (mapping_entry phys flags) else address_space (pt_mem s) root (page_path v))" for v
    by (rule M(5)) (use path_range in auto)
  have "vmm_virt_to_phys root v ?s' =
      (if page_path v = page_path virt then (phys AND PTE_ADDR_MASK) OR (v AND 0xFFF) else vmm_virt_to_phys root v s)" for v
    unfolding virt_to_phys_space a using mapping_entry_bits(2)[of phys flags] by simp
  then show ?thesis using M(1,2) a unfolding Let_def mapping_entry_def by blast
qed

theorem vmm_map_page_result_witness:
  "vmm_virt_to_phys 4096 0x400ABC (vmm_map_page 4096 0x400000 0x7000 2 vmm_start) = 0x7ABC"
proof -
  have "page_path 0x400ABC = page_path 0x400000"
    by (simp add: page_path_def PML4_INDEX_def PDPT_INDEX_def PD_INDEX_def PT_INDEX_def)
  then show ?thesis using vmm_map_page_result[OF vmm_start_ok, where virt = "0x400000" and phys = "0x7000" and flags = 2] by (simp add: Let_def)
qed

text \<open>
  Unmapping. \<open>vmm_unmap_page\<close> removes exactly the page it is given, so that its addresses
  translate to 0, keeps every other page, takes no frame, and tells the translation cache if
  the page was mapped.
\<close>

theorem vmm_unmap_page_result:
  assumes "vmm_ok root s"
  shows "let s' = vmm_unmap_page root virt s in
    vmm_ok root s' \<and> pmm_used s' = pmm_used s \<and>
    tlb_invalidated s' = tlb_invalidated s @ (if address_space (pt_mem s) root (page_path virt) = None then [] else [virt]) \<and>
    (\<forall>v. address_space (pt_mem s') root (page_path v) =
       (if page_path v = page_path virt then None else address_space (pt_mem s) root (page_path v))) \<and>
    (\<forall>v. vmm_virt_to_phys root v s' = (if page_path v = page_path virt then 0 else vmm_virt_to_phys root v s))"
proof -
  let ?s' = "vmm_unmap_page root virt s"
  note U = vmm_unmap_page_ok[OF assms, where virt = virt]
  have a: "address_space (pt_mem ?s') root (page_path v) =
      (if page_path v = page_path virt then None else address_space (pt_mem s) root (page_path v))" for v
    by (rule U(3)) (use path_range in auto)
  have "vmm_virt_to_phys root v ?s' = (if page_path v = page_path virt then 0 else vmm_virt_to_phys root v s)" for v
    unfolding virt_to_phys_space a by simp
  then show ?thesis using U(1,2,4) a unfolding Let_def by blast
qed

theorem vmm_unmap_page_result_witness:
  "vmm_virt_to_phys 4096 0x400ABC (vmm_unmap_page 4096 0x400000 (vmm_map_page 4096 0x400000 0x7000 2 vmm_start)) = 0"
proof -
  have ok: "vmm_ok 4096 (vmm_map_page 4096 0x400000 0x7000 2 vmm_start)" by (rule vmm_map_page_ok(1)[OF vmm_start_ok])
  have "page_path 0x400ABC = page_path 0x400000"
    by (simp add: page_path_def PML4_INDEX_def PDPT_INDEX_def PD_INDEX_def PT_INDEX_def)
  then show ?thesis using vmm_unmap_page_result[OF ok, where virt = "0x400000"] by (simp add: Let_def)
qed

text \<open>
  C38: Out of frames. \<open>vmm_map_page\<close> does not look at the result 0 of the frame allocator: where the root
  has no entry for the page, it links physical page 0 into the root as a table that users may write, and overwrites all of it
  but for two entries with zeros.
\<close>

theorem vmm_map_page_out_of_frames:
  assumes "pmm_wf s" and "pmm_used s = {..<total_frames s}" and "PAGE_SIZE \<le> root"
    and "pt_mem s (root + 8 * PML4_INDEX virt) AND PTE_PRESENT = 0"
  shows "let s' = vmm_map_page root virt phys flags s in
    pt_mem s' (root + 8 * PML4_INDEX virt) = 7 \<and>
    (\<forall>k < 512. k = PD_INDEX virt \<or> k = PT_INDEX virt \<or> pt_mem s' (8 * k) = 0)"
proof -
  let ?a = "PML4_INDEX virt" and ?b = "PDPT_INDEX virt" and ?c = "PD_INDEX virt" and ?d = "PT_INDEX virt"
  note ix = index_less[of virt]
  have full: "pmm_alloc_frame (t :: 'a vmm_state_scheme) = (0, t)"
    if "bitmap t = bitmap s" "total_frames t = total_frames s" "used_frames t = used_frames s" "alloc_hint t = alloc_hint s" for t
    using that assms(1,2) by (intro pmm_alloc_frame_full) (simp_all add: pmm_wf_def pmm_used_def)
  let ?z = "zero_table 0"
  define m1 where "m1 = (?z (pt_mem s))(root + 8 * ?a := 7)"
  have r: "root + 8 * ?a \<noteq> 8 * k" if "k < 512" for k using assms(3) that by simp
  have z1: "m1 (8 * k) = 0" if "k < 512" for k using r[OF that] that by (auto simp: m1_def zero_table_eq)
  have n1: "next_table root ?a s = (0, s\<lparr>pt_mem := m1\<rparr>)"
    using assms(4) full[of s] by (simp add: next_table_def Let_def m1_def)
  define m2 where "m2 = (?z m1)(8 * ?b := 7)"
  have n2: "next_table 0 ?b (s\<lparr>pt_mem := m1\<rparr>) = (0, s\<lparr>pt_mem := m2\<rparr>)"
    using z1[OF ix(2)] full[of "s\<lparr>pt_mem := m1\<rparr>"] by (simp add: next_table_def Let_def m2_def)
  have z2: "m2 (8 * k) = (if k = ?b then 7 else 0)" if "k < 512" for k
    using that by (auto simp: m2_def zero_table_eq)
  have r2: "m2 (root + 8 * ?a) = 7"
    using r ix(2) by (auto simp: m2_def m1_def zero_table_eq)
  obtain m3 where n3: "next_table 0 ?c (s\<lparr>pt_mem := m2\<rparr>) = (0, s\<lparr>pt_mem := m3\<rparr>)" and r3: "m3 (root + 8 * ?a) = 7"
    and z3: "\<And>k. k < 512 \<Longrightarrow> m3 (8 * k) = (if k = ?c then 7 else 0)"
  proof (cases "?b = ?c")
    case True
    then show thesis using z2 r2 ix(3) by (intro that[of m2]) (simp_all add: next_table_def)
  next
    case False
    then have "next_table 0 ?c (s\<lparr>pt_mem := m2\<rparr>) = (0, s\<lparr>pt_mem := (?z m2)(8 * ?c := 7)\<rparr>)"
      using z2[OF ix(3)] full[of "s\<lparr>pt_mem := m2\<rparr>"] by (simp add: next_table_def Let_def)
    then show thesis using r r2 ix(3) by (intro that[of "(?z m2)(8 * ?c := 7)"]) (auto simp: zero_table_eq)
  qed
  have m: "pt_mem (vmm_map_page root virt phys flags s) = m3(8 * ?d := (phys AND PTE_ADDR_MASK) OR (flags AND NOT PTE_ADDR_MASK) OR PTE_PRESENT)"
    by (simp add: vmm_map_page_def n1 n2 n3 vmm_invlpg_def)
  show ?thesis unfolding Let_def m using r3 r[OF ix(4)] z3 by auto
qed

theorem vmm_map_page_out_of_frames_witness:
  "pt_mem (vmm_map_page 4096 0 0x7000 2 (vmm_start\<lparr>total_frames := 2, bitmap := [3], used_frames := 2, alloc_hint := 0\<rparr>)) 4096 = 7"
proof -
  let ?s = "vmm_start\<lparr>total_frames := 2, bitmap := [3], used_frames := 2, alloc_hint := 0\<rparr>"
  have "pmm_used ?s = {..<2}" by (auto simp: pmm_used_def frames_set_def bit_test_def less_2_cases_iff)
  then have s: "pmm_wf ?s" "pmm_used ?s = {..<total_frames ?s}" by (simp_all add: pmm_wf_def)
  have "pt_mem ?s (4096 + 8 * PML4_INDEX 0) AND PTE_PRESENT = 0" by (simp add: vmm_start_def pmm_state.defs)
  from vmm_map_page_out_of_frames[OF s _ this, where phys = "0x7000" and flags = 2] show ?thesis by (simp add: Let_def PML4_INDEX_def)
qed

end
