(* ===== verification/Boot_Entry.thy ===== *)
theory Boot_Entry
  imports Vmm
begin

text \<open>
  The way into the kernel: boot/entry64.S, which checks that the processor has 64-bit mode, builds page
  tables that map the first GB to itself in pages of 2 MB, turns paging and long mode on and calls
  \<open>kernel_main\<close>. The tables, the stack and the variables behind it are words of the physical memory that vmm.c
  works on, one after the other as the section reserves them.
\<close>

section \<open>State\<close>

record boot_state = vmm_state +
  cr0 :: u32
  cr4 :: u32
  efer :: u64
  boot_gdt :: "u64 list"

text \<open>
  The 16 KB stack follows the three tables, and the two variables of 32 bits follow the stack: \<open>multiboot_magic\<close> is the
  lower and \<open>multiboot_info\<close> the upper half of the word at \<open>stack_top\<close>.
\<close>

definition stack_top :: "addr \<Rightarrow> addr" where
  "stack_top boot_pml4 = boot_pml4 + 3 * 4096 + 16384"

section \<open>The code\<close>

text \<open>A store of 32 bits into the lower or upper half of a word of 64.\<close>

definition movl_low :: "addr \<Rightarrow> u32 \<Rightarrow> (addr \<Rightarrow> u64) \<Rightarrow> addr \<Rightarrow> u64" where
  "movl_low a v m = m(a := (m a AND NOT 0xFFFFFFFF) OR ucast v)"

definition movl_high :: "addr \<Rightarrow> u32 \<Rightarrow> (addr \<Rightarrow> u64) \<Rightarrow> addr \<Rightarrow> u64" where
  "movl_high a v m = m(a := (m a AND 0xFFFFFFFF) OR push_bit 32 (ucast v))"

text \<open>
  Whether \<open>cpuid\<close> is there: a change of the ID flag, bit 21 of EFLAGS, is tried and compared. Each push has the stack to
  itself, so that it writes the upper half of the word below \<open>stack_top\<close>. \<open>id_flag\<close> says whether the flag
  can be changed, \<open>eflags\<close> is what the first \<open>pushfl\<close> pushes.
\<close>

definition pushl :: "addr \<Rightarrow> u32 \<Rightarrow> (addr \<Rightarrow> u64) \<Rightarrow> addr \<Rightarrow> u64" where
  "pushl boot_pml4 v m = movl_high (stack_top boot_pml4 - 8) v m"

definition check_cpuid :: "bool \<Rightarrow> u32 \<Rightarrow> addr \<Rightarrow> (addr \<Rightarrow> u64) \<Rightarrow> bool \<times> (addr \<Rightarrow> u64)" where
  "check_cpuid id_flag eflags boot_pml4 m =
     (let m = pushl boot_pml4 eflags m; eax = eflags; ecx = eax;
          eax = eax XOR push_bit 21 1;
          m = pushl boot_pml4 eax m; eflags = (if id_flag then eax else ecx);
          m = pushl boot_pml4 eflags m; eax = eflags;
          m = pushl boot_pml4 ecx m
      in (eax \<noteq> ecx, m))"

text \<open>
  The checks before \<open>.no_long_mode\<close>: the result of the first, and what \<open>cpuid\<close> returns in EAX and EDX for a
  function number.
\<close>

definition long_mode_supported :: "bool \<Rightarrow> (u32 \<Rightarrow> u32 \<times> u32) \<Rightarrow> bool" where
  "long_mode_supported id_flag cpuid \<longleftrightarrow>
     (if \<not> id_flag then False
      else if fst (cpuid 0x80000000) < 0x80000001 then False
      else snd (cpuid 0x80000001) AND push_bit 29 1 \<noteq> 0)"

text \<open>\<open>rep stosl\<close> over the three tables, word by word.\<close>

definition clear_tables :: "addr \<Rightarrow> (addr \<Rightarrow> u64) \<Rightarrow> addr \<Rightarrow> u64" where
  "clear_tables boot_pml4 m = fold (\<lambda>i m. movl_high (boot_pml4 + 8 * i) 0 (movl_low (boot_pml4 + 8 * i) 0 m)) [0..<1536] m"

text \<open>\<open>.fill_pd\<close>: EAX and the memory after the entries up to ECX.\<close>

definition fill_pd :: "addr \<Rightarrow> (addr \<Rightarrow> u64) \<Rightarrow> u32 \<times> (addr \<Rightarrow> u64)" where
  "fill_pd boot_pd m =
     fold (\<lambda>ecx (eax, m). (eax + 0x200000, movl_high (boot_pd + 8 * ecx) 0 (movl_low (boot_pd + 8 * ecx) eax m))) [0..<512] (0x83, m)"

definition boot_tables :: "addr \<Rightarrow> (addr \<Rightarrow> u64) \<Rightarrow> addr \<Rightarrow> u64" where
  "boot_tables boot_pml4 m =
     (let boot_pdpt = boot_pml4 + 4096; boot_pd = boot_pml4 + 8192;
          m = clear_tables boot_pml4 m;
          m = movl_low boot_pml4 (of_nat boot_pdpt OR 0x03) m;
          m = movl_low boot_pdpt (of_nat boot_pd OR 0x03) m
      in snd (fill_pd boot_pd m))"

definition boot_gdt64 :: "u64 list" where
  "boot_gdt64 = [0, 0x00209A0000000000, 0x0000920000000000]"

text \<open>
  From \<open>_start\<close>, with the loader's registers, to the call of \<open>kernel_main\<close>, which pushes the return address \<open>ret\<close>: its
  arguments and the state. None is the endless \<open>hlt\<close> of a processor without 64-bit mode.
\<close>

definition boot_entry :: "bool \<Rightarrow> u32 \<Rightarrow> (u32 \<Rightarrow> u32 \<times> u32) \<Rightarrow> addr \<Rightarrow> u64 \<Rightarrow> u32 \<Rightarrow> u32 \<Rightarrow> boot_state \<Rightarrow>
    (u64 \<times> u64) option \<times> boot_state" where
  "boot_entry id_flag eflags cpuid boot_pml4 ret eax ebx s =
     (let top = stack_top boot_pml4;
          m = movl_high top ebx (movl_low top eax (pt_mem s)) in
      case check_cpuid id_flag eflags boot_pml4 m of (cpuid_there, m) \<Rightarrow>
      if \<not> long_mode_supported cpuid_there cpuid then (None, s\<lparr>pt_mem := m\<rparr>)
      else let s = s\<lparr>pt_mem := boot_tables boot_pml4 m\<rparr>;
               s = s\<lparr>cr3 := ucast (of_nat boot_pml4 :: u32)\<rparr>;
               s = s\<lparr>cr4 := cr4 s OR push_bit 5 1\<rparr>;
               s = s\<lparr>efer := efer s OR push_bit 8 1\<rparr>;
               s = s\<lparr>cr0 := cr0 s OR (push_bit 31 1 OR 1)\<rparr>;
               s = s\<lparr>boot_gdt := boot_gdt64\<rparr>;
               edi = ucast (drop_bit 32 (pt_mem s top)) :: u32; esi = ucast (pt_mem s top) :: u32
           in (Some (ucast edi, ucast esi), s\<lparr>pt_mem := (pt_mem s)(top - 8 := ret)\<rparr>))"

section \<open>What the processor makes of it\<close>

text \<open>
  The processor's walk through the tables, which ends early at an entry for a large page (bit 7). Addresses
  whose upper bits are not copies of bit 47 are not translated.
\<close>

definition canonical :: "u64 \<Rightarrow> bool" where
  "canonical v \<longleftrightarrow> drop_bit 47 v = 0 \<or> drop_bit 47 v = mask 17"

definition cpu_translate :: "(addr \<Rightarrow> u64) \<Rightarrow> addr \<Rightarrow> u64 \<Rightarrow> u64 option" where
  "cpu_translate m root v =
     (if \<not> canonical v then None else
      let e4 = m (root + 8 * PML4_INDEX v) in if e4 AND PTE_PRESENT = 0 then None else
      let e3 = m (unat (e4 AND PTE_ADDR_MASK) + 8 * PDPT_INDEX v) in if e3 AND PTE_PRESENT = 0 then None else
      if bit e3 7 then Some ((e3 AND 0x000FFFFFC0000000) OR (v AND mask 30)) else
      let e2 = m (unat (e3 AND PTE_ADDR_MASK) + 8 * PD_INDEX v) in if e2 AND PTE_PRESENT = 0 then None else
      if bit e2 7 then Some ((e2 AND 0x000FFFFFFFE00000) OR (v AND mask 21)) else
      let e1 = m (unat (e2 AND PTE_ADDR_MASK) + 8 * PT_INDEX v) in if e1 AND PTE_PRESENT = 0 then None else
      Some ((e1 AND PTE_ADDR_MASK) OR (v AND mask 12)))"

definition paging_on :: "boot_state \<Rightarrow> bool" where
  "paging_on s \<longleftrightarrow> bit (cr0 s) 31 \<and> bit (cr0 s) 0 \<and> bit (cr4 s) 5 \<and> bit (efer s) 8"

text \<open>What the three tables hold.\<close>

definition identity_tables :: "addr \<Rightarrow> (addr \<Rightarrow> u64) \<Rightarrow> bool" where
  "identity_tables p m \<longleftrightarrow>
     (\<forall>i < 512. m (p + 8 * i) = (if i = 0 then of_nat (p + 4096) OR 3 else 0)) \<and>
     (\<forall>i < 512. m (p + 4096 + 8 * i) = (if i = 0 then of_nat (p + 8192) OR 3 else 0)) \<and>
     (\<forall>i < 512. m (p + 8192 + 8 * i) = push_bit 21 (of_nat i) OR 0x83)"

section \<open>The tables\<close>

lemma movl_both: "movl_high a 0 (movl_low a v m) = m(a := ucast v)"
proof -
  have "((m a AND NOT 0xFFFFFFFF) OR ucast v) AND 0xFFFFFFFF = ucast v"
  proof -
    have "((m a AND NOT (mask 32)) OR ucast v) AND mask 32 = ucast v"
      by (rule bit_word_eqI) (auto simp: bit_simps dest: bit_imp_le_length)
    then show ?thesis by (simp add: mask_eq_exp_minus_1)
  qed
  then show ?thesis unfolding movl_high_def movl_low_def by simp
qed

lemma movl_low_zero: "m a = 0 \<Longrightarrow> movl_low a v m = m(a := ucast v)"
  by (simp add: movl_low_def)

lemma clear_tables_eq: "clear_tables p m a = (if \<exists>i < 1536. a = p + 8 * i then 0 else m a)"
proof -
  have "fold (\<lambda>i m. movl_high (p + 8 * i) 0 (movl_low (p + 8 * i) 0 m)) [0..<n] m a = (if \<exists>i < n. a = p + 8 * i then 0 else m a)" for n
    by (induction n) (auto simp: less_Suc_eq movl_both)
  then show ?thesis by (simp only: clear_tables_def)
qed

lemma fill_pd_eq: "snd (fill_pd d m) a = (if \<exists>i < 512. a = d + 8 * i then ucast (0x83 + 0x200000 * of_nat ((a - d) div 8) :: u32) else m a)"
proof -
  have "fold (\<lambda>ecx (eax, m). (eax + 0x200000, movl_high (d + 8 * ecx) 0 (movl_low (d + 8 * ecx) eax m))) [0..<n] (0x83, m) =
      (0x83 + 0x200000 * of_nat n, \<lambda>a. if \<exists>i < n. a = d + 8 * i then ucast (0x83 + 0x200000 * of_nat ((a - d) div 8) :: u32) else m a)" for n
    by (induction n) (auto simp: fun_eq_iff less_Suc_eq movl_both algebra_simps)
  from this[of 512] show ?thesis by (simp only: fill_pd_def snd_conv)
qed

lemma ucast_of_nat32: "n < 2 ^ 32 \<Longrightarrow> ucast (of_nat n :: u32) = (of_nat n :: u64)"
  by (intro word_unat_eq_iff[THEN iffD2]) (simp add: unsigned_ucast_eq unat_of_nat_small take_bit_nat_eq_self)

lemma ucast_or3:
  assumes "n < 2 ^ 32"
  shows "ucast ((of_nat n :: u32) OR 0x03) = (of_nat n :: u64) OR 3"
proof -
  have "ucast ((of_nat n :: u32) OR 0x03) = (ucast (of_nat n :: u32) :: u64) OR ucast (0x03 :: u32)"
    by (simp only: unsigned_or_eq)
  then show ?thesis by (simp add: ucast_of_nat32[OF assms])
qed

text \<open>The entry that \<open>fill_pd\<close> counts up to, without the wrap-around of 32 bits.\<close>

lemma large_page_entry:
  assumes "i < 512"
  shows "ucast (0x83 + 0x200000 * of_nat i :: u32) = push_bit 21 (of_nat i :: u64) OR 0x83"
proof -
  have "(0x83 + 0x200000 * of_nat i :: u32) = of_nat (0x83 + 0x200000 * i)" by simp
  moreover have "ucast (of_nat (0x83 + 0x200000 * i) :: u32) = (of_nat (0x83 + 0x200000 * i) :: u64)"
    using assms by (intro ucast_of_nat32) simp
  moreover have "push_bit 21 (of_nat i :: u64) OR 0x83 = push_bit 21 (of_nat i) + 0x83"
  proof -
    have "push_bit 21 (of_nat i :: u64) AND 0x83 = 0"
    proof -
      have "push_bit 21 (of_nat i :: u64) AND mask 21 = 0" by (rule bit_word_eqI) (simp add: bit_simps)
      then have "push_bit 21 (of_nat i :: u64) AND (mask 21 AND 0x83) = 0" by (simp only: and.assoc[symmetric]) simp
      then show ?thesis by (simp add: mask_eq_exp_minus_1)
    qed
    then show ?thesis by (simp add: disjunctive_add_eq_or)
  qed
  ultimately show ?thesis by (simp add: push_bit_eq_mult algebra_simps)
qed

lemma boot_tables_identity:
  assumes "p + 12288 < 2 ^ 32"
  shows "identity_tables p (boot_tables p m)" "\<not> (p \<le> a \<and> a < p + 12288) \<Longrightarrow> boot_tables p m a = m a"
proof -
  let ?m1 = "clear_tables p m"
  have z: "?m1 (p + 8 * i) = 0" if "i < 1536" for i using that by (auto simp: clear_tables_eq)
  have z': "?m1 (p + 4096 + 8 * i) = 0" "?m1 p = 0" "?m1 (p + 4096) = 0" if "i < 512" for i
    using z[of "512 + i"] z[of 0] z[of 512] that by (simp_all add: algebra_simps)
  let ?m2 = "?m1(p := of_nat (p + 4096) OR 3, p + 4096 := of_nat (p + 8192) OR 3)"
  have or3: "ucast ((of_nat (p + 4096) :: u32) OR 0x03) = (of_nat (p + 4096) :: u64) OR 3"
    "ucast ((of_nat (p + 8192) :: u32) OR 0x03) = (of_nat (p + 8192) :: u64) OR 3"
    using assms by (intro ucast_or3; simp)+
  have "movl_low p (of_nat (p + 4096) OR 0x03) ?m1 = ?m1(p := of_nat (p + 4096) OR 3)"
    unfolding or3(1)[symmetric] by (rule movl_low_zero[where m = ?m1, OF z'(2)[of 0]]) simp
  moreover have "movl_low (p + 4096) (of_nat (p + 8192) OR 0x03) (?m1(p := of_nat (p + 4096) OR 3)) = ?m2"
    unfolding or3(2)[symmetric] by (rule movl_low_zero) (use z'(3)[of 0] in simp)
  ultimately have t: "boot_tables p m = snd (fill_pd (p + 8192) ?m2)" by (simp only: boot_tables_def Let_def)
  show "identity_tables p (boot_tables p m)"
    unfolding identity_tables_def t fill_pd_eq using z z' large_page_entry by (auto simp del: of_nat_add)
  assume "\<not> (p \<le> a \<and> a < p + 12288)"
  then show "boot_tables p m a = m a" unfolding t fill_pd_eq by (auto simp: clear_tables_eq)
qed

section \<open>Translation\<close>

text \<open>An entry that links a table of the boot code.\<close>

lemma table_entry:
  assumes "t mod PAGE_SIZE = 0" "t < 2 ^ 52"
  shows "((of_nat t :: u64) OR 3) AND PTE_PRESENT \<noteq> 0" "\<not> bit ((of_nat t :: u64) OR 3) 7"
    "unat (((of_nat t :: u64) OR 3) AND PTE_ADDR_MASK) = t"
proof -
  have d: "(x OR y) AND z = x AND z OR y AND z" for x y z :: u64 by (rule bit.conj_disj_distrib2)
  have "bit (((of_nat t :: u64) OR 3) AND PTE_PRESENT) 0" by (simp add: bit_simps)
  then show "((of_nat t :: u64) OR 3) AND PTE_PRESENT \<noteq> 0" by (metis bit_0_eq bot_apply bot_bool_def)
  have "((of_nat t :: u64) OR 3) AND PTE_ADDR_MASK = of_nat t"
    unfolding d frame_address_masked[OF assms] by simp
  then show "unat (((of_nat t :: u64) OR 3) AND PTE_ADDR_MASK) = t"
    using assms(2) by (simp only:) (rule unat_of_nat_small, simp)
  obtain f where f: "t = PAGE_SIZE * f" using mod_0_imp_dvd[OF assms(1)] by (auto elim!: dvdE)
  have "(of_nat t :: u64) = push_bit 12 (of_nat f)" by (simp add: f push_bit_eq_mult)
  moreover have "\<not> bit (3 :: u64) 7" by simp
  ultimately show "\<not> bit ((of_nat t :: u64) OR 3) 7" by (simp add: bit_simps)
qed

text \<open>An entry for a large page, and how it makes an address.\<close>

lemma large_entry:
  "(push_bit 21 w OR (0x83 :: u64)) AND PTE_PRESENT \<noteq> 0" "bit (push_bit 21 w OR (0x83 :: u64)) 7"
  "(push_bit 21 w OR 0x83) AND PTE_ADDR_MASK = push_bit 21 w AND (PTE_ADDR_MASK :: u64)"
  "(push_bit 21 w OR 0x83) AND 0x000FFFFFFFE00000 = push_bit 21 w AND (0x000FFFFFFFE00000 :: u64)"
proof -
  have d: "(x OR y) AND z = x AND z OR y AND z" for x y z :: u64 by (rule bit.conj_disj_distrib2)
  have "bit ((push_bit 21 w OR (0x83 :: u64)) AND PTE_PRESENT) 0" by (simp add: bit_simps)
  then show "(push_bit 21 w OR (0x83 :: u64)) AND PTE_PRESENT \<noteq> 0" by (metis bit_0_eq bot_apply bot_bool_def)
  show "bit (push_bit 21 w OR (0x83 :: u64)) 7" by (simp add: bit_simps)
  show "(push_bit 21 w OR 0x83) AND PTE_ADDR_MASK = push_bit 21 w AND (PTE_ADDR_MASK :: u64)" unfolding d by simp
  show "(push_bit 21 w OR 0x83) AND 0x000FFFFFFFE00000 = push_bit 21 w AND (0x000FFFFFFFE00000 :: u64)" unfolding d by simp
qed

lemma first_gb_bits: "v < 2 ^ 30 \<longleftrightarrow> (\<forall>k. bit v k \<longrightarrow> k < 30)" for v :: u64
proof -
  have "v < 2 ^ 30 \<longleftrightarrow> take_bit 30 v = v"
    by (simp add: word_unat_eq_iff unsigned_take_bit_eq take_bit_nat_eq_self_iff word_less_nat_alt)
  also have "\<dots> \<longleftrightarrow> (\<forall>k. bit v k \<longrightarrow> k < 30)" by (metis bit_take_bit_iff bit_eqI)
  finally show ?thesis .
qed

lemma index_zero:
  "PML4_INDEX v = 0 \<longleftrightarrow> (\<forall>k. 39 \<le> k \<and> k < 48 \<longrightarrow> \<not> bit v k)" "PDPT_INDEX v = 0 \<longleftrightarrow> (\<forall>k. 30 \<le> k \<and> k < 39 \<longrightarrow> \<not> bit v k)"
proof -
  have *: "unat (drop_bit n v AND 0x1FF) = 0 \<longleftrightarrow> (\<forall>k. n \<le> k \<and> k < n + 9 \<longrightarrow> \<not> bit v k)" for n
  proof -
    have m: "(0x1FF :: u64) = mask 9" by (simp add: mask_eq_exp_minus_1)
    have "unat (drop_bit n v AND 0x1FF) = 0 \<longleftrightarrow> drop_bit n v AND mask 9 = 0" unfolding m by (rule unsigned_eq_0_iff)
    also have "\<dots> \<longleftrightarrow> (\<forall>j < 9. \<not> bit v (n + j))" 
    proof -
      have "bit (drop_bit n v AND mask 9) j \<longleftrightarrow> bit v (n + j) \<and> j < 9" for j by (auto simp: bit_simps dest: bit_imp_le_length)
      moreover have "x = 0 \<longleftrightarrow> (\<forall>j. \<not> bit x j)" for x :: u64 by (auto intro: bit_word_eqI)
      ultimately show ?thesis by auto
    qed
    also have "\<dots> \<longleftrightarrow> (\<forall>k. n \<le> k \<and> k < n + 9 \<longrightarrow> \<not> bit v k)" by (metis add_less_cancel_left le_Suc_ex le_add1)
    finally show ?thesis .
  qed
  show "PML4_INDEX v = 0 \<longleftrightarrow> (\<forall>k. 39 \<le> k \<and> k < 48 \<longrightarrow> \<not> bit v k)" "PDPT_INDEX v = 0 \<longleftrightarrow> (\<forall>k. 30 \<le> k \<and> k < 39 \<longrightarrow> \<not> bit v k)"
    using *[of 39] *[of 30] by (simp_all add: PML4_INDEX_def PDPT_INDEX_def)
qed

lemma first_gb_index:
  assumes "canonical v"
  shows "PML4_INDEX v = 0 \<and> PDPT_INDEX v = 0 \<longleftrightarrow> v < 2 ^ 30"
proof
  assume z: "PML4_INDEX v = 0 \<and> PDPT_INDEX v = 0"
  have d: "bit (drop_bit 47 v) j = bit v (47 + j)" for j by (simp add: bit_simps)
  have "\<not> bit v 47" using z by (simp add: index_zero)
  moreover have "bit (mask 17 :: u64) 0" by (simp add: bit_mask_iff del: bit_0)
  ultimately have "drop_bit 47 v = 0" using assms d[of 0] by (auto simp: canonical_def simp del: bit_0)
  then have "\<not> bit v (47 + k)" for k using d[of k] by simp
  then have high: "\<not> bit v k" if "47 \<le> k" for k using that by (metis le_Suc_ex)
  show "v < 2 ^ 30" unfolding first_gb_bits
  proof (intro allI impI, rule ccontr)
    fix k assume k: "bit v k" "\<not> k < 30"
    then consider "30 \<le> k" "k < 39" | "39 \<le> k" "k < 48" | "47 \<le> k" by linarith
    then show False using k(1) z high by cases (simp_all add: index_zero)
  qed
next
  assume "v < 2 ^ 30"
  then show "PML4_INDEX v = 0 \<and> PDPT_INDEX v = 0" unfolding first_gb_bits index_zero by force
qed

lemma first_gb_canonical: "v < 2 ^ 30 \<Longrightarrow> canonical v"
  unfolding first_gb_bits canonical_def by (intro disjI1 bit_word_eqI) (force simp: bit_simps)

text \<open>In the first GB the entry of a large page and the offset make up the address itself.\<close>

lemma large_page_address:
  assumes "v < 2 ^ 30"
  shows "(push_bit 21 (of_nat (PD_INDEX v)) AND 0x000FFFFFFFE00000) OR (v AND mask 21) = v"
    and "unat (push_bit 21 (of_nat (PD_INDEX v)) AND PTE_ADDR_MASK) = unat v div 2 ^ 21 * 2 ^ 21"
proof -
  have m: "(0x1FF :: u64) = mask 9" "(0x000FFFFFFFE00000 :: u64) = push_bit 21 (mask 31)" by (simp_all add: mask_eq_exp_minus_1)
  have w: "(of_nat (PD_INDEX v) :: u64) = drop_bit 21 v"
    using assms unfolding PD_INDEX_def first_gb_bits m by (simp, intro bit_word_eqI) (auto simp: bit_simps)
  show "(push_bit 21 (of_nat (PD_INDEX v)) AND 0x000FFFFFFFE00000) OR (v AND mask 21) = v"
    using assms unfolding first_gb_bits w m by (intro bit_word_eqI) (auto simp: bit_simps)
  have "push_bit 21 (drop_bit 21 v) AND PTE_ADDR_MASK = push_bit 21 (drop_bit 21 v)"
    using assms unfolding first_gb_bits addr_mask by (intro bit_word_eqI) (auto simp: bit_simps)
  then show "unat (push_bit 21 (of_nat (PD_INDEX v)) AND PTE_ADDR_MASK) = unat v div 2 ^ 21 * 2 ^ 21"
    unfolding w by (simp only: unat_push_drop)
qed

lemma identity_entries:
  assumes "identity_tables p m"
  shows "m (p + 8 * PML4_INDEX v) = (if PML4_INDEX v = 0 then of_nat (p + 4096) OR 3 else 0)"
    "m (p + 4096 + 8 * PDPT_INDEX v) = (if PDPT_INDEX v = 0 then of_nat (p + 8192) OR 3 else 0)"
    "m (p + 8192 + 8 * PD_INDEX v) = push_bit 21 (of_nat (PD_INDEX v)) OR 0x83"
  using assms index_less[of v] by (simp_all only: identity_tables_def)

lemma identity_translate:
  assumes t: "identity_tables p m" and p: "p mod PAGE_SIZE = 0" "p + 12288 < 2 ^ 32"
  shows "cpu_translate m p v = (if v < 2 ^ 30 then Some v else None)"
proof (cases "canonical v")
  case True
  have al: "(p + 4096) mod PAGE_SIZE = 0" "(p + 8192) mod PAGE_SIZE = 0" "p + 4096 < 2 ^ 52" "p + 8192 < 2 ^ 52"
    using p mod_add_self2[of "p + 4096" 4096] by (simp_all add: ac_simps)
  note e4 = table_entry[OF al(1,3)] and e3 = table_entry[OF al(2,4)]
  note m = identity_entries[OF t, of v]
  show ?thesis
  proof (cases "v < 2 ^ 30")
    case g: True
    then have "PML4_INDEX v = 0" "PDPT_INDEX v = 0" using first_gb_index[OF True] by simp_all
    then have "cpu_translate m p v = Some (((push_bit 21 (of_nat (PD_INDEX v)) OR 0x83) AND 0x000FFFFFFFE00000) OR (v AND mask 21))"
      using True m e4 e3 large_entry(1,2) unfolding cpu_translate_def Let_def by (simp only: if_True if_False simp_thms if_not_P)
    then show ?thesis using g large_page_address(1)[OF g] unfolding large_entry(4) by simp
  next
    case False
    then have "PML4_INDEX v \<noteq> 0 \<or> PDPT_INDEX v \<noteq> 0" using first_gb_index[OF True] by simp
    then have "cpu_translate m p v = None"
      using m(1,2) e4 unfolding cpu_translate_def Let_def by (cases "PML4_INDEX v = 0") auto
    with False show ?thesis by simp
  qed
next
  case False
  then show ?thesis using first_gb_canonical[of v] by (auto simp: cpu_translate_def)
qed

text \<open>The two variables, the word of the stack, and what the checks leave of both.\<close>

definition saved_word :: "u32 \<Rightarrow> u32 \<Rightarrow> u64" where
  "saved_word eax ebx = ucast eax OR push_bit 32 (ucast ebx)"

lemma saved_word_halves: "(ucast (saved_word eax ebx) :: u32) = eax" "(ucast (drop_bit 32 (saved_word eax ebx)) :: u32) = ebx"
  by (rule bit_word_eqI; auto simp: saved_word_def bit_simps dest: bit_imp_le_length)+

lemma movl_saved: "movl_high a ebx (movl_low a eax m) = m(a := saved_word eax ebx)"
proof -
  have "((m a AND NOT (mask 32)) OR ucast eax) AND mask 32 OR push_bit 32 (ucast ebx) = saved_word eax ebx"
    by (rule bit_word_eqI) (auto simp: saved_word_def bit_simps dest: bit_imp_le_length)
  then show ?thesis by (simp add: movl_high_def movl_low_def mask_eq_exp_minus_1)
qed

lemma movl_high_twice: "movl_high a w (movl_high a v m) = movl_high a w m"
proof -
  have "((m a AND mask 32) OR push_bit 32 (ucast v)) AND mask 32 = m a AND mask 32"
    by (rule bit_word_eqI) (auto simp: bit_simps)
  then have "((m a AND 0xFFFFFFFF) OR push_bit 32 (ucast v)) AND 0xFFFFFFFF = m a AND 0xFFFFFFFF"
    by (simp add: mask_eq_exp_minus_1)
  then show ?thesis by (simp add: movl_high_def)
qed

lemma check_cpuid_eq: "check_cpuid id_flag eflags p m = (id_flag, pushl p eflags m)"
proof -
  have "bit (eflags XOR push_bit 21 1) 21 \<noteq> bit eflags 21" by (simp add: bit_simps)
  then have "eflags XOR push_bit 21 1 \<noteq> eflags" by metis
  then show ?thesis by (simp add: check_cpuid_def pushl_def movl_high_twice Let_def)
qed

text \<open>Memory when the checks are done.\<close>

definition checked_memory :: "addr \<Rightarrow> u32 \<Rightarrow> u32 \<Rightarrow> u32 \<Rightarrow> (addr \<Rightarrow> u64) \<Rightarrow> addr \<Rightarrow> u64" where
  "checked_memory p eflags eax ebx m =
     m(stack_top p := saved_word eax ebx, stack_top p - 8 := (m (stack_top p - 8) AND 0xFFFFFFFF) OR push_bit 32 (ucast eflags))"

lemma stack_top_ge: "p + 12288 \<le> stack_top p - 8" "p + 12288 \<le> stack_top p" "stack_top p - 8 \<noteq> stack_top p"
  by (simp_all add: stack_top_def)

lemma checked_memory_eq: "check_cpuid id_flag eflags p (movl_high (stack_top p) ebx (movl_low (stack_top p) eax m)) = (id_flag, checked_memory p eflags eax ebx m)"
  unfolding check_cpuid_eq pushl_def movl_saved using stack_top_ge(3)[of p] by (simp add: checked_memory_def movl_high_def)

lemma boot_entry_hangs:
  "\<not> long_mode_supported id_flag cpuid \<Longrightarrow>
    boot_entry id_flag eflags cpuid p ret eax ebx s = (None, s\<lparr>pt_mem := checked_memory p eflags eax ebx (pt_mem s)\<rparr>)"
  by (simp add: boot_entry_def checked_memory_eq Let_def)

lemma boot_entry_cases:
  assumes "long_mode_supported id_flag cpuid" and "p + 12288 < 2 ^ 32"
  obtains s' where "boot_entry id_flag eflags cpuid p ret eax ebx s = (Some (ucast ebx, ucast eax), s')" "paging_on s'"
    "pt_mem s' = (boot_tables p (checked_memory p eflags eax ebx (pt_mem s)))(stack_top p - 8 := ret)"
    "cr3 s' = ucast (of_nat p :: u32)" "boot_gdt s' = boot_gdt64"
proof -
  let ?m = "boot_tables p (checked_memory p eflags eax ebx (pt_mem s))"
  let ?s = "s\<lparr>pt_mem := ?m(stack_top p - 8 := ret), cr3 := ucast (of_nat p :: u32),
      cr4 := cr4 s OR push_bit 5 1, efer := efer s OR push_bit 8 1, cr0 := cr0 s OR (push_bit 31 1 OR 1), boot_gdt := boot_gdt64\<rparr>"
  have "bit (x OR (push_bit 31 1 OR 1)) 31" "bit (x OR (push_bit 31 1 OR 1)) 0" "bit (x OR push_bit 5 1) 5" for x :: u32
    by (simp_all add: bit_simps)
  moreover have "bit (x OR push_bit 8 1) 8" for x :: u64 by (simp add: bit_simps)
  ultimately have on: "paging_on ?s" unfolding paging_on_def by (simp del: bit_0 push_bit_of_1)
  have "?m (stack_top p) = checked_memory p eflags eax ebx (pt_mem s) (stack_top p)"
    using stack_top_ge(2)[of p] by (intro boot_tables_identity(2)[OF assms(2)]) simp
  then have "?m (stack_top p) = saved_word eax ebx" using stack_top_ge(3)[of p] by (simp add: checked_memory_def)
  then have "boot_entry id_flag eflags cpuid p ret eax ebx s = (Some (ucast ebx, ucast eax), ?s)"
    using assms(1) by (simp add: boot_entry_def checked_memory_eq Let_def saved_word_halves)
  from that[OF this on] show thesis by simp
qed

lemma identity_tables_cong:
  assumes "identity_tables p m" and "\<And>a. p \<le> a \<Longrightarrow> a < p + 12288 \<Longrightarrow> m' a = m a"
  shows "identity_tables p m'"
  using assms unfolding identity_tables_def by simp

section \<open>Properties\<close>

text \<open>
  C12: The kernel starts on an identity map of the first GB and nothing else. On a processor with 64-bit mode the
  boot code calls \<open>kernel_main\<close> with the loader's information and magic number, paging and long
  mode on; every address below 1 GB is translated to itself and no other is translated; outside the three tables
  it has written the two variables with the loader's registers and the return address on the stack, and nothing else. On any other
  processor it hangs, having written the variables and the flags that the check pushes, and nothing else.
\<close>

theorem boot_identity_map:
  assumes "boot_pml4 mod PAGE_SIZE = 0" and "boot_pml4 + 12288 < 2 ^ 32"
  shows "case boot_entry id_flag eflags cpuid boot_pml4 ret eax ebx s of (call, s') \<Rightarrow>
    (case call of
      None \<Rightarrow> \<not> long_mode_supported id_flag cpuid \<and> s' = s\<lparr>pt_mem := (pt_mem s)(stack_top boot_pml4 := saved_word eax ebx,
        stack_top boot_pml4 - 8 := (pt_mem s (stack_top boot_pml4 - 8) AND 0xFFFFFFFF) OR push_bit 32 (ucast eflags))\<rparr>
    | Some (mbi, magic) \<Rightarrow> long_mode_supported id_flag cpuid \<and> mbi = ucast ebx \<and> magic = ucast eax \<and> paging_on s' \<and>
        (\<forall>v. cpu_translate (pt_mem s') (unat (cr3 s')) v = (if v < 2 ^ 30 then Some v else None)) \<and>
        (\<forall>a. \<not> (boot_pml4 \<le> a \<and> a < boot_pml4 + 12288) \<longrightarrow> pt_mem s' a =
           ((pt_mem s)(stack_top boot_pml4 := saved_word eax ebx, stack_top boot_pml4 - 8 := ret)) a))"
proof (cases "long_mode_supported id_flag cpuid")
  case True
  let ?m = "checked_memory boot_pml4 eflags eax ebx (pt_mem s)" and ?top = "stack_top boot_pml4"
  obtain s' where s': "boot_entry id_flag eflags cpuid boot_pml4 ret eax ebx s = (Some (ucast ebx, ucast eax), s')" "paging_on s'"
    "pt_mem s' = (boot_tables boot_pml4 ?m)(?top - 8 := ret)" "cr3 s' = ucast (of_nat boot_pml4 :: u32)"
    using True assms(2) by (rule boot_entry_cases)
  have root: "unat (cr3 s') = boot_pml4"
    using assms(2) unfolding s'(4) by (subst ucast_of_nat32) (simp_all add: unat_of_nat_small)
  have "identity_tables boot_pml4 (pt_mem s')"
    unfolding s'(3) by (rule identity_tables_cong[OF boot_tables_identity(1)[OF assms(2)]]) (use stack_top_ge(1)[of boot_pml4] in auto)
  note translate = identity_translate[OF this assms]
  have "pt_mem s' a = ((pt_mem s)(?top := saved_word eax ebx, ?top - 8 := ret)) a" if "\<not> (boot_pml4 \<le> a \<and> a < boot_pml4 + 12288)" for a
    using boot_tables_identity(2)[OF assms(2) that, of ?m] by (simp add: s'(3) checked_memory_def)
  then show ?thesis using s'(1,2) True translate root by simp
qed (simp add: boot_entry_hangs checked_memory_def)

text \<open>A machine with 64-bit mode, whose tables are at 0x200000.\<close>

definition cpuid64 :: "u32 \<Rightarrow> u32 \<times> u32" where
  "cpuid64 f = (if f = 0x80000000 then (0x80000008, 0) else (0, 0x20000000))"

definition boot_static :: boot_state where
  "boot_static = vmm_state.extend vmm_start
     \<lparr>cr0 = 0x11, cr4 = 0, efer = 0, boot_gdt = []\<rparr>"

lemma cpuid64_supported: "long_mode_supported True cpuid64"
  by (simp add: long_mode_supported_def cpuid64_def)

theorem boot_identity_map_witness:
  "\<exists>mbi magic s'. boot_entry True 2 cpuid64 0x200000 0x100200 0x36d76289 0x9000 boot_static = (Some (mbi, magic), s') \<and> mbi = 0x9000 \<and>
     cpu_translate (pt_mem s') (unat (cr3 s')) 0x12345678 = Some 0x12345678 \<and>
     cpu_translate (pt_mem s') (unat (cr3 s')) 0x40000000 = None"
proof -
  have "(0x200000 :: addr) mod PAGE_SIZE = 0" "(0x200000 :: addr) + 12288 < 2 ^ 32" by simp_all
  from boot_identity_map[OF this, where id_flag = True and eflags = 2 and cpuid = cpuid64 and ret = "0x100200" and eax = "0x36d76289" and ebx = "0x9000"
      and s = boot_static] cpuid64_supported
  show ?thesis by (auto split: option.splits prod.splits)
qed

text \<open>
  C36: vmm.c does not know the pages of the boot tables. Asked to map a page below 1 GB in the address space the
  kernel runs in, \<open>vmm_map_page\<close> takes the 2 MB page there for a page table and overwrites a word
  of it; the processor still translates the page to itself, while \<open>vmm_virt_to_phys\<close> reports the new mapping.
\<close>

theorem vmm_overwrites_large_page:
  fixes s :: "'a vmm_state_scheme"
  assumes boot: "boot_entry id_flag eflags cpuid p ret eax ebx s0 = (Some (mbi, magic), s1)" and p: "p mod PAGE_SIZE = 0" "p + 12288 < 2 ^ 32"
    and tables: "\<And>a. p \<le> a \<Longrightarrow> a < p + 12288 \<Longrightarrow> pt_mem s a = pt_mem s1 a"
    and virt: "virt < 2 ^ 30" and w: "w = unat virt div 2 ^ 21 * 2 ^ 21 + 8 * PT_INDEX virt" "w < p \<or> p + 12288 \<le> w"
  shows "let s' = vmm_map_page p virt phys flags s in
    s' = s\<lparr>pt_mem := (pt_mem s)(w := (phys AND PTE_ADDR_MASK) OR (flags AND NOT PTE_ADDR_MASK) OR PTE_PRESENT),
           tlb_invalidated := tlb_invalidated s @ [virt]\<rparr> \<and>
    cpu_translate (pt_mem s') p virt = Some virt \<and> vmm_virt_to_phys p virt s' = (phys AND PTE_ADDR_MASK) OR (virt AND 0xFFF)"
proof -
  have lm: "long_mode_supported id_flag cpuid"
  proof (rule ccontr)
    assume "\<not> long_mode_supported id_flag cpuid"
    from boot_entry_hangs[OF this, of eflags p ret eax ebx s0] boot show False by simp
  qed
  have s1: "pt_mem s1 = (boot_tables p (checked_memory p eflags eax ebx (pt_mem s0)))(stack_top p - 8 := ret)"
    by (rule boot_entry_cases[OF lm p(2), where eflags = eflags and ret = ret and eax = eax and ebx = ebx and s = s0]) (use boot in simp)
  have "identity_tables p (pt_mem s1)"
    unfolding s1 by (rule identity_tables_cong[OF boot_tables_identity(1)[OF p(2)]]) (use stack_top_ge(1)[of p] in auto)
  then have id: "identity_tables p (pt_mem s)" by (rule identity_tables_cong) (rule tables)
  let ?e = "(phys AND PTE_ADDR_MASK) OR (flags AND NOT PTE_ADDR_MASK) OR PTE_PRESENT"
  let ?s = "s\<lparr>pt_mem := (pt_mem s)(w := ?e), tlb_invalidated := tlb_invalidated s @ [virt]\<rparr>"
  have id': "identity_tables p (pt_mem ?s)" using id by (rule identity_tables_cong) (use w(2) in auto)
  have al: "(p + 4096) mod PAGE_SIZE = 0" "(p + 8192) mod PAGE_SIZE = 0" "p + 4096 < 2 ^ 52" "p + 8192 < 2 ^ 52"
    using p mod_add_self2[of "p + 4096" 4096] by (simp_all add: ac_simps)
  note e4 = table_entry[OF al(1,3)] and e3 = table_entry[OF al(2,4)]
  have z: "PML4_INDEX virt = 0" "PDPT_INDEX virt = 0" using first_gb_index[OF first_gb_canonical[OF virt]] virt by simp_all
  have m: "pt_mem t (p + 8 * PML4_INDEX virt) = of_nat (p + 4096) OR 3" "pt_mem t (p + 4096 + 8 * PDPT_INDEX virt) = of_nat (p + 8192) OR 3"
    "pt_mem t (p + 8192 + 8 * PD_INDEX virt) = push_bit 21 (of_nat (PD_INDEX virt)) OR 0x83"
    if "identity_tables p (pt_mem t)" for t :: "'a vmm_state_scheme"
    using identity_entries[OF that, of virt] unfolding if_P[OF z(1)] if_P[OF z(2)] by simp_all
  note d = large_page_address(2)[OF virt]
  have down: "next_table p (PML4_INDEX virt) t = (p + 4096, t)" "next_table (p + 4096) (PDPT_INDEX virt) t = (p + 8192, t)"
    "next_table (p + 8192) (PD_INDEX virt) t = (unat virt div 2 ^ 21 * 2 ^ 21, t)"
    "present_table t p (PML4_INDEX virt) = Some (p + 4096)" "present_table t (p + 4096) (PDPT_INDEX virt) = Some (p + 8192)"
    "present_table t (p + 8192) (PD_INDEX virt) = Some (unat virt div 2 ^ 21 * 2 ^ 21)"
    if "identity_tables p (pt_mem t)" for t :: "'a vmm_state_scheme"
    unfolding next_table_def present_table_def Let_def m[OF that] large_entry(3) d e4(3) e3(3)
    by (simp_all only: e4(1) e3(1) large_entry(1) if_False)
  have map: "vmm_map_page p virt phys flags s = ?s"
    unfolding vmm_map_page_def down(1-3)[OF id] prod.case vmm_invlpg_def w(1) by simp
  have soft: "vmm_virt_to_phys p virt ?s = (phys AND PTE_ADDR_MASK) OR (virt AND 0xFFF)"
    unfolding vmm_virt_to_phys_def down(4-6)[OF id'] option.case Let_def w(1)[symmetric]
    using mapping_entry_bits[of phys flags] by (simp add: mapping_entry_def)
  have cpu: "cpu_translate (pt_mem ?s) p virt = Some virt" using identity_translate[OF id' p] virt by simp
  show ?thesis unfolding map Let_def using soft cpu by simp
qed

theorem vmm_overwrites_large_page_witness:
  "\<exists>mbi magic s1. boot_entry True 2 cpuid64 0x200000 0x100200 0 0 boot_static = (Some (mbi, magic), s1) \<and>
     pt_mem (vmm_map_page 0x200000 0x400000 0x7000 0 s1) 0x400000 = 0x7001 \<and>
     cpu_translate (pt_mem (vmm_map_page 0x200000 0x400000 0x7000 0 s1)) 0x200000 0x400000 = Some 0x400000"
proof -
  have p: "(0x200000 :: addr) mod PAGE_SIZE = 0" "(0x200000 :: addr) + 12288 < 2 ^ 32" by simp_all
  obtain s1 where s1: "boot_entry True 2 cpuid64 0x200000 0x100200 0 0 boot_static = (Some (ucast (0 :: u32), ucast (0 :: u32)), s1)"
    by (rule boot_entry_cases[OF cpuid64_supported p(2)])
  have w: "0x400000 = unat (0x400000 :: u64) div 2 ^ 21 * 2 ^ 21 + 8 * PT_INDEX 0x400000" by (simp add: PT_INDEX_def)
  show ?thesis
    using s1 vmm_overwrites_large_page[OF s1 p HOL.refl _ w, where phys = "0x7000" and flags = 0] by (auto simp: Let_def)
qed

end
