(* ===== verification/Gdt.thy ===== *)
theory Gdt
  imports Vga_Console
begin

text \<open>
  The segment descriptors: kernel/arch/x86_shared/gdt.c and gdt.h, as compiled for x86_64. The
  addresses at which the linker puts the table and the TSS are parameters; \<open>lgdt\<close>, the reloads of
  the segment registers and \<open>ltr\<close> set the registers of the processor.
\<close>

section \<open>State\<close>

record gdt_entry =
  limit_low :: u16
  base_low :: u16
  base_middle :: u8
  access_byte :: u8
  granularity :: u8
  base_high :: u8

record tss_entry_64 =
  tss_length :: u16
  tss_base_low :: u16
  tss_base_mid :: u8
  tss_flags1 :: u8
  tss_flags2 :: u8
  tss_base_high :: u8
  tss_base_upper32 :: u32
  tss_reserved :: u32

text \<open>The packed \<open>struct tss_struct\<close> is its 104 bytes; \<open>iomap_base\<close> are the last two.\<close>

abbreviation TSS_SIZE :: nat where
  "TSS_SIZE \<equiv> 104"

text \<open>The selectors, and the operand of \<open>lgdt\<close>, limit and base.\<close>

abbreviation GDT_KERNEL_CODE :: u16 where "GDT_KERNEL_CODE \<equiv> 0x08"
abbreviation GDT_KERNEL_DATA :: u16 where "GDT_KERNEL_DATA \<equiv> 0x10"
abbreviation GDT_USER_CODE :: u16 where "GDT_USER_CODE \<equiv> 0x18"
abbreviation GDT_USER_DATA :: u16 where "GDT_USER_DATA \<equiv> 0x20"
abbreviation GDT_TSS :: u16 where "GDT_TSS \<equiv> 0x28"

type_synonym gdt_ptr = "u16 \<times> u64"

record gdt_state = vga_state +
  gdt_entries :: "gdt_entry list"
  gdt_tss :: tss_entry_64
  tss_bytes :: "u8 list"
  gdtr :: gdt_ptr
  data_segments :: u16
  code_segment :: u16
  task_register :: u16

section \<open>Operations\<close>

definition gdt_set_gate :: "nat \<Rightarrow> u32 \<Rightarrow> u32 \<Rightarrow> u8 \<Rightarrow> u8 \<Rightarrow> 'a gdt_state_scheme \<Rightarrow> 'a gdt_state_scheme" where
  "gdt_set_gate num base limit access gran s = s\<lparr>gdt_entries := (gdt_entries s)[num :=
     \<lparr>limit_low = ucast (limit AND 0xFFFF), base_low = ucast (base AND 0xFFFF),
      base_middle = ucast (drop_bit 16 base AND 0xFF), access_byte = access,
      granularity = ucast (drop_bit 16 limit AND 0x0F) OR (gran AND 0xF0),
      base_high = ucast (drop_bit 24 base AND 0xFF)\<rparr>]\<rparr>"

definition write_tss :: "u64 \<Rightarrow> u32 \<Rightarrow> tss_entry_64" where
  "write_tss base limit =
     \<lparr>tss_length = ucast (limit AND 0xFFFF), tss_base_low = ucast (base AND 0xFFFF),
      tss_base_mid = ucast (drop_bit 16 base AND 0xFF), tss_flags1 = 0x89,
      tss_flags2 = ucast (drop_bit 16 limit AND 0x0F), tss_base_high = ucast (drop_bit 24 base AND 0xFF),
      tss_base_upper32 = ucast (drop_bit 32 base), tss_reserved = 0\<rparr>"

definition gdt_init :: "u64 \<Rightarrow> u64 \<Rightarrow> 'a gdt_state_scheme \<Rightarrow> 'a gdt_state_scheme" where
  "gdt_init gdt_addr tss_addr s =
     (let s = gdt_set_gate 0 0 0 0 0 s;
          s = gdt_set_gate 1 0 0xFFFFFFFF 0x9A 0x20 s;
          s = gdt_set_gate 2 0 0xFFFFFFFF 0x92 0x00 s;
          s = gdt_set_gate 3 0 0xFFFFFFFF 0xFA 0x20 s;
          s = gdt_set_gate 4 0 0xFFFFFFFF 0xF2 0x00 s;
          s = s\<lparr>tss_bytes := (replicate TSS_SIZE 0)[102 := ucast (of_nat TSS_SIZE AND 0xFF :: u16), 103 := ucast (drop_bit 8 (of_nat TSS_SIZE) :: u16)]\<rparr>;
          s = s\<lparr>gdt_tss := write_tss tss_addr (of_nat (TSS_SIZE - 1))\<rparr>
      in s\<lparr>gdtr := (5 * 8 + 16 - 1, gdt_addr), data_segments := 0x10, code_segment := 0x08, task_register := 0x28\<rparr>)"

section \<open>What the processor reads\<close>

text \<open>
  Base, limit, privilege level and type of a descriptor, put together from its pieces as the
  processor does, and the entry a selector names: eight bytes each, behind them the TSS.
\<close>

definition seg_base :: "gdt_entry \<Rightarrow> u32" where
  "seg_base e = ucast (base_low e) OR push_bit 16 (ucast (base_middle e)) OR push_bit 24 (ucast (base_high e))"

definition seg_limit :: "gdt_entry \<Rightarrow> u32" where
  "seg_limit e = ucast (limit_low e) OR push_bit 16 (ucast (granularity e AND 0x0F))"

definition seg_flags :: "gdt_entry \<Rightarrow> u8" where
  "seg_flags e = granularity e AND 0xF0"

definition tss_base :: "tss_entry_64 \<Rightarrow> u64" where
  "tss_base e = ucast (tss_base_low e) OR push_bit 16 (ucast (tss_base_mid e)) OR push_bit 24 (ucast (tss_base_high e)) OR
     push_bit 32 (ucast (tss_base_upper32 e))"

definition tss_limit :: "tss_entry_64 \<Rightarrow> u32" where
  "tss_limit e = ucast (tss_length e) OR push_bit 16 (ucast (tss_flags2 e AND 0x0F))"

record segment =
  present :: bool
  ring :: nat
  executable :: bool
  writable :: bool
  long_mode :: bool

definition segment_of :: "gdt_entry \<Rightarrow> segment" where
  "segment_of e = \<lparr>present = bit (access_byte e) 7, ring = unat (drop_bit 5 (access_byte e) AND 3),
     executable = bit (access_byte e) 3, writable = \<not> bit (access_byte e) 3 \<and> bit (access_byte e) 1,
     long_mode = bit (granularity e) 5\<rparr>"

definition selected :: "u16 \<Rightarrow> 'a gdt_state_scheme \<Rightarrow> gdt_entry" where
  "selected sel s = gdt_entries s ! unat (drop_bit 3 sel)"

section \<open>Properties\<close>

lemma gdt_entries_length [simp]: "length (gdt_entries (gdt_set_gate n b l a g s)) = length (gdt_entries s)"
  by (simp add: gdt_set_gate_def)

text \<open>The masks of the code, as numbers of low bits.\<close>

lemma byte_masks:
  "(x :: 'a::len word) AND 0xF = take_bit 4 x" "x AND 0xFF = take_bit 8 x" "x AND 0xFFFF = take_bit 16 x"
  "x AND 0xFFFFF = take_bit 20 x"
  by (simp_all add: take_bit_eq_mask mask_eq_exp_minus_1)

lemma bit_F0: "bit (0xF0 :: int) n \<longleftrightarrow> 4 \<le> n \<and> n < 8"
proof -
  have "(0xF0 :: int) = push_bit 4 (mask 4)" by (simp add: mask_eq_exp_minus_1)
  then show ?thesis by (simp only: bit_simps) auto
qed

lemma split_base32:
  fixes b :: u32
  shows "ucast (ucast (take_bit 16 b) :: u16) OR (push_bit 16 (ucast (ucast (take_bit 8 (drop_bit 16 b)) :: u8)) OR
      push_bit 24 (ucast (ucast (take_bit 8 (drop_bit 24 b)) :: u8))) = b" (is "?l = _")
proof (rule bit_word_eqI)
  fix n assume n: "n < LENGTH(32)"
  consider "n < 16" | "16 \<le> n" "n < 24" | "24 \<le> n" by linarith
  then show "bit ?l n = bit b n"
    using n by cases (auto simp: bit_simps)
qed

lemma split_base64:
  fixes a :: u64
  shows "ucast (ucast (take_bit 16 a) :: u16) OR (push_bit 16 (ucast (ucast (take_bit 8 (drop_bit 16 a)) :: u8)) OR
      (push_bit 24 (ucast (ucast (take_bit 8 (drop_bit 24 a)) :: u8)) OR push_bit 32 (ucast (ucast (drop_bit 32 a) :: u32)))) = a" (is "?l = _")
proof (rule bit_word_eqI)
  fix n assume n: "n < LENGTH(64)"
  consider "n < 16" | "16 \<le> n" "n < 24" | "24 \<le> n" "n < 32" | "32 \<le> n" by linarith
  then show "bit ?l n = bit a n"
    using n by cases (auto simp: bit_simps)
qed

lemma split_limit32:
  fixes l :: u32 and h :: u8
  assumes "take_bit 4 h = ucast (take_bit 4 (drop_bit 16 l))"
  shows "ucast (ucast (take_bit 16 l) :: u16) OR push_bit 16 (ucast (take_bit 4 h)) = take_bit 20 l" (is "?l = _")
proof (rule bit_word_eqI)
  fix n assume n: "n < LENGTH(32)"
  consider "n < 16" | "16 \<le> n" by linarith
  then show "bit ?l n = bit (take_bit 20 l) n"
    using n by cases (auto simp: assms bit_simps)
qed

lemma nibbles:
  fixes l :: u32 and g :: u8
  shows "take_bit 4 (ucast (take_bit 4 l) OR (g AND 0xF0)) = ucast (take_bit 4 l)" "take_bit 4 (ucast (take_bit 4 l) :: u8) = ucast (take_bit 4 l)"
    "(ucast (take_bit 4 l) OR (g AND 0xF0)) AND 0xF0 = g AND 0xF0"
  by (rule bit_word_eqI; auto simp: bit_simps bit_F0)+

lemma split_limit: "ucast (ucast (take_bit 16 l) :: u16) OR push_bit 16 (ucast (ucast (take_bit 4 (drop_bit 16 l)) :: u8)) = take_bit 20 l"
  for l :: u32
  using split_limit32[of "ucast (take_bit 4 (drop_bit 16 l))" l] by (simp add: nibbles)

lemma tss_base_written: "tss_base (write_tss a l) = a"
  by (simp add: tss_base_def write_tss_def byte_masks split_base64)

lemma tss_limit_written: "tss_limit (write_tss a l) = take_bit 20 l"
  by (simp add: tss_limit_def write_tss_def byte_masks split_limit nibbles)

definition gdt_static :: gdt_state where
  "gdt_static = \<lparr>io_reads = 0, io_out = [], vga_mem = [], vga_row = 0, vga_col = 0, vga_color = 0,
      gdt_entries = replicate 5 (\<lparr>limit_low = 0, base_low = 0, base_middle = 0, access_byte = 0, granularity = 0, base_high = 0\<rparr>),
      gdt_tss = write_tss 0 0, tss_bytes = [], gdtr = (0, 0), data_segments = 0, code_segment = 0, task_register = 0\<rparr>"

lemma gdt_static_length: "length (gdt_entries gdt_static) = 5"
  by (simp add: gdt_static_def)

text \<open>
  No bit of a descriptor is lost: whatever base, access byte and flags \<open>gdt_set_gate\<close> is
  given, and the low 20 bits of the limit, the processor reads back; a TSS descriptor gives back
  the full 64-bit base. No other entry of the table changes.
\<close>

theorem gdt_gate_roundtrip:
  assumes "num < length (gdt_entries s)"
  shows "let e = gdt_entries (gdt_set_gate num base limit access gran s) ! num; t = write_tss taddr tlimit in
    seg_base e = base \<and> seg_limit e = limit AND 0xFFFFF \<and> access_byte e = access \<and> seg_flags e = gran AND 0xF0 \<and>
    tss_base t = taddr \<and> tss_limit t = tlimit AND 0xFFFFF \<and>
    (\<forall>k. k \<noteq> num \<longrightarrow> gdt_entries (gdt_set_gate num base limit access gran s) ! k = gdt_entries s ! k)"
  using assms
  by (simp add: split_base32 split_limit nibbles gdt_set_gate_def seg_base_def seg_limit_def seg_flags_def tss_base_written
      tss_limit_written byte_masks Let_def)

theorem gdt_gate_roundtrip_witness:
  "let s' = gdt_set_gate 1 0x12345678 0xABCDEF 0x9A 0xC5 gdt_static in
     seg_base (gdt_entries s' ! 1) = 0x12345678 \<and> seg_limit (gdt_entries s' ! 1) = 0xBCDEF"
  using gdt_gate_roundtrip[where s = gdt_static and num = 1 and base = "0x12345678" and limit = "0xABCDEF" and access = "0x9A" and gran = "0xC5"]
  unfolding Let_def by (simp add: gdt_static_length)

lemma gdt_init_entries:
  assumes "length (gdt_entries s) = 5"
  shows "gdt_entries (gdt_init ga ta s) =
    [\<lparr>limit_low = 0, base_low = 0, base_middle = 0, access_byte = 0, granularity = 0, base_high = 0\<rparr>,
     \<lparr>limit_low = 0xFFFF, base_low = 0, base_middle = 0, access_byte = 0x9A, granularity = 0x2F, base_high = 0\<rparr>,
     \<lparr>limit_low = 0xFFFF, base_low = 0, base_middle = 0, access_byte = 0x92, granularity = 0x0F, base_high = 0\<rparr>,
     \<lparr>limit_low = 0xFFFF, base_low = 0, base_middle = 0, access_byte = 0xFA, granularity = 0x2F, base_high = 0\<rparr>,
     \<lparr>limit_low = 0xFFFF, base_low = 0, base_middle = 0, access_byte = 0xF2, granularity = 0x0F, base_high = 0\<rparr>]"
proof -
  have set_gate: "gdt_entries (gdt_set_gate n b l a g s) = (gdt_entries s)[n :=
    \<lparr>limit_low = ucast (l AND 0xFFFF), base_low = ucast (b AND 0xFFFF), base_middle = ucast (drop_bit 16 b AND 0xFF), access_byte = a,
      granularity = ucast (drop_bit 16 l AND 0x0F) OR (g AND 0xF0), base_high = ucast (drop_bit 24 b AND 0xFF)\<rparr>]" for n b l a g and s :: "'a gdt_state_scheme"
    by (simp add: gdt_set_gate_def)
  obtain a b c d e where "gdt_entries s = [a, b, c, d, e]"
    using assms by (auto simp: length_Suc_conv eval_nat_numeral)
  then show ?thesis by (simp add: gdt_init_def set_gate Let_def)
qed

lemma gdt_init_rest:
  "gdt_tss (gdt_init ga ta s) = write_tss ta 103" "gdtr (gdt_init ga ta s) = (55, ga)" "data_segments (gdt_init ga ta s) = 0x10"
  "code_segment (gdt_init ga ta s) = 8" "task_register (gdt_init ga ta s) = 0x28"
  "tss_bytes (gdt_init ga ta s) = (replicate 104 0)[102 := 104, 103 := 0]"
  by (simp_all add: gdt_init_def Let_def)

text \<open>
  After \<open>gdt_init\<close> the selectors mean what their names say: code at 0x08 and data at 0x10 for
  ring 0, code at 0x18 and data at 0x20 for ring 3, code in long mode, all at base 0; the null
  entry is empty; the limit of the table covers the TSS descriptor, which lies at 0x28, describes
  the whole TSS, and gives no access to I/O ports.
\<close>

theorem gdt_init_segments:
  assumes "length (gdt_entries s) = 5"
  shows "let s' = gdt_init gdt_addr tss_addr s; seg = (\<lambda>r x. \<lparr>present = True, ring = r, executable = x, writable = \<not> x, long_mode = x\<rparr>) in
    code_segment s' = GDT_KERNEL_CODE \<and> data_segments s' = GDT_KERNEL_DATA \<and>
    segment_of (selected GDT_KERNEL_CODE s') = seg 0 True \<and> segment_of (selected GDT_KERNEL_DATA s') = seg 0 False \<and>
    segment_of (selected GDT_USER_CODE s') = seg 3 True \<and> segment_of (selected GDT_USER_DATA s') = seg 3 False \<and>
    (\<forall>k < 5. seg_base (gdt_entries s' ! k) = 0) \<and> \<not> present (segment_of (selected 0 s')) \<and>
    gdtr s' = (55, gdt_addr) \<and> task_register s' = GDT_TSS \<and> unat GDT_TSS = 8 * 5 \<and> tss_base (gdt_tss s') = tss_addr \<and>
    Suc (unat (tss_limit (gdt_tss s'))) = length (tss_bytes s') \<and>
    unat (tss_bytes s' ! 102) + 256 * unat (tss_bytes s' ! 103) = length (tss_bytes s')"
proof -
  have base: "\<forall>k < 5. seg_base (gdt_entries (gdt_init gdt_addr tss_addr s) ! k) = 0"
    by (simp add: gdt_init_entries[OF assms] seg_base_def All_less_Suc eval_nat_numeral)
  have idx: "unat (drop_bit 3 (0x10 :: u16)) = 2" "unat (drop_bit 3 (0x18 :: u16)) = 3" "unat (drop_bit 3 (0x20 :: u16)) = 4"
    "unat (drop_bit 3 (8 :: u16)) = 1"
    by simp_all
  show ?thesis
    using base by (simp add: gdt_init_entries[OF assms] gdt_init_rest segment_of_def selected_def tss_base_written tss_limit_written idx Let_def)
qed

theorem gdt_init_segments_witness:
  "ring (segment_of (selected 0x18 (gdt_init 0x1000 0x2000 gdt_static))) = 3"
  using gdt_init_segments[OF gdt_static_length, of "0x1000" "0x2000"] unfolding Let_def by simp

end
