(* ===== verification/Idt.thy ===== *)
theory Idt
  imports Gdt
begin

text \<open>
  Interrupts: kernel/arch/x86_shared/idt.c and idt.h, as compiled for x86_64, up to the assembly
  stubs of isr.S, whose addresses are parameters. A pointer to a handler is the name of one of the
  three functions the kernel registers; what a handler or a panic does is a parameter here.
\<close>

section \<open>State\<close>

record registers =
  reg_r15 :: u64
  reg_r14 :: u64
  reg_r13 :: u64
  reg_r12 :: u64
  reg_r11 :: u64
  reg_r10 :: u64
  reg_r9 :: u64
  reg_r8 :: u64
  reg_rbp :: u64
  reg_rdi :: u64
  reg_rsi :: u64
  reg_rdx :: u64
  reg_rcx :: u64
  reg_rbx :: u64
  reg_rax :: u64
  int_no :: u64
  err_code :: u64
  reg_rip :: u64
  reg_cs :: u64
  reg_rflags :: u64
  reg_rsp :: u64
  reg_ss :: u64

record idt_entry =
  gate_base_low :: u16
  gate_selector :: u16
  gate_ist :: u8
  gate_flags :: u8
  gate_base_mid :: u16
  gate_base_high :: u32
  gate_reserved :: u32

datatype isr_handler_t = page_fault_handler | pit_irq_handler | keyboard_handler

text \<open>The operand of \<open>lidt\<close>, limit and base.\<close>

type_synonym idt_ptr = "u16 \<times> u64"

record idt_state = gdt_state +
  idt :: "idt_entry list"
  interrupt_handlers :: "isr_handler_t option list"
  idtr :: idt_ptr

section \<open>Operations\<close>

definition idt_set_gate :: "u8 \<Rightarrow> u64 \<Rightarrow> u16 \<Rightarrow> u8 \<Rightarrow> 'a idt_state_scheme \<Rightarrow> 'a idt_state_scheme" where
  "idt_set_gate num handler selector flags s = s\<lparr>idt := (idt s)[unat num :=
     \<lparr>gate_base_low = ucast (handler AND 0xFFFF), gate_selector = selector, gate_ist = 0, gate_flags = flags,
      gate_base_mid = ucast (drop_bit 16 handler AND 0xFFFF),
      gate_base_high = ucast (drop_bit 32 handler AND 0xFFFFFFFF), gate_reserved = 0\<rparr>]\<rparr>"

definition isr_register_handler :: "u8 \<Rightarrow> isr_handler_t \<Rightarrow> 'a idt_state_scheme \<Rightarrow> 'a idt_state_scheme" where
  "isr_register_handler num handler s = s\<lparr>interrupt_handlers := (interrupt_handlers s)[unat num := Some handler]\<rparr>"

definition io_wait :: "'a io_state_scheme \<Rightarrow> 'a io_state_scheme" where
  "io_wait s = outb 0x80 0 s"

text \<open>Ports and commands of the two interrupt controllers.\<close>

abbreviation PIC1_COMMAND :: u16 where "PIC1_COMMAND \<equiv> 0x20"
abbreviation PIC1_DATA :: u16 where "PIC1_DATA \<equiv> 0x21"
abbreviation PIC2_COMMAND :: u16 where "PIC2_COMMAND \<equiv> 0xA0"
abbreviation PIC2_DATA :: u16 where "PIC2_DATA \<equiv> 0xA1"
abbreviation ICW1_INIT :: u8 where "ICW1_INIT \<equiv> 0x10"
abbreviation ICW1_ICW4 :: u8 where "ICW1_ICW4 \<equiv> 0x01"
abbreviation ICW4_8086 :: u8 where "ICW4_8086 \<equiv> 0x01"
abbreviation PIC_EOI :: u8 where "PIC_EOI \<equiv> 0x20"

definition pic_remap :: "u8 \<Rightarrow> u8 \<Rightarrow> 'a io_state_scheme \<Rightarrow> 'a io_state_scheme" where
  "pic_remap offset1 offset2 s =
     (let s = io_wait (outb PIC1_COMMAND (ICW1_INIT OR ICW1_ICW4) s);
          s = io_wait (outb PIC2_COMMAND (ICW1_INIT OR ICW1_ICW4) s);
          s = io_wait (outb PIC1_DATA offset1 s);
          s = io_wait (outb PIC2_DATA offset2 s);
          s = io_wait (outb PIC1_DATA 0x04 s);
          s = io_wait (outb PIC2_DATA 0x02 s);
          s = io_wait (outb PIC1_DATA ICW4_8086 s);
          s = io_wait (outb PIC2_DATA ICW4_8086 s);
          s = outb PIC1_DATA 0xF8 s
      in outb PIC2_DATA 0xFF s)"

definition pic_send_eoi :: "u8 \<Rightarrow> 'a io_state_scheme \<Rightarrow> 'a io_state_scheme" where
  "pic_send_eoi irq s = outb PIC1_COMMAND PIC_EOI (if 8 \<le> irq then outb PIC2_COMMAND PIC_EOI s else s)"

definition exception_messages :: "string list" where
  "exception_messages = [''Division By Zero'', ''Debug'', ''Non Maskable Interrupt'', ''Breakpoint'',
     ''Into Detected Overflow'', ''Out of Bounds'', ''Invalid Opcode'', ''No Coprocessor'', ''Double Fault'',
     ''Coprocessor Segment Overrun'', ''Bad TSS'', ''Segment Not Present'', ''Stack Fault'',
     ''General Protection Fault'', ''Page Fault'', ''Unknown Interrupt'', ''Coprocessor Fault'',
     ''Alignment Check'', ''Machine Check'', ''SIMD Floating-Point Exception'', ''Virtualization Exception'',
     ''Control Protection Exception'', ''Reserved'', ''Reserved'', ''Reserved'', ''Reserved'', ''Reserved'',
     ''Reserved'', ''Hypervisor Injection Exception'', ''VMM Communication Exception'', ''Security Exception'', ''Reserved'']"

text \<open>
  The dispatchers. \<open>call h regs\<close> runs a handler and \<open>panic msg regs\<close> the interactive panic, either
  of which may not return; an index outside the tables has no result.
\<close>

definition isr_handler :: "(isr_handler_t \<Rightarrow> registers \<Rightarrow> 'a idt_state_scheme \<Rightarrow> 'a idt_state_scheme option) \<Rightarrow>
    (string \<Rightarrow> registers \<Rightarrow> 'a idt_state_scheme \<Rightarrow> 'a idt_state_scheme option) \<Rightarrow>
    registers \<Rightarrow> 'a idt_state_scheme \<Rightarrow> 'a idt_state_scheme option" where
  "isr_handler call panic regs s =
     (let n = unat (int_no regs) in
      if n < 32 then
        case interrupt_handlers s ! n of
          Some h \<Rightarrow> call h regs s
        | None \<Rightarrow> panic (exception_messages ! n) regs s
      else if n < 256 then
        case interrupt_handlers s ! n of
          Some h \<Rightarrow> call h regs s
        | None \<Rightarrow> Some s
      else None)"

definition irq_handler :: "(isr_handler_t \<Rightarrow> registers \<Rightarrow> 'a idt_state_scheme \<Rightarrow> 'a idt_state_scheme option) \<Rightarrow>
    registers \<Rightarrow> 'a idt_state_scheme \<Rightarrow> 'a idt_state_scheme option" where
  "irq_handler call regs s =
     (let n = unat (int_no regs) in
      if n < 256 then do {
        s1 \<leftarrow> (case interrupt_handlers s ! n of Some h \<Rightarrow> call h regs s | None \<Rightarrow> Some s);
        Some (pic_send_eoi (ucast (int_no regs - 32)) s1)
      } else None)"

definition idt_blank :: idt_entry where
  "idt_blank = \<lparr>gate_base_low = 0, gate_selector = 0, gate_ist = 0, gate_flags = 0, gate_base_mid = 0,
     gate_base_high = 0, gate_reserved = 0\<rparr>"

definition isr_install :: "u64 \<Rightarrow> (nat \<Rightarrow> u64) \<Rightarrow> (nat \<Rightarrow> u64) \<Rightarrow> 'a idt_state_scheme \<Rightarrow> 'a idt_state_scheme" where
  "isr_install idt_addr isr irq s =
     (let s = s\<lparr>idt := replicate 256 idt_blank, interrupt_handlers := replicate 256 None\<rparr>;
          s = pic_remap 0x20 0x28 s;
          s = fold (\<lambda>i. idt_set_gate (of_nat i) (isr i) 0x08 0x8E) [0..<32] s;
          s = fold (\<lambda>i. idt_set_gate (of_nat (32 + i)) (irq i) 0x08 0x8E) [0..<16] s
      in s\<lparr>idtr := (256 * 16 - 1, idt_addr)\<rparr>)"

section \<open>What the hardware makes of it\<close>

text \<open>The processor puts the target of a gate together from its three pieces.\<close>

definition gate_target :: "idt_entry \<Rightarrow> u64" where
  "gate_target e = ucast (gate_base_low e) OR (push_bit 16 (ucast (gate_base_mid e)) OR push_bit 32 (ucast (gate_base_high e)))"

definition interrupt_gate :: "u64 \<Rightarrow> idt_entry \<Rightarrow> bool" where
  "interrupt_gate target e \<longleftrightarrow> gate_target e = target \<and> gate_selector e = 0x08 \<and> gate_flags e = 0x8E \<and> gate_ist e = 0"

definition gate_present :: "idt_entry \<Rightarrow> bool" where
  "gate_present e \<longleftrightarrow> bit (gate_flags e) 7"

text \<open>
  The two 8259 interrupt controllers as their data sheet describes them: a command with bit 4
  starts the initialisation, whose next three bytes come through the data port; later bytes there
  are the mask. A non-specific end of interrupt takes the highest priority interrupt, the
  lowest bit, out of service.
\<close>

record pic =
  icw :: nat
  vector_base :: u8
  pic_cascade :: u8
  pic_mask :: u8
  in_service :: u8

definition pic_command :: "u8 \<Rightarrow> pic \<Rightarrow> pic" where
  "pic_command v p =
     (if v AND 0x10 \<noteq> 0 then p\<lparr>icw := 2, pic_mask := 0, in_service := 0\<rparr>
      else if v = 0x20 then p\<lparr>in_service := in_service p AND (in_service p - 1)\<rparr>
      else p)"

definition pic_data :: "u8 \<Rightarrow> pic \<Rightarrow> pic" where
  "pic_data v p =
     (if icw p = 2 then p\<lparr>icw := 3, vector_base := v\<rparr>
      else if icw p = 3 then p\<lparr>icw := 4, pic_cascade := v\<rparr>
      else if icw p = 4 then p\<lparr>icw := 0\<rparr>
      else p\<lparr>pic_mask := v\<rparr>)"

definition pic_port :: "u16 \<times> u8 \<Rightarrow> pic \<times> pic \<Rightarrow> pic \<times> pic" where
  "pic_port = (\<lambda>(port, v) (m, s).
     if port = 0x20 then (pic_command v m, s)
     else if port = 0x21 then (pic_data v m, s)
     else if port = 0xA0 then (m, pic_command v s)
     else if port = 0xA1 then (m, pic_data v s)
     else (m, s))"

definition pic_raise :: "nat \<Rightarrow> pic \<times> pic \<Rightarrow> pic \<times> pic" where
  "pic_raise i = (\<lambda>(m, s).
     if i < 8 then (m\<lparr>in_service := in_service m OR push_bit i 1\<rparr>, s)
     else (m\<lparr>in_service := in_service m OR push_bit 2 1\<rparr>, s\<lparr>in_service := in_service s OR push_bit (i - 8) 1\<rparr>))"

definition pic_vector :: "nat \<Rightarrow> pic \<times> pic \<Rightarrow> nat" where
  "pic_vector i = (\<lambda>(m, s). if i < 8 then unat (vector_base m) + i else unat (vector_base s) + (i - 8))"

definition pic_unmasked :: "nat \<Rightarrow> pic \<times> pic \<Rightarrow> bool" where
  "pic_unmasked i = (\<lambda>(m, s).
     if i < 8 then \<not> bit (pic_mask m) i else \<not> bit (pic_mask m) 2 \<and> \<not> bit (pic_mask s) (i - 8))"

section \<open>Installation\<close>

lemma gate_target_set:
  "gate_target \<lparr>gate_base_low = ucast (h AND 0xFFFF), gate_selector = sel, gate_ist = ist, gate_flags = fl,
      gate_base_mid = ucast (drop_bit 16 h AND 0xFFFF), gate_base_high = ucast (drop_bit 32 h AND 0xFFFFFFFF), gate_reserved = rv\<rparr> = h"
proof -
  have m: "drop_bit 32 h AND 0xFFFFFFFF = take_bit 32 (drop_bit 32 h)"
    by (simp add: take_bit_eq_mask mask_eq_exp_minus_1)
  have "ucast (ucast (take_bit 16 h) :: u16) OR (push_bit 16 (ucast (ucast (take_bit 16 (drop_bit 16 h)) :: u16)) OR
      push_bit 32 (ucast (ucast (take_bit 32 (drop_bit 32 h)) :: u32))) = h" (is "?l = h")
  proof (rule bit_word_eqI)
    fix n assume n: "n < LENGTH(64)"
    consider "n < 16" | "16 \<le> n" "n < 32" | "32 \<le> n" by linarith
    then show "bit ?l n = bit h n" using n by cases (auto simp: bit_simps)
  qed
  then show ?thesis by (simp add: gate_target_def byte_masks m)
qed

lemma idt_set_gates:
  assumes "b + n \<le> 256"
  shows "fold (\<lambda>i. idt_set_gate (of_nat (b + i)) (f i) 0x08 0x8E) [0..<n] s =
    s\<lparr>idt := idt (fold (\<lambda>i. idt_set_gate (of_nat (b + i)) (f i) 0x08 0x8E) [0..<n] s)\<rparr> \<and>
    length (idt (fold (\<lambda>i. idt_set_gate (of_nat (b + i)) (f i) 0x08 0x8E) [0..<n] s)) = length (idt s) \<and>
    (length (idt s) = 256 \<longrightarrow>
      (\<forall>k < n. interrupt_gate (f k) (idt (fold (\<lambda>i. idt_set_gate (of_nat (b + i)) (f i) 0x08 0x8E) [0..<n] s) ! (b + k))) \<and>
      (\<forall>k. \<not> (b \<le> k \<and> k < b + n) \<longrightarrow> idt (fold (\<lambda>i. idt_set_gate (of_nat (b + i)) (f i) 0x08 0x8E) [0..<n] s) ! k = idt s ! k))"
  using assms
proof (induction n)
  case (Suc n)
  let ?t = "fold (\<lambda>i. idt_set_gate (of_nat (b + i)) (f i) 0x08 0x8E) [0..<n] s"
  have u: "unat (of_nat (b + n) :: u8) = b + n" using Suc.prems by (intro unat_of_nat_small) simp
  have step: "fold (\<lambda>i. idt_set_gate (of_nat (b + i)) (f i) 0x08 0x8E) [0..<Suc n] s = idt_set_gate (of_nat (b + n)) (f n) 0x08 0x8E ?t"
    by simp
  have IH: "?t = s\<lparr>idt := idt ?t\<rparr>" "length (idt ?t) = length (idt s)"
    "length (idt s) = 256 \<Longrightarrow> \<forall>k < n. interrupt_gate (f k) (idt ?t ! (b + k))"
    "length (idt s) = 256 \<Longrightarrow> \<forall>k. \<not> (b \<le> k \<and> k < b + n) \<longrightarrow> idt ?t ! k = idt s ! k"
    using Suc by simp_all
  show ?case
    unfolding step
  proof (intro conjI impI allI)
    show "idt_set_gate (of_nat (b + n)) (f n) 0x08 0x8E ?t = s\<lparr>idt := idt (idt_set_gate (of_nat (b + n)) (f n) 0x08 0x8E ?t)\<rparr>"
      by (subst IH(1)) (simp add: idt_set_gate_def)
    show "length (idt (idt_set_gate (of_nat (b + n)) (f n) 0x08 0x8E ?t)) = length (idt s)"
      using IH(2) by (simp add: idt_set_gate_def)
  next
    fix k assume l: "length (idt s) = 256" and k: "k < Suc n"
    show "interrupt_gate (f k) (idt (idt_set_gate (of_nat (b + n)) (f n) 0x08 0x8E ?t) ! (b + k))"
      using IH(3)[OF l] k Suc.prems IH(2) l u by (cases "k = n") (simp_all add: idt_set_gate_def interrupt_gate_def gate_target_set)
  next
    fix k assume l: "length (idt s) = 256" and k: "\<not> (b \<le> k \<and> k < b + Suc n)"
    then show "idt (idt_set_gate (of_nat (b + n)) (f n) 0x08 0x8E ?t) ! k = idt s ! k"
      using IH(4)[OF l] u by (auto simp: idt_set_gate_def)
  qed
qed simp

lemma idt_set_gates_cong:
  "idt s = idt t \<Longrightarrow> idt (fold (\<lambda>i. idt_set_gate (num i) (h i) sel fl) ks s) = idt (fold (\<lambda>i. idt_set_gate (num i) (h i) sel fl) ks t)"
  by (induction ks arbitrary: s t) (simp_all add: idt_set_gate_def)

text \<open>The table it builds does not depend on what was there.\<close>

lemma isr_install_idt: "idt (isr_install a isr irq s) = idt (isr_install a isr irq t)" for s t :: "'a idt_state_scheme"
proof -
  have "idt (pic_remap 0x20 0x28 (u\<lparr>idt := replicate 256 idt_blank, interrupt_handlers := replicate 256 None\<rparr>)) = replicate 256 idt_blank"
    for u :: "'a idt_state_scheme"
    by (simp add: pic_remap_def io_wait_def outb_def Let_def)
  then show ?thesis
    by (simp add: isr_install_def Let_def del: upt.simps upt_rec_numeral) (intro idt_set_gates_cong, simp)
qed

lemma isr_install_shape:
  obtains gates where "isr_install idt_addr isr irq s =
      pic_remap 0x20 0x28 (s\<lparr>interrupt_handlers := replicate 256 None\<rparr>)\<lparr>idt := gates, idtr := (4095, idt_addr)\<rparr>"
    and "length gates = 256" "\<And>k. k < 32 \<Longrightarrow> interrupt_gate (isr k) (gates ! k)"
    "\<And>k. k < 16 \<Longrightarrow> interrupt_gate (irq k) (gates ! (32 + k))" "\<And>k. 48 \<le> k \<Longrightarrow> k < 256 \<Longrightarrow> gates ! k = idt_blank"
proof -
  define s0 where "s0 = pic_remap 0x20 0x28 (s\<lparr>idt := replicate 256 idt_blank, interrupt_handlers := replicate 256 None\<rparr>)"
  define s1 where "s1 = fold (\<lambda>i. idt_set_gate (of_nat i) (isr i) 0x08 0x8E) [0..<32] s0"
  define s2 where "s2 = fold (\<lambda>i. idt_set_gate (of_nat (32 + i)) (irq i) 0x08 0x8E) [0..<16] s1"
  have s0: "s0 = pic_remap 0x20 0x28 (s\<lparr>interrupt_handlers := replicate 256 None\<rparr>)\<lparr>idt := replicate 256 idt_blank\<rparr>"
    by (simp add: s0_def pic_remap_def io_wait_def outb_def Let_def)
  then have i0: "idt s0 = replicate 256 idt_blank" by simp
  have s1: "s1 = s0\<lparr>idt := idt s1\<rparr>" "length (idt s1) = 256" "\<forall>k < 32. interrupt_gate (isr k) (idt s1 ! k)"
    "\<forall>k. \<not> k < 32 \<longrightarrow> idt s1 ! k = idt s0 ! k"
    using idt_set_gates[of 0 32 isr s0] by (simp_all add: i0 s1_def)
  have s2: "s2 = s1\<lparr>idt := idt s2\<rparr>" "length (idt s2) = 256" "\<forall>k < 16. interrupt_gate (irq k) (idt s2 ! (32 + k))"
    "\<forall>k. \<not> (32 \<le> k \<and> k < 32 + 16) \<longrightarrow> idt s2 ! k = idt s1 ! k"
    using idt_set_gates[of 32 16 irq s1] s1(2) unfolding s2_def[symmetric] by simp_all
  show thesis
  proof (rule that[of "idt s2"])
    have "isr_install idt_addr isr irq s = s2\<lparr>idtr := (4095, idt_addr)\<rparr>"
      by (simp add: isr_install_def s2_def s1_def s0_def Let_def)
    also have "s2 = pic_remap 0x20 0x28 (s\<lparr>interrupt_handlers := replicate 256 None\<rparr>)\<lparr>idt := idt s2\<rparr>"
      by (subst s2(1), subst s1(1), subst s0) simp
    finally show "isr_install idt_addr isr irq s =
      pic_remap 0x20 0x28 (s\<lparr>interrupt_handlers := replicate 256 None\<rparr>)\<lparr>idt := idt s2, idtr := (4095, idt_addr)\<rparr>" by simp
  next
    fix k :: nat assume "k < 32" then show "interrupt_gate (isr k) (idt s2 ! k)" using s1(3) s2(4) by simp
  next
    fix k :: nat assume "48 \<le> k" "k < 256" then show "idt s2 ! k = idt_blank" using s1(4) s2(4) i0 by simp
  qed (use s2 in auto)
qed

lemma pic_remap_out:
  "\<exists>log. io_out (pic_remap 0x20 0x28 s) = io_out s @ log \<and> fold pic_port log (m, sl) =
     (m\<lparr>icw := 0, vector_base := 0x20, pic_cascade := 4, pic_mask := 0xF8, in_service := 0\<rparr>,
      sl\<lparr>icw := 0, vector_base := 0x28, pic_cascade := 2, pic_mask := 0xFF, in_service := 0\<rparr>)"
  by (simp add: pic_remap_def io_wait_def outb_def pic_port_def pic_command_def pic_data_def Let_def)

section \<open>Properties\<close>

text \<open>
  C13: Interrupts arrive where they should. After \<open>isr_install\<close>, whatever state the two
  interrupt controllers were in, each hardware interrupt has the vector 32 + i, and the gate there
  leads to its stub through an interrupt gate of ring 0; each exception has a gate to its own
  stub; no other vector has one; only timer, keyboard and cascade are let through, and no
  handler is registered.
\<close>

theorem isr_install_routes:
  "let s' = isr_install idt_addr isr irq s in
     \<exists>log. io_out s' = io_out s @ log \<and>
       (let p' = fold pic_port log p in
         (\<forall>i < 16. pic_vector i p' = 32 + i \<and> interrupt_gate (irq i) (idt s' ! pic_vector i p') \<and>
            (pic_unmasked i p' \<longleftrightarrow> i \<le> 2)) \<and>
         icw (fst p') = 0 \<and> icw (snd p') = 0) \<and>
       (\<forall>i < 32. interrupt_gate (isr i) (idt s' ! i)) \<and>
       (\<forall>i < 256. gate_present (idt s' ! i) \<longleftrightarrow> i < 48) \<and> interrupt_handlers s' = replicate 256 None \<and>
       idtr s' = (of_nat (16 * length (idt s') - 1), idt_addr)"
proof -
  obtain gates where s': "isr_install idt_addr isr irq s =
      pic_remap 0x20 0x28 (s\<lparr>interrupt_handlers := replicate 256 None\<rparr>)\<lparr>idt := gates, idtr := (4095, idt_addr)\<rparr>"
    and g: "length gates = 256" "\<And>k. k < 32 \<Longrightarrow> interrupt_gate (isr k) (gates ! k)"
    "\<And>k. k < 16 \<Longrightarrow> interrupt_gate (irq k) (gates ! (32 + k))" "\<And>k. 48 \<le> k \<Longrightarrow> k < 256 \<Longrightarrow> gates ! k = idt_blank"
    by (rule isr_install_shape[of idt_addr isr irq s]) (rule that)
  obtain m sl where p: "p = (m, sl)" by (cases p)
  obtain log where log: "io_out (pic_remap 0x20 0x28 (s\<lparr>interrupt_handlers := replicate 256 None\<rparr>)) = io_out s @ log"
    "fold pic_port log p =
      (m\<lparr>icw := 0, vector_base := 0x20, pic_cascade := 4, pic_mask := 0xF8, in_service := 0\<rparr>,
       sl\<lparr>icw := 0, vector_base := 0x28, pic_cascade := 2, pic_mask := 0xFF, in_service := 0\<rparr>)"
    using pic_remap_out[of "s\<lparr>interrupt_handlers := replicate 256 None\<rparr>" m sl] p by auto
  have vec: "pic_vector i (fold pic_port log p) = 32 + i" for i
    by (simp add: log(2) pic_vector_def)
  have mask: "pic_unmasked i (fold pic_port log p) \<longleftrightarrow> i \<le> 2" if "i < 16" for i
    using that by (auto simp: log(2) pic_unmasked_def less_Suc_eq numeral_eq_Suc)
  have pres: "gate_present (gates ! i) \<longleftrightarrow> i < 48" if "i < 256" for i
  proof -
    consider "i < 32" | "32 \<le> i" "i < 48" | "48 \<le> i" by linarith
    then show ?thesis
      using that g(2)[of i] g(3)[of "i - 32"] g(4)[of i] by cases (simp_all add: interrupt_gate_def gate_present_def idt_blank_def)
  qed
  have h: "interrupt_handlers (pic_remap 0x20 0x28 (s\<lparr>interrupt_handlers := replicate 256 None\<rparr>)) = replicate 256 None"
    by (simp add: pic_remap_def io_wait_def outb_def Let_def)
  show ?thesis
    unfolding Let_def s' using g vec mask pres log h by (intro exI[of _ log]) simp
qed

lemma eoi_acknowledges:
  fixes n :: u64
  assumes "i < 16" "icw m = 0" "icw sl = 0" "in_service m = 0" "in_service sl = 0" "unat n = 32 + i"
  shows "\<exists>eoi. pic_send_eoi (ucast (n - 32)) s = s\<lparr>io_out := io_out s @ eoi\<rparr> \<and> fold pic_port eoi (pic_raise i (m, sl)) = (m, sl)"
proof -
  have u: "unat (ucast (n - 32 :: u64) :: u8) = i"
  proof -
    have "n = of_nat (32 + i)" using assms(6) by (metis of_nat_unat ucast_id)
    then have "n - 32 = of_nat i" by simp
    then show ?thesis using assms(1) by (simp add: unsigned_ucast_eq unat_of_nat_small take_bit_nat_eq_self)
  qed
  have eoi: "pic_command 0x20 (q\<lparr>in_service := push_bit k 1\<rparr>) = q" if "in_service q = 0" "k < 8" for q :: pic and k
  proof -
    have "push_bit k 1 AND (push_bit k 1 - 1) = (0 :: u8)"
      using that(2) by (auto simp: less_Suc_eq numeral_eq_Suc)
    then show ?thesis using that(1) by (cases q) (simp add: pic_command_def)
  qed
  have ge: "(8 :: u8) \<le> ucast (n - 32) \<longleftrightarrow> 8 \<le> i"
    using u by (simp add: word_le_nat_alt)
  show ?thesis
  proof (cases "i < 8")
    case True
    then show ?thesis using assms eoi[of m i] ge
      by (intro exI[of _ "[(0x20, 0x20)]"]) (simp add: pic_send_eoi_def outb_def pic_port_def pic_raise_def)
  next
    case False
    then show ?thesis using assms eoi[of m 2] eoi[of sl "i - 8"] ge
      by (intro exI[of _ "[(0xA0, 0x20), (0x20, 0x20)]"]) (simp add: pic_send_eoi_def outb_def pic_port_def pic_raise_def)
  qed
qed

lemma pic_port_other: "fst ` set log \<inter> {0x20, 0x21, 0xA0, 0xA1} = {} \<Longrightarrow> fold pic_port log p = p"
  by (induction log arbitrary: p) (auto simp: pic_port_def split: prod.splits)

text \<open>
  Every hardware interrupt is acknowledged. When interrupt i arrives at idle controllers,
  \<open>irq_handler\<close> runs the handler registered for its vector, if any, and nothing else, and then
  tells the right controllers that the interrupt is over, so that none stays in service, provided
  that the handler returns and leaves the controllers alone.
\<close>

theorem irq_acknowledged:
  assumes "i < 16" and "unat (int_no regs) = 32 + i" and "icw (fst p) = 0" "icw (snd p) = 0"
    and "in_service (fst p) = 0" "in_service (snd p) = 0"
    and "\<And>h s1. call h regs s = Some s1 \<Longrightarrow> \<exists>log. io_out s1 = io_out s @ log \<and> fst ` set log \<inter> {0x20, 0x21, 0xA0, 0xA1} = {}"
  shows "case (case interrupt_handlers s ! (32 + i) of None \<Rightarrow> Some s | Some h \<Rightarrow> call h regs s) of
      None \<Rightarrow> irq_handler call regs s = None
    | Some s1 \<Rightarrow> \<exists>log. irq_handler call regs s = Some (s1\<lparr>io_out := io_out s @ log\<rparr>) \<and> fold pic_port log (pic_raise i p) = p"
proof -
  obtain m sl where p: "p = (m, sl)" by (cases p)
  define r where "r = (case interrupt_handlers s ! (32 + i) of None \<Rightarrow> Some s | Some h \<Rightarrow> call h regs s)"
  have irq: "irq_handler call regs s = do { s1 \<leftarrow> r; Some (pic_send_eoi (ucast (int_no regs - 32)) s1) }"
    using assms(1,2) by (simp add: irq_handler_def r_def Let_def cong: option.case_cong)
  show ?thesis
  proof (cases r)
    case None
    then show ?thesis using irq by (simp add: r_def)
  next
    case (Some s1)
    obtain log where log: "io_out s1 = io_out s @ log" "fst ` set log \<inter> {0x20, 0x21, 0xA0, 0xA1} = {}"
    proof (cases "interrupt_handlers s ! (32 + i)")
      case None
      with Some that[of "[]"] show ?thesis by (simp add: r_def)
    next
      case (Some h)
      with \<open>r = Some s1\<close> have "call h regs s = Some s1" by (simp add: r_def)
      from assms(7)[OF this] that show ?thesis by blast
    qed
    obtain eoi where "pic_send_eoi (ucast (int_no regs - 32)) s1 = s1\<lparr>io_out := io_out s1 @ eoi\<rparr>"
      "fold pic_port eoi (pic_raise i (m, sl)) = (m, sl)"
      using eoi_acknowledges[of i m sl "int_no regs" s1] assms p by auto
    then show ?thesis
      using Some irq log(1) pic_port_other[OF log(2), of "pic_raise i (m, sl)"] p
      by (simp add: r_def) (intro exI[of _ "log @ eoi"], simp)
  qed
qed

definition idt_static :: idt_state where
  "idt_static = \<lparr>io_reads = 0, io_out = [], vga_mem = [], vga_row = 0, vga_col = 0, vga_color = 0, gdt_entries = [],
      gdt_tss = write_tss 0 0, tss_bytes = [], gdtr = (0, 0), data_segments = 0, code_segment = 0, task_register = 0,
      idt = [], interrupt_handlers = replicate 256 None, idtr = (0, 0)\<rparr>"

definition regs_at :: "u64 \<Rightarrow> registers" where
  "regs_at n = \<lparr>reg_r15 = 0, reg_r14 = 0, reg_r13 = 0, reg_r12 = 0, reg_r11 = 0, reg_r10 = 0, reg_r9 = 0, reg_r8 = 0, reg_rbp = 0,
     reg_rdi = 0, reg_rsi = 0, reg_rdx = 0, reg_rcx = 0, reg_rbx = 0, reg_rax = 0, int_no = n, err_code = 0, reg_rip = 0, reg_cs = 0,
     reg_rflags = 0, reg_rsp = 0, reg_ss = 0\<rparr>"

definition pics_ready :: "pic \<times> pic" where
  "pics_ready = (\<lparr>icw = 0, vector_base = 0x20, pic_cascade = 4, pic_mask = 0xF8, in_service = 0\<rparr>,
      \<lparr>icw = 0, vector_base = 0x28, pic_cascade = 2, pic_mask = 0xFF, in_service = 0\<rparr>)"

theorem isr_install_routes_witness:
  "let s' = isr_install 0x5000 (\<lambda>i. 0x100000 + of_nat i * 16) (\<lambda>i. 0x200000 + of_nat i * 16) idt_static in
     interrupt_gate 0x200010 (idt s' ! 33) \<and> \<not> gate_present (idt s' ! 48)"
proof -
  let ?s = "isr_install 0x5000 (\<lambda>i. 0x100000 + of_nat i * 16) (\<lambda>i. 0x200000 + of_nat i * 16) idt_static"
  obtain p' where r: "\<forall>i < 16. pic_vector i p' = 32 + i \<and> interrupt_gate (0x200000 + of_nat i * 16) (idt ?s ! pic_vector i p')"
    "\<forall>i < 256. gate_present (idt ?s ! i) \<longleftrightarrow> i < 48"
    using isr_install_routes[of "0x5000" "\<lambda>i. 0x100000 + of_nat i * 16" "\<lambda>i. 0x200000 + of_nat i * 16" idt_static pics_ready]
    unfolding Let_def by blast
  have "(1 :: nat) < 16" by simp
  note q = r(1)[rule_format, OF this]
  have "interrupt_gate 0x200010 (idt ?s ! 33)" using q[THEN conjunct2, unfolded q[THEN conjunct1]] by simp
  then show ?thesis using r(2) by (simp add: Let_def)
qed

theorem irq_acknowledged_witness:
  "\<exists>log. irq_handler (\<lambda>h regs s. Some (outb 0x60 1 s)) (regs_at 33) idt_static = Some (idt_static\<lparr>io_out := log\<rparr>) \<and>
    fold pic_port log (pic_raise 1 pics_ready) = pics_ready"
  using irq_acknowledged[where i = 1 and regs = "regs_at 33" and p = pics_ready and call = "\<lambda>h regs s. Some (outb 0x60 1 s)" and s = idt_static]
  by (simp add: pics_ready_def regs_at_def idt_static_def outb_def)

end
