(* ===== verification/Isr_Stubs.thy ===== *)
theory Isr_Stubs
  imports Idt
begin

text \<open>
  The interrupt stubs: kernel/arch/x86_shared/isr.S, instruction by instruction, between the processor's
  entry into an interrupt and the C functions of idt.c. A C function is run on the kernel's state
  with the struct that its argument points to; what its compiled code does to the processor is a parameter,
  of which only the calling convention is assumed.
\<close>

section \<open>The processor\<close>

datatype reg = RAX | RBX | RCX | RDX | RSI | RDI | RBP | RSP | R8 | R9 | R10 | R11 | R12 | R13 | R14 | R15

text \<open>The stack is a memory of 64-bit words at addresses a multiple of 8 apart.\<close>

record cpu =
  gpr :: "reg \<Rightarrow> u64"
  cpu_rip :: u64
  cpu_cs :: u64
  cpu_rflags :: u64
  cpu_ss :: u64
  stack_mem :: "u64 \<Rightarrow> u64"

datatype c_function = C_isr_handler | C_irq_handler

datatype instr =
    Pushq_imm u64
  | Pushq reg
  | Popq reg
  | Movq reg reg
  | Addq_imm u64 reg
  | Call c_function
  | Iretq

definition push :: "u64 \<Rightarrow> cpu \<Rightarrow> cpu" where
  "push v c = c\<lparr>gpr := (gpr c)(RSP := gpr c RSP - 8), stack_mem := (stack_mem c)(gpr c RSP - 8 := v)\<rparr>"

definition top_word :: "cpu \<Rightarrow> nat \<Rightarrow> u64" where
  "top_word c k = stack_mem c (gpr c RSP + 8 * of_nat k)"

text \<open>
  The instructions other than calls. \<open>iretq\<close> pops five words, the last but one into the stack pointer; what the processor
  checks of them, which holds of the words that it has pushed itself, is not part of it.
\<close>

fun step_instr :: "instr \<Rightarrow> cpu \<Rightarrow> cpu" where
  "step_instr (Pushq_imm v) c = push v c"
| "step_instr (Pushq r) c = push (gpr c r) c"
| "step_instr (Popq r) c = c\<lparr>gpr := (gpr c)(RSP := gpr c RSP + 8, r := top_word c 0)\<rparr>"
| "step_instr (Movq r q) c = c\<lparr>gpr := (gpr c)(q := gpr c r)\<rparr>"
| "step_instr (Addq_imm v r) c = c\<lparr>gpr := (gpr c)(r := gpr c r + v)\<rparr>"
| "step_instr (Call f) c = c"
| "step_instr Iretq c = c\<lparr>cpu_rip := top_word c 0, cpu_cs := top_word c 1, cpu_rflags := top_word c 2,
     gpr := (gpr c)(RSP := top_word c 3), cpu_ss := top_word c 4\<rparr>"

text \<open>The struct that a pointer of type \<open>registers_t *\<close> points to: its fields follow each other in memory.\<close>

definition frame_at :: "(u64 \<Rightarrow> u64) \<Rightarrow> u64 \<Rightarrow> registers" where
  "frame_at m p = \<lparr>reg_r15 = m p, reg_r14 = m (p + 8), reg_r13 = m (p + 16), reg_r12 = m (p + 24), reg_r11 = m (p + 32),
     reg_r10 = m (p + 40), reg_r9 = m (p + 48), reg_r8 = m (p + 56), reg_rbp = m (p + 64), reg_rdi = m (p + 72), reg_rsi = m (p + 80),
     reg_rdx = m (p + 88), reg_rcx = m (p + 96), reg_rbx = m (p + 104), reg_rax = m (p + 112), int_no = m (p + 120),
     err_code = m (p + 128), reg_rip = m (p + 136), reg_cs = m (p + 144), reg_rflags = m (p + 152), reg_rsp = m (p + 160),
     reg_ss = m (p + 168)\<rparr>"

text \<open>
  Running code. \<open>fn f regs s\<close> is what the C function \<open>f\<close> does to the kernel's state and \<open>after f s c\<close> the
  processor when it returns.
\<close>

fun exec :: "(c_function \<Rightarrow> registers \<Rightarrow> 's \<Rightarrow> 's option) \<Rightarrow> (c_function \<Rightarrow> 's \<Rightarrow> cpu \<Rightarrow> cpu) \<Rightarrow> instr list \<Rightarrow> cpu \<times> 's \<Rightarrow> (cpu \<times> 's) option" where
  "exec fn after [] (c, s) = Some (c, s)"
| "exec fn after (Call f # is) (c, s) =
     (case fn f (frame_at (stack_mem c) (gpr c RDI)) s of None \<Rightarrow> None | Some s' \<Rightarrow> exec fn after is (after f s c, s'))"
| "exec fn after (i # is) (c, s) = exec fn after is (step_instr i c, s)"

section \<open>The stubs\<close>

definition push_registers :: "instr list" where
  "push_registers = [Pushq RAX, Pushq RBX, Pushq RCX, Pushq RDX, Pushq RSI, Pushq RDI, Pushq RBP, Pushq R8, Pushq R9, Pushq R10,
     Pushq R11, Pushq R12, Pushq R13, Pushq R14, Pushq R15]"

definition pop_registers :: "instr list" where
  "pop_registers = [Popq R15, Popq R14, Popq R13, Popq R12, Popq R11, Popq R10, Popq R9, Popq R8, Popq RBP, Popq RDI, Popq RSI,
     Popq RDX, Popq RCX, Popq RBX, Popq RAX]"

definition isr_common_stub :: "instr list" where
  "isr_common_stub = push_registers @ [Movq RSP RDI, Call C_isr_handler] @ pop_registers @ [Addq_imm 16 RSP, Iretq]"

definition irq_common_stub :: "instr list" where
  "irq_common_stub = push_registers @ [Movq RSP RDI, Call C_irq_handler] @ pop_registers @ [Addq_imm 16 RSP, Iretq]"

text \<open>The macros; a jump to the common stub goes on with its code.\<close>

definition ISR_NOERRCODE :: "u64 \<Rightarrow> instr list" where
  "ISR_NOERRCODE num = [Pushq_imm 0, Pushq_imm num] @ isr_common_stub"

definition ISR_ERRCODE :: "u64 \<Rightarrow> instr list" where
  "ISR_ERRCODE num = [Pushq_imm num] @ isr_common_stub"

definition IRQ_STUB :: "u64 \<Rightarrow> instr list" where
  "IRQ_STUB irq = [Pushq_imm 0, Pushq_imm irq] @ irq_common_stub"

definition isr_stubs :: "instr list list" where
  "isr_stubs = [ISR_NOERRCODE 0, ISR_NOERRCODE 1, ISR_NOERRCODE 2, ISR_NOERRCODE 3, ISR_NOERRCODE 4, ISR_NOERRCODE 5,
     ISR_NOERRCODE 6, ISR_NOERRCODE 7, ISR_ERRCODE 8, ISR_NOERRCODE 9, ISR_ERRCODE 10, ISR_ERRCODE 11, ISR_ERRCODE 12,
     ISR_ERRCODE 13, ISR_ERRCODE 14, ISR_NOERRCODE 15, ISR_NOERRCODE 16, ISR_ERRCODE 17, ISR_NOERRCODE 18, ISR_NOERRCODE 19,
     ISR_NOERRCODE 20, ISR_NOERRCODE 21, ISR_NOERRCODE 22, ISR_NOERRCODE 23, ISR_NOERRCODE 24, ISR_NOERRCODE 25,
     ISR_NOERRCODE 26, ISR_NOERRCODE 27, ISR_NOERRCODE 28, ISR_NOERRCODE 29, ISR_NOERRCODE 30, ISR_NOERRCODE 31]"

definition irq_stubs :: "instr list list" where
  "irq_stubs = [IRQ_STUB 32, IRQ_STUB 33, IRQ_STUB 34, IRQ_STUB 35, IRQ_STUB 36, IRQ_STUB 37, IRQ_STUB 38, IRQ_STUB 39,
     IRQ_STUB 40, IRQ_STUB 41, IRQ_STUB 42, IRQ_STUB 43, IRQ_STUB 44, IRQ_STUB 45, IRQ_STUB 46, IRQ_STUB 47]"

section \<open>An interrupt\<close>

text \<open>
  What the processor does in 64-bit mode when it takes an interrupt in ring 0 through an interrupt gate:
  it aligns the stack pointer to 16, pushes what \<open>iretq\<close> will pop and the error code if the vector has
  one, clears TF, IF, NT and RF and goes to the target of the gate.
\<close>

definition take_interrupt :: "idt_entry \<Rightarrow> u64 option \<Rightarrow> cpu \<Rightarrow> cpu" where
  "take_interrupt e err c =
     (let c1 = push (cpu_rip c) (push (cpu_cs c) (push (cpu_rflags c) (push (gpr c RSP) (push (cpu_ss c)
            (c\<lparr>gpr := (gpr c)(RSP := gpr c RSP AND NOT 15)\<rparr>)))));
          c2 = (case err of None \<Rightarrow> c1 | Some v \<Rightarrow> push v c1)
      in c2\<lparr>cpu_rip := gate_target e, cpu_cs := ucast (gate_selector e), cpu_rflags := cpu_rflags c AND NOT 0x14300\<rparr>)"

text \<open>
  The C functions, and an interrupt as a whole: entry through the gate of its vector, the code there, and
  back. \<open>code\<close> is the code at an address.
\<close>

definition c_functions :: "(isr_handler_t \<Rightarrow> registers \<Rightarrow> 'a idt_state_scheme \<Rightarrow> 'a idt_state_scheme option) \<Rightarrow>
    (string \<Rightarrow> registers \<Rightarrow> 'a idt_state_scheme \<Rightarrow> 'a idt_state_scheme option) \<Rightarrow>
    c_function \<Rightarrow> registers \<Rightarrow> 'a idt_state_scheme \<Rightarrow> 'a idt_state_scheme option" where
  "c_functions call panic f = (case f of C_isr_handler \<Rightarrow> isr_handler call panic | C_irq_handler \<Rightarrow> irq_handler call)"

definition serve_interrupt :: "(c_function \<Rightarrow> registers \<Rightarrow> 'a idt_state_scheme \<Rightarrow> 'a idt_state_scheme option) \<Rightarrow>
    (c_function \<Rightarrow> 'a idt_state_scheme \<Rightarrow> cpu \<Rightarrow> cpu) \<Rightarrow> (u64 \<Rightarrow> instr list) \<Rightarrow> nat \<Rightarrow> u64 option \<Rightarrow>
    cpu \<Rightarrow> 'a idt_state_scheme \<Rightarrow> (cpu \<times> 'a idt_state_scheme) option" where
  "serve_interrupt fn after code n err c s =
     (let c1 = take_interrupt (idt s ! n) err c in exec fn after (code (cpu_rip c1)) (c1, s))"

text \<open>
  The calling convention, for a call with an aligned stack: the stack pointer and the callee-saved registers
  come back, and so does the stack from the stack pointer on.
\<close>

definition call_keeps :: "cpu \<Rightarrow> cpu \<Rightarrow> bool" where
  "call_keeps c c' \<longleftrightarrow> gpr c' RSP = gpr c RSP \<and> gpr c' RBX = gpr c RBX \<and> gpr c' RBP = gpr c RBP \<and> gpr c' R12 = gpr c R12 \<and>
     gpr c' R13 = gpr c R13 \<and> gpr c' R14 = gpr c R14 \<and> gpr c' R15 = gpr c R15 \<and>
     (\<forall>a. gpr c RSP \<le> a \<longrightarrow> stack_mem c' a = stack_mem c a)"

definition abi_calls :: "(c_function \<Rightarrow> 's \<Rightarrow> cpu \<Rightarrow> cpu) \<Rightarrow> bool" where
  "abi_calls after \<longleftrightarrow> (\<forall>f s c. gpr c RSP AND 15 = 0 \<longrightarrow> call_keeps c (after f s c))"

section \<open>Into the C function and out again\<close>

text \<open>The processor that goes on with the registers of a struct, and the struct of an interrupted processor.\<close>

definition resumed :: "registers \<Rightarrow> cpu \<Rightarrow> cpu" where
  "resumed regs c = c\<lparr>gpr := (\<lambda>r. case r of RAX \<Rightarrow> reg_rax regs | RBX \<Rightarrow> reg_rbx regs | RCX \<Rightarrow> reg_rcx regs | RDX \<Rightarrow> reg_rdx regs
       | RSI \<Rightarrow> reg_rsi regs | RDI \<Rightarrow> reg_rdi regs | RBP \<Rightarrow> reg_rbp regs | RSP \<Rightarrow> reg_rsp regs | R8 \<Rightarrow> reg_r8 regs | R9 \<Rightarrow> reg_r9 regs
       | R10 \<Rightarrow> reg_r10 regs | R11 \<Rightarrow> reg_r11 regs | R12 \<Rightarrow> reg_r12 regs | R13 \<Rightarrow> reg_r13 regs | R14 \<Rightarrow> reg_r14 regs | R15 \<Rightarrow> reg_r15 regs),
     cpu_rip := reg_rip regs, cpu_cs := reg_cs regs, cpu_rflags := reg_rflags regs, cpu_ss := reg_ss regs\<rparr>"

definition registers_of :: "cpu \<Rightarrow> u64 \<Rightarrow> u64 \<Rightarrow> registers" where
  "registers_of c n err = \<lparr>reg_r15 = gpr c R15, reg_r14 = gpr c R14, reg_r13 = gpr c R13, reg_r12 = gpr c R12, reg_r11 = gpr c R11,
     reg_r10 = gpr c R10, reg_r9 = gpr c R9, reg_r8 = gpr c R8, reg_rbp = gpr c RBP, reg_rdi = gpr c RDI, reg_rsi = gpr c RSI,
     reg_rdx = gpr c RDX, reg_rcx = gpr c RCX, reg_rbx = gpr c RBX, reg_rax = gpr c RAX, int_no = n, err_code = err,
     reg_rip = cpu_rip c, reg_cs = cpu_cs c, reg_rflags = cpu_rflags c, reg_rsp = gpr c RSP, reg_ss = cpu_ss c\<rparr>"

lemma resumed_registers_of: "resumed (registers_of c n err) c' = c\<lparr>stack_mem := stack_mem c'\<rparr>"
proof -
  have "(\<lambda>r. case r of RAX \<Rightarrow> gpr c RAX | RBX \<Rightarrow> gpr c RBX | RCX \<Rightarrow> gpr c RCX | RDX \<Rightarrow> gpr c RDX
       | RSI \<Rightarrow> gpr c RSI | RDI \<Rightarrow> gpr c RDI | RBP \<Rightarrow> gpr c RBP | RSP \<Rightarrow> gpr c RSP | R8 \<Rightarrow> gpr c R8 | R9 \<Rightarrow> gpr c R9
       | R10 \<Rightarrow> gpr c R10 | R11 \<Rightarrow> gpr c R11 | R12 \<Rightarrow> gpr c R12 | R13 \<Rightarrow> gpr c R13 | R14 \<Rightarrow> gpr c R14 | R15 \<Rightarrow> gpr c R15) = gpr c"
    by (rule ext) (simp split: reg.split)
  then show ?thesis by (simp add: resumed_def registers_of_def)
qed

text \<open>The way out, whatever the C function has left in the struct.\<close>

lemma exec_return:
  "exec fn after (pop_registers @ [Addq_imm 16 RSP, Iretq]) (c, s) = Some (resumed (frame_at (stack_mem c) (gpr c RSP)) c, s)"
proof -
  have "gpr (fst (the (exec fn after (pop_registers @ [Addq_imm 16 RSP, Iretq]) (c, s)))) r =
      gpr (resumed (frame_at (stack_mem c) (gpr c RSP)) c) r" for r
    by (cases r) (simp_all add: pop_registers_def top_word_def resumed_def frame_at_def add.assoc)
  then have g: "gpr (fst (the (exec fn after (pop_registers @ [Addq_imm 16 RSP, Iretq]) (c, s)))) =
      gpr (resumed (frame_at (stack_mem c) (gpr c RSP)) c)" by (rule ext)
  show ?thesis
    using g by (simp add: pop_registers_def top_word_def resumed_def frame_at_def add.assoc)
qed

text \<open>
  The way in. After the pushes of the processor and of a stub, the stack pointer is at a struct that holds
  the interrupted registers; the stack above is as it was.
\<close>

lemma exec_append:
  "exec fn after (is @ js) (c, s) = (case exec fn after is (c, s) of None \<Rightarrow> None | Some cs \<Rightarrow> exec fn after js cs)"
proof (induction "is" arbitrary: c s)
  case (Cons i "is")
  then show ?case by (cases i) (simp_all split: option.split)
qed simp

definition pushed :: "u64 \<Rightarrow> cpu \<Rightarrow> cpu" where
  "pushed p c = c\<lparr>gpr := (gpr c)(RSP := p), stack_mem := (stack_mem c)
     (p + 112 := gpr c RAX, p + 104 := gpr c RBX, p + 96 := gpr c RCX, p + 88 := gpr c RDX, p + 80 := gpr c RSI, p + 72 := gpr c RDI,
      p + 64 := gpr c RBP, p + 56 := gpr c R8, p + 48 := gpr c R9, p + 40 := gpr c R10, p + 32 := gpr c R11, p + 24 := gpr c R12,
      p + 16 := gpr c R13, p + 8 := gpr c R14, p := gpr c R15)\<rparr>"

lemma exec_push_registers:
  assumes "gpr c RSP = p + 120"
  shows "exec fn after (push_registers @ is) (c, s) = exec fn after is (pushed p c, s)"
  using assms by (simp add: push_registers_def push_def pushed_def ac_simps)

lemma frame_pushed:
  "frame_at (stack_mem (pushed p c)) p = (registers_of c (stack_mem c (p + 120)) (stack_mem c (p + 128)))
     \<lparr>reg_rip := stack_mem c (p + 136), reg_cs := stack_mem c (p + 144), reg_rflags := stack_mem c (p + 152),
      reg_rsp := stack_mem c (p + 160), reg_ss := stack_mem c (p + 168)\<rparr>"
  by (simp add: frame_at_def registers_of_def pushed_def)

lemma above_struct:
  fixes p k :: u64
  assumes "unat p + 184 < two64" and "k \<le> 184"
  shows "unat (p + k) = unat p + unat k" "p \<le> p + k"
proof -
  have "unat k \<le> 184" using assms(2) by (simp add: word_le_nat_alt)
  then show u: "unat (p + k) = unat p + unat k" using assms(1) by (simp add: unat_add_lem[THEN iffD1])
  show "p \<le> p + k" by (simp add: word_le_nat_alt u)
qed

text \<open>A common stub as a whole, if the call keeps what the convention says.\<close>

lemma exec_common:
  assumes rsp: "gpr c RSP = p + 120" and p: "unat p + 184 < two64"
    and keeps: "\<And>c. gpr c RSP = p \<Longrightarrow> call_keeps c (after f s c)"
  shows "\<exists>c'. exec fn after (push_registers @ [Movq RSP RDI, Call f] @ pop_registers @ [Addq_imm 16 RSP, Iretq]) (c, s) =
      map_option (Pair (resumed (frame_at (stack_mem (pushed p c)) p) c')) (fn f (frame_at (stack_mem (pushed p c)) p) s) \<and>
    (\<forall>a. p \<le> a \<longrightarrow> stack_mem c' a = stack_mem (pushed p c) a)"
proof -
  let ?c1 = "(pushed p c)\<lparr>gpr := (gpr (pushed p c))(RDI := p)\<rparr>"
  have r: "gpr ?c1 RSP = p" "gpr (pushed p c) RSP = p" by (simp_all add: pushed_def)
  have k: "gpr (after f s ?c1) RSP = p" "\<And>a. p \<le> a \<Longrightarrow> stack_mem (after f s ?c1) a = stack_mem (pushed p c) a"
    using keeps[OF r(1)] r by (simp_all add: call_keeps_def)
  have f: "frame_at (stack_mem (after f s ?c1)) p = frame_at (stack_mem (pushed p c)) p"
    using k(2) above_struct(2)[OF p] by (simp add: frame_at_def)
  show ?thesis
    unfolding exec_push_registers[OF rsp] using r k
    by (intro exI[of _ "after f s ?c1"]) (simp add: exec_return f split: option.split)
qed

text \<open>The processor and the first instructions of a stub; \<open>base\<close> is where the struct will start.\<close>

definition entered :: "idt_entry \<Rightarrow> u64 option \<Rightarrow> u64 \<Rightarrow> cpu \<Rightarrow> cpu" where
  "entered e err n c = push n (case err of None \<Rightarrow> push 0 (take_interrupt e None c) | Some v \<Rightarrow> take_interrupt e err c)"

lemma struct_base:
  assumes "200 \<le> unat (gpr c RSP)"
  obtains p where "gpr c RSP AND NOT 15 = p + 176" "p AND 15 = 0" "unat p + 184 < two64" "p + 176 \<le> gpr c RSP"
    "unat (gpr c RSP) < unat p + 192"
proof -
  define d where "d = drop_bit 4 (gpr c RSP)"
  have d: "gpr c RSP AND NOT 15 = push_bit 4 d"
    using and_not_mask_word[of "gpr c RSP" 4] by (simp add: d_def mask_eq_exp_minus_1)
  define p where "p = push_bit 4 (d - 11)"
  have T: "gpr c RSP AND NOT 15 = p + 176" unfolding d p_def by (simp add: push_bit_eq_mult algebra_simps)
  have a: "p AND 15 = 0"
  proof -
    have "push_bit 4 (d - 11) AND mask 4 = (0 :: u64)" by (rule bit_word_eqI) (simp add: bit_simps)
    then show ?thesis by (simp add: p_def mask_eq_exp_minus_1)
  qed
  have u: "unat (gpr c RSP AND NOT 15) = unat (gpr c RSP) div 16 * 16"
    unfolding d d_def by (simp only: unat_push_drop) simp
  have q: "unat (gpr c RSP) div 16 < 1152921504606846976"
    using unat_u64_lt[of "gpr c RSP"] by (intro less_mult_imp_div_less) simp
  have uT: "unat (p + 176) = unat (gpr c RSP) div 16 * 16" using u T by simp
  have split: "unat (gpr c RSP) div 16 * 16 + unat (gpr c RSP) mod 16 = unat (gpr c RSP)" "unat (gpr c RSP) mod 16 < 16" by simp_all
  have ge: "176 \<le> unat (p + 176)" and le: "unat (p + 176) \<le> unat (gpr c RSP)" and lt: "unat (p + 176) + 16 \<le> two64"
    using uT split q assms by linarith+
  have "unat (p + 176 - 176) = unat (p + 176) - unat (176 :: u64)"
    using ge by (intro unat_sub) (simp add: word_le_nat_alt)
  then have "unat p + 184 < two64" "unat (gpr c RSP) < unat p + 192" using ge lt uT split by simp_all
  with T a le show thesis by (intro that) (simp_all add: word_le_nat_alt)
qed

lemma push_fields [simp]:
  "gpr (push v c) RSP = gpr c RSP - 8" "r \<noteq> RSP \<Longrightarrow> gpr (push v c) r = gpr c r"
  "stack_mem (push v c) = (stack_mem c)(gpr c RSP - 8 := v)" "cpu_rip (push v c) = cpu_rip c"
  "cpu_cs (push v c) = cpu_cs c" "cpu_rflags (push v c) = cpu_rflags c" "cpu_ss (push v c) = cpu_ss c"
  by (simp_all add: push_def)

lemma entered_eq:
  assumes "gpr c RSP AND NOT 15 = p + 176"
  shows "gpr (entered e err n c) RSP = p + 120" "r \<noteq> RSP \<Longrightarrow> gpr (entered e err n c) r = gpr c r"
    and "stack_mem (entered e err n c) = (stack_mem c)(p + 168 := cpu_ss c, p + 160 := gpr c RSP, p + 152 := cpu_rflags c,
       p + 144 := cpu_cs c, p + 136 := cpu_rip c, p + 128 := (case err of None \<Rightarrow> 0 | Some v \<Rightarrow> v), p + 120 := n)"
  unfolding entered_def take_interrupt_def Let_def assms by (simp_all add: ac_simps split: option.split)

lemma entered_frame:
  assumes "gpr c RSP AND NOT 15 = p + 176"
  shows "frame_at (stack_mem (pushed p (entered e err n c))) p = registers_of c n (case err of None \<Rightarrow> 0 | Some v \<Rightarrow> v)"
  unfolding frame_pushed entered_eq(3)[OF assms] registers_of_def by (simp add: entered_eq(2)[OF assms])

lemma entered_above:
  assumes "gpr c RSP AND NOT 15 = p + 176" and "unat p + 184 < two64" and a: "p + 176 \<le> a"
  shows "stack_mem (pushed p (entered e err n c)) a = stack_mem c a"
proof -
  have ne: "a \<noteq> p + k" if "k < 176" for k
  proof -
    have "unat (p + k) < unat (p + 176)" using above_struct(1)[OF assms(2)] that by (simp add: word_less_nat_alt word_le_nat_alt)
    with a show ?thesis by (auto simp: word_le_nat_alt)
  qed
  have "a \<noteq> p" using ne[of 0] by simp
  with ne show ?thesis by (simp add: pushed_def entered_eq(3)[OF assms(1)])
qed

text \<open>The exceptions for which the processor pushes an error code, and those whose stubs expect one.\<close>

definition cpu_error_code :: "nat \<Rightarrow> bool" where
  "cpu_error_code n \<longleftrightarrow> n \<in> {8, 10, 11, 12, 13, 14, 17, 21, 29, 30}"

lemma isr_stubs_eq:
  "isr_stubs = map (\<lambda>n. (if n \<in> {8, 10, 11, 12, 13, 14, 17} then ISR_ERRCODE else ISR_NOERRCODE) (of_nat n)) [0..<32]"
  by (simp add: isr_stubs_def upt_rec)

lemma irq_stubs_eq: "irq_stubs = map (\<lambda>n. IRQ_STUB (of_nat (32 + n))) [0..<16]"
  by (simp add: irq_stubs_def upt_rec)

text \<open>The code at a vector of \<open>isr_install\<close>.\<close>

lemma vector_code:
  assumes "idt s = idt (isr_install idt_addr isr irq s0)" and "\<forall>i < 32. code (isr i) = isr_stubs ! i"
    and "\<forall>i < 16. code (irq i) = irq_stubs ! i" and "n < 48"
  shows "code (cpu_rip (take_interrupt (idt s ! n) err c)) = (if n < 32 then isr_stubs ! n else irq_stubs ! (n - 32))"
proof -
  obtain gates where g: "idt s = gates" "\<And>k. k < 32 \<Longrightarrow> interrupt_gate (isr k) (gates ! k)"
    "\<And>k. k < 16 \<Longrightarrow> interrupt_gate (irq k) (gates ! (32 + k))"
    by (rule isr_install_shape[of idt_addr isr irq s0]) (use assms(1) in auto)
  have "interrupt_gate (if n < 32 then isr n else irq (n - 32)) (idt s ! n)"
    using assms(4) g(1,2) by (cases "n < 32") (simp, use g(3)[of "n - 32"] in simp)
  moreover have "cpu_rip (take_interrupt (idt s ! n) err c) = gate_target (idt s ! n)"
    by (simp add: take_interrupt_def Let_def)
  ultimately show ?thesis using assms(2-4) by (simp add: interrupt_gate_def)
qed

lemma exec_stub:
  "exec fn after (ISR_NOERRCODE n @ js) (take_interrupt e None c, s) = exec fn after (isr_common_stub @ js) (entered e None n c, s)"
  "exec fn after (ISR_ERRCODE n @ js) (take_interrupt e (Some v) c, s) = exec fn after (isr_common_stub @ js) (entered e (Some v) n c, s)"
  "exec fn after (IRQ_STUB n @ js) (take_interrupt e None c, s) = exec fn after (irq_common_stub @ js) (entered e None n c, s)"
  by (simp_all add: ISR_NOERRCODE_def ISR_ERRCODE_def IRQ_STUB_def entered_def)

lemma serve_interrupt_returns:
  assumes abi: "abi_calls after"
    and installed: "idt s = idt (isr_install idt_addr isr irq s0)"
    and code: "\<forall>i < 32. code (isr i) = isr_stubs ! i" "\<forall>i < 16. code (irq i) = irq_stubs ! i"
    and n: "n < 48" "n \<notin> {21, 29, 30}" and err: "err \<noteq> None \<longleftrightarrow> cpu_error_code n"
    and room: "200 \<le> unat (gpr c RSP)"
  shows "\<exists>m. serve_interrupt (c_functions call panic) after code n err c s = map_option (Pair (c\<lparr>stack_mem := m\<rparr>))
      (let regs = registers_of c (of_nat n) (case err of None \<Rightarrow> 0 | Some v \<Rightarrow> v)
       in if n < 32 then isr_handler call panic regs s else irq_handler call regs s) \<and>
    (\<forall>a. gpr c RSP \<le> a \<longrightarrow> m a = stack_mem c a)"
proof -
  let ?f = "if n < 32 then C_isr_handler else C_irq_handler"
  let ?c1 = "entered (idt s ! n) err (of_nat n) c"
  obtain p where p: "gpr c RSP AND NOT 15 = p + 176" "p AND 15 = 0" "unat p + 184 < two64" "p + 176 \<le> gpr c RSP"
    by (rule struct_base[OF room])
  have stub: "serve_interrupt (c_functions call panic) after code n err c s = exec (c_functions call panic) after
      (push_registers @ [Movq RSP RDI, Call ?f] @ pop_registers @ [Addq_imm 16 RSP, Iretq]) (?c1, s)"
  proof (cases "n < 32")
    case True
    then have "isr_stubs ! n = (if cpu_error_code n then ISR_ERRCODE else ISR_NOERRCODE) (of_nat n)"
      using n(2) by (simp add: isr_stubs_eq cpu_error_code_def)
    with True err show ?thesis
      using exec_stub(1,2)[where js = "[]"] unfolding serve_interrupt_def Let_def vector_code[OF installed code n(1)]
      by (cases err) (simp_all add: isr_common_stub_def)
  next
    case False
    then have "irq_stubs ! (n - 32) = IRQ_STUB (of_nat n)" "err = None"
      using n err by (simp_all add: irq_stubs_eq cpu_error_code_def)
    with False show ?thesis
      using exec_stub(3)[where js = "[]"] unfolding serve_interrupt_def Let_def vector_code[OF installed code n(1)]
      by (simp add: irq_common_stub_def)
  qed
  have keeps: "call_keeps c' (after ?f s' c')" if "gpr c' RSP = p" for c' s'
    using abi that p(2) by (simp add: abi_calls_def)
  note frame = entered_frame[OF p(1), of "idt s ! n" err "of_nat n"]
  obtain c' where c': "serve_interrupt (c_functions call panic) after code n err c s =
      map_option (Pair (resumed (registers_of c (of_nat n) (case err of None \<Rightarrow> 0 | Some v \<Rightarrow> v)) c'))
        (c_functions call panic ?f (registers_of c (of_nat n) (case err of None \<Rightarrow> 0 | Some v \<Rightarrow> v)) s)"
    "\<And>a. p \<le> a \<Longrightarrow> stack_mem c' a = stack_mem (pushed p ?c1) a"
    using exec_common[where after = after and f = "?f" and c = "?c1" and s = s and fn = "c_functions call panic",
      OF entered_eq(1)[OF p(1)] p(3) keeps]
    unfolding stub frame by blast
  have "stack_mem c' a = stack_mem c a" if a: "gpr c RSP \<le> a" for a
  proof -
    have T: "p + 176 \<le> a" using p(4) a by (rule order_trans)
    moreover have "p \<le> a" using above_struct(2)[OF p(3), of 176] T by (auto intro: order_trans)
    ultimately show ?thesis using c'(2) entered_above[OF p(1,3)] by simp
  qed
  then show ?thesis
    using c'(1) by (intro exI[of _ "stack_mem c'"]) (simp add: resumed_registers_of c_functions_def Let_def)
qed

section \<open>Properties\<close>

text \<open>
  C10: An interrupt goes unnoticed by the code it interrupts. The C function is called on an aligned
  stack, with the vector, the error code if there is one and all the registers of the interrupted code in
  the struct; when it has returned, every register is as it was, and so is the stack from the stack
  pointer on. This holds for all hardware interrupts, and all exceptions whose stubs agree
  with the processor on whether there is an error code.
\<close>

theorem interrupt_resumes:
  assumes abi: "abi_calls after"
    and installed: "idt s = idt (isr_install idt_addr isr irq s0)"
    and code: "\<forall>i < 32. code (isr i) = isr_stubs ! i" "\<forall>i < 16. code (irq i) = irq_stubs ! i"
    and n: "n < 48" "n \<notin> {21, 29, 30}" and err: "err \<noteq> None \<longleftrightarrow> cpu_error_code n"
    and room: "200 \<le> unat (gpr c RSP)"
  shows "\<exists>m. serve_interrupt (c_functions call panic) after code n err c s = map_option (Pair (c\<lparr>stack_mem := m\<rparr>))
      (let regs = registers_of c (of_nat n) (case err of None \<Rightarrow> 0 | Some v \<Rightarrow> v)
       in if n < 32 then isr_handler call panic regs s else irq_handler call regs s) \<and>
    (\<forall>a. gpr c RSP \<le> a \<longrightarrow> m a = stack_mem c a)"
  using assms by (rule serve_interrupt_returns)

text \<open>A machine: a stub at each address from 0x1000 on, a kernel after \<open>isr_install\<close>, C code that clobbers what it may.\<close>

definition stub_addr :: "nat \<Rightarrow> u64" where
  "stub_addr i = of_nat (4096 + i)"

definition stub_code :: "u64 \<Rightarrow> instr list" where
  "stub_code a = (isr_stubs @ irq_stubs) ! (unat a - 4096)"

definition clobber :: "c_function \<Rightarrow> 's \<Rightarrow> cpu \<Rightarrow> cpu" where
  "clobber f s c = c\<lparr>gpr := (gpr c)(RAX := 7, RDI := 7, R11 := 7), stack_mem := (\<lambda>a. if a < gpr c RSP then 7 else stack_mem c a)\<rparr>"

definition idle_cpu :: cpu where
  "idle_cpu = \<lparr>gpr = (\<lambda>_. 0x8000), cpu_rip = 0x2000, cpu_cs = 8, cpu_rflags = 0x202, cpu_ss = 16, stack_mem = (\<lambda>_. 0)\<rparr>"

definition stub_kernel :: idt_state where
  "stub_kernel = isr_install 0x9000 stub_addr (\<lambda>i. stub_addr (32 + i)) idt_static"

lemma clobber_keeps: "call_keeps c (clobber f s c)"
  by (auto simp: call_keeps_def clobber_def)

lemma stub_code_at: "i < 48 \<Longrightarrow> stub_code (stub_addr i) = (isr_stubs @ irq_stubs) ! i"
  by (simp only: stub_code_def stub_addr_def) (subst unat_of_nat_small, simp_all)

lemma stub_kernel_code:
  "\<forall>i < 32. stub_code (stub_addr i) = isr_stubs ! i" "\<forall>i < 16. stub_code (stub_addr (32 + i)) = irq_stubs ! i"
proof -
  have "length isr_stubs = 32" by (simp add: isr_stubs_def)
  then show "\<forall>i < 32. stub_code (stub_addr i) = isr_stubs ! i" "\<forall>i < 16. stub_code (stub_addr (32 + i)) = irq_stubs ! i"
    using stub_code_at by (simp_all add: nth_append)
qed

lemma stub_kernel_handlers: "interrupt_handlers stub_kernel = replicate 256 None"
  by (rule isr_install_shape[where s = idt_static and idt_addr = "0x9000" and isr = stub_addr and irq = "\<lambda>i. stub_addr (32 + i)"])
    (simp add: stub_kernel_def pic_remap_def io_wait_def outb_def Let_def)

theorem interrupt_resumes_witness:
  "\<exists>m. serve_interrupt (c_functions (\<lambda>_ _ _. None) (\<lambda>_ _ _. None)) clobber stub_code 33 None idle_cpu stub_kernel =
      Some (idle_cpu\<lparr>stack_mem := m\<rparr>, pic_send_eoi 1 stub_kernel) \<and> m 0x8000 = 0"
proof -
  have abi: "abi_calls (clobber :: c_function \<Rightarrow> idt_state \<Rightarrow> cpu \<Rightarrow> cpu)" by (simp add: abi_calls_def clobber_keeps)
  have i: "idt stub_kernel = idt (isr_install 0x9000 stub_addr (\<lambda>i. stub_addr (32 + i)) idt_static)" by (simp add: stub_kernel_def)
  have s: "gpr idle_cpu r = 0x8000" "stack_mem idle_cpu a = 0" for r a by (simp_all add: idle_cpu_def)
  have irq: "irq_handler (\<lambda>_ _ _. None) (registers_of idle_cpu 33 0) stub_kernel = Some (pic_send_eoi 1 stub_kernel)"
    by (simp add: irq_handler_def registers_of_def stub_kernel_handlers Let_def)
  have "\<exists>m. serve_interrupt (c_functions (\<lambda>_ _ _. None) (\<lambda>_ _ _. None)) clobber stub_code 33 None idle_cpu stub_kernel =
      map_option (Pair (idle_cpu\<lparr>stack_mem := m\<rparr>)) (irq_handler (\<lambda>_ _ _. None) (registers_of idle_cpu 33 0) stub_kernel) \<and>
      (\<forall>a. gpr idle_cpu RSP \<le> a \<longrightarrow> m a = stack_mem idle_cpu a)"
    using interrupt_resumes[OF abi i stub_kernel_code, of 33 None idle_cpu "\<lambda>_ _ _. None" "\<lambda>_ _ _. None"]
    by (simp add: cpu_error_code_def s)
  then show ?thesis by (auto simp: irq s)
qed

lemma mod_16_sub_8:
  assumes "x mod 16 = 0" and "8 \<le> x"
  shows "(x - 8) mod 16 = (8 :: nat)"
proof -
  obtain k where "x = 16 * k" using assms(1) by (auto simp: mod_eq_0_iff_dvd)
  moreover from this assms(2) obtain j where "k = Suc j" by (cases k) auto
  ultimately have "x - 8 = 8 + 16 * j" by simp
  then show ?thesis by simp
qed

lemma unat_minus_8: "8 \<le> unat p \<Longrightarrow> unat (p - 8) = unat p - 8" for p :: u64
  using unat_sub[of 8 p] word_le_nat_alt[of 8 p] by simp

lemma and_15: "unat (w AND 15) = unat w mod 16" for w :: u64
proof -
  have "unat (w AND mask 4) = unat w mod 2 ^ 4" by (rule unat_and_mask)
  moreover have "mask 4 = (15 :: u64)" by (simp add: mask_eq_exp_minus_1)
  ultimately show ?thesis by simp
qed

text \<open>
  C11: Three exceptions are not served right. Vectors 21 (control protection), 29 (VMM communication) and 30
  (security) have an error code, but their stubs push a second one. So the stub calls \<open>isr_handler\<close> with the stack
  8 bytes off the alignment that the calling convention asks for, and with a struct in which the error code is 0 and every
  field behind it one place off: the error code as RIP, RIP as CS, CS as flags. Should the call return and keep
  what the convention says all the same, these are what \<open>iretq\<close> pops: the error code as the address to go on at
  and the old RIP as the code segment, which the processor rejects unless it happens to be the selector of one.
\<close>

theorem error_code_shifts_frame:
  assumes installed: "idt s = idt (isr_install idt_addr isr irq s0)"
    and code: "\<forall>i < 32. code (isr i) = isr_stubs ! i" "\<forall>i < 16. code (irq i) = irq_stubs ! i"
    and n: "n \<in> {21, 29, 30}" and room: "208 \<le> unat (gpr c RSP)"
  shows "\<exists>pre c1. code (cpu_rip (take_interrupt (idt s ! n) (Some v) c)) =
      pre @ [Call C_isr_handler] @ pop_registers @ [Addq_imm 16 RSP, Iretq] \<and>
    exec fn after pre (take_interrupt (idt s ! n) (Some v) c, s) = Some (c1, s) \<and> gpr c1 RSP AND 15 = 8 \<and>
    frame_at (stack_mem c1) (gpr c1 RDI) = (registers_of c (of_nat n) 0)\<lparr>reg_rip := v, reg_cs := cpu_rip c,
      reg_rflags := cpu_cs c, reg_rsp := cpu_rflags c, reg_ss := gpr c RSP\<rparr> \<and>
    (\<forall>c2 s2. call_keeps c1 c2 \<longrightarrow> (\<exists>c3. exec fn after (pop_registers @ [Addq_imm 16 RSP]) (c2, s2) = Some (c3, s2) \<and>
       map (top_word c3) [0, 1, 2, 3, 4] = [v, cpu_rip c, cpu_cs c, cpu_rflags c, gpr c RSP]))"
proof -
  let ?t = "take_interrupt (idt s ! n) (Some v) c"
  let ?c1 = "push (of_nat n) (push 0 ?t)"
  obtain p where p: "gpr c RSP AND NOT 15 = p + 176" "p AND 15 = 0" "unat p + 184 < two64" "unat (gpr c RSP) < unat p + 192"
    by (rule struct_base[of c]) (use room in simp_all)
  define q where "q = p - 8"
  have "8 \<le> unat p" using p(4) room by simp
  then have uq: "unat q = unat p - 8" unfolding q_def by (rule unat_minus_8)
  have q: "gpr c RSP AND NOT 15 = q + 184" "unat q + 184 < two64" using p(1,3) uq unfolding q_def by simp_all
  have "unat p mod 16 = 0" using and_15[of p] unfolding p(2) by simp
  then have "unat q mod 16 = 8" unfolding uq by (rule mod_16_sub_8) (rule \<open>8 \<le> unat p\<close>)
  then have odd: "q AND 15 = 8" using and_15[of q] by (intro word_unat_eq_iff[THEN iffD2]) simp
  have rsp: "gpr ?c1 RSP = q + 120"
    unfolding take_interrupt_def Let_def q(1) by simp
  have gpr: "gpr ?t r = gpr c r" if "r \<noteq> RSP" for r
    unfolding take_interrupt_def Let_def using that by simp
  have mem: "stack_mem ?c1 = (stack_mem c)(q + 176 := cpu_ss c, q + 168 := gpr c RSP, q + 160 := cpu_rflags c,
       q + 152 := cpu_cs c, q + 144 := cpu_rip c, q + 136 := v, q + 128 := 0, q + 120 := of_nat n)"
    unfolding take_interrupt_def Let_def q(1) by (simp add: ac_simps)
  let ?c2 = "(pushed q ?c1)\<lparr>gpr := (gpr (pushed q ?c1))(RDI := q)\<rparr>"
  let ?pre = "[Pushq_imm 0, Pushq_imm (of_nat n)] @ push_registers @ [Movq RSP RDI]"
  have "isr_stubs ! n = ISR_NOERRCODE (of_nat n)" "n < 32" using n by (auto simp: isr_stubs_eq)
  then have stub: "code (cpu_rip ?t) = ?pre @ [Call C_isr_handler] @ pop_registers @ [Addq_imm 16 RSP, Iretq]"
    using n by (subst vector_code[OF installed code]) (simp_all add: ISR_NOERRCODE_def isr_common_stub_def)
  have run: "exec fn after ?pre (?t, s) = Some (?c2, s)"
    by (simp add: exec_push_registers[OF rsp]) (simp add: pushed_def)
  have c2: "gpr ?c2 RSP = q" "gpr ?c2 RDI = q" "stack_mem ?c2 = stack_mem (pushed q ?c1)" by (simp_all add: pushed_def)
  have frame: "frame_at (stack_mem ?c2) (gpr ?c2 RDI) = (registers_of c (of_nat n) 0)\<lparr>reg_rip := v, reg_cs := cpu_rip c,
      reg_rflags := cpu_cs c, reg_rsp := cpu_rflags c, reg_ss := gpr c RSP\<rparr>"
    unfolding c2 frame_pushed mem registers_of_def by (simp add: gpr)
  have words: "stack_mem ?c2 (q + 136) = v" "stack_mem ?c2 (q + 144) = cpu_rip c" "stack_mem ?c2 (q + 152) = cpu_cs c"
    "stack_mem ?c2 (q + 160) = cpu_rflags c" "stack_mem ?c2 (q + 168) = gpr c RSP"
    unfolding c2(3) pushed_def mem by simp_all
  have restored: "\<exists>c3. exec fn after (pop_registers @ [Addq_imm 16 RSP]) (c', s2) = Some (c3, s2) \<and>
       map (top_word c3) [0, 1, 2, 3, 4] = [v, cpu_rip c, cpu_cs c, cpu_rflags c, gpr c RSP]" if "call_keeps ?c2 c'" for c' s2
  proof -
    have r: "gpr c' RSP = q" "\<And>a. q \<le> a \<Longrightarrow> stack_mem c' a = stack_mem ?c2 a" using that c2(1) by (simp_all add: call_keeps_def)
    show ?thesis using above_struct(2)[OF q(2)] words by (simp add: pop_registers_def top_word_def r add.assoc)
  qed
  have "gpr ?c2 RSP AND 15 = 8" unfolding c2(1) by (rule odd)
  then show ?thesis
    by (intro exI[of _ ?pre] exI[of _ ?c2] conjI allI impI stub run frame restored)
qed

theorem error_code_shifts_frame_witness:
  "\<exists>pre c1. exec (c_functions (\<lambda>_ _ _. None) (\<lambda>_ _ _. None)) clobber pre (take_interrupt (idt stub_kernel ! 21) (Some 3) idle_cpu, stub_kernel) =
     Some (c1, stub_kernel) \<and> gpr c1 RSP AND 15 = 8 \<and> err_code (frame_at (stack_mem c1) (gpr c1 RDI)) = 0 \<and>
     reg_rip (frame_at (stack_mem c1) (gpr c1 RDI)) = 3 \<and> reg_cs (frame_at (stack_mem c1) (gpr c1 RDI)) = 0x2000"
proof -
  have i: "idt stub_kernel = idt (isr_install 0x9000 stub_addr (\<lambda>i. stub_addr (32 + i)) idt_static)" by (simp add: stub_kernel_def)
  have s: "208 \<le> unat (gpr idle_cpu RSP)" "cpu_rip idle_cpu = 0x2000" by (simp_all add: idle_cpu_def)
  have n: "21 \<in> {21, 29, 30 :: nat}" by simp
  from error_code_shifts_frame[OF i stub_kernel_code n s(1), where fn = "c_functions (\<lambda>_ _ _. None) (\<lambda>_ _ _. None)" and after = clobber and v = 3]
  show ?thesis by (fastforce simp: registers_of_def s(2))
qed

end
