(* ===== verification/Ia32.thy ===== *)
theory Ia32
  imports Idt
begin

text \<open>
  The branches of gdt.c and idt.c for 32-bit processors, which the build does not select: descriptors and
  gates are written as in 64-bit mode, without a TSS and with handlers of 32 bits.
\<close>

record idt_entry_32 =
  gate32_base_low :: u16
  gate32_selector :: u16
  gate32_always0 :: u8
  gate32_flags :: u8
  gate32_base_high :: u16

record ia32_state =
  gdt_32 :: "gdt_entry list"
  gdtr_32 :: gdt_ptr
  data_segments_32 :: u16
  code_segment_32 :: u16
  idt_32 :: "idt_entry_32 list"

definition gdt_set_gate_32 :: "nat \<Rightarrow> u32 \<Rightarrow> u32 \<Rightarrow> u8 \<Rightarrow> u8 \<Rightarrow> ia32_state \<Rightarrow> ia32_state" where
  "gdt_set_gate_32 num base limit access gran s = s\<lparr>gdt_32 := (gdt_32 s)[num :=
     \<lparr>limit_low = ucast (limit AND 0xFFFF), base_low = ucast (base AND 0xFFFF),
      base_middle = ucast (drop_bit 16 base AND 0xFF), access_byte = access,
      granularity = ucast (drop_bit 16 limit AND 0x0F) OR (gran AND 0xF0),
      base_high = ucast (drop_bit 24 base AND 0xFF)\<rparr>]\<rparr>"

definition gdt_init_32 :: "u64 \<Rightarrow> ia32_state \<Rightarrow> ia32_state" where
  "gdt_init_32 gdt_addr s =
     (let s = gdt_set_gate_32 0 0 0 0 0 s;
          s = gdt_set_gate_32 1 0 0xFFFFFFFF 0x9A 0xCF s;
          s = gdt_set_gate_32 2 0 0xFFFFFFFF 0x92 0xCF s;
          s = gdt_set_gate_32 3 0 0xFFFFFFFF 0xFA 0xCF s;
          s = gdt_set_gate_32 4 0 0xFFFFFFFF 0xF2 0xCF s
      in s\<lparr>gdtr_32 := (6 * 8 - 1, gdt_addr), data_segments_32 := 0x10, code_segment_32 := 0x08\<rparr>)"

definition idt_set_gate_32 :: "u8 \<Rightarrow> u64 \<Rightarrow> u16 \<Rightarrow> u8 \<Rightarrow> ia32_state \<Rightarrow> ia32_state" where
  "idt_set_gate_32 num handler selector flags s = s\<lparr>idt_32 := (idt_32 s)[unat num :=
     \<lparr>gate32_base_low = ucast (handler AND 0xFFFF), gate32_selector = selector, gate32_always0 = 0, gate32_flags = flags,
      gate32_base_high = ucast (drop_bit 16 handler AND 0xFFFF)\<rparr>]\<rparr>"

text \<open>A descriptor is the one of the 64-bit branch.\<close>

lemma gdt_set_gate_32_eq:
  assumes "gdt_32 s = gdt_entries t"
  shows "gdt_32 (gdt_set_gate_32 num base limit access gran s) = gdt_entries (gdt_set_gate num base limit access gran t)"
  using assms by (simp add: gdt_set_gate_32_def gdt_set_gate_def)

text \<open>The four segments cover the whole address space: base 0, limit 2 to the 20 less 1 in units of 4 KB, 32-bit.\<close>

lemma gdt_init_32_flat:
  assumes "length (gdt_32 s) = 6" and "k \<in> {1, 2, 3, 4}"
  shows "seg_base (gdt_32 (gdt_init_32 a s) ! k) = 0 \<and> seg_limit (gdt_32 (gdt_init_32 a s) ! k) = 0xFFFFF \<and>
    seg_flags (gdt_32 (gdt_init_32 a s) ! k) = 0xC0 \<and> present (segment_of (gdt_32 (gdt_init_32 a s) ! k)) \<and>
    ring (segment_of (gdt_32 (gdt_init_32 a s) ! k)) = (if k \<le> 2 then 0 else 3)"
  using assms by (auto simp: gdt_init_32_def gdt_set_gate_32_def seg_base_def seg_limit_def seg_flags_def segment_of_def Let_def)

definition gate_target_32 :: "idt_entry_32 \<Rightarrow> u64" where
  "gate_target_32 e = ucast (gate32_base_low e) OR push_bit 16 (ucast (gate32_base_high e))"

text \<open>A gate leads to the handler it was given, if that lies in the first 4 GB; the rest of the address is lost.\<close>

lemma idt_gate_32_target:
  assumes "unat num < length (idt_32 s)"
  shows "gate_target_32 (idt_32 (idt_set_gate_32 num handler selector flags s) ! unat num) = take_bit 32 handler"
proof -
  have "ucast (ucast (take_bit 16 handler) :: u16) OR push_bit 16 (ucast (ucast (take_bit 16 (drop_bit 16 handler)) :: u16)) =
      take_bit 32 handler" (is "?l = ?r")
  proof (rule bit_word_eqI)
    fix n assume n: "n < LENGTH(64)"
    consider "n < 16" | "16 \<le> n" by linarith
    then show "bit ?l n = bit ?r n" using n by cases (auto simp: bit_simps)
  qed
  then show ?thesis using assms by (simp add: idt_set_gate_32_def gate_target_32_def byte_masks)
qed

end
