(* ===== verification/Tui.thy ===== *)
theory Tui
  imports Vga_Console
begin

text \<open>
  The text user interface: kernel/drivers/tui.c, which draws boxes, bars and text at screen
  coordinates directly into the cells of the console. A coordinate is an \<open>int\<close>; the callers
  stay far from its bounds. The colors are those of theme.h.
\<close>

section \<open>Colors and glyphs\<close>

definition COLOR_BG :: u8 where "COLOR_BG = VGA_COLOR_BLACK"
definition COLOR_BORDER :: u8 where "COLOR_BORDER = VGA_COLOR_DARK_GREY"
definition COLOR_PRIMARY :: u8 where "COLOR_PRIMARY = VGA_COLOR_LIGHT_CYAN"
definition COLOR_SUCCESS :: u8 where "COLOR_SUCCESS = VGA_COLOR_LIGHT_GREEN"
definition COLOR_WARN :: u8 where "COLOR_WARN = VGA_COLOR_LIGHT_BROWN"
definition COLOR_DANGER :: u8 where "COLOR_DANGER = VGA_COLOR_LIGHT_RED"
definition COLOR_TEXT :: u8 where "COLOR_TEXT = VGA_COLOR_WHITE"
definition COLOR_DIM :: u8 where "COLOR_DIM = VGA_COLOR_LIGHT_GREY"
definition COLOR_MAGENTA :: u8 where "COLOR_MAGENTA = VGA_COLOR_LIGHT_MAGENTA"

lemmas colors = COLOR_BG_def COLOR_BORDER_def COLOR_PRIMARY_def COLOR_SUCCESS_def COLOR_WARN_def
  COLOR_DANGER_def COLOR_TEXT_def COLOR_DIM_def COLOR_MAGENTA_def

text \<open>Characters of code page 437.\<close>

abbreviation TUI_BOX_SINGLE_TL :: char where "TUI_BOX_SINGLE_TL \<equiv> CHR 0xDA"
abbreviation TUI_BOX_SINGLE_H :: char where "TUI_BOX_SINGLE_H \<equiv> CHR 0xC4"
abbreviation TUI_BOX_SINGLE_TR :: char where "TUI_BOX_SINGLE_TR \<equiv> CHR 0xBF"
abbreviation TUI_BOX_SINGLE_V :: char where "TUI_BOX_SINGLE_V \<equiv> CHR 0xB3"
abbreviation TUI_BOX_SINGLE_BL :: char where "TUI_BOX_SINGLE_BL \<equiv> CHR 0xC0"
abbreviation TUI_BOX_SINGLE_BR :: char where "TUI_BOX_SINGLE_BR \<equiv> CHR 0xD9"
abbreviation TUI_BOX_DOUBLE_TL :: char where "TUI_BOX_DOUBLE_TL \<equiv> CHR 0xC9"
abbreviation TUI_BOX_DOUBLE_H :: char where "TUI_BOX_DOUBLE_H \<equiv> CHR 0xCD"
abbreviation TUI_BOX_DOUBLE_TR :: char where "TUI_BOX_DOUBLE_TR \<equiv> CHR 0xBB"
abbreviation TUI_BOX_DOUBLE_V :: char where "TUI_BOX_DOUBLE_V \<equiv> CHR 0xBA"
abbreviation TUI_BOX_DOUBLE_BL :: char where "TUI_BOX_DOUBLE_BL \<equiv> CHR 0xC8"
abbreviation TUI_BOX_DOUBLE_BR :: char where "TUI_BOX_DOUBLE_BR \<equiv> CHR 0xBC"
abbreviation TUI_BAR_FULL :: char where "TUI_BAR_FULL \<equiv> CHR 0xDB"
abbreviation TUI_BAR_LIGHT :: char where "TUI_BAR_LIGHT \<equiv> CHR 0xB0"

record box_glyphs =
  tl_glyph :: char
  tr_glyph :: char
  bl_glyph :: char
  br_glyph :: char
  h_line :: char
  v_line :: char

definition box_style :: "bool \<Rightarrow> box_glyphs" where
  "box_style double_border =
     (if double_border
      then \<lparr>tl_glyph = TUI_BOX_DOUBLE_TL, tr_glyph = TUI_BOX_DOUBLE_TR, bl_glyph = TUI_BOX_DOUBLE_BL,
             br_glyph = TUI_BOX_DOUBLE_BR, h_line = TUI_BOX_DOUBLE_H, v_line = TUI_BOX_DOUBLE_V\<rparr>
      else \<lparr>tl_glyph = TUI_BOX_SINGLE_TL, tr_glyph = TUI_BOX_SINGLE_TR, bl_glyph = TUI_BOX_SINGLE_BL,
             br_glyph = TUI_BOX_SINGLE_BR, h_line = TUI_BOX_SINGLE_H, v_line = TUI_BOX_SINGLE_V\<rparr>)"

section \<open>Cells and strings\<close>

definition tui_putc_at :: "int \<Rightarrow> int \<Rightarrow> char \<Rightarrow> u8 \<Rightarrow> 'a vga_state_scheme \<Rightarrow> 'a vga_state_scheme option" where
  "tui_putc_at x y c color s =
     (if x < 0 \<or> int VGA_WIDTH \<le> x \<or> y < 0 \<or> int VGA_HEIGHT \<le> y then Some s
      else vga_store (nat (y * int VGA_WIDTH + x)) (vga_entry c color) s)"

fun tui_puts_at :: "int \<Rightarrow> int \<Rightarrow> string \<Rightarrow> u8 \<Rightarrow> 'a vga_state_scheme \<Rightarrow> 'a vga_state_scheme option" where
  "tui_puts_at x y [] color s = Some s"
| "tui_puts_at x y (c # cs) color s =
     (if x < int VGA_WIDTH then do { s' \<leftarrow> tui_putc_at x y c color s; tui_puts_at (x + 1) y cs color s' } else Some s)"

section \<open>Formatted text\<close>

text \<open>\<open>buf[len++] = c\<close> with \<open>char buf[81]\<close>: a write past its end is None.\<close>

definition buf_push :: "char \<Rightarrow> string \<Rightarrow> string option" where
  "buf_push c buf = (if length buf < 81 then Some (buf @ [c]) else None)"

text \<open>\<open>while (... && len < 80) buf[len++] = ...\<close>\<close>

fun buf_copy :: "string \<Rightarrow> string \<Rightarrow> string option" where
  "buf_copy [] buf = Some buf"
| "buf_copy (c # cs) buf = (if length buf < 80 then do { b \<leftarrow> buf_push c buf; buf_copy cs b } else Some buf)"

text \<open>\<open>do { tmp[i++] = '0' + val % 10; val /= 10; } while (val && i < 11);\<close> with \<open>char tmp[12]\<close>.\<close>

function tui_digits :: "u32 \<Rightarrow> string \<Rightarrow> string option" where
  "tui_digits v tmp =
     (if 12 \<le> length tmp then None
      else let tmp' = tmp @ [dec_digit (unat v mod 10)]; v' = (of_nat (unat v div 10) :: u32)
           in if v' \<noteq> 0 \<and> length tmp' < 11 then tui_digits v' tmp' else Some tmp')"
  by pat_completeness auto
termination
  by (relation "measure (\<lambda>(v, tmp). 12 - length tmp)") (auto simp: Let_def)

declare tui_digits.simps [simp del]

definition tui_directive :: "char \<Rightarrow> c_arg list \<Rightarrow> string \<Rightarrow> (c_arg list \<times> string) option" where
  "tui_directive c args buf =
     (if c = CHR ''s'' then do { (v, args') \<leftarrow> va_str args;
        b \<leftarrow> (case v of Some t \<Rightarrow> buf_copy t buf | None \<Rightarrow> Some buf); Some (args', b) }
      else if c = CHR ''d'' then do {
        (v, args') \<leftarrow> va_int args;
        b1 \<leftarrow> (if sint v < 0 then buf_push (CHR ''-'') buf else Some buf);
        v1 \<leftarrow> (if sint v < 0 then if sint v = - 2147483648 then None else Some (- v) else Some v);
        tmp \<leftarrow> tui_digits v1 [];
        b \<leftarrow> buf_copy (rev tmp) b1;
        Some (args', b) }
      else if c = CHR ''u'' then do { (v, args') \<leftarrow> va_int args; tmp \<leftarrow> tui_digits v [];
        b \<leftarrow> buf_copy (rev tmp) buf; Some (args', b) }
      else if c = CHR ''%'' then do { b \<leftarrow> buf_push (CHR ''%'') buf; Some (args, b) }
      else do { b1 \<leftarrow> buf_push (CHR ''%'') buf; b2 \<leftarrow> buf_push c b1; Some (args, b2) })"

text \<open>
  The loop ends as soon as 80 characters are there. A format that ends after a percent sign is
  read past its end: None.
\<close>

fun tui_format :: "string \<Rightarrow> c_arg list \<Rightarrow> string \<Rightarrow> string option" where
  "tui_format [] args buf = Some buf"
| "tui_format [c] args buf =
     (if \<not> length buf < 80 then Some buf else if c \<noteq> CHR ''%'' then buf_push c buf else None)"
| "tui_format (c # d # cs) args buf =
     (if \<not> length buf < 80 then Some buf
      else if c \<noteq> CHR ''%'' then do { b \<leftarrow> buf_push c buf; tui_format (d # cs) args b }
      else do { (args', b) \<leftarrow> tui_directive d args buf; tui_format cs args' b })"

text \<open>The terminating NUL is one more write to the buffer.\<close>

definition tui_text :: "string \<Rightarrow> c_arg list \<Rightarrow> string option" where
  "tui_text fmt args = do { buf \<leftarrow> tui_format fmt args []; b \<leftarrow> buf_push (CHR 0x00) buf; Some buf }"

definition tui_printf_at :: "int \<Rightarrow> int \<Rightarrow> u8 \<Rightarrow> string \<Rightarrow> c_arg list \<Rightarrow> 'a vga_state_scheme \<Rightarrow> 'a vga_state_scheme option" where
  "tui_printf_at x y color fmt args s = do { buf \<leftarrow> tui_text fmt args; tui_puts_at x y buf color s }"

section \<open>Boxes and bars\<close>

text \<open>
  The cells a drawing function writes, in the order in which it writes them.
\<close>

type_synonym plot = "int \<times> int \<times> char \<times> u8"

primrec tui_plot :: "plot list \<Rightarrow> 'a vga_state_scheme \<Rightarrow> 'a vga_state_scheme option" where
  "tui_plot [] s = Some s"
| "tui_plot (p # ps) s = (case p of (x, y, c, color) \<Rightarrow> do { s' \<leftarrow> tui_putc_at x y c color s; tui_plot ps s' })"

definition h_span :: "int \<Rightarrow> int \<Rightarrow> int \<Rightarrow> char \<Rightarrow> u8 \<Rightarrow> plot list" where
  "h_span x y w c color = map (\<lambda>i. (x + i, y, c, color)) [1..w - 2]"

text \<open>\<open>for (i = 0; i < title_len && title_x < x + w - 2; i++) tui_putc_at(title_x++, ...)\<close> and the blank after it\<close>

fun title_plots :: "int \<Rightarrow> int \<Rightarrow> int \<Rightarrow> string \<Rightarrow> u8 \<Rightarrow> u8 \<Rightarrow> plot list" where
  "title_plots title_x y limit [] title_color border_color = [(title_x, y, CHR '' '', border_color)]"
| "title_plots title_x y limit (c # cs) title_color border_color =
     (if title_x < limit then (title_x, y, c, title_color) # title_plots (title_x + 1) y limit cs title_color border_color
      else [(title_x, y, CHR '' '', border_color)])"

definition box_plots :: "int \<Rightarrow> int \<Rightarrow> int \<Rightarrow> int \<Rightarrow> u8 \<Rightarrow> u8 \<Rightarrow> string option \<Rightarrow> bool \<Rightarrow> plot list" where
  "box_plots x y w h border_color title_color title double_border =
     (let g = box_style double_border in
      [(x, y, tl_glyph g, border_color)] @ h_span x y w (h_line g) border_color @ [(x + w - 1, y, tr_glyph g, border_color)] @
      (case title of None \<Rightarrow> []
       | Some t \<Rightarrow> (x + 2, y, CHR '' '', border_color) # title_plots (x + 3) y (x + w - 2) t title_color border_color) @
      concat (map (\<lambda>j. [(x, y + j, v_line g, border_color)] @ h_span x (y + j) w (CHR '' '') 0x07 @
                [(x + w - 1, y + j, v_line g, border_color)]) [1..h - 2]) @
      [(x, y + h - 1, bl_glyph g, border_color)] @ h_span x (y + h - 1) w (h_line g) border_color @
      [(x + w - 1, y + h - 1, br_glyph g, border_color)])"

definition tui_draw_box :: "int \<Rightarrow> int \<Rightarrow> int \<Rightarrow> int \<Rightarrow> u8 \<Rightarrow> u8 \<Rightarrow> string option \<Rightarrow> bool \<Rightarrow> 'a vga_state_scheme \<Rightarrow>
    'a vga_state_scheme option" where
  "tui_draw_box x y w h border_color title_color title double_border s =
     (if w < 2 \<or> h < 2 then Some s
      else tui_plot (box_plots x y w h border_color title_color title double_border) s)"

text \<open>\<open>(val * (uint32_t)width) / max\<close>, which wraps around at 32 bits, and at most \<open>width\<close>\<close>

definition bar_filled :: "int \<Rightarrow> u32 \<Rightarrow> u32 \<Rightarrow> nat" where
  "bar_filled width val max_val =
     (let filled = unat (val * of_int width) div unat max_val
      in if nat width < filled then nat width else filled)"

definition tui_draw_bar :: "int \<Rightarrow> int \<Rightarrow> int \<Rightarrow> u32 \<Rightarrow> u32 \<Rightarrow> u8 \<Rightarrow> u8 \<Rightarrow> 'a vga_state_scheme \<Rightarrow> 'a vga_state_scheme option" where
  "tui_draw_bar x y width val max_val fg_fill fg_empty s =
     (if width \<le> 0 \<or> max_val = 0 then Some s
      else tui_plot (map (\<lambda>i. if i < int (bar_filled width val max_val) then (x + i, y, TUI_BAR_FULL, fg_fill)
                              else (x + i, y, TUI_BAR_LIGHT, fg_empty)) [0..width - 1]) s)"

definition tui_draw_header :: "string \<Rightarrow> string option \<Rightarrow> 'a vga_state_scheme \<Rightarrow> 'a vga_state_scheme option" where
  "tui_draw_header title subtitle s =
     (let bg_color = push_bit 4 COLOR_BORDER OR COLOR_TEXT in do {
        s1 \<leftarrow> tui_plot (map (\<lambda>x. (x, 0, CHR '' '', bg_color)) [0..int VGA_WIDTH - 1]) s;
        s2 \<leftarrow> tui_puts_at 1 0 title (push_bit 4 COLOR_BORDER OR COLOR_PRIMARY) s1;
        (case subtitle of None \<Rightarrow> Some s2
         | Some sub \<Rightarrow> tui_puts_at (int VGA_WIDTH - int (length sub) - 2) 0 sub (push_bit 4 COLOR_BORDER OR COLOR_SUCCESS) s2)
      })"

definition tui_draw_footer :: "string \<Rightarrow> 'a vga_state_scheme \<Rightarrow> 'a vga_state_scheme option" where
  "tui_draw_footer hints s =
     (let bg_color = push_bit 4 COLOR_BORDER OR COLOR_TEXT in do {
        s1 \<leftarrow> tui_plot (map (\<lambda>x. (x, int VGA_HEIGHT - 1, CHR '' '', bg_color)) [0..int VGA_WIDTH - 1]) s;
        tui_puts_at 2 (int VGA_HEIGHT - 1) hints (push_bit 4 COLOR_BORDER OR COLOR_WARN) s1
      })"

section \<open>What is drawn\<close>

definition cell :: "'a vga_state_scheme \<Rightarrow> int \<Rightarrow> int \<Rightarrow> u16" where
  "cell s x y = vga_mem s ! nat (y * int VGA_WIDTH + x)"

definition on_screen :: "int \<Rightarrow> int \<Rightarrow> bool" where
  "on_screen x y \<longleftrightarrow> 0 \<le> x \<and> x < int VGA_WIDTH \<and> 0 \<le> y \<and> y < int VGA_HEIGHT"

text \<open>What a list of plots writes to one cell, in order.\<close>

definition plots_at :: "plot list \<Rightarrow> int \<Rightarrow> int \<Rightarrow> u16 list" where
  "plots_at ps x y = [vga_entry c color. (px, py, c, color) \<leftarrow> ps, px = x \<and> py = y]"

lemma plots_at_simps [simp]:
  "plots_at [] x y = []"
  "plots_at (ps @ qs) x y = plots_at ps x y @ plots_at qs x y"
  "plots_at ((px, py, c, color) # ps) x y = (if px = x \<and> py = y then [vga_entry c color] else []) @ plots_at ps x y"
  by (simp_all add: plots_at_def)

lemma screen_index:
  assumes "on_screen x y" "on_screen x' y'"
  shows "nat (y * int VGA_WIDTH + x) < 2000" "nat (y * int VGA_WIDTH + x) = nat (y' * int VGA_WIDTH + x') \<longleftrightarrow> x = x' \<and> y = y'"
proof -
  show "nat (y * int VGA_WIDTH + x) < 2000" using assms unfolding on_screen_def by linarith
  have "x = (y * int VGA_WIDTH + x) mod int VGA_WIDTH" "y = (y * int VGA_WIDTH + x) div int VGA_WIDTH"
    "x' = (y' * int VGA_WIDTH + x') mod int VGA_WIDTH" "y' = (y' * int VGA_WIDTH + x') div int VGA_WIDTH"
    using assms unfolding on_screen_def by simp_all
  moreover have "0 \<le> y * int VGA_WIDTH + x" "0 \<le> y' * int VGA_WIDTH + x'" using assms unfolding on_screen_def by simp_all
  ultimately show "nat (y * int VGA_WIDTH + x) = nat (y' * int VGA_WIDTH + x') \<longleftrightarrow> x = x' \<and> y = y'"
    by (metis eq_nat_nat_iff)
qed

lemma tui_putc_at_cell:
  assumes "length (vga_mem s) = 2000"
  shows "\<exists>m. tui_putc_at x y c color s = Some (s\<lparr>vga_mem := m\<rparr>) \<and> length m = 2000 \<and>
    (\<forall>x' y'. on_screen x' y' \<longrightarrow> m ! nat (y' * int VGA_WIDTH + x') = (if x = x' \<and> y = y' then vga_entry c color else cell s x' y'))"
proof (cases "on_screen x y")
  case False
  then show ?thesis
    using assms by (intro exI[of _ "vga_mem s"]) (auto simp: tui_putc_at_def on_screen_def cell_def)
next
  case True
  let ?i = "nat (y * int VGA_WIDTH + x)"
  have "tui_putc_at x y c color s = Some (s\<lparr>vga_mem := (vga_mem s)[?i := vga_entry c color]\<rparr>)"
    using True screen_index(1)[OF True True] assms by (simp add: tui_putc_at_def on_screen_def vga_store_def)
  moreover have "(vga_mem s)[?i := vga_entry c color] ! nat (y' * int VGA_WIDTH + x') =
      (if x = x' \<and> y = y' then vga_entry c color else cell s x' y')" if "on_screen x' y'" for x' y'
    using screen_index(1)[OF that that] screen_index(2)[OF True that] assms by (simp add: nth_list_update cell_def)
  ultimately show ?thesis using assms by (intro exI[of _ "(vga_mem s)[?i := vga_entry c color]"]) simp
qed

lemma tui_plot_cell:
  assumes "length (vga_mem s) = 2000"
  shows "\<exists>m. tui_plot ps s = Some (s\<lparr>vga_mem := m\<rparr>) \<and> length m = 2000 \<and>
    (\<forall>x y. on_screen x y \<longrightarrow> m ! nat (y * int VGA_WIDTH + x) = last (cell s x y # plots_at ps x y))"
  using assms
proof (induction ps arbitrary: s)
  case Nil
  then show ?case by (intro exI[of _ "vga_mem s"]) (simp add: cell_def)
next
  case (Cons p ps)
  obtain px py c color where p: "p = (px, py, c, color)" by (cases p)
  obtain m where m: "tui_putc_at px py c color s = Some (s\<lparr>vga_mem := m\<rparr>)" "length m = 2000"
    "\<forall>x y. on_screen x y \<longrightarrow> m ! nat (y * int VGA_WIDTH + x) = (if px = x \<and> py = y then vga_entry c color else cell s x y)"
    using tui_putc_at_cell[OF Cons.prems] by blast
  obtain m' where m': "tui_plot ps (s\<lparr>vga_mem := m\<rparr>) = Some (s\<lparr>vga_mem := m'\<rparr>)" "length m' = 2000"
    "\<forall>x y. on_screen x y \<longrightarrow> m' ! nat (y * int VGA_WIDTH + x) = last (cell (s\<lparr>vga_mem := m\<rparr>) x y # plots_at ps x y)"
    using Cons.IH[of "s\<lparr>vga_mem := m\<rparr>"] m(2) by auto
  have "last (cell (s\<lparr>vga_mem := m\<rparr>) x y # plots_at ps x y) = last (cell s x y # plots_at (p # ps) x y)"
    if "on_screen x y" for x y
    using m(3) that by (simp add: cell_def p)
  with m'(3) have "\<forall>x y. on_screen x y \<longrightarrow> m' ! nat (y * int VGA_WIDTH + x) = last (cell s x y # plots_at (p # ps) x y)"
    by metis
  moreover have "tui_plot (p # ps) s = Some (s\<lparr>vga_mem := m'\<rparr>)" using m(1) m'(1) by (simp add: p)
  ultimately show ?case using m'(2) by blast
qed

lemma plots_at_span [simp]:
  "plots_at (h_span x y w c color) px py = (if py = y \<and> x + 1 \<le> px \<and> px \<le> x + w - 2 then [vga_entry c color] else [])"
proof -
  have g: "plots_at (map (\<lambda>i. (x + i, y, c, color)) is) px py = (if py = y \<and> px - x \<in> set is then [vga_entry c color] else [])"
    if "distinct is" for "is"
    using that by (induction "is") auto
  show ?thesis unfolding h_span_def by (subst g) auto
qed

lemma plots_at_rows:
  assumes "distinct js" "\<And>j x' y' c color. j \<in> set js \<Longrightarrow> (x', y', c, color) \<in> set (row j) \<Longrightarrow> y' = y + j"
  shows "plots_at (concat (map row js)) px py = (if py - y \<in> set js then plots_at (row (py - y)) px py else [])"
  using assms
proof (induction js)
  case (Cons j js)
  have e: "plots_at (row j) px py = []" if "py \<noteq> y + j"
  proof -
    have "\<forall>p\<in>set (row j). fst (snd p) = y + j" using Cons.prems(2)[of j] by force
    with that show ?thesis unfolding plots_at_def by (induction "row j") auto
  qed
  have "plots_at (concat (map row js)) px py = (if py - y \<in> set js then plots_at (row (py - y)) px py else [])"
    using Cons by simp
  moreover have "py - y = j \<longleftrightarrow> py = y + j" by auto
  ultimately show ?case using e Cons.prems(1) by (cases "py = y + j") simp_all
qed simp

lemma title_plots_range:
  assumes "(px, py, c, color) \<in> set (title_plots tx y limit t tc bc)" "tx \<le> limit"
  shows "py = y \<and> tx \<le> px \<and> px \<le> limit"
  using assms by (induction t arbitrary: tx) (force split: if_split_asm)+

lemma plots_at_outside:
  "(\<And>px py c color. (px, py, c, color) \<in> set ps \<Longrightarrow> \<not> (px = x \<and> py = y)) \<Longrightarrow> plots_at ps x y = []"
proof (induction ps)
  case (Cons p ps)
  obtain px py c color where p: "p = (px, py, c, color)" by (cases p)
  have "\<not> (px = x \<and> py = y)" using Cons.prems[of px py c color] p by simp
  moreover have "plots_at ps x y = []" using Cons.prems by (intro Cons.IH) auto
  ultimately show ?case unfolding p by simp
qed simp

lemma plots_at_title:
  assumes "tx \<le> limit" "\<not> (py = y \<and> tx \<le> px \<and> px \<le> limit)"
  shows "plots_at (title_plots tx y limit t tc bc) px py = []"
  using title_plots_range[OF _ assms(1)] assms(2) by (intro plots_at_outside) blast

text \<open>One row between the top and the bottom of a box.\<close>

lemma plots_at_box:
  assumes wh: "5 \<le> w" "2 \<le> h" and g: "g = box_style double_border" and B: "bs = box_plots x y w h bc tc title double_border"
  shows "\<not> (x \<le> px \<and> px < x + w \<and> y \<le> py \<and> py < y + h) \<Longrightarrow> plots_at bs px py = []"
    and "last (old # plots_at bs x y) = vga_entry (tl_glyph g) bc"
    and "last (old # plots_at bs (x + w - 1) y) = vga_entry (tr_glyph g) bc"
    and "last (old # plots_at bs x (y + h - 1)) = vga_entry (bl_glyph g) bc"
    and "last (old # plots_at bs (x + w - 1) (y + h - 1)) = vga_entry (br_glyph g) bc"
    and "y < py \<Longrightarrow> py < y + h - 1 \<Longrightarrow> px = x \<or> px = x + w - 1 \<Longrightarrow> last (old # plots_at bs px py) = vga_entry (v_line g) bc"
    and "y < py \<Longrightarrow> py < y + h - 1 \<Longrightarrow> x < px \<Longrightarrow> px < x + w - 1 \<Longrightarrow> last (old # plots_at bs px py) = vga_entry (CHR '' '') 0x07"
    and "x < px \<Longrightarrow> px < x + w - 1 \<Longrightarrow> last (old # plots_at bs px (y + h - 1)) = vga_entry (h_line g) bc"
proof -
  let ?row = "\<lambda>j. [(x, y + j, v_line g, bc)] @ h_span x (y + j) w (CHR '' '') 0x07 @ [(x + w - 1, y + j, v_line g, bc)]"
  define title_part where "title_part = (case title of None \<Rightarrow> []
     | Some t \<Rightarrow> (x + 2, y, CHR '' '', bc) # title_plots (x + 3) y (x + w - 2) t tc bc)"
  define row_part where "row_part = concat (map ?row [1..h - 2])"
  have rows: "plots_at row_part px py = (if 1 \<le> py - y \<and> py - y \<le> h - 2 then plots_at (?row (py - y)) px py else [])" for px py
    unfolding row_part_def by (subst plots_at_rows[where y = y]) (auto simp: h_span_def)
  have title: "plots_at title_part px py = []" if "\<not> (py = y \<and> x + 2 \<le> px \<and> px \<le> x + w - 2)" for px py
  proof (cases title)
    case (Some t)
    have "plots_at (title_plots (x + 3) y (x + w - 2) t tc bc) px py = []"
      using wh that by (intro plots_at_title) auto
    with Some that wh show ?thesis by (auto simp: title_part_def)
  qed (simp add: title_part_def)
  have B: "plots_at bs px py = plots_at ([(x, y, tl_glyph g, bc)] @ h_span x y w (h_line g) bc @ [(x + w - 1, y, tr_glyph g, bc)]) px py @
      plots_at title_part px py @ plots_at row_part px py @
      plots_at ([(x, y + h - 1, bl_glyph g, bc)] @ h_span x (y + h - 1) w (h_line g) bc @ [(x + w - 1, y + h - 1, br_glyph g, bc)]) px py" for px py
    unfolding B box_plots_def g[symmetric] Let_def title_part_def[symmetric] row_part_def[symmetric] plots_at_simps append_assoc
    by (rule refl)
  show "plots_at bs px py = []" if out: "\<not> (x \<le> px \<and> px < x + w \<and> y \<le> py \<and> py < y + h)"
  proof -
    have "plots_at title_part px py = []" using wh out by (intro title) linarith
    moreover have "plots_at row_part px py = []" unfolding rows using wh out by auto
    ultimately show ?thesis unfolding B using wh out by auto
  qed
  show "last (old # plots_at bs x y) = vga_entry (tl_glyph g) bc"
    using title[of y x] rows[of x y] wh by (simp add: B)
  show "last (old # plots_at bs (x + w - 1) y) = vga_entry (tr_glyph g) bc"
    using title[of y "x + w - 1"] rows[of "x + w - 1" y] wh by (simp add: B)
  show "last (old # plots_at bs x (y + h - 1)) = vga_entry (bl_glyph g) bc" using wh by (simp add: B)
  show "last (old # plots_at bs (x + w - 1) (y + h - 1)) = vga_entry (br_glyph g) bc" using wh by (simp add: B)
  show "last (old # plots_at bs px (y + h - 1)) = vga_entry (h_line g) bc" if "x < px" "px < x + w - 1"
    using wh that by (simp add: B)
  show "last (old # plots_at bs px py) = vga_entry (v_line g) bc" if "y < py" "py < y + h - 1" "px = x \<or> px = x + w - 1"
    using wh that title[of py px] rows[of px py] by (auto simp: B)
  show "last (old # plots_at bs px py) = vga_entry (CHR '' '') 0x07" if "y < py" "py < y + h - 1" "x < px" "px < x + w - 1"
    using wh that title[of py px] rows[of px py] by (simp add: B)
qed

lemma tui_puts_at_cell:
  assumes "length (vga_mem s) = 2000"
  shows "\<exists>m. tui_puts_at x y t color s = Some (s\<lparr>vga_mem := m\<rparr>) \<and> length m = 2000 \<and>
    (\<forall>x' y'. on_screen x' y' \<longrightarrow> m ! nat (y' * int VGA_WIDTH + x') =
      (if y' = y \<and> x \<le> x' \<and> x' < x + int (length t) then vga_entry (t ! nat (x' - x)) color else cell s x' y'))"
  using assms
proof (induction x y t color s rule: tui_puts_at.induct)
  case (1 x y color s)
  then show ?case by (intro exI[of _ "vga_mem s"]) (auto simp: cell_def)
next
  case (2 x y c cs color s)
  show ?case
  proof (cases "x < int VGA_WIDTH")
    case False
    then show ?thesis using 2(2) by (intro exI[of _ "vga_mem s"]) (auto simp: cell_def on_screen_def)
  next
    case True
    obtain m where m: "tui_putc_at x y c color s = Some (s\<lparr>vga_mem := m\<rparr>)" "length m = 2000"
      "\<forall>x' y'. on_screen x' y' \<longrightarrow> m ! nat (y' * int VGA_WIDTH + x') = (if x = x' \<and> y = y' then vga_entry c color else cell s x' y')"
      using tui_putc_at_cell[OF 2(2)] by blast
    obtain m' where m': "tui_puts_at (x + 1) y cs color (s\<lparr>vga_mem := m\<rparr>) = Some (s\<lparr>vga_mem := m'\<rparr>)" "length m' = 2000"
      "\<forall>x' y'. on_screen x' y' \<longrightarrow> m' ! nat (y' * int VGA_WIDTH + x') =
        (if y' = y \<and> x + 1 \<le> x' \<and> x' < x + 1 + int (length cs) then vga_entry (cs ! nat (x' - (x + 1))) color
         else cell (s\<lparr>vga_mem := m\<rparr>) x' y')"
      using 2(1)[OF True m(1)] m(2) by auto
    have "m' ! nat (y' * int VGA_WIDTH + x') = (if y' = y \<and> x \<le> x' \<and> x' < x + int (length (c # cs))
        then vga_entry ((c # cs) ! nat (x' - x)) color else cell s x' y')" if on: "on_screen x' y'" for x' y'
    proof (cases "y' = y \<and> x + 1 \<le> x' \<and> x' < x + 1 + int (length cs)")
      case True
      then have "nat (x' - x) = Suc (nat (x' - (x + 1)))" by linarith
      with True m'(3) on show ?thesis by simp
    next
      case False
      have "m' ! nat (y' * int VGA_WIDTH + x') = m ! nat (y' * int VGA_WIDTH + x')"
        using m'(3)[rule_format, OF on] False by (auto simp: cell_def)
      then show ?thesis using m(3)[rule_format, OF on] False by auto
    qed
    then show ?thesis using m(1) m' True by (intro exI[of _ m']) simp
  qed
qed

section \<open>Formatted text: what fits and what overflows\<close>

definition tui_conv :: "char \<Rightarrow> c_arg list \<Rightarrow> (string \<times> c_arg list) option" where
  "tui_conv c args =
     (if c = CHR ''s'' then map_option (map_prod (case_option [] id) id) (va_str args)
      else if c = CHR ''d'' then do { (v, args') \<leftarrow> va_int args;
        if sint v = - 2147483648 then None else Some (signed_text v, args') }
      else if c = CHR ''u'' then map_option (map_prod (number_text 10 \<circ> unat) id) (va_int args)
      else if c = CHR ''%'' then Some (''%'', args)
      else None)"

lemma number_text_rec:
  "number_text 10 n = (if n div 10 = 0 then [dec_digit (n mod 10)] else number_text 10 (n div 10) @ [dec_digit (n mod 10)])"
proof (cases "n = 0")
  case True
  then show ?thesis using dec_digit_hex[of 0] by (simp add: number_text_def hex_digits_def)
next
  case False
  then show ?thesis by (simp add: number_text_def dec_digit_hex numeral_of.simps[of 10 n])
qed

lemma tui_digits_text:
  "length tmp + length (number_text 10 (unat v)) \<le> 11 \<Longrightarrow> tui_digits v tmp = Some (tmp @ rev (number_text 10 (unat v)))"
proof (induction v tmp rule: tui_digits.induct)
  case (1 v tmp)
  let ?w = "of_nat (unat v div 10) :: u32"
  have w: "unat ?w = unat v div 10" using unat_u32_lt[of v] by (intro unat_of_nat_small) simp
  then have w0: "?w = 0 \<longleftrightarrow> unat v div 10 = 0" by (metis unat_eq_zero)
  note r = number_text_rec[of "unat v"]
  have l: "\<not> 12 \<le> length tmp" using 1(2) by simp
  show ?case
  proof (cases "unat v div 10 = 0")
    case True
    then show ?thesis using l w0 r by (subst tui_digits.simps) (simp add: Let_def)
  next
    case False
    have ne: "number_text 10 (unat v div 10) \<noteq> []" using False numeral_of_nonempty[of 10 "unat v div 10"] by (simp add: number_text_def)
    have len: "length (number_text 10 (unat v)) = length (number_text 10 (unat v div 10)) + 1" using False r by simp
    moreover have "0 < length (number_text 10 (unat v div 10))" using ne by simp
    ultimately have "length tmp + 1 < 11" using 1(2) by linarith
    then have l2: "length (tmp @ [dec_digit (unat v mod 10)]) < 11" by simp
    have "tui_digits ?w (tmp @ [dec_digit (unat v mod 10)]) = Some ((tmp @ [dec_digit (unat v mod 10)]) @ rev (number_text 10 (unat ?w)))"
      by (rule 1(1)[OF l refl refl]) (use False w0 w len l2 1(2) in simp_all)
    then show ?thesis using l l2 w0 w r False by (subst tui_digits.simps) (simp add: Let_def)
  qed
qed

lemma tui_digits_u32: "tui_digits v [] = Some (rev (number_text 10 (unat v)))"
proof -
  have "length (number_text 10 (unat v)) \<le> 10" using length_dec_u32[of v] by (simp add: number_text_def)
  then show ?thesis using tui_digits_text[of "[]" v] by simp
qed

lemma buf_push_ok: "length buf < 81 \<Longrightarrow> buf_push c buf = Some (buf @ [c])"
  by (simp add: buf_push_def)

lemma buf_copy_take: "length buf \<le> 80 \<Longrightarrow> buf_copy t buf = Some (take 80 (buf @ t))"
  by (induction t buf rule: buf_copy.induct) (auto simp: buf_push_ok take_Cons')

lemma tui_directive_text:
  assumes "tui_conv c args = Some (t, args')" "length buf < 80"
  shows "tui_directive c args buf = Some (args', take 80 (buf @ t))"
proof -
  consider (s) v where "c = CHR ''s''" "va_str args = Some (v, args')" "t = case_option [] id v"
    | (d) v where "c = CHR ''d''" "va_int args = Some (v, args')" "t = signed_text v" "sint v \<noteq> - 2147483648"
    | (u) v where "c = CHR ''u''" "va_int args = Some (v, args')" "t = number_text 10 (unat v)"
    | (percent) "c = CHR ''%''" "t = ''%''" "args' = args"
    using assms(1) by (auto simp: tui_conv_def split: if_split_asm bind_split_asm)
  then show ?thesis
  proof cases
    case (s v)
    then show ?thesis using assms(2) buf_copy_take[of buf] by (cases v) (simp_all add: tui_directive_def)
  next
    case (d v)
    show ?thesis
    proof (cases "sint v < 0")
      case True
      then show ?thesis using d assms(2) buf_copy_take[of "buf @ ''-''"]
        by (simp add: tui_directive_def buf_push_ok tui_digits_u32 signed_text_def unat_uminus_sint)
    next
      case False
      then show ?thesis using d assms(2) buf_copy_take[of buf]
        by (simp add: tui_directive_def tui_digits_u32 signed_text_def unat_sint_nonneg)
    qed
  next
    case (u v)
    then show ?thesis using assms(2) buf_copy_take[of buf] by (simp add: tui_directive_def tui_digits_u32)
  next
    case percent
    then show ?thesis using assms(2) by (simp add: tui_directive_def buf_push_ok)
  qed
qed

lemma tui_format_text:
  "format_text tui_conv None fmt args = Some t \<Longrightarrow> length buf \<le> 80 \<Longrightarrow> tui_format fmt args buf = Some (take 80 (buf @ t))"
proof (induction fmt arbitrary: args t buf rule: induct_two)
  case (One c)
  then show ?case by (auto simp: buf_push_ok split: if_split_asm)
next
  case (Two c d cs)
  show ?case
  proof (cases "length buf < 80")
    case False
    then show ?thesis using Two.prems(2) by simp
  next
    case True
    show ?thesis
    proof (cases "c = CHR ''%''")
      case False
      obtain u where u: "format_text tui_conv None (d # cs) args = Some u" "t = c # u"
        using Two.prems(1) False by auto
      have "tui_format (d # cs) args (buf @ [c]) = Some (take 80 ((buf @ [c]) @ u))"
        by (rule Two.IH(1)[OF u(1)]) (use True in simp)
      with u(2) True False show ?thesis by (simp add: buf_push_ok)
    next
      case c: True
      obtain a args' u where u: "tui_conv d args = Some (a, args')" "format_text tui_conv None cs args' = Some u" "t = a @ u"
        using Two.prems(1) c by (auto split: bind_split_asm)
      have "tui_format cs args' (take 80 (buf @ a)) = Some (take 80 (take 80 (buf @ a) @ u))"
        by (rule Two.IH(2)[OF u(2)]) simp
      moreover have "take 80 (take 80 (buf @ a) @ u) = take 80 (buf @ t)"
        using u(3) True by (cases "length (buf @ a) \<le> 80") simp_all
      ultimately show ?thesis using True c tui_directive_text[OF u(1) True] by simp
    qed
  qed
qed simp

lemma tui_text_take: "format_text tui_conv None fmt args = Some t \<Longrightarrow> tui_text fmt args = Some (take 80 t)"
  using tui_format_text[of fmt args t "[]"] by (simp add: tui_text_def buf_push_ok)

lemma tui_format_plain:
  assumes "CHR ''%'' \<notin> set pre" "length buf + length pre < 80"
  shows "tui_format (pre @ c # d # cs) args buf = tui_format (c # d # cs) args (buf @ pre)"
  using assms
proof (induction pre arbitrary: buf)
  case (Cons p pre)
  have "tui_format (p # pre @ c # d # cs) args buf = tui_format (pre @ c # d # cs) args (buf @ [p])"
    using Cons.prems by (cases "pre @ c # d # cs") (auto simp: buf_push_ok)
  with Cons.IH[of "buf @ [p]"] Cons.prems show ?case by simp
qed simp

section \<open>Properties\<close>

text \<open>
  On the screen, \<open>tui_printf_at\<close> shows the first 80 characters of the text of its format, cut off
  at the right edge, in one line, and touches no other cell and no other memory.
\<close>

theorem tui_printf_shows:
  assumes "length (vga_mem s) = 2000" and "format_text tui_conv None fmt args = Some t"
  shows "\<exists>m. tui_printf_at x y color fmt args s = Some (s\<lparr>vga_mem := m\<rparr>) \<and> length m = 2000 \<and>
    (\<forall>x' y'. on_screen x' y' \<longrightarrow> m ! nat (y' * int VGA_WIDTH + x') =
      (if y' = y \<and> x \<le> x' \<and> x' < x + int (min 80 (length t)) then vga_entry (t ! nat (x' - x)) color else cell s x' y'))"
proof -
  let ?t = "take 80 t"
  obtain m where m: "tui_puts_at x y ?t color s = Some (s\<lparr>vga_mem := m\<rparr>)" "length m = 2000"
    "\<forall>x' y'. on_screen x' y' \<longrightarrow> m ! nat (y' * int VGA_WIDTH + x') =
      (if y' = y \<and> x \<le> x' \<and> x' < x + int (length ?t) then vga_entry (?t ! nat (x' - x)) color else cell s x' y')"
    using tui_puts_at_cell[OF assms(1), of x y ?t color] by blast
  have n: "?t ! nat (x' - x) = t ! nat (x' - x)" if "x \<le> x'" "x' < x + int (length ?t)" for x'
    using that by (intro nth_take) simp
  have "tui_printf_at x y color fmt args s = Some (s\<lparr>vga_mem := m\<rparr>)"
    using m(1) tui_text_take[OF assms(2)] by (simp add: tui_printf_at_def)
  moreover have "m ! nat (y' * int VGA_WIDTH + x') =
      (if y' = y \<and> x \<le> x' \<and> x' < x + int (min 80 (length t)) then vga_entry (t ! nat (x' - x)) color else cell s x' y')"
    if "on_screen x' y'" for x' y'
    using m(3)[rule_format, OF that] n[of x'] by (cases "x \<le> x' \<and> x' < x + int (length ?t)") (auto simp: min.commute)
  ultimately show ?thesis using m(2) by blast
qed

theorem tui_printf_shows_witness:
  "\<exists>m. tui_printf_at 2 3 7 ''%u%%'' [CInt 42] vga_start = Some (vga_start\<lparr>vga_mem := m\<rparr>) \<and> m ! 244 = 0x725 \<and> m ! 245 = 0x720"
proof -
  have l: "length (vga_mem vga_start) = 2000" using vga_start_ok by (simp add: vga_ok_def)
  have t: "format_text tui_conv None ''%u%%'' [CInt 42] = Some ''42%''" by code_simp
  have e: "vga_entry (CHR ''%'') 7 = 0x725" by code_simp
  obtain m where m: "tui_printf_at 2 3 7 ''%u%%'' [CInt 42] vga_start = Some (vga_start\<lparr>vga_mem := m\<rparr>)"
    "\<forall>x' y'. on_screen x' y' \<longrightarrow> m ! nat (y' * int VGA_WIDTH + x') =
      (if y' = 3 \<and> 2 \<le> x' \<and> x' < 2 + int (min 80 (length ''42%'')) then vga_entry (''42%'' ! nat (x' - 2)) 7 else cell vga_start x' y')"
    using tui_printf_shows[OF l t, of 2 3 7] by auto
  have "m ! 244 = 0x725" "m ! 245 = 0x720"
    using m(2)[rule_format, of 4 3] m(2)[rule_format, of 5 3] e by (simp_all add: on_screen_def cell_def vga_start_def)
  with m(1) show ?thesis by blast
qed

text \<open>
  The buffer of \<open>tui_printf_at\<close> overflows: when an unknown conversion starts at its 80th
  character, the percent sign and the character after it fill the 81 bytes, and the NUL is
  written one byte past the end.
\<close>

theorem tui_printf_overflow:
  assumes "length pre = 79" and "CHR ''%'' \<notin> set pre" and "c \<notin> set ''sdu%''"
  shows "tui_printf_at x y color (pre @ CHR ''%'' # c # post) args s = None"
proof -
  have "tui_format (pre @ CHR ''%'' # c # post) args [] = tui_format (CHR ''%'' # c # post) args pre"
    using tui_format_plain[of pre "[]"] assms(1,2) by simp
  also have "\<dots> = Some (pre @ [CHR ''%'', c])"
  proof -
    have "tui_directive c args pre = Some (args, pre @ [CHR ''%'', c])"
      using assms(1,3) by (simp add: tui_directive_def buf_push_ok)
    moreover have "tui_format post args (pre @ [CHR ''%'', c]) = Some (pre @ [CHR ''%'', c])"
      using assms(1) by (cases post; cases "tl post") simp_all
    ultimately show ?thesis using assms(1) by simp
  qed
  finally show ?thesis using assms(1) by (simp add: tui_printf_at_def tui_text_def buf_push_def)
qed

theorem tui_printf_overflow_witness:
  "tui_printf_at 0 0 7 (replicate 79 CHR ''='' @ ''%-4d'') [CInt 0] vga_start = None"
  using tui_printf_overflow[of "replicate 79 CHR ''=''" "CHR ''-''" 0 0 7 "''4d''"] by simp

text \<open>
  A box at least 5 cells wide and 2 high that lies on the screen is closed: its four corners,
  its sides and its lower edge are those of its style, also under a title of any length, its
  inside is blank, and no cell outside it changes.
\<close>

theorem tui_box_drawn:
  assumes "length (vga_mem s) = 2000" and "5 \<le> w" and "2 \<le> h"
    and "0 \<le> x" and "x + w \<le> int VGA_WIDTH" and "0 \<le> y" and "y + h \<le> int VGA_HEIGHT"
  shows "\<exists>m. tui_draw_box x y w h bc tc title double_border s = Some (s\<lparr>vga_mem := m\<rparr>) \<and> length m = 2000 \<and>
    (let at = (\<lambda>px py. m ! nat (py * int VGA_WIDTH + px)); g = box_style double_border in
     at x y = vga_entry (tl_glyph g) bc \<and> at (x + w - 1) y = vga_entry (tr_glyph g) bc \<and>
     at x (y + h - 1) = vga_entry (bl_glyph g) bc \<and> at (x + w - 1) (y + h - 1) = vga_entry (br_glyph g) bc \<and>
     (\<forall>py. y < py \<and> py < y + h - 1 \<longrightarrow> at x py = vga_entry (v_line g) bc \<and> at (x + w - 1) py = vga_entry (v_line g) bc \<and>
       (\<forall>px. x < px \<and> px < x + w - 1 \<longrightarrow> at px py = vga_entry (CHR '' '') 0x07)) \<and>
     (\<forall>px. x < px \<and> px < x + w - 1 \<longrightarrow> at px (y + h - 1) = vga_entry (h_line g) bc) \<and>
     (\<forall>px py. on_screen px py \<and> \<not> (x \<le> px \<and> px < x + w \<and> y \<le> py \<and> py < y + h) \<longrightarrow> at px py = cell s px py))"
proof -
  let ?bs = "box_plots x y w h bc tc title double_border"
  obtain m where m: "tui_plot ?bs s = Some (s\<lparr>vga_mem := m\<rparr>)" "length m = 2000"
    "\<forall>px py. on_screen px py \<longrightarrow> m ! nat (py * int VGA_WIDTH + px) = last (cell s px py # plots_at ?bs px py)"
    using tui_plot_cell[OF assms(1)] by blast
  note B = plots_at_box[OF assms(2,3) refl refl, where x = x and y = y and bc = bc and tc = tc and title = title and double_border = double_border]
  have at: "m ! nat (py * int VGA_WIDTH + px) = last (cell s px py # plots_at ?bs px py)"
    if "x \<le> px" "px < x + w" "y \<le> py" "py < y + h" for px py
    using m(3) that assms by (auto simp: on_screen_def)
  have "tui_draw_box x y w h bc tc title double_border s = Some (s\<lparr>vga_mem := m\<rparr>)"
    using assms m(1) by (simp add: tui_draw_box_def)
  moreover have "m ! nat (y * int VGA_WIDTH + x) = vga_entry (tl_glyph (box_style double_border)) bc"
    by (subst at) (use assms(2,3) B(2) in auto)
  moreover have "m ! nat (y * int VGA_WIDTH + (x + w - 1)) = vga_entry (tr_glyph (box_style double_border)) bc"
    by (subst at) (use assms(2,3) B(3) in auto)
  moreover have "m ! nat ((y + h - 1) * int VGA_WIDTH + x) = vga_entry (bl_glyph (box_style double_border)) bc"
    by (subst at) (use assms(2,3) B(4) in auto)
  moreover have "m ! nat ((y + h - 1) * int VGA_WIDTH + (x + w - 1)) = vga_entry (br_glyph (box_style double_border)) bc"
    by (subst at) (use assms(2,3) B(5) in auto)
  moreover have "m ! nat (py * int VGA_WIDTH + px) = vga_entry (v_line (box_style double_border)) bc"
    if "y < py" "py < y + h - 1" "px = x \<or> px = x + w - 1" for px py
    by (subst at) (use assms(2,3) that B(6)[OF that] in auto)
  moreover have "m ! nat (py * int VGA_WIDTH + px) = vga_entry (CHR '' '') 0x07"
    if "y < py" "py < y + h - 1" "x < px" "px < x + w - 1" for px py
    by (subst at) (use assms(2,3) that B(7)[OF that] in auto)
  moreover have "m ! nat ((y + h - 1) * int VGA_WIDTH + px) = vga_entry (h_line (box_style double_border)) bc"
    if "x < px" "px < x + w - 1" for px
    by (subst at) (use assms(2,3) that B(8)[OF that] in auto)
  moreover have "m ! nat (py * int VGA_WIDTH + px) = cell s px py"
    if "on_screen px py" "\<not> (x \<le> px \<and> px < x + w \<and> y \<le> py \<and> py < y + h)" for px py
    using m(3) B(1)[OF that(2)] that(1) by simp
  ultimately show ?thesis using m(2) unfolding Let_def by blast
qed

theorem tui_box_drawn_witness:
  "\<exists>m. tui_draw_box 0 1 40 8 COLOR_PRIMARY COLOR_TEXT (Some '' cpu '') True vga_start = Some (vga_start\<lparr>vga_mem := m\<rparr>) \<and>
     m ! 119 = vga_entry (CHR 0xBB) COLOR_PRIMARY"
proof -
  have l: "length (vga_mem vga_start) = 2000" using vga_start_ok by (simp add: vga_ok_def)
  from tui_box_drawn[OF l, of 40 8 0 1 COLOR_PRIMARY COLOR_TEXT "Some '' cpu ''" True]
  show ?thesis by (auto simp: Let_def box_style_def)
qed

text \<open>
  A bar on the screen has as many full cells, from the left, as its share of the width, rounded
  down, as long as value times width is below 2 to the 32; from there on the product wraps
  around and the bar is wrong. No other cell changes.
\<close>

theorem tui_bar_drawn:
  assumes "length (vga_mem s) = 2000" and "0 < width" and "width \<le> int VGA_WIDTH" and "0 < max_val"
    and "unat val * nat width < 2 ^ 32"
  shows "\<exists>m. tui_draw_bar x y width val max_val fill track s = Some (s\<lparr>vga_mem := m\<rparr>) \<and> length m = 2000 \<and>
    (\<forall>px py. on_screen px py \<longrightarrow> m ! nat (py * int VGA_WIDTH + px) =
      (if py = y \<and> x \<le> px \<and> px < x + width
       then if px - x < min width (int (unat val * nat width div unat max_val)) then vga_entry (CHR 0xDB) fill
            else vga_entry (CHR 0xB0) track
       else cell s px py))"
proof -
  let ?n = "bar_filled width val max_val"
  let ?f = "\<lambda>i. if i < int ?n then (x + i, y, CHR 0xDB, fill) else (x + i, y, CHR 0xB0, track)"
  have w: "unat (of_int width :: u32) = nat width"
  proof -
    have "(of_int width :: u32) = of_nat (nat width)" using assms(2) by (simp only: of_nat_nat)
    then show ?thesis using assms(2,3) by (simp only:) (rule unat_of_nat_small, simp)
  qed
  have "unat (val * of_int width) = unat val * nat width"
    using assms(5) w by (simp add: unat_word_ariths(2) mod_less)
  then have n: "int ?n = min width (int (unat val * nat width div unat max_val))"
    using assms(2) by (simp add: bar_filled_def Let_def min_def) linarith
  have g: "plots_at (map ?f is) px py =
      (if py = y \<and> px - x \<in> set is then [vga_entry (if px - x < int ?n then CHR 0xDB else CHR 0xB0) (if px - x < int ?n then fill else track)] else [])"
    if "distinct is" for "is" px py
    using that by (induction "is") auto
  obtain m where m: "tui_plot (map ?f [0..width - 1]) s = Some (s\<lparr>vga_mem := m\<rparr>)" "length m = 2000"
    "\<forall>px py. on_screen px py \<longrightarrow> m ! nat (py * int VGA_WIDTH + px) = last (cell s px py # plots_at (map ?f [0..width - 1]) px py)"
    using tui_plot_cell[OF assms(1)] by blast
  have "tui_draw_bar x y width val max_val fill track s = Some (s\<lparr>vga_mem := m\<rparr>)"
    using m(1) assms(2,4) by (simp add: tui_draw_bar_def word_neq_0_conv[symmetric])
  moreover have "m ! nat (py * int VGA_WIDTH + px) =
      (if py = y \<and> x \<le> px \<and> px < x + width
       then if px - x < min width (int (unat val * nat width div unat max_val)) then vga_entry (CHR 0xDB) fill
            else vga_entry (CHR 0xB0) track
       else cell s px py)" if "on_screen px py" for px py
  proof -
    have "m ! nat (py * int VGA_WIDTH + px) = last (cell s px py # (if py = y \<and> px - x \<in> set [0..width - 1] then
        [vga_entry (if px - x < int ?n then CHR 0xDB else CHR 0xB0) (if px - x < int ?n then fill else track)] else []))"
      using m(3)[rule_format, OF that] by (simp only: g[OF distinct_upto])
    then show ?thesis unfolding n by auto
  qed
  ultimately show ?thesis using m(2) by blast
qed

theorem tui_bar_drawn_witness:
  "\<exists>m. tui_draw_bar 2 5 36 50 100 COLOR_SUCCESS COLOR_BORDER vga_start = Some (vga_start\<lparr>vga_mem := m\<rparr>) \<and>
     m ! 419 = vga_entry (CHR 0xDB) COLOR_SUCCESS \<and> m ! 420 = vga_entry (CHR 0xB0) COLOR_BORDER"
proof -
  have l: "length (vga_mem vga_start) = 2000" using vga_start_ok by (simp add: vga_ok_def)
  obtain m where m: "tui_draw_bar 2 5 36 50 100 COLOR_SUCCESS COLOR_BORDER vga_start = Some (vga_start\<lparr>vga_mem := m\<rparr>)"
    "\<forall>px py. on_screen px py \<longrightarrow> m ! nat (py * int VGA_WIDTH + px) =
      (if py = 5 \<and> 2 \<le> px \<and> px < 2 + 36
       then if px - 2 < min 36 (int (unat (50 :: u32) * nat 36 div unat (100 :: u32))) then vga_entry (CHR 0xDB) COLOR_SUCCESS
            else vga_entry (CHR 0xB0) COLOR_BORDER
       else cell vga_start px py)"
    using tui_bar_drawn[OF l, of 36 100 50 2 5 COLOR_SUCCESS COLOR_BORDER] by auto
  from m(2)[rule_format, of 19 5] m(2)[rule_format, of 20 5] m(1) show ?thesis
    by (auto simp: on_screen_def)
qed

end
