(* ===== verification/Screen.thy ===== *)
theory Screen
  imports Tui
begin

text \<open>
  Screens drawn by several calls: what a drawing call writes is a partial map from cells to their
  contents, and a sequence of calls writes the later maps over the earlier ones. The screens of
  the dashboard, the menu and the panic console are composed from these rules.
\<close>

type_synonym overlay = "int \<Rightarrow> int \<Rightarrow> u16 option"

definition drawn :: "overlay \<Rightarrow> 'a vga_state_scheme \<Rightarrow> 'a vga_state_scheme \<Rightarrow> bool" where
  "drawn ov s s' \<longleftrightarrow> length (vga_mem s') = 2000 \<and> s' = s\<lparr>vga_mem := vga_mem s'\<rparr> \<and>
     (\<forall>x y. on_screen x y \<longrightarrow> cell s' x y = (case ov x y of Some v \<Rightarrow> v | None \<Rightarrow> cell s x y))"

definition over :: "overlay \<Rightarrow> overlay \<Rightarrow> overlay" where
  "over hi lo = (\<lambda>x y. case hi x y of Some v \<Rightarrow> Some v | None \<Rightarrow> lo x y)"

definition blank_overlay :: overlay where
  "blank_overlay = (\<lambda>x y. None)"

definition draws :: "'a vga_state_scheme option \<Rightarrow> overlay \<Rightarrow> 'a vga_state_scheme \<Rightarrow> bool" where
  "draws r ov s \<longleftrightarrow> (\<exists>s'. r = Some s' \<and> drawn ov s s')"

lemma drawn_length: "drawn ov s s' \<Longrightarrow> length (vga_mem s') = 2000"
  by (simp add: drawn_def)

lemma drawn_more: "drawn ov s s' \<Longrightarrow> vga_state.more s' = vga_state.more s"
  unfolding drawn_def by (metis vga_state.select_convs(5) vga_state.surjective vga_state.update_convs(1))

lemma drawn_trans: "drawn ov s s1 \<Longrightarrow> drawn ov' s1 s2 \<Longrightarrow> drawn (over ov' ov) s s2"
proof -
  assume a: "drawn ov s s1" and b: "drawn ov' s1 s2"
  have "s2 = s\<lparr>vga_mem := vga_mem s2\<rparr>"
  proof -
    have "s2 = s1\<lparr>vga_mem := vga_mem s2\<rparr>" "s1 = s\<lparr>vga_mem := vga_mem s1\<rparr>" using a b unfolding drawn_def by blast+
    then show ?thesis by (metis vga_state.update_convs(1) vga_state.surjective)
  qed
  then show ?thesis using a b by (auto simp: drawn_def over_def split: option.splits)
qed

lemma draws_bind:
  assumes "draws r ov s" and "\<And>s1. drawn ov s s1 \<Longrightarrow> draws (q s1) ov' s1"
  shows "draws (r \<bind> q) (over ov' ov) s"
  using assms unfolding draws_def by (metis bind.bind_lunit drawn_trans)

lemma draws_skip: "length (vga_mem s) = 2000 \<Longrightarrow> draws (Some s) blank_overlay s"
  by (simp add: draws_def drawn_def blank_overlay_def)

lemma drawsE:
  assumes "draws r ov s"
  obtains s' where "r = Some s'" "drawn ov s s'"
  using assms unfolding draws_def by blast

text \<open>A result that is a drawn screen, whatever was drawn.\<close>

definition drew :: "'a vga_state_scheme option \<Rightarrow> 'a vga_state_scheme \<Rightarrow> bool" where
  "drew r s \<longleftrightarrow> (\<exists>ov. draws r ov s)"

lemma drewI: "draws r ov s \<Longrightarrow> drew r s"
  by (auto simp: drew_def)

lemma drew_bind:
  assumes "drew r s" and "\<And>ov s1. drawn ov s s1 \<Longrightarrow> drew (q s1) s1"
  shows "drew (r \<bind> q) s"
  using assms unfolding drew_def draws_def by (metis bind.bind_lunit drawn_trans)

lemma draws_cell:
  assumes "length (vga_mem s) = 2000"
    and "\<exists>m. r = Some (s\<lparr>vga_mem := m\<rparr>) \<and> length m = 2000 \<and>
      (\<forall>x y. on_screen x y \<longrightarrow> m ! nat (y * int VGA_WIDTH + x) = (case ov x y of Some v \<Rightarrow> v | None \<Rightarrow> cell s x y))"
  shows "draws r ov s"
  using assms unfolding draws_def drawn_def cell_def by auto

section \<open>What the calls draw\<close>

definition puts_ov :: "int \<Rightarrow> int \<Rightarrow> string \<Rightarrow> u8 \<Rightarrow> overlay" where
  "puts_ov x y t color = (\<lambda>x' y'. if y' = y \<and> x \<le> x' \<and> x' < x + int (length t) then Some (vga_entry (t ! nat (x' - x)) color) else None)"

definition plots_ov :: "plot list \<Rightarrow> overlay" where
  "plots_ov ps = (\<lambda>x y. if plots_at ps x y = [] then None else Some (last (plots_at ps x y)))"

definition clear_ov :: "int \<Rightarrow> int \<Rightarrow> int \<Rightarrow> u8 \<Rightarrow> overlay" where
  "clear_ov a b y color = (\<lambda>x' y'. if y' = y \<and> a \<le> x' \<and> x' < b then Some (vga_entry (CHR '' '') color) else None)"

lemma draws_putc: "length (vga_mem s) = 2000 \<Longrightarrow> draws (tui_putc_at x y c color s) (puts_ov x y [c] color) s"
  by (rule draws_cell) (use tui_putc_at_cell[of s x y c color] in \<open>auto simp: puts_ov_def\<close>)

lemma draws_puts: "length (vga_mem s) = 2000 \<Longrightarrow> draws (tui_puts_at x y t color s) (puts_ov x y t color) s"
  by (rule draws_cell) (use tui_puts_at_cell[of s x y t color] in \<open>auto simp: puts_ov_def\<close>)

lemma draws_plot: "length (vga_mem s) = 2000 \<Longrightarrow> draws (tui_plot ps s) (plots_ov ps) s"
proof (rule draws_cell)
  assume "length (vga_mem s) = 2000"
  from tui_plot_cell[OF this, of ps] show "\<exists>m. tui_plot ps s = Some (s\<lparr>vga_mem := m\<rparr>) \<and> length m = 2000 \<and>
      (\<forall>x y. on_screen x y \<longrightarrow> m ! nat (y * int VGA_WIDTH + x) = (case plots_ov ps x y of Some v \<Rightarrow> v | None \<Rightarrow> cell s x y))"
    by (auto simp: plots_ov_def)
qed

lemma draws_printf_text:
  "tui_text fmt args = Some t \<Longrightarrow> length (vga_mem s) = 2000 \<Longrightarrow> draws (tui_printf_at x y color fmt args s) (puts_ov x y t color) s"
  using draws_puts[of s x y t color] by (simp add: tui_printf_at_def draws_def)

lemma draws_printf:
  assumes "format_text tui_conv None fmt args = Some t" and "length (vga_mem s) = 2000"
  shows "draws (tui_printf_at x y color fmt args s) (puts_ov x y (take 80 t) color) s"
  by (rule draws_printf_text[OF tui_text_take[OF assms(1)] assms(2)])

text \<open>\<open>for (x = a; x < b; x++) tui_putc_at(x, y, ' ', color)\<close>\<close>

definition clear_row :: "int \<Rightarrow> int \<Rightarrow> int \<Rightarrow> u8 \<Rightarrow> 'a vga_state_scheme \<Rightarrow> 'a vga_state_scheme option" where
  "clear_row a b y color = tui_plot (map (\<lambda>x. (x, y, CHR '' '', color)) [a..b - 1])"

lemma plots_at_row: "distinct js \<Longrightarrow> plots_at (map (\<lambda>x. (x, y, c, color)) js) px py = (if py = y \<and> px \<in> set js then [vga_entry c color] else [])"
  by (induction js) auto

lemma draws_clear_row: "length (vga_mem s) = 2000 \<Longrightarrow> draws (clear_row a b y color s) (clear_ov a b y color) s"
proof -
  assume l: "length (vga_mem s) = 2000"
  have "plots_ov (map (\<lambda>x. (x, y, CHR '' '', color)) [a..b - 1]) = clear_ov a b y color"
    by (intro ext) (auto simp: plots_ov_def plots_at_row clear_ov_def)
  with draws_plot[OF l, of "map (\<lambda>x. (x, y, CHR '' '', color)) [a..b - 1]"] show ?thesis by (simp add: clear_row_def)
qed

definition box_ov :: "int \<Rightarrow> int \<Rightarrow> int \<Rightarrow> int \<Rightarrow> u8 \<Rightarrow> u8 \<Rightarrow> string option \<Rightarrow> bool \<Rightarrow> overlay" where
  "box_ov x y w h bc tc title dbl = plots_ov (box_plots x y w h bc tc title dbl)"

lemma draws_box: "2 \<le> w \<Longrightarrow> 2 \<le> h \<Longrightarrow> length (vga_mem s) = 2000 \<Longrightarrow> draws (tui_draw_box x y w h bc tc title dbl s) (box_ov x y w h bc tc title dbl) s"
  using draws_plot[of s] by (simp add: draws_def tui_draw_box_def box_ov_def)

lemma box_ov_outside: "5 \<le> w \<Longrightarrow> 2 \<le> h \<Longrightarrow> \<not> (x \<le> px \<and> px < x + w \<and> y \<le> py \<and> py < y + h) \<Longrightarrow> box_ov x y w h bc tc title dbl px py = None"
  unfolding box_ov_def plots_ov_def by (subst plots_at_box(1)[OF _ _ refl refl]) auto

definition row_ov :: "int \<Rightarrow> overlay \<Rightarrow> bool" where
  "row_ov y ov \<longleftrightarrow> (\<forall>x' y'. y' \<noteq> y \<longrightarrow> ov x' y' = None)"

lemma row_ov_over: "row_ov y a \<Longrightarrow> row_ov y b \<Longrightarrow> row_ov y (over a b)"
  by (simp add: row_ov_def over_def)

lemma row_ov_simps: "row_ov y (puts_ov x y t c)" "row_ov y (clear_ov a b y c)" "row_ov y blank_overlay"
  by (simp_all add: row_ov_def puts_ov_def clear_ov_def blank_overlay_def)

lemma tui_draw_header_calls:
  "tui_draw_header title sub s =
     (let bg = push_bit 4 COLOR_BORDER OR COLOR_TEXT
      in clear_row 0 80 0 bg s \<bind> (\<lambda>s1. tui_puts_at 1 0 title (push_bit 4 COLOR_BORDER OR COLOR_PRIMARY) s1 \<bind> (\<lambda>s2.
           case sub of None \<Rightarrow> Some s2
           | Some t \<Rightarrow> tui_puts_at (78 - int (length t)) 0 t (push_bit 4 COLOR_BORDER OR COLOR_SUCCESS) s2)))"
  by (simp add: tui_draw_header_def clear_row_def Let_def cong: option.case_cong)

lemma draws_header:
  assumes "length (vga_mem s) = 2000"
  shows "\<exists>ov. draws (tui_draw_header title sub s) ov s \<and> row_ov 0 ov"
proof -
  let ?bg = "push_bit 4 COLOR_BORDER OR COLOR_TEXT"
  define ov3 where "ov3 = (case sub of None \<Rightarrow> blank_overlay | Some t \<Rightarrow>
    puts_ov (78 - int (length t)) 0 t (push_bit 4 COLOR_BORDER OR COLOR_SUCCESS))"
  have 3: "draws (case sub of None \<Rightarrow> Some s2
      | Some t \<Rightarrow> tui_puts_at (78 - int (length t)) 0 t (push_bit 4 COLOR_BORDER OR COLOR_SUCCESS) s2) ov3 s2"
    if "length (vga_mem s2) = 2000" for s2 :: "'a vga_state_scheme"
    using draws_skip[OF that] draws_puts[OF that] by (cases sub) (simp_all add: ov3_def)
  let ?ov = "over (over ov3 (puts_ov 1 0 title (push_bit 4 COLOR_BORDER OR COLOR_PRIMARY))) (clear_ov 0 80 0 ?bg)"
  have "draws (tui_draw_header title sub s) ?ov s"
    unfolding tui_draw_header_calls Let_def
    by (intro draws_bind[OF draws_clear_row[OF assms]] draws_bind[OF draws_puts[OF drawn_length]] 3 drawn_length)
  moreover have "row_ov 0 ?ov"
    by (intro row_ov_over row_ov_simps) (simp add: ov3_def row_ov_simps split: option.split)
  ultimately show ?thesis by blast
qed

lemma draws_footer:
  assumes "length (vga_mem s) = 2000"
  shows "\<exists>ov. draws (tui_draw_footer hints s) ov s \<and> row_ov 24 ov"
proof -
  let ?bg = "push_bit 4 COLOR_BORDER OR COLOR_TEXT" and ?fg = "push_bit 4 COLOR_BORDER OR COLOR_WARN"
  have e: "tui_draw_footer hints s = clear_row 0 80 24 ?bg s \<bind> tui_puts_at 2 24 hints ?fg"
    by (simp add: tui_draw_footer_def clear_row_def Let_def)
  have "draws (tui_draw_footer hints s) (over (puts_ov 2 24 hints ?fg) (clear_ov 0 80 24 ?bg)) s"
    unfolding e by (intro draws_bind[OF draws_clear_row[OF assms]] draws_puts drawn_length)
  moreover have "row_ov 24 (over (puts_ov 2 24 hints ?fg) (clear_ov 0 80 24 ?bg))" by (intro row_ov_over row_ov_simps)
  ultimately show ?thesis by blast
qed

lemma draws_bar:
  assumes "length (vga_mem s) = 2000"
  shows "\<exists>ov. draws (tui_draw_bar x y w v mx fg bg s) ov s \<and> row_ov y ov"
proof (cases "w \<le> 0 \<or> mx = 0")
  case True
  then show ?thesis using draws_skip[OF assms] row_ov_simps(3) by (auto simp: tui_draw_bar_def)
next
  case False
  let ?ps = "map (\<lambda>i. if i < int (bar_filled w v mx) then (x + i, y, CHR 0xDB, fg) else (x + i, y, CHR 0xB0, bg)) [0..w - 1]"
  have "row_ov y (plots_ov ?ps)"
    unfolding row_ov_def plots_ov_def by (intro allI impI, subst plots_at_outside) (auto split: if_splits)
  moreover have "draws (tui_draw_bar x y w v mx fg bg s) (plots_ov ?ps) s"
    using draws_plot[OF assms, of ?ps] False by (simp add: tui_draw_bar_def)
  ultimately show ?thesis by blast
qed

section \<open>Calls that always return\<close>

lemmas drew_calls = draws_putc[THEN drewI] draws_puts[THEN drewI] draws_clear_row[THEN drewI] draws_box[THEN drewI] draws_printf[THEN drewI]

lemma drew_header: "length (vga_mem s) = 2000 \<Longrightarrow> drew (tui_draw_header title sub s) s"
  using draws_header drewI by blast

lemma drew_footer: "length (vga_mem s) = 2000 \<Longrightarrow> drew (tui_draw_footer hints s) s"
  using draws_footer drewI by blast

lemma drew_bar: "length (vga_mem s) = 2000 \<Longrightarrow> drew (tui_draw_bar x y w v mx fg bg s) s"
  using draws_bar drewI by blast

end
