(* ===== verification/Keyboard.thy ===== *)
theory Keyboard
  imports Idt "HOL-Library.Sublist"
begin

text \<open>
  The PS/2 keyboard: kernel/drivers/keyboard.c. The interrupt handler puts characters into a ring
  buffer of 32 cells, the main loop takes them out, and interrupts arrive at any time in between.
\<close>

section \<open>A bounded queue between an interrupt and a reader\<close>

text \<open>
  The contract: \<open>put k\<close> is the interrupt, which accepts the item of \<open>k\<close>, if it has one, unless
  \<open>cap\<close> items wait. \<open>get ks ks'\<close> is the reader, with the interrupts that arrive after its check and
  after its read. The client's view: items come out once each, in the order they went in.
\<close>

datatype 'k queue_event = Put 'k | Get "'k list" "'k list"

text \<open>A run gives the arrivals, the items received, and the state.\<close>

primrec queue_run :: "('k \<Rightarrow> 's \<Rightarrow> 's) \<Rightarrow> ('k list \<Rightarrow> 'k list \<Rightarrow> 's \<Rightarrow> 'c option \<times> 's) \<Rightarrow> 'k queue_event list \<Rightarrow> 's \<Rightarrow>
    'k list \<times> 'c list \<times> 's" where
  "queue_run put get [] s = ([], [], s)"
| "queue_run put get (e # es) s =
     (case e of
        Put k \<Rightarrow> (case queue_run put get es (put k s) of (a, r, s') \<Rightarrow> (k # a, r, s'))
      | Get ks ks' \<Rightarrow>
          (case get ks ks' s of
             (None, s1) \<Rightarrow> queue_run put get es s1
           | (Some c, s1) \<Rightarrow> (case queue_run put get es s1 of (a, r, s') \<Rightarrow> (ks @ ks' @ a, c # r, s'))))"

locale bounded_queue =
  fixes ok :: "'s \<Rightarrow> bool" and q :: "'s \<Rightarrow> 'c list" and cap :: nat
    and accepts :: "'k \<Rightarrow> 'c option" and put :: "'k \<Rightarrow> 's \<Rightarrow> 's" and get :: "'k list \<Rightarrow> 'k list \<Rightarrow> 's \<Rightarrow> 'c option \<times> 's"
  assumes put_ok: "ok s \<Longrightarrow> ok (put k s)"
    and put_q: "ok s \<Longrightarrow> q (put k s) = (case accepts k of Some c \<Rightarrow> if length (q s) < cap then q s @ [c] else q s | None \<Rightarrow> q s)"
    and get_empty: "ok s \<Longrightarrow> q s = [] \<Longrightarrow> get ks ks' s = (None, s)"
    and get_item: "ok s \<Longrightarrow> q s = c # cs \<Longrightarrow>
      \<exists>s'. get ks ks' s = (Some c, s') \<and> ok s' \<and> q s' = tl (q (fold put (ks @ ks') s))"
begin

abbreviation delivers :: "'k list \<Rightarrow> 'c list \<Rightarrow> 'c list \<Rightarrow> 'c list \<Rightarrow> bool" where
  "delivers ks before after acc \<equiv> after = before @ acc \<and> subseq acc (List.map_filter accepts ks) \<and>
     (length before + length (List.map_filter accepts ks) \<le> cap \<longrightarrow> acc = List.map_filter accepts ks)"

lemma fold_put:
  assumes "ok s"
  shows "ok (fold put ks s) \<and> (\<exists>acc. delivers ks (q s) (q (fold put ks s)) acc)"
  using assms
proof (induction ks arbitrary: s)
  case (Cons k ks)
  obtain acc where acc: "ok (fold put ks (put k s))" "delivers ks (q (put k s)) (q (fold put ks (put k s))) acc"
    using Cons.IH[OF put_ok[OF Cons.prems]] by blast
  show ?case
  proof (cases "accepts k")
    case None
    with acc put_q[OF Cons.prems, of k] show ?thesis by (intro conjI exI[of _ acc]) (simp_all add: List.map_filter_simps)
  next
    case (Some c)
    show ?thesis
    proof (cases "length (q s) < cap")
      case True
      with acc put_q[OF Cons.prems, of k] Some show ?thesis
        by (intro conjI exI[of _ "c # acc"]) (simp_all add: List.map_filter_simps)
    next
      case False
      with acc put_q[OF Cons.prems, of k] Some show ?thesis
        by (intro conjI exI[of _ acc]) (auto simp: List.map_filter_simps intro: subseq_Cons')
    qed
  qed
qed (simp add: List.map_filter_simps)

lemma map_filter_append: "List.map_filter f (xs @ ys) = List.map_filter f xs @ List.map_filter f ys"
  by (simp add: List.map_filter_def)

lemma run_delivers:
  assumes "ok s" and "queue_run put get es s = (a, r, s')"
  shows "ok s' \<and> (\<exists>acc. delivers a (q s) (r @ q s') acc)"
  using assms
proof (induction es arbitrary: s a r)
  case Nil
  then show ?case by (simp add: List.map_filter_simps)
next
  case (Cons e es)
  show ?case
  proof (cases e)
    case (Put k)
    obtain a1 where a1: "queue_run put get es (put k s) = (a1, r, s')" "a = k # a1"
      using Cons.prems(2) Put by (auto split: prod.splits)
    obtain acc where acc: "ok s'" "delivers a1 (q (put k s)) (r @ q s') acc"
      using Cons.IH[OF put_ok[OF Cons.prems(1)] a1(1)] by blast
    obtain acc1 where acc1: "delivers [k] (q s) (q (put k s)) acc1"
      using fold_put[OF Cons.prems(1), of "[k]"] by auto
    have mf: "List.map_filter accepts a = List.map_filter accepts [k] @ List.map_filter accepts a1"
      using map_filter_append[of accepts "[k]" a1] a1(2) by simp
    show ?thesis
      using acc acc1 unfolding mf by (intro conjI exI[of _ "acc1 @ acc"]) (auto intro!: list_emb_append_mono)
  next
    case (Get ks ks')
    show ?thesis
    proof (cases "q s")
      case Nil
      have "queue_run put get es s = (a, r, s')"
        using Cons.prems(2) Get get_empty[OF Cons.prems(1) Nil] by simp
      from Cons.IH[OF Cons.prems(1) this] show ?thesis .
    next
      case (Cons c cs)
      obtain s1 where s1: "get ks ks' s = (Some c, s1)" "ok s1" "q s1 = tl (q (fold put (ks @ ks') s))"
        using get_item[OF Cons.prems(1) Cons] by blast
      obtain a1 r1 where a1: "queue_run put get es s1 = (a1, r1, s')" "a = ks @ ks' @ a1" "r = c # r1"
        using Cons.prems(2) Get s1(1) by (auto split: prod.splits)
      obtain acc where acc: "ok s'" "delivers a1 (q s1) (r1 @ q s') acc"
        using Cons.IH[OF s1(2) a1(1)] by blast
      obtain acc1 where acc1: "delivers (ks @ ks') (q s) (q (fold put (ks @ ks') s)) acc1"
        using fold_put[OF Cons.prems(1), of "ks @ ks'"] by auto
      have mf: "List.map_filter accepts a = List.map_filter accepts (ks @ ks') @ List.map_filter accepts a1"
        using map_filter_append[of accepts "ks @ ks'" a1] a1(2) by simp
      have q1: "q s1 = cs @ acc1" using s1(3) acc1 Cons by simp
      show ?thesis
        using acc acc1 q1 Cons a1(3) unfolding mf by (intro conjI exI[of _ "acc1 @ acc"]) (auto intro!: list_emb_append_mono)
    qed
  qed
qed

end

section \<open>State\<close>

abbreviation KBD_BUF_SIZE :: nat where
  "KBD_BUF_SIZE \<equiv> 32"

record kbd_state = idt_state +
  kbd_buf :: "char list"
  kbd_head :: nat
  kbd_tail :: nat

definition scancode_ascii :: "char list" where
  "scancode_ascii = [CHR 0x00, CHR 0x1B] @ ''1234567890-='' @ [CHR 0x08, CHR 0x09] @ ''qwertyuiop[]'' @ [CHR 0x0A, CHR 0x00] @
     ''asdfghjkl;'' @ [CHR 0x27, CHR 0x60, CHR 0x00, CHR 0x5C] @ ''zxcvbnm,./'' @
     [CHR 0x00, CHR ''*'', CHR 0x00, CHR '' '', CHR 0x00] @ replicate 69 (CHR 0x00)"

section \<open>Operations\<close>

text \<open>The body of the handler behind the read of the data port.\<close>

definition take_scancode :: "u8 \<Rightarrow> 'a kbd_state_scheme \<Rightarrow> 'a kbd_state_scheme" where
  "take_scancode scancode s =
     (if scancode AND 0x80 \<noteq> 0 then s
      else
        let c = scancode_ascii ! unat scancode in
        if c = CHR 0x00 then s
        else
          let next = (kbd_head s + 1) mod KBD_BUF_SIZE in
          if next \<noteq> kbd_tail s then s\<lparr>kbd_buf := (kbd_buf s)[kbd_head s := c], kbd_head := next\<rparr> else s)"

abbreviation PS2_DATA_PORT :: u16 where "PS2_DATA_PORT \<equiv> 0x60"

definition keyboard_interrupt :: "device \<Rightarrow> 'a kbd_state_scheme \<Rightarrow> 'a kbd_state_scheme" where
  "keyboard_interrupt dev s = (case inb dev PS2_DATA_PORT s of (scancode, s1) \<Rightarrow> take_scancode scancode s1)"

definition keyboard_init :: "device \<Rightarrow> 'a kbd_state_scheme \<Rightarrow> 'a kbd_state_scheme option" where
  "keyboard_init dev s =
     serial_printf dev COM1 (Some ''[OK] PS/2 keyboard driver (IRQ1)\<newline>'') []
       (isr_register_handler 33 keyboard_handler (s\<lparr>kbd_head := 0, kbd_tail := 0\<rparr>))"

definition keyboard_has_key :: "'a kbd_state_scheme \<Rightarrow> bool" where
  "keyboard_has_key s \<longleftrightarrow> kbd_tail s \<noteq> kbd_head s"

text \<open>The last two statements of \<open>keyboard_getchar\<close>: the read, and the move of the tail.\<close>

definition kbd_read :: "'a kbd_state_scheme \<Rightarrow> char" where
  "kbd_read s = kbd_buf s ! kbd_tail s"

definition kbd_advance :: "'a kbd_state_scheme \<Rightarrow> 'a kbd_state_scheme" where
  "kbd_advance s = s\<lparr>kbd_tail := (kbd_tail s + 1) mod KBD_BUF_SIZE\<rparr>"

definition keyboard_getchar :: "'a kbd_state_scheme \<Rightarrow> char \<times> 'a kbd_state_scheme" where
  "keyboard_getchar s = (if kbd_tail s = kbd_head s then (CHR 0x00, s) else (kbd_read s, kbd_advance s))"

text \<open>The same with the scancodes \<open>ks\<close> arriving before the read and \<open>ks'\<close> before the move.\<close>

definition getchar_interrupted :: "u8 list \<Rightarrow> u8 list \<Rightarrow> 'a kbd_state_scheme \<Rightarrow> char \<times> 'a kbd_state_scheme" where
  "getchar_interrupted ks ks' s =
     (if kbd_tail s = kbd_head s then (CHR 0x00, s)
      else let s1 = fold take_scancode ks s; c = kbd_read s1; s2 = fold take_scancode ks' s1 in (c, kbd_advance s2))"

lemma keyboard_getchar_uninterrupted: "keyboard_getchar s = getchar_interrupted [] [] s"
  by (simp add: keyboard_getchar_def getchar_interrupted_def)

section \<open>The ring buffer as a queue\<close>

definition kbd_count :: "'a kbd_state_scheme \<Rightarrow> nat" where
  "kbd_count s = (kbd_head s + KBD_BUF_SIZE - kbd_tail s) mod KBD_BUF_SIZE"

definition kbd_queue :: "'a kbd_state_scheme \<Rightarrow> char list" where
  "kbd_queue s = map (\<lambda>i. kbd_buf s ! ((kbd_tail s + i) mod KBD_BUF_SIZE)) [0..<kbd_count s]"

definition kbd_ok :: "'a kbd_state_scheme \<Rightarrow> bool" where
  "kbd_ok s \<longleftrightarrow> length (kbd_buf s) = KBD_BUF_SIZE \<and> kbd_head s < KBD_BUF_SIZE \<and> kbd_tail s < KBD_BUF_SIZE \<and> CHR 0x00 \<notin> set (kbd_queue s)"

text \<open>The character a scancode stands for: none for a key that is released or has none.\<close>

definition key_char :: "u8 \<Rightarrow> char option" where
  "key_char k = (if 128 \<le> k \<or> scancode_ascii ! unat k = CHR 0x00 then None else Some (scancode_ascii ! unat k))"

definition kbd_get :: "u8 list \<Rightarrow> u8 list \<Rightarrow> 'a kbd_state_scheme \<Rightarrow> char option \<times> 'a kbd_state_scheme" where
  "kbd_get ks ks' s = (case getchar_interrupted ks ks' s of (c, s') \<Rightarrow> (if c = CHR 0x00 then None else Some c, s'))"

lemma released_iff: "k AND 0x80 \<noteq> 0 \<longleftrightarrow> 128 \<le> k" for k :: u8
proof -
  have "k AND 0x80 \<noteq> 0 \<longleftrightarrow> bit k 7"
    using and_exp_eq_0_iff_not_bit[of k 7] by simp
  also have "\<dots> \<longleftrightarrow> odd (unat k div 128)"
  proof -
    have "bit k 7 \<longleftrightarrow> bit (unat k) 7" by (simp add: bit_unsigned_iff)
    also have "\<dots> \<longleftrightarrow> odd (unat k div 2 ^ 7)" by (rule bit_iff_odd)
    finally show ?thesis by simp
  qed
  also have "\<dots> \<longleftrightarrow> 128 \<le> unat k"
  proof -
    have "unat k div 128 = (if 128 \<le> unat k then 1 else 0)" using unat_u8_lt[of k] by (simp add: le_div_geq)
    then show ?thesis by simp
  qed
  finally show ?thesis by (simp add: word_le_nat_alt)
qed

lemma ring_dist: "h < 32 \<Longrightarrow> t < 32 \<Longrightarrow> (h + 32 - t) mod 32 = (if t \<le> h then h - t else h + 32 - t)" for h t :: nat
proof (cases "t \<le> h")
  case True
  assume "h < 32"
  moreover have "(h + 32 - t) mod 32 = (h - t + 32) mod 32" using True by simp
  ultimately show ?thesis using True by (simp del: Nat.add_diff_assoc2)
qed simp

lemma ring_next: "h < 32 \<Longrightarrow> (h + 1) mod 32 = (if h = 31 then 0 else h + 1)" for h :: nat
  by auto

lemma ring_count_put:
  assumes "h < 32" "t < 32" "(h + 1) mod 32 \<noteq> t"
  shows "((h + 1) mod 32 + 32 - t) mod 32 = Suc ((h + 32 - t) mod (32 :: nat))" "(t + (h + 32 - t) mod 32) mod 32 = h"
    "(h + 32 - t) mod 32 < 31"
proof -
  have n: "(h + 1) mod 32 < 32" by simp
  show "((h + 1) mod 32 + 32 - t) mod 32 = Suc ((h + 32 - t) mod (32 :: nat))" "(h + 32 - t) mod 32 < 31"
    using assms by (simp_all only: ring_dist[OF n assms(2)] ring_dist[OF assms(1,2)]) (auto simp: ring_next[OF assms(1), simplified] split: if_splits)
  show "(t + (h + 32 - t) mod 32) mod 32 = h"
    using assms(1,2) by (simp add: ring_dist)
qed

lemma ring_full:
  assumes "h < 32" "t < 32" "(h + 1) mod 32 = t"
  shows "(h + 32 - t) mod (32 :: nat) = 31"
  using assms by (simp only: ring_dist[OF assms(1,2)]) (auto simp: ring_next[OF assms(1), simplified] split: if_splits)

lemma ring_count_get:
  assumes "h < 32" "t < 32" "h \<noteq> t"
  shows "(h + 32 - (t + 1) mod 32) mod 32 = (h + 32 - t) mod 32 - (1 :: nat)" "0 < (h + 32 - t) mod 32"
proof -
  have n: "(t + 1) mod 32 < 32" by simp
  show "(h + 32 - (t + 1) mod 32) mod 32 = (h + 32 - t) mod 32 - (1 :: nat)" "0 < (h + 32 - t) mod 32"
    using assms by (simp_all only: ring_dist[OF assms(1) n] ring_dist[OF assms(1,2)]) (auto simp: ring_next[OF assms(2), simplified] split: if_splits)
qed

lemma kbd_count_lt: "kbd_count s < 32"
  by (simp add: kbd_count_def)

lemma length_kbd_queue [simp]: "length (kbd_queue s) = kbd_count s"
  by (simp add: kbd_queue_def)

lemma take_scancode_queue:
  assumes "kbd_ok s"
  shows "kbd_ok (take_scancode k s)" and "kbd_tail (take_scancode k s) = kbd_tail s"
    and "kbd_queue (take_scancode k s) = (case key_char k of Some c \<Rightarrow> if length (kbd_queue s) < 31 then kbd_queue s @ [c] else kbd_queue s | None \<Rightarrow> kbd_queue s)"
proof -
  let ?h = "kbd_head s" and ?t = "kbd_tail s" and ?n = "kbd_count s" and ?s = "take_scancode k s"
  have ok: "length (kbd_buf s) = 32" "?h < 32" "?t < 32" "CHR 0x00 \<notin> set (kbd_queue s)"
    using assms by (simp_all add: kbd_ok_def)
  have "kbd_ok ?s \<and> kbd_tail ?s = ?t \<and>
    kbd_queue ?s = (case key_char k of Some c \<Rightarrow> if ?n < 31 then kbd_queue s @ [c] else kbd_queue s | None \<Rightarrow> kbd_queue s)"
  proof (cases "key_char k")
    case None
    then have "?s = s" by (auto simp: take_scancode_def key_char_def released_iff split: if_splits)
    with None assms show ?thesis by simp
  next
    case (Some c)
    then have c: "k AND 0x80 = 0" "scancode_ascii ! unat k = c" "c \<noteq> CHR 0x00"
      using released_iff[of k] by (auto simp: key_char_def split: if_splits)
    show ?thesis
    proof (cases "(?h + 1) mod 32 = ?t")
      case True
      then have "?s = s" "?n = 31"
        using c ring_full[OF ok(2,3) True] by (simp_all add: take_scancode_def kbd_count_def Let_def)
      with assms Some show ?thesis by simp
    next
      case False
      note r = ring_count_put[OF ok(2,3) False]
      have s': "?s = s\<lparr>kbd_buf := (kbd_buf s)[?h := c], kbd_head := (?h + 1) mod 32\<rparr>"
        using c False by (simp add: take_scancode_def Let_def)
      have n': "kbd_count ?s = Suc ?n" using r(1) by (simp add: kbd_count_def s')
      have other: "?h \<noteq> (?t + i) mod 32" if "i < ?n" for i
      proof
        assume e: "?h = (?t + i) mod 32"
        have "(?t + ?n) mod 32 = ?h" using r(2) by (simp add: kbd_count_def)
        with e have "(?t + ?n) mod 32 = (?t + i) mod 32" by simp
        then have "32 dvd ?n - i" using that by (simp add: mod_eq_dvd_iff_nat)
        with that kbd_count_lt[of s] show False using nat_dvd_not_less[of "?n - i" 32] by simp
      qed
      have q: "kbd_queue ?s = kbd_queue s @ [c]"
        unfolding kbd_queue_def n' using other r(2) ok(1,2) by (simp add: s' kbd_count_def[symmetric])
      then show ?thesis
        using ok c(3) r(3) Some by (simp add: kbd_ok_def kbd_count_def[symmetric]) (simp add: s')
    qed
  qed
  then show "kbd_ok ?s" "kbd_tail ?s = ?t"
    "kbd_queue ?s = (case key_char k of Some c \<Rightarrow> if length (kbd_queue s) < 31 then kbd_queue s @ [c] else kbd_queue s | None \<Rightarrow> kbd_queue s)"
    unfolding length_kbd_queue by blast+
qed

lemma kbd_queue_empty: "kbd_ok s \<Longrightarrow> kbd_queue s = [] \<longleftrightarrow> kbd_tail s = kbd_head s"
  using ring_count_get(2)[of "kbd_head s" "kbd_tail s"] by (auto simp: kbd_ok_def kbd_queue_def kbd_count_def)

lemma kbd_read_hd: "kbd_ok s \<Longrightarrow> kbd_queue s = c # cs \<Longrightarrow> kbd_read s = c"
  by (cases "kbd_count s") (auto simp: kbd_queue_def kbd_read_def kbd_ok_def upt_conv_Cons simp del: upt_Suc)

lemma kbd_advance_tl:
  assumes "kbd_ok s" and "kbd_queue s \<noteq> []"
  shows "kbd_ok (kbd_advance s)" "kbd_queue (kbd_advance s) = tl (kbd_queue s)"
proof -
  have b: "kbd_head s < 32" "kbd_tail s < 32" "kbd_head s \<noteq> kbd_tail s"
    using assms kbd_queue_empty[OF assms(1)] by (auto simp: kbd_ok_def)
  note r = ring_count_get[OF b]
  obtain n where n: "kbd_count s = Suc n" using r(2) by (cases "kbd_count s") (simp_all add: kbd_count_def)
  have "kbd_count (kbd_advance s) = n" using r(1) n by (simp add: kbd_count_def kbd_advance_def)
  then show q: "kbd_queue (kbd_advance s) = tl (kbd_queue s)"
    by (simp add: kbd_queue_def n kbd_advance_def mod_add_left_eq map_upt_Suc del: upt_Suc)
  have "set (tl (kbd_queue s)) \<subseteq> set (kbd_queue s)" by (cases "kbd_queue s") auto
  with q assms(1) show "kbd_ok (kbd_advance s)"
    by (auto simp: kbd_ok_def) (simp_all add: kbd_advance_def)
qed

interpretation keyboard: bounded_queue kbd_ok kbd_queue 31 key_char take_scancode kbd_get
proof unfold_locales
  fix s :: "'a kbd_state_scheme" and k ks ks'
  assume ok: "kbd_ok s"
  show "kbd_ok (take_scancode k s)"
    and "kbd_queue (take_scancode k s) = (case key_char k of Some c \<Rightarrow> if length (kbd_queue s) < 31 then kbd_queue s @ [c] else kbd_queue s | None \<Rightarrow> kbd_queue s)"
    using take_scancode_queue[OF ok] by simp_all
  show "kbd_get ks ks' s = (None, s)" if "kbd_queue s = []"
    using kbd_queue_empty[OF ok] that by (simp add: kbd_get_def getchar_interrupted_def)
next
  fix s :: "'a kbd_state_scheme" and ks ks' c cs
  assume ok: "kbd_ok s" and q: "kbd_queue s = c # cs"
  have fold: "kbd_ok (fold take_scancode l s) \<and> (\<exists>acc. kbd_queue (fold take_scancode l s) = c # acc)" for l
    using q ok
  proof (induction l arbitrary: s cs)
    case (Cons k l)
    have "\<exists>cs'. kbd_queue (take_scancode k s) = c # cs'"
      using take_scancode_queue(3)[OF Cons.prems(2), of k] Cons.prems(1) by (auto split: option.splits)
    with Cons.IH[OF _ take_scancode_queue(1)[OF Cons.prems(2)]] show ?case by fastforce
  qed simp
  have ne: "kbd_tail s \<noteq> kbd_head s" using kbd_queue_empty[OF ok] q by simp
  have "c \<noteq> CHR 0x00" using ok q by (auto simp: kbd_ok_def)
  then show "\<exists>s'. kbd_get ks ks' s = (Some c, s') \<and> kbd_ok s' \<and> kbd_queue s' = tl (kbd_queue (fold take_scancode (ks @ ks') s))"
    using ne fold[of ks] fold[of "ks @ ks'"] kbd_read_hd[of "fold take_scancode ks s" c] kbd_advance_tl[of "fold take_scancode (ks @ ks') s"]
    by (auto simp: kbd_get_def getchar_interrupted_def Let_def)
qed

section \<open>Properties\<close>

text \<open>
  C14: No key is lost, doubled or reordered. Whenever the interrupts arrive, also inside
  \<open>keyboard_getchar\<close>, the characters the main loop has read, followed by those in the buffer, are
  those that waited before, followed by characters of the arrived scancodes in their order;
  and if there were never more than 31 of them, all of these.
\<close>

theorem keyboard_fifo:
  assumes "kbd_ok s" and "queue_run take_scancode kbd_get events s = (arrived, received, s')"
  shows "kbd_ok s' \<and>
    (\<exists>acc. received @ kbd_queue s' = kbd_queue s @ acc \<and> subseq acc (List.map_filter key_char arrived) \<and>
      (length (kbd_queue s) + length (List.map_filter key_char arrived) \<le> 31 \<longrightarrow> acc = List.map_filter key_char arrived))"
  by (rule keyboard.run_delivers[OF assms])

definition kbd_static :: kbd_state where
  "kbd_static = idt_state.extend idt_static (kbd_state.fields (replicate 32 (CHR 0x00)) 0 0)"

lemma kbd_static_ok: "kbd_ok kbd_static"
  by (simp add: kbd_static_def kbd_ok_def kbd_queue_def kbd_count_def idt_state.defs kbd_state.defs idt_static_def)

theorem keyboard_fifo_witness:
  "\<exists>s'. queue_run take_scancode kbd_get [Put 0x1E, Get [0x30] [0x9E], Get [] []] kbd_static = ([0x1E, 0x30, 0x9E], ''ab'', s') \<and> kbd_ok s'"
proof -
  obtain s' where s': "queue_run take_scancode kbd_get [Put 0x1E, Get [0x30] [0x9E], Get [] []] kbd_static = ([0x1E, 0x30, 0x9E], ''ab'', s')"
    by (simp add: kbd_static_def kbd_get_def getchar_interrupted_def take_scancode_def scancode_ascii_def idt_state.defs kbd_state.defs idt_static_def
        kbd_read_def kbd_advance_def Let_def)
  with keyboard_fifo[OF kbd_static_ok s'] show ?thesis by blast
qed

end
