(* ===== verification/Kheap.thy ===== *)
theory Kheap
  imports Pmm "HOL-Library.Monad_Syntax"
begin

text \<open>
  The kernel heap, kernel/core/heap.c: blocks with a 48-byte header in front of their
  payload, linked to their physical neighbours and, when free, on a doubly linked free list
  that is searched first-fit; memory comes from \<open>pmm_alloc_contiguous\<close>.

  \<open>hdrs\<close> holds the block headers in memory, \<open>heap_mem\<close> the bytes of payloads. An operation
  returns None when it would use memory that holds no header as a header, or would not
  return at all; that it does neither is part of what is proved.
\<close>

section \<open>State\<close>

record block =
  blk_size :: size_t
  blk_used :: bool
  blk_next :: addr
  blk_prev :: addr
  blk_next_free :: addr
  blk_prev_free :: addr

abbreviation HEADER_SIZE :: size_t where
  "HEADER_SIZE \<equiv> 48"

abbreviation MIN_SPLIT :: size_t where
  "MIN_SPLIT \<equiv> 32"

record heap_state = pmm_state +
  free_head :: addr
  heap_used :: size_t
  heap_phys_offset :: addr
  hdrs :: "addr \<Rightarrow> block option"
  heap_mem :: "addr \<Rightarrow> u8"

text \<open>\<open>(val + align - 1) & ~(align - 1)\<close>\<close>

definition align_up :: "size_t \<Rightarrow> size_t \<Rightarrow> size_t" where
  "align_up val align = and_not64 (sub64 (add64 val align) 1) (sub64 align 1)"

definition heap_phys_to_virt :: "addr \<Rightarrow> 'a heap_state_scheme \<Rightarrow> addr" where
  "heap_phys_to_virt pa s = add64 pa (heap_phys_offset s)"

text \<open>Writing fields of the header at \<open>a\<close>, and writing a whole header.\<close>

definition upd_blk :: "addr \<Rightarrow> (block \<Rightarrow> block) \<Rightarrow> 'a heap_state_scheme \<Rightarrow> 'a heap_state_scheme option" where
  "upd_blk a f s =
     (case hdrs s a of None \<Rightarrow> None | Some b \<Rightarrow> Some (s\<lparr>hdrs := (hdrs s)(a \<mapsto> f b)\<rparr>))"

definition new_blk :: "addr \<Rightarrow> block \<Rightarrow> 'a heap_state_scheme \<Rightarrow> 'a heap_state_scheme" where
  "new_blk a b s = s\<lparr>hdrs := (hdrs s)(a \<mapsto> b)\<rparr>"

section \<open>Operations\<close>

definition free_list_add :: "addr \<Rightarrow> 'a heap_state_scheme \<Rightarrow> 'a heap_state_scheme option" where
  "free_list_add blk s = do {
     s1 \<leftarrow> upd_blk blk (\<lambda>b. b\<lparr>blk_next_free := free_head s, blk_prev_free := NULL\<rparr>) s;
     s2 \<leftarrow> (if free_head s1 \<noteq> NULL
           then upd_blk (free_head s1) (\<lambda>b. b\<lparr>blk_prev_free := blk\<rparr>) s1 else Some s1);
     Some (s2\<lparr>free_head := blk\<rparr>)
   }"

definition free_list_remove :: "addr \<Rightarrow> 'a heap_state_scheme \<Rightarrow> 'a heap_state_scheme option" where
  "free_list_remove blk s = do {
     b \<leftarrow> hdrs s blk;
     s1 \<leftarrow> (if blk_prev_free b \<noteq> NULL
           then upd_blk (blk_prev_free b) (\<lambda>p. p\<lparr>blk_next_free := blk_next_free b\<rparr>) s
           else Some (s\<lparr>free_head := blk_next_free b\<rparr>));
     b1 \<leftarrow> hdrs s1 blk;
     s2 \<leftarrow> (if blk_next_free b1 \<noteq> NULL
           then upd_blk (blk_next_free b1) (\<lambda>n. n\<lparr>blk_prev_free := blk_prev_free b1\<rparr>) s1
           else Some s1);
     upd_blk blk (\<lambda>b. b\<lparr>blk_next_free := NULL, blk_prev_free := NULL\<rparr>) s2
   }"

definition grow_heap :: "size_t \<Rightarrow> 'a heap_state_scheme \<Rightarrow> (bool \<times> 'a heap_state_scheme) option" where
  "grow_heap min_payload s =
     (let need = add64 min_payload HEADER_SIZE;
          pages = sub64 (add64 need PAGE_SIZE) 1 div PAGE_SIZE
      in case pmm_alloc_contiguous pages s of (pa, s1) \<Rightarrow>
           if pa = 0 then Some (False, s1)
           else let blk = heap_phys_to_virt pa s1;
                    s2 = new_blk blk \<lparr>blk_size = sub64 (mul64 pages PAGE_SIZE) HEADER_SIZE,
                           blk_used = False, blk_next = NULL, blk_prev = NULL,
                           blk_next_free = NULL, blk_prev_free = NULL\<rparr> s1
                in do { s3 \<leftarrow> free_list_add blk s2; Some (True, s3) })"

definition heap_init :: "addr \<Rightarrow> 'a heap_state_scheme \<Rightarrow> 'a heap_state_scheme" where
  "heap_init offset s = s\<lparr>free_head := NULL, heap_used := 0, heap_phys_offset := offset\<rparr>"

text \<open>The first-fit search of \<open>kmalloc\<close>; NULL when no block of the list is large enough.\<close>

partial_function (option) find_fit :: "size_t \<Rightarrow> addr \<Rightarrow> 'a heap_state_scheme \<Rightarrow> addr option" where
  "find_fit sz cur s =
     (if cur = NULL then Some NULL
      else do {
        b \<leftarrow> hdrs s cur;
        if sz \<le> blk_size b then Some cur else find_fit sz (blk_next_free b) s
      })"

text \<open>The part of \<open>kmalloc\<close> that cuts the block \<open>cur\<close> in two.\<close>

definition split_block :: "size_t \<Rightarrow> addr \<Rightarrow> 'a heap_state_scheme \<Rightarrow> 'a heap_state_scheme option" where
  "split_block sz cur s = do {
     c \<leftarrow> hdrs s cur;
     s1 \<leftarrow> upd_blk cur (\<lambda>b. b\<lparr>blk_size := sz\<rparr>) s;
     let split = add64 (add64 cur HEADER_SIZE) sz;
     let s2 = new_blk split \<lparr>blk_size = sub64 (sub64 (blk_size c) sz) HEADER_SIZE, blk_used = False,
                blk_next = blk_next c, blk_prev = cur, blk_next_free = NULL, blk_prev_free = NULL\<rparr> s1;
     s3 \<leftarrow> (if blk_next c \<noteq> NULL then upd_blk (blk_next c) (\<lambda>b. b\<lparr>blk_prev := split\<rparr>) s2 else Some s2);
     s4 \<leftarrow> upd_blk cur (\<lambda>b. b\<lparr>blk_next := split\<rparr>) s3;
     free_list_add split s4
   }"

text \<open>What \<open>kmalloc\<close> does with the block \<open>cur\<close> it has found.\<close>

definition take_block :: "size_t \<Rightarrow> addr \<Rightarrow> 'a heap_state_scheme \<Rightarrow> (addr \<times> 'a heap_state_scheme) option" where
  "take_block sz cur s = do {
     c \<leftarrow> hdrs s cur;
     s1 \<leftarrow> (if add64 (add64 sz HEADER_SIZE) MIN_SPLIT \<le> blk_size c then split_block sz cur s else Some s);
     s2 \<leftarrow> free_list_remove cur s1;
     s3 \<leftarrow> upd_blk cur (\<lambda>b. b\<lparr>blk_used := True\<rparr>) s2;
     b \<leftarrow> hdrs s3 cur;
     Some (add64 cur HEADER_SIZE, s3\<lparr>heap_used := add64 (heap_used s3) (blk_size b)\<rparr>)
   }"

partial_function (option) kmalloc :: "size_t \<Rightarrow> 'a heap_state_scheme \<Rightarrow> (addr \<times> 'a heap_state_scheme) option" where
  "kmalloc sz s =
     (if sz = 0 then Some (NULL, s)
      else do {
        let sz = align_up sz 8;
        cur \<leftarrow> find_fit sz (free_head s) s;
        if cur \<noteq> NULL then take_block sz cur s
        else do {
          r \<leftarrow> grow_heap sz s;
          if fst r then kmalloc sz (snd r) else Some (NULL, snd r)
        }
      })"

text \<open>
  Both coalescing steps of \<open>kfree\<close> are this one: the block \<open>n\<close>, next to \<open>a\<close>, becomes part
  of \<open>a\<close>.
\<close>

definition absorb :: "addr \<Rightarrow> addr \<Rightarrow> 'a heap_state_scheme \<Rightarrow> 'a heap_state_scheme option" where
  "absorb a n s = do {
     s1 \<leftarrow> free_list_remove n s;
     nb \<leftarrow> hdrs s1 n;
     s2 \<leftarrow> upd_blk a (\<lambda>b. b\<lparr>blk_size := add64 (blk_size b) (add64 HEADER_SIZE (blk_size nb)),
                          blk_next := blk_next nb\<rparr>) s1;
     if blk_next nb \<noteq> NULL then upd_blk (blk_next nb) (\<lambda>b. b\<lparr>blk_prev := a\<rparr>) s2 else Some s2
   }"

definition kfree :: "addr \<Rightarrow> 'a heap_state_scheme \<Rightarrow> 'a heap_state_scheme option" where
  "kfree ptr s =
     (if ptr = NULL then Some s
      else do {
        let blk = sub64 ptr HEADER_SIZE;
        b \<leftarrow> hdrs s blk;
        if \<not> blk_used b then Some s
        else do {
          s1 \<leftarrow> upd_blk blk (\<lambda>b. b\<lparr>blk_used := False\<rparr>) s;
          s2 \<leftarrow> free_list_add blk (s1\<lparr>heap_used := sub64 (heap_used s1) (blk_size b)\<rparr>);
          b2 \<leftarrow> hdrs s2 blk;
          s3 \<leftarrow> (if blk_next b2 \<noteq> NULL then do {
                  n \<leftarrow> hdrs s2 (blk_next b2);
                  if \<not> blk_used n then absorb blk (blk_next b2) s2 else Some s2
                } else Some s2);
          b3 \<leftarrow> hdrs s3 blk;
          if blk_prev b3 \<noteq> NULL then do {
            p \<leftarrow> hdrs s3 (blk_prev b3);
            if \<not> blk_used p then absorb (blk_prev b3) blk s3 else Some s3
          } else Some s3
        }
      })"

text \<open>Storing the eight bytes of a pointer.\<close>

definition store_ptr :: "addr \<Rightarrow> addr \<Rightarrow> 'a heap_state_scheme \<Rightarrow> 'a heap_state_scheme" where
  "store_ptr a p s = s\<lparr>heap_mem := (\<lambda>x. if a \<le> x \<and> x < a + 8
      then of_nat (p div 256 ^ (x - a)) else heap_mem s x)\<rparr>"

definition kmalloc_aligned :: "size_t \<Rightarrow> size_t \<Rightarrow> 'a heap_state_scheme \<Rightarrow> (addr \<times> 'a heap_state_scheme) option" where
  "kmalloc_aligned sz align s =
     (if sz = 0 \<or> align = 0 then Some (NULL, s)
      else if (of_nat align :: u64) AND (of_nat align - 1) \<noteq> 0 then Some (NULL, s)
      else do {
        let padded = add64 (add64 (add64 sz align) HEADER_SIZE) 8;
        r \<leftarrow> kmalloc padded s;
        let raw = fst r;
        if raw = NULL then Some (NULL, snd r)
        else do {
          let aligned = align_up (add64 raw 8) align;
          Some (aligned, store_ptr (sub64 aligned 8) raw (snd r))
        }
      })"

definition copy_bytes :: "addr \<Rightarrow> addr \<Rightarrow> size_t \<Rightarrow> 'a heap_state_scheme \<Rightarrow> 'a heap_state_scheme" where
  "copy_bytes dst src n s =
     fold (\<lambda>i s. s\<lparr>heap_mem := (heap_mem s)(add64 dst i := heap_mem s (add64 src i))\<rparr>) [0..<n] s"

definition krealloc :: "addr \<Rightarrow> size_t \<Rightarrow> 'a heap_state_scheme \<Rightarrow> (addr \<times> 'a heap_state_scheme) option" where
  "krealloc ptr new_size s =
     (if ptr = NULL then kmalloc new_size s
      else if new_size = 0 then do { s1 \<leftarrow> kfree ptr s; Some (NULL, s1) }
      else do {
        let blk = sub64 ptr HEADER_SIZE;
        let new_size = align_up new_size 8;
        b \<leftarrow> hdrs s blk;
        if new_size \<le> blk_size b then Some (ptr, s)
        else do {
          r \<leftarrow> kmalloc new_size s;
          if fst r = NULL then Some (NULL, snd r)
          else do {
            b1 \<leftarrow> hdrs (snd r) blk;
            s2 \<leftarrow> kfree ptr (copy_bytes (fst r) ptr (blk_size b1) (snd r));
            Some (fst r, s2)
          }
        }
      })"

definition heap_get_used :: "'a heap_state_scheme \<Rightarrow> size_t" where
  "heap_get_used s = heap_used s"

partial_function (option) sum_free :: "size_t \<Rightarrow> addr \<Rightarrow> 'a heap_state_scheme \<Rightarrow> size_t option" where
  "sum_free acc cur s =
     (if cur = NULL then Some acc
      else do { b \<leftarrow> hdrs s cur; sum_free (add64 acc (blk_size b)) (blk_next_free b) s })"

definition heap_get_free :: "'a heap_state_scheme \<Rightarrow> size_t option" where
  "heap_get_free s = sum_free 0 (free_head s) s"

end
