(* ===== verification/Kheap_Inv.thy ===== *)
theory Kheap_Inv
  imports Kheap
begin

text \<open>
  The invariant of the kernel heap and the proof that \<open>kmalloc\<close> and \<open>kfree\<close> keep it: the blocks
  tile the frames the heap has taken, the free list is a doubly linked list of exactly the
  free blocks, the counter of used bytes is right, and no two neighbours are both free.
  First doubly linked lists and tilings on their own, then the operations step by step.
\<close>

section \<open>Doubly linked lists\<close>

text \<open>
  The segment of a doubly linked list that starts at \<open>p\<close>, whose first node points back to
  \<open>q\<close>, and after whose last node \<open>l\<close> the list goes on at \<open>e\<close>.
\<close>

primrec dseg :: "(addr \<Rightarrow> addr) \<Rightarrow> (addr \<Rightarrow> addr) \<Rightarrow> addr \<Rightarrow> addr \<Rightarrow> addr list \<Rightarrow> addr \<Rightarrow> addr \<Rightarrow> bool" where
  "dseg nx pv q p [] e l \<longleftrightarrow> p = e \<and> q = l"
| "dseg nx pv q p (a # as) e l \<longleftrightarrow> p = a \<and> a \<noteq> NULL \<and> pv a = q \<and> dseg nx pv a (nx a) as e l"

lemma dseg_append:
  "dseg nx pv q p (as @ bs) e l \<longleftrightarrow> (\<exists>m r. dseg nx pv q p as m r \<and> dseg nx pv r m bs e l)"
  by (induction as arbitrary: q p) auto

lemma dseg_cong:
  "(\<And>a. a \<in> set as \<Longrightarrow> nx a = nx' a \<and> pv a = pv' a) \<Longrightarrow> dseg nx pv q p as e l = dseg nx' pv' q p as e l"
  by (induction as arbitrary: q p) auto

lemma dseg_chain: "dseg nx pv q p as NULL l \<Longrightarrow> chain nx p as"
  by (induction as arbitrary: q p) auto

lemma dseg_last: "dseg nx pv q p as e l \<Longrightarrow> l = last (q # as)"
  by (induction as arbitrary: q p) auto

lemma dseg_set_end:
  assumes "dseg nx pv q p as e l" "as \<noteq> []" "distinct as"
  shows "dseg (nx(l := e')) pv q p as e' l"
proof -
  obtain bs where as: "as = bs @ [l]"
    using assms(1,2) dseg_last[OF assms(1)] by (metis append_butlast_last_id last.simps)
  obtain r where "dseg nx pv q p bs l r" "l \<noteq> NULL" "pv l = r"
    using assms(1) unfolding as dseg_append by auto
  moreover have "dseg (nx(l := e')) pv q p bs l r = dseg nx pv q p bs l r" for r
    using assms(3) as by (intro dseg_cong) auto
  ultimately show ?thesis unfolding as dseg_append by auto
qed

lemma dseg_set_start:
  assumes "dseg nx pv q p as e l" "as \<noteq> []" "distinct as"
  shows "dseg nx (pv(p := q')) q' p as e l"
proof -
  obtain bs where as: "as = p # bs" using assms(1,2) by (cases as) auto
  have "dseg nx (pv(p := q')) p (nx p) bs e l = dseg nx pv p (nx p) bs e l"
    using assms(3) as by (intro dseg_cong) auto
  then show ?thesis using assms(1) as by simp
qed

text \<open>The whole list, with head \<open>p\<close>.\<close>

definition dlist :: "(addr \<Rightarrow> addr) \<Rightarrow> (addr \<Rightarrow> addr) \<Rightarrow> addr \<Rightarrow> addr list \<Rightarrow> bool" where
  "dlist nx pv p as \<longleftrightarrow> dseg nx pv NULL p as NULL (last (NULL # as))"

lemma dlistI: "dseg nx pv NULL p as NULL l \<Longrightarrow> dlist nx pv p as"
  using dseg_last unfolding dlist_def by metis

lemma dlist_chain: "dlist nx pv p as \<Longrightarrow> chain nx p as"
  unfolding dlist_def by (rule dseg_chain)

lemma dlist_distinct: "dlist nx pv p as \<Longrightarrow> distinct as"
  by (rule chain_distinct, rule dlist_chain)

lemma dlist_cong:
  "(\<And>a. a \<in> set as \<Longrightarrow> nx a = nx' a \<and> pv a = pv' a) \<Longrightarrow> dlist nx pv p as = dlist nx' pv' p as"
  unfolding dlist_def by (rule dseg_cong)

lemma dlist_add:
  assumes "dlist nx pv p as" "b \<notin> set as" "b \<noteq> NULL"
  shows "dlist (nx(b := p)) ((pv(b := NULL))(p := if p = NULL then pv p else b)) b (b # as)"
proof (cases as)
  case Nil
  with assms show ?thesis by (simp add: dlist_def)
next
  case (Cons a bs)
  with assms(1) have p: "p = a" "a \<noteq> NULL" by (simp_all add: dlist_def)
  have d: "distinct as" by (rule dlist_distinct[OF assms(1)])
  have "dseg nx (pv(p := b)) b p as NULL (last (NULL # as))"
    using assms(1) d Cons unfolding dlist_def by (intro dseg_set_start) simp_all
  then have "dseg (nx(b := p)) ((pv(b := NULL))(p := b)) b p as NULL (last (NULL # as))"
    using assms(2) by (subst dseg_cong[of as _ nx _ "pv(p := b)"]) auto
  then show ?thesis
    using assms p Cons by (intro dlistI) auto
qed

text \<open>What unlinking the node \<open>b\<close> does to the links.\<close>

lemma dlist_remove:
  assumes "dlist nx pv p as" "b \<in> set as"
  defines "nx' \<equiv> (if pv b = NULL then nx else nx(pv b := nx b))"
    and "pv' \<equiv> (if nx b = NULL then pv else pv(nx b := pv b))"
    and "p' \<equiv> (if pv b = NULL then nx b else p)"
  shows "dlist nx' pv' p' (remove1 b as)"
    and "pv b \<noteq> b" "nx b \<noteq> b" "pv b \<noteq> NULL \<Longrightarrow> pv b \<in> set as" "nx b \<noteq> NULL \<Longrightarrow> nx b \<in> set as"
proof -
  have d: "distinct as" by (rule dlist_distinct[OF assms(1)])
  obtain xs ys where as: "as = xs @ b # ys" using assms(2) by (meson split_list)
  obtain r l where seg: "dseg nx pv NULL p xs b r" "b \<noteq> NULL" "pv b = r" "dseg nx pv b (nx b) ys NULL l"
    using assms(1) unfolding as dlist_def dseg_append by auto
  have b: "b \<notin> set xs" "b \<notin> set ys" "distinct xs" "distinct ys" "set xs \<inter> set ys = {}"
    using d as by auto
  have r2: "r \<in> set xs" if "xs \<noteq> []"
    using dseg_last[OF seg(1)] that by simp
  moreover have "NULL \<notin> set xs" using chain_no_NULL[OF dlist_chain[OF assms(1)]] as by simp
  moreover have "r = NULL" if "xs = []" using dseg_last[OF seg(1)] that by simp
  ultimately have r: "xs = [] \<longleftrightarrow> r = NULL" "xs \<noteq> [] \<Longrightarrow> r \<in> set xs"
    by blast+
  have n: "ys = [] \<longleftrightarrow> nx b = NULL" "ys \<noteq> [] \<Longrightarrow> nx b \<in> set ys"
    using seg(4) by (cases ys; auto)+
  show "pv b \<noteq> b" using r b(1) seg(2,3) by auto
  show "nx b \<noteq> b" using n b(2) seg(2) by auto
  show "pv b \<noteq> NULL \<Longrightarrow> pv b \<in> set as" using r seg(3) as by auto
  show "nx b \<noteq> NULL \<Longrightarrow> nx b \<in> set as" using n as by auto
  have rm: "remove1 b as = xs @ ys" using as b by (simp add: remove1_append)
  have left: "dseg nx' pv' NULL p' xs (nx b) r"
  proof (cases "xs = []")
    case True
    then show ?thesis using r seg(3) by (simp add: p'_def)
  next
    case False
    then have "dseg (nx(r := nx b)) pv NULL p xs (nx b) r"
      using seg(1) b(3) by (intro dseg_set_end) simp_all
    moreover have "pv' a = pv a" if "a \<in> set xs" for a
      using that n b(5) by (auto simp: pv'_def)
    ultimately show ?thesis
      using False r seg(3) by (subst dseg_cong[of xs nx' "nx(r := nx b)" pv' pv]) (auto simp: nx'_def p'_def)
  qed
  have right: "dseg nx' pv' r (nx b) ys NULL (last (r # ys))"
  proof (cases "ys = []")
    case True
    then show ?thesis using n by simp
  next
    case False
    then have "dseg nx (pv(nx b := r)) r (nx b) ys NULL l"
      using seg(4) b(4) by (intro dseg_set_start) simp_all
    moreover have "nx' a = nx a" if "a \<in> set ys" for a
      using that r seg(3) b(5) by (auto simp: nx'_def)
    ultimately show ?thesis
      using False n seg(3) dseg_last[OF seg(4)]
      by (subst dseg_cong[of ys nx' nx pv' "pv(nx b := r)"]) (auto simp: pv'_def)
  qed
  show "dlist nx' pv' p' (remove1 b as)"
    unfolding rm using left right by (intro dlistI) (auto simp: dseg_append)
qed

section \<open>Tilings\<close>

text \<open>
  How blocks lie in memory. \<open>B\<close> is the set of the headers, \<open>h\<close> the headers themselves,
  \<open>H\<close> the frames the heap has taken, \<open>off\<close> the offset of virtual addresses.
\<close>

definition blk_bytes :: "(addr \<Rightarrow> block) \<Rightarrow> addr \<Rightarrow> addr set" where
  "blk_bytes h a = {a..<a + HEADER_SIZE + blk_size (h a)}"

definition blk_inside :: "addr \<Rightarrow> nat set \<Rightarrow> addr set \<Rightarrow> (addr \<Rightarrow> block) \<Rightarrow> bool" where
  "blk_inside off H B h \<longleftrightarrow> (\<forall>a\<in>B. \<forall>x\<in>blk_bytes h a. off \<le> x \<and> (x - off) div PAGE_SIZE \<in> H)"

definition blk_disjoint :: "addr set \<Rightarrow> (addr \<Rightarrow> block) \<Rightarrow> bool" where
  "blk_disjoint B h \<longleftrightarrow> (\<forall>a\<in>B. \<forall>b\<in>B. a \<noteq> b \<longrightarrow> blk_bytes h a \<inter> blk_bytes h b = {})"

definition blk_links :: "addr set \<Rightarrow> (addr \<Rightarrow> block) \<Rightarrow> bool" where
  "blk_links B h \<longleftrightarrow> NULL \<notin> B \<and>
     (\<forall>a\<in>B. blk_next (h a) \<noteq> NULL \<longrightarrow> blk_next (h a) = a + HEADER_SIZE + blk_size (h a) \<and>
        blk_next (h a) \<in> B \<and> blk_prev (h (blk_next (h a))) = a) \<and>
     (\<forall>a\<in>B. blk_prev (h a) \<noteq> NULL \<longrightarrow> blk_prev (h a) \<in> B \<and> blk_next (h (blk_prev (h a))) = a)"

definition blk_aligned :: "addr set \<Rightarrow> (addr \<Rightarrow> block) \<Rightarrow> bool" where
  "blk_aligned B h \<longleftrightarrow> (\<forall>a\<in>B. a mod 8 = 0 \<and> blk_size (h a) mod 8 = 0)"

definition tiling :: "addr \<Rightarrow> nat set \<Rightarrow> addr set \<Rightarrow> (addr \<Rightarrow> block) \<Rightarrow> bool" where
  "tiling off H B h \<longleftrightarrow> finite B \<and> finite H \<and> blk_inside off H B h \<and> blk_disjoint B h \<and>
     blk_links B h \<and> blk_aligned B h \<and> (\<Sum>a\<in>B. HEADER_SIZE + blk_size (h a)) = card H * PAGE_SIZE"

lemma blk_linksD:
  assumes "blk_links B h"
  shows "NULL \<notin> B"
    "a \<in> B \<Longrightarrow> blk_next (h a) \<noteq> NULL \<Longrightarrow> blk_next (h a) = a + HEADER_SIZE + blk_size (h a)"
    "a \<in> B \<Longrightarrow> blk_next (h a) \<noteq> NULL \<Longrightarrow> blk_next (h a) \<in> B"
    "a \<in> B \<Longrightarrow> blk_next (h a) \<noteq> NULL \<Longrightarrow> blk_prev (h (blk_next (h a))) = a"
    "a \<in> B \<Longrightarrow> blk_prev (h a) \<noteq> NULL \<Longrightarrow> blk_prev (h a) \<in> B"
    "a \<in> B \<Longrightarrow> blk_prev (h a) \<noteq> NULL \<Longrightarrow> blk_next (h (blk_prev (h a))) = a"
  using assms unfolding blk_links_def by blast+

lemma tilingD:
  assumes "tiling off H B h"
  shows "finite B" "finite H" "blk_inside off H B h" "blk_disjoint B h" "blk_links B h" "blk_aligned B h"
    "(\<Sum>a\<in>B. HEADER_SIZE + blk_size (h a)) = card H * PAGE_SIZE"
  using assms unfolding tiling_def by blast+

lemma blk_bytes_cong: "blk_size (h' a) = blk_size (h a) \<Longrightarrow> blk_bytes h' a = blk_bytes h a"
  by (simp add: blk_bytes_def)

lemma tiling_cong:
  assumes "\<And>a. a \<in> B \<Longrightarrow> blk_size (h' a) = blk_size (h a) \<and> blk_next (h' a) = blk_next (h a) \<and>
      blk_prev (h' a) = blk_prev (h a)"
    and t: "tiling off H B h"
  shows "tiling off H B h'"
proof -
  note T = tilingD[OF t]
  have b: "blk_bytes h' a = blk_bytes h a" if "a \<in> B" for a
    using assms(1)[OF that] by (intro blk_bytes_cong) simp
  have "blk_links B h'"
    using T(5) assms(1) unfolding blk_links_def by (metis (no_types, lifting))
  moreover have "(\<Sum>a\<in>B. HEADER_SIZE + blk_size (h' a)) = (\<Sum>a\<in>B. HEADER_SIZE + blk_size (h a))"
    using assms(1) by (intro sum.cong) simp_all
  moreover have "blk_inside off H B h'" using T(3) b unfolding blk_inside_def by simp
  moreover have "blk_disjoint B h'" using T(4) b unfolding blk_disjoint_def by simp
  moreover have "blk_aligned B h'" using T(6) assms(1) unfolding blk_aligned_def by simp
  ultimately show ?thesis using T unfolding tiling_def by simp
qed

lemma blk_bytes_self: "a \<in> blk_bytes h a"
  by (simp add: blk_bytes_def)

text \<open>Every block lies below the end of physical memory, so addresses in it do not wrap around.\<close>

lemma blk_inside_bound:
  assumes "blk_inside off H B h" "H \<subseteq> {..<n}" "a \<in> B"
  shows "off \<le> a" "a + HEADER_SIZE + blk_size (h a) \<le> off + n * PAGE_SIZE"
proof -
  have x: "off \<le> x \<and> x < off + n * PAGE_SIZE" if "x \<in> blk_bytes h a" for x
  proof -
    have "off \<le> x" "(x - off) div PAGE_SIZE < n"
      using assms that unfolding blk_inside_def by blast+
    then have "x - off < n * PAGE_SIZE" by (simp add: div_less_iff_less_mult)
    with \<open>off \<le> x\<close> show ?thesis by simp
  qed
  show "off \<le> a" using x[OF blk_bytes_self] by simp
  have "a + HEADER_SIZE + blk_size (h a) - 1 \<in> blk_bytes h a" by (simp add: blk_bytes_def)
  from x[OF this] show "a + HEADER_SIZE + blk_size (h a) \<le> off + n * PAGE_SIZE" by simp
qed

section \<open>Merging, splitting and adding blocks\<close>

text \<open>The headers after the block \<open>n\<close> next to \<open>a\<close> has become part of \<open>a\<close>.\<close>

definition merged :: "addr \<Rightarrow> addr \<Rightarrow> (addr \<Rightarrow> block) \<Rightarrow> addr \<Rightarrow> block" where
  "merged a n h = (let h1 = h(a := h a\<lparr>blk_size := blk_size (h a) + (HEADER_SIZE + blk_size (h n)),
       blk_next := blk_next (h n)\<rparr>); m = blk_next (h n)
     in if m = NULL then h1 else h1(m := h1 m\<lparr>blk_prev := a\<rparr>))"

lemma merged_fields:
  assumes "blk_links B h" "a \<in> B" "n = blk_next (h a)" "n \<noteq> NULL"
  shows "blk_size (merged a n h x) = (if x = a then blk_size (h a) + (HEADER_SIZE + blk_size (h n)) else blk_size (h x))"
    "blk_next (merged a n h x) = (if x = a then blk_next (h n) else blk_next (h x))"
    "blk_prev (merged a n h x) = (if x = blk_next (h n) \<and> x \<noteq> NULL then a else blk_prev (h x))"
    "blk_used (merged a n h x) = blk_used (h x)"
    "a \<noteq> n" "n \<in> B" "blk_next (h n) \<noteq> a" "blk_next (h n) \<noteq> n"
    "n = a + HEADER_SIZE + blk_size (h a)"
proof -
  note L = blk_linksD[OF assms(1)]
  show n: "n \<in> B" "n = a + HEADER_SIZE + blk_size (h a)" using L(2,3)[OF assms(2)] assms(3,4) by auto
  then show "a \<noteq> n" by simp
  show "blk_next (h n) \<noteq> n" using L(2)[OF n(1)] assms(4) by auto
  have "a \<noteq> NULL" using L(1) assms(2) by metis
  then show "blk_next (h n) \<noteq> a" using L(2)[OF n(1)] n(2) by auto
  then show "blk_size (merged a n h x) = (if x = a then blk_size (h a) + (HEADER_SIZE + blk_size (h n)) else blk_size (h x))"
    "blk_next (merged a n h x) = (if x = a then blk_next (h n) else blk_next (h x))"
    "blk_prev (merged a n h x) = (if x = blk_next (h n) \<and> x \<noteq> NULL then a else blk_prev (h x))"
    "blk_used (merged a n h x) = blk_used (h x)"
    by (auto simp: merged_def Let_def)
qed

lemma merge_bytes:
  assumes t: "tiling off H B h" and a: "a \<in> B" and n: "n = blk_next (h a)" "n \<noteq> NULL"
  shows "blk_bytes (merged a n h) x = (if x = a then blk_bytes h a \<union> blk_bytes h n else blk_bytes h x)"
proof (cases "x = a")
  note T = tilingD[OF t]
  note M = merged_fields[OF T(5) a n]
  let ?h = "merged a n h"
  case True
  have "{a..<n} \<union> {n..<n + HEADER_SIZE + blk_size (h n)} = {a..<n + HEADER_SIZE + blk_size (h n)}"
    using M(9) by (intro ivl_disj_un_two(3)) simp_all
  moreover have "a + HEADER_SIZE + blk_size (?h a) = n + HEADER_SIZE + blk_size (h n)"
    using M(1)[of a] M(9) by simp
  ultimately show ?thesis unfolding True blk_bytes_def M(9)[symmetric] by (simp only: if_True simp_thms)
qed (simp add: blk_bytes_def merged_fields(1)[OF tilingD(5)[OF t] a n])

lemma merge_links:
  assumes t: "tiling off H B h" and a: "a \<in> B" and n: "n = blk_next (h a)" "n \<noteq> NULL"
  shows "blk_links (B - {n}) (merged a n h)"
proof -
  note T = tilingD[OF t]
  note L = blk_linksD[OF T(5)]
  note M = merged_fields[OF T(5) a n]
  let ?h = "merged a n h"
  have nx: "blk_next (?h x) = x + HEADER_SIZE + blk_size (?h x) \<and> blk_next (?h x) \<in> B - {n} \<and>
      blk_prev (?h (blk_next (?h x))) = x" if x: "x \<in> B - {n}" "blk_next (?h x) \<noteq> NULL" for x
  proof (cases "x = a")
    case True
    have m: "blk_next (h n) \<noteq> NULL" using x(2) True by (simp add: M(1-4))
    have "blk_next (h n) = a + HEADER_SIZE + (blk_size (h a) + (HEADER_SIZE + blk_size (h n)))"
      using L(2)[OF M(6) m] M(9) by linarith
    moreover have "blk_next (h n) \<in> B - {n}" using L(3)[OF M(6) m] M(8) by blast
    ultimately show ?thesis unfolding True M(1-3) using m by (simp only: if_True simp_thms)
  next
    case False
    have m: "blk_next (h x) \<noteq> NULL" using x(2) False by (simp add: M(1-4))
    have "x \<in> B" using x(1) by simp
    note X = L(2-4)[OF this m]
    have "blk_next (h x) \<noteq> n" using X(3) L(4)[OF a] n False by auto
    moreover have "blk_next (h x) \<noteq> blk_next (h n)" using X(3) L(4)[OF M(6)] m x(1) by auto
    ultimately show ?thesis using X False m by (simp add: M(1-3))
  qed
  have pv: "blk_prev (?h x) \<in> B - {n} \<and> blk_next (?h (blk_prev (?h x))) = x"
    if x: "x \<in> B - {n}" "blk_prev (?h x) \<noteq> NULL" for x
  proof (cases "x = blk_next (h n) \<and> x \<noteq> NULL")
    case True
    then show ?thesis using a M(5) by (simp add: M(2,3))
  next
    case False
    then have p: "blk_prev (?h x) = blk_prev (h x)" unfolding M(3) by (rule if_not_P)
    have xB: "x \<in> B" using x(1) by simp
    have "x \<noteq> NULL" using xB L(1) by metis
    with False have ne: "x \<noteq> blk_next (h n)" by simp
    note X = L(5,6)[OF xB x(2)[unfolded p]]
    have "blk_prev (h x) \<noteq> n" using X(2) ne by auto
    moreover have "blk_prev (h x) \<noteq> a" using X(2) n(1) x(1) by auto
    ultimately show ?thesis unfolding p using X by (simp add: M(2))
  qed
  show ?thesis unfolding blk_links_def using nx pv L(1) by blast
qed

lemma merge_sum:
  assumes t: "tiling off H B h" and a: "a \<in> B" and n: "n = blk_next (h a)" "n \<noteq> NULL"
  shows "(\<Sum>x\<in>B - {n}. HEADER_SIZE + blk_size (merged a n h x)) = (\<Sum>x\<in>B. HEADER_SIZE + blk_size (h x))"
proof -
  note T = tilingD[OF t]
  note M = merged_fields[OF T(5) a n]
  let ?h = "merged a n h"
  have fin: "finite (B - {n} - {a})" using T(1) by simp
  have split: "sum f B = f a + (f n + sum f (B - {n} - {a}))" for f :: "addr \<Rightarrow> nat"
    using T(1) a M(5,6) by (simp add: sum.remove[of B n] sum.remove[of "B - {n}" a])
  have "(\<Sum>x\<in>B - {n} - {a}. HEADER_SIZE + blk_size (?h x)) =
      (\<Sum>x\<in>B - {n} - {a}. HEADER_SIZE + blk_size (h x))"
    by (intro sum.cong) (auto simp: M(1))
  moreover have "(\<Sum>x\<in>B - {n}. HEADER_SIZE + blk_size (?h x)) =
      HEADER_SIZE + blk_size (?h a) + (\<Sum>x\<in>B - {n} - {a}. HEADER_SIZE + blk_size (?h x))"
    using T(1) a M(5) by (intro sum.remove) simp_all
  ultimately show ?thesis
    using split[of "\<lambda>x. HEADER_SIZE + blk_size (h x)"] by (simp add: M(1))
qed

lemma tiling_merge:
  assumes t: "tiling off H B h" and a: "a \<in> B" and n: "n = blk_next (h a)" "n \<noteq> NULL"
  shows "tiling off H (B - {n}) (merged a n h)"
proof -
  note T = tilingD[OF t]
  note M = merged_fields[OF T(5) a n]
  let ?h = "merged a n h"
  note bytes = merge_bytes[OF t a n]
  have "\<exists>S \<subseteq> B. blk_bytes ?h x = (\<Union>b\<in>S. blk_bytes h b) \<and> (\<forall>b\<in>S. b = x \<or> x = a \<and> b = n)"
    if "x \<in> B - {n}" for x
    using that M(6) bytes[of x] by (intro exI[of _ "if x = a then {a, n} else {x}"]) auto
  then have "blk_inside off H (B - {n}) ?h"
    using T(3) unfolding blk_inside_def by blast
  moreover have "blk_bytes ?h x \<inter> blk_bytes ?h y = {}" if "x \<in> B - {n}" "y \<in> B - {n}" "x \<noteq> y" for x y
    using T(4) M(6) a that unfolding blk_disjoint_def bytes by auto
  then have "blk_disjoint (B - {n}) ?h" unfolding blk_disjoint_def by blast
  moreover have "blk_aligned (B - {n}) ?h"
    using T(6) a M(6) unfolding blk_aligned_def by (auto simp: M(1) mod_add_eq[symmetric])
  ultimately show ?thesis
    using T(1,2,7) merge_links[OF t a n] merge_sum[OF t a n] unfolding tiling_def by simp
qed

text \<open>The headers after \<open>a\<close> has been cut to a payload of \<open>sz\<close> bytes.\<close>

definition splitted :: "addr \<Rightarrow> size_t \<Rightarrow> (addr \<Rightarrow> block) \<Rightarrow> addr \<Rightarrow> block" where
  "splitted a sz h = (let c = a + HEADER_SIZE + sz; m = blk_next (h a);
       h1 = (h(a := h a\<lparr>blk_size := sz, blk_next := c\<rparr>))(c := \<lparr>blk_size = blk_size (h a) - sz - HEADER_SIZE,
         blk_used = False, blk_next = m, blk_prev = a, blk_next_free = NULL, blk_prev_free = NULL\<rparr>)
     in if m = NULL then h1 else h1(m := h1 m\<lparr>blk_prev := c\<rparr>))"

lemma splitted_fields:
  assumes "blk_links B h" "blk_disjoint B h" "a \<in> B" "sz + HEADER_SIZE \<le> blk_size (h a)"
    "c = a + HEADER_SIZE + sz"
  shows "c \<notin> B" "a \<noteq> c" "blk_next (h a) \<noteq> a" "blk_next (h a) \<noteq> c" "c \<noteq> NULL"
    "blk_size (splitted a sz h x) = (if x = a then sz else if x = c then blk_size (h a) - sz - HEADER_SIZE else blk_size (h x))"
    "blk_next (splitted a sz h x) = (if x = a then c else if x = c then blk_next (h a) else blk_next (h x))"
    "blk_prev (splitted a sz h x) = (if x = c then a else if x = blk_next (h a) \<and> x \<noteq> NULL then c else blk_prev (h x))"
    "blk_used (splitted a sz h x) = (if x = c then False else blk_used (h x))"
proof -
  note L = blk_linksD[OF assms(1)]
  show ac: "a \<noteq> c" and c0: "c \<noteq> NULL" using assms(5) by simp_all
  have "c \<in> blk_bytes h a" using assms(4,5) by (simp add: blk_bytes_def)
  then show cB: "c \<notin> B"
    using assms(2,3) ac blk_bytes_self[of c h] unfolding blk_disjoint_def by blast
  have "a \<noteq> NULL" using L(1) assms(3) by metis
  then show na: "blk_next (h a) \<noteq> a" using L(2)[OF assms(3)] by auto
  show nc: "blk_next (h a) \<noteq> c" using L(3)[OF assms(3)] cB c0 by auto
  show "blk_size (splitted a sz h x) = (if x = a then sz else if x = c then blk_size (h a) - sz - HEADER_SIZE else blk_size (h x))"
    "blk_next (splitted a sz h x) = (if x = a then c else if x = c then blk_next (h a) else blk_next (h x))"
    "blk_prev (splitted a sz h x) = (if x = c then a else if x = blk_next (h a) \<and> x \<noteq> NULL then c else blk_prev (h x))"
    "blk_used (splitted a sz h x) = (if x = c then False else blk_used (h x))"
    using ac na nc unfolding splitted_def Let_def assms(5)[symmetric] by (simp_all split: if_split)
qed

text \<open>The two parts of \<open>a\<close> are where \<open>a\<close> was, every other block is where it was.\<close>

lemma split_bytes:
  assumes t: "tiling off H B h" and a: "a \<in> B" and sz: "sz + HEADER_SIZE \<le> blk_size (h a)"
    and c: "c = a + HEADER_SIZE + sz"
  shows "a + HEADER_SIZE + blk_size (splitted a sz h a) = c"
    "c + HEADER_SIZE + blk_size (splitted a sz h c) = a + HEADER_SIZE + blk_size (h a)"
    "x \<noteq> a \<Longrightarrow> x \<noteq> c \<Longrightarrow> blk_bytes (splitted a sz h) x = blk_bytes h x"
    "blk_bytes (splitted a sz h) a \<subseteq> blk_bytes h a" "blk_bytes (splitted a sz h) c \<subseteq> blk_bytes h a"
    "blk_bytes (splitted a sz h) a \<inter> blk_bytes (splitted a sz h) c = {}"
proof -
  note T = tilingD[OF t]
  note S = splitted_fields[OF T(5,4) a sz c]
  let ?h = "splitted a sz h"
  show end_c: "c + HEADER_SIZE + blk_size (?h c) = a + HEADER_SIZE + blk_size (h a)"
    using S(2) sz c by (simp add: S(6))
  show end_a: "a + HEADER_SIZE + blk_size (?h a) = c" using c by (simp add: S(6))
  show "blk_bytes ?h x = blk_bytes h x" if "x \<noteq> a" "x \<noteq> c"
    using that by (simp add: blk_bytes_def S(6))
  have bytes_a: "blk_bytes ?h a = {a..<c}" unfolding blk_bytes_def end_a ..
  have bytes_c: "blk_bytes ?h c = {c..<a + HEADER_SIZE + blk_size (h a)}" unfolding blk_bytes_def end_c ..
  show "blk_bytes ?h a \<subseteq> blk_bytes h a" "blk_bytes ?h c \<subseteq> blk_bytes h a"
    unfolding bytes_a bytes_c using sz c by (auto simp: blk_bytes_def)
  show "blk_bytes ?h a \<inter> blk_bytes ?h c = {}" unfolding bytes_a bytes_c by auto
qed

lemma split_disjoint:
  assumes t: "tiling off H B h" and a: "a \<in> B" and sz: "sz + HEADER_SIZE \<le> blk_size (h a)"
    and c: "c = a + HEADER_SIZE + sz"
  shows "blk_disjoint (insert c B) (splitted a sz h)"
proof -
  note T = tilingD[OF t]
  note S = splitted_fields[OF T(5,4) a sz c]
  let ?h = "splitted a sz h"
  note Y = split_bytes[OF t a sz c]
  have o: "blk_bytes ?h x \<inter> blk_bytes ?h z = {}" if "x \<in> B" "x \<noteq> a" "z = a \<or> z = c" for x z
  proof -
    have "x \<noteq> c" using that(1) S(1) by blast
    then have "blk_bytes ?h x = blk_bytes h x" using that(2) by (simp add: Y(3))
    moreover have "blk_bytes h x \<inter> blk_bytes h a = {}"
      using T(4) that(1,2) a unfolding blk_disjoint_def by blast
    ultimately show ?thesis using that(3) Y(4,5) by blast
  qed
  have "blk_bytes ?h x \<inter> blk_bytes ?h y = {}"
    if xy: "x \<in> insert c B" "y \<in> insert c B" "x \<noteq> y" for x y
  proof -
    consider "x = a \<or> x = c" "y = a \<or> y = c" | "x \<in> B" "x \<noteq> a" "y = a \<or> y = c"
      | "y \<in> B" "y \<noteq> a" "x = a \<or> x = c" | "x \<in> B" "y \<in> B" "x \<noteq> a" "y \<noteq> a"
      using xy by blast
    then show ?thesis
    proof cases
      case 1
      then show ?thesis using Y(6) xy(3) by blast
    next
      case 2
      then show ?thesis by (rule o)
    next
      case 3
      then show ?thesis using o by blast
    next
      case 4
      then have "x \<noteq> c" "y \<noteq> c" using S(1) by blast+
      then show ?thesis
        using 4 T(4) xy(3) Y(3) unfolding blk_disjoint_def by simp
    qed
  qed
  then show ?thesis unfolding blk_disjoint_def by blast
qed

lemma split_links:
  assumes t: "tiling off H B h" and a: "a \<in> B" and sz: "sz + HEADER_SIZE \<le> blk_size (h a)"
    and c: "c = a + HEADER_SIZE + sz"
  shows "blk_links (insert c B) (splitted a sz h)"
proof -
  note T = tilingD[OF t]
  note L = blk_linksD[OF T(5)]
  note S = splitted_fields[OF T(5,4) a sz c]
  let ?h = "splitted a sz h"
  note Y = split_bytes[OF t a sz c]
  have nx: "blk_next (?h x) = x + HEADER_SIZE + blk_size (?h x) \<and> blk_next (?h x) \<in> insert c B \<and>
      blk_prev (?h (blk_next (?h x))) = x" if x: "x \<in> insert c B" "blk_next (?h x) \<noteq> NULL" for x
  proof -
    consider "x = a" | "x = c" | "x \<in> B" "x \<noteq> a" "x \<noteq> c" using x(1) by blast
    then show ?thesis
    proof cases
      case 1
      then show ?thesis using Y(1) by (simp add: S(7,8))
    next
      case 2
      have n: "blk_next (?h c) = blk_next (h a)" using S(2) by (simp add: S(7))
      then have m: "blk_next (h a) \<noteq> NULL" using x(2) 2 by simp
      have "blk_prev (?h (blk_next (h a))) = c" using m S(4) by (simp add: S(8))
      with n show ?thesis unfolding 2 Y(2) using L(2,3)[OF a m] by simp
    next
      case 3
      have n: "blk_next (?h x) = blk_next (h x)" using 3(2,3) by (simp add: S(7))
      then have m: "blk_next (h x) \<noteq> NULL" using x(2) by simp
      note X = L(2-4)[OF 3(1) m]
      have "blk_next (h x) \<noteq> c" using X(2) S(1) by blast
      moreover have "blk_next (h x) \<noteq> blk_next (h a)" using X(3) L(4)[OF a] m 3(2) by auto
      ultimately have "blk_prev (?h (blk_next (h x))) = x" using X(3) by (simp add: S(8))
      with n X(1,2) 3(2,3) show ?thesis by (simp add: S(6))
    qed
  qed
  have pv: "blk_prev (?h x) \<in> insert c B \<and> blk_next (?h (blk_prev (?h x))) = x"
    if x: "x \<in> insert c B" "blk_prev (?h x) \<noteq> NULL" for x
  proof -
    consider "x = c" | "x \<noteq> c" "x = blk_next (h a) \<and> x \<noteq> NULL"
      | "x \<noteq> c" "\<not> (x = blk_next (h a) \<and> x \<noteq> NULL)" by blast
    then show ?thesis
    proof cases
      case 1
      then have "blk_prev (?h x) = a" by (simp add: S(8))
      with 1 a show ?thesis by (simp add: S(7))
    next
      case 2
      then have "blk_prev (?h x) = c" by (simp add: S(8))
      with 2 S(2) show ?thesis by (simp add: S(7))
    next
      case 3
      then have p: "blk_prev (?h x) = blk_prev (h x)" unfolding S(8) by (simp only: if_False)
      have xB: "x \<in> B" using x(1) 3(1) by blast
      note X = L(5,6)[OF xB x(2)[unfolded p]]
      have "x \<noteq> NULL" using xB L(1) by metis
      then have "blk_prev (h x) \<noteq> a" using X(2) 3(2) by auto
      moreover have "blk_prev (h x) \<noteq> c" using X(1) S(1) by blast
      ultimately show ?thesis unfolding p using X by (simp add: S(7))
    qed
  qed
  show ?thesis unfolding blk_links_def using nx pv L(1) S(5) by blast
qed

lemma split_sum:
  assumes t: "tiling off H B h" and a: "a \<in> B" and sz: "sz + HEADER_SIZE \<le> blk_size (h a)"
    and c: "c = a + HEADER_SIZE + sz"
  shows "(\<Sum>x\<in>insert c B. HEADER_SIZE + blk_size (splitted a sz h x)) = (\<Sum>x\<in>B. HEADER_SIZE + blk_size (h x))"
proof -
  note T = tilingD[OF t]
  note S = splitted_fields[OF T(5,4) a sz c]
  let ?h = "splitted a sz h"
  have "(\<Sum>x\<in>B. HEADER_SIZE + blk_size (?h x)) =
      HEADER_SIZE + blk_size (?h a) + (\<Sum>x\<in>B - {a}. HEADER_SIZE + blk_size (?h x))"
    using T(1) a by (intro sum.remove) simp_all
  also have "(\<Sum>x\<in>B - {a}. HEADER_SIZE + blk_size (?h x)) = (\<Sum>x\<in>B - {a}. HEADER_SIZE + blk_size (h x))"
    using S(1) by (intro sum.cong) (auto simp: S(6))
  finally have "(\<Sum>x\<in>insert c B. HEADER_SIZE + blk_size (?h x)) =
      HEADER_SIZE + blk_size (?h c) + (HEADER_SIZE + blk_size (?h a)) +
      (\<Sum>x\<in>B - {a}. HEADER_SIZE + blk_size (h x))"
    using T(1) S(1) by simp
  also have "HEADER_SIZE + blk_size (?h c) + (HEADER_SIZE + blk_size (?h a)) = HEADER_SIZE + blk_size (h a)"
    using split_bytes(1,2)[OF t a sz c] by linarith
  also have "HEADER_SIZE + blk_size (h a) + (\<Sum>x\<in>B - {a}. HEADER_SIZE + blk_size (h x)) =
      (\<Sum>x\<in>B. HEADER_SIZE + blk_size (h x))"
    using T(1) a by (intro sum.remove[symmetric]) simp_all
  finally show ?thesis .
qed

lemma tiling_split:
  assumes t: "tiling off H B h" and a: "a \<in> B" and sz: "sz + HEADER_SIZE \<le> blk_size (h a)" "sz mod 8 = 0"
    and c: "c = a + HEADER_SIZE + sz"
  shows "tiling off H (insert c B) (splitted a sz h)"
proof -
  note T = tilingD[OF t]
  note S = splitted_fields[OF T(5,4) a sz(1) c]
  note Y = split_bytes[OF t a sz(1) c]
  have "\<exists>z\<in>B. y \<in> blk_bytes h z" if "x \<in> insert c B" "y \<in> blk_bytes (splitted a sz h) x" for x y
    using that Y(3)[of x] Y(4,5) a by (cases "x = a \<or> x = c") auto
  then have "blk_inside off H (insert c B) (splitted a sz h)" using T(3) unfolding blk_inside_def by blast
  moreover have "blk_aligned (insert c B) (splitted a sz h)"
  proof -
    have a8: "a mod 8 = 0" "blk_size (h a) mod 8 = 0" using T(6) a unfolding blk_aligned_def by blast+
    then have c8: "c mod 8 = 0" using c sz(2) by presburger
    have "(blk_size (h a) - sz - HEADER_SIZE) mod 8 = 0" using a8(2) sz by presburger
    with a8 c8 show ?thesis
      using T(6) sz(2) unfolding blk_aligned_def by (auto simp: S(6))
  qed
  ultimately show ?thesis
    using T(1,2,7) split_disjoint[OF t a sz(1) c] split_links[OF t a sz(1) c] split_sum[OF t a sz(1) c]
    unfolding tiling_def by simp
qed

text \<open>A new arena of \<open>n\<close> frames from frame \<open>st\<close> on: one block.\<close>

lemma new_bytes:
  assumes t: "tiling off H B h" and st: "{st..<st + n} \<inter> H = {}" "0 < n" "a = off + st * PAGE_SIZE"
    and b: "blk_size b = n * PAGE_SIZE - HEADER_SIZE"
  shows "x \<in> blk_bytes (h(a := b)) a \<Longrightarrow> (x - off) div PAGE_SIZE \<in> {st..<st + n} \<and> off \<le> x"
    "x \<in> B \<Longrightarrow> blk_bytes (h(a := b)) a \<inter> blk_bytes h x = {}" "a \<notin> B"
proof -
  note T = tilingD[OF t]
  let ?h = "h(a := b)"
  have n: "HEADER_SIZE \<le> n * PAGE_SIZE" using st(2) by simp
  have bytes_a: "blk_bytes ?h a = {a..<a + n * PAGE_SIZE}" using n by (simp add: blk_bytes_def b(1))
  show fr: "(x - off) div PAGE_SIZE \<in> {st..<st + n} \<and> off \<le> x" if x: "x \<in> blk_bytes ?h a" for x
  proof -
    have "off \<le> x" "st * PAGE_SIZE \<le> x - off" "x - off < (st + n) * PAGE_SIZE"
      using x st(3) unfolding bytes_a by (auto simp: add_mult_distrib)
    moreover from this(2) have "st \<le> (x - off) div PAGE_SIZE"
      by (simp add: less_eq_div_iff_mult_less_eq)
    moreover have "(x - off) div PAGE_SIZE < st + n"
      using \<open>x - off < (st + n) * PAGE_SIZE\<close> by (simp add: div_less_iff_less_mult)
    ultimately show ?thesis by simp
  qed
  show dis: "blk_bytes ?h a \<inter> blk_bytes h x = {}" if "x \<in> B" for x
  proof -
    have "(y - off) div PAGE_SIZE \<in> H" if "y \<in> blk_bytes h x" for y
      using T(3) \<open>x \<in> B\<close> that unfolding blk_inside_def by blast
    then show ?thesis using fr st(1) by (meson disjoint_iff)
  qed
  show "a \<notin> B" using dis[of a] blk_bytes_self[of a h] blk_bytes_self[of a ?h] by (meson disjoint_iff)
qed

lemma new_disjoint:
  assumes t: "tiling off H B h" and st: "{st..<st + n} \<inter> H = {}" "0 < n" "a = off + st * PAGE_SIZE"
    and b: "blk_size b = n * PAGE_SIZE - HEADER_SIZE"
  shows "blk_disjoint (insert a B) (h(a := b))"
proof -
  let ?h = "h(a := b)"
  note N = new_bytes[OF t st b]
  have o: "blk_bytes ?h z = blk_bytes h z" if "z \<in> B" for z using that N(3) by (intro blk_bytes_cong) auto
  have "blk_bytes ?h x \<inter> blk_bytes ?h y = {}" if xy: "x \<in> insert a B" "y \<in> insert a B" "x \<noteq> y" for x y
  proof -
    consider "x = a" "y \<in> B" | "y = a" "x \<in> B" | "x \<in> B" "y \<in> B" using xy by blast
    then show ?thesis
    proof cases
      case 3
      then show ?thesis using tilingD(4)[OF t] xy(3) o unfolding blk_disjoint_def by simp
    next
      case 1
      then show ?thesis using N(2)[OF 1(2)] o[OF 1(2)] by simp
    next
      case 2
      then show ?thesis using N(2)[OF 2(2)] o[OF 2(2)] by (simp add: Int_commute)
    qed
  qed
  then show ?thesis unfolding blk_disjoint_def by blast
qed

lemma tiling_new:
  assumes t: "tiling off H B h" and st: "{st..<st + n} \<inter> H = {}" "0 < n" "a = off + st * PAGE_SIZE" "a \<noteq> NULL"
    and b: "blk_size b = n * PAGE_SIZE - HEADER_SIZE" "blk_next b = NULL" "blk_prev b = NULL"
    and off: "off mod 8 = 0"
  shows "tiling off (H \<union> {st..<st + n}) (insert a B) (h(a := b))" "a \<notin> B"
proof -
  note T = tilingD[OF t]
  note L = blk_linksD[OF T(5)]
  note N = new_bytes[OF t st(1-3) b(1)]
  let ?h = "h(a := b)"
  show aB: "a \<notin> B" by (rule N(3))
  have n: "HEADER_SIZE \<le> n * PAGE_SIZE" using st(2) by simp
  have o: "?h x = h x" if "x \<in> B" for x using that aB by auto
  have "off \<le> y \<and> (y - off) div PAGE_SIZE \<in> H \<union> {st..<st + n}" if "x \<in> insert a B" "y \<in> blk_bytes ?h x" for x y
  proof (cases "x = a")
    case False
    then have xB: "x \<in> B" using that(1) by blast
    then have "y \<in> blk_bytes h x" using that(2) blk_bytes_cong[of ?h x h] o by simp
    with T(3) xB show ?thesis unfolding blk_inside_def by blast
  qed (use N(1) that(2) in blast)
  then have "blk_inside off (H \<union> {st..<st + n}) (insert a B) ?h" unfolding blk_inside_def by blast
  moreover have "blk_links (insert a B) ?h"
  proof -
    have "blk_next (h x) \<noteq> a" "blk_prev (h x) \<noteq> a" if "x \<in> B" for x
      using L(3,5)[OF that] aB st(4) by auto
    then show ?thesis
      using T(5) b(2,3) aB st(4) unfolding blk_links_def by simp
  qed
  moreover have "blk_aligned (insert a B) ?h"
  proof -
    have "a mod 8 = 0" using st(3) off by presburger
    moreover have "blk_size b = (n * 512 - 6) * 8" using b(1) by (simp add: diff_mult_distrib)
    then have "blk_size b mod 8 = 0" by simp
    ultimately show ?thesis using T(6) unfolding blk_aligned_def by simp
  qed
  moreover have "(\<Sum>x\<in>insert a B. HEADER_SIZE + blk_size (?h x)) = card (H \<union> {st..<st + n}) * PAGE_SIZE"
  proof -
    have "card (H \<union> {st..<st + n}) = card H + n" using T(2) st(1) by (simp add: card_Un_disjoint Int_commute)
    moreover have "(\<Sum>x\<in>B. HEADER_SIZE + blk_size (?h x)) = (\<Sum>x\<in>B. HEADER_SIZE + blk_size (h x))"
      using o by (intro sum.cong) simp_all
    ultimately show ?thesis using T(1,7) aB n by (simp add: b(1) add_mult_distrib)
  qed
  ultimately show "tiling off (H \<union> {st..<st + n}) (insert a B) ?h"
    using T(1,2) new_disjoint[OF t st(1-3) b(1)] unfolding tiling_def by simp
qed

section \<open>The free list in the headers\<close>

definition hdr :: "'a heap_state_scheme \<Rightarrow> addr \<Rightarrow> block" where
  "hdr s a = the (hdrs s a)"

text \<open>\<open>s\<close> has the headers \<open>h\<close>, up to the links of the free list.\<close>

definition looks :: "'a heap_state_scheme \<Rightarrow> (addr \<Rightarrow> block) \<Rightarrow> bool" where
  "looks s h \<longleftrightarrow> (\<forall>x. blk_size (hdr s x) = blk_size (h x) \<and> blk_used (hdr s x) = blk_used (h x) \<and>
     blk_next (hdr s x) = blk_next (h x) \<and> blk_prev (hdr s x) = blk_prev (h x))"

text \<open>The free list of \<open>s\<close> is \<open>fl\<close>.\<close>

definition flist :: "addr list \<Rightarrow> 'a heap_state_scheme \<Rightarrow> bool" where
  "flist fl s \<longleftrightarrow> set fl \<subseteq> dom (hdrs s) \<and>
     dlist (\<lambda>a. blk_next_free (hdr s a)) (\<lambda>a. blk_prev_free (hdr s a)) (free_head s) fl"

text \<open>Only the heap's own bookkeeping differs between \<open>s\<close> and \<open>s'\<close>.\<close>

definition heap_frame :: "'a heap_state_scheme \<Rightarrow> 'a heap_state_scheme \<Rightarrow> bool" where
  "heap_frame s s' \<longleftrightarrow> (\<exists>h p u. s' = s\<lparr>hdrs := h, free_head := p, heap_used := u\<rparr>)"

lemma looks_refl [simp]: "looks s (hdr s)"
  by (simp add: looks_def)

lemma heap_frame_refl [simp]: "heap_frame s s"
proof -
  have "s = s\<lparr>hdrs := hdrs s, free_head := free_head s, heap_used := heap_used s\<rparr>" by simp
  then show ?thesis unfolding heap_frame_def by blast
qed

lemma heap_frame_trans [trans]:
  assumes "heap_frame s s1" "heap_frame s1 s2"
  shows "heap_frame s s2"
proof -
  from assms obtain h p u h' p' u' where
    "s1 = s\<lparr>hdrs := h, free_head := p, heap_used := u\<rparr>"
    "s2 = s1\<lparr>hdrs := h', free_head := p', heap_used := u'\<rparr>" unfolding heap_frame_def by blast
  then have "s2 = s\<lparr>hdrs := h', free_head := p', heap_used := u'\<rparr>" by simp
  then show ?thesis unfolding heap_frame_def by blast
qed

lemma heap_frame_upd:
  "heap_frame s (s\<lparr>hdrs := h\<rparr>)" "heap_frame s (s\<lparr>free_head := p\<rparr>)" "heap_frame s (s\<lparr>heap_used := u\<rparr>)"
proof -
  have "s\<lparr>hdrs := h\<rparr> = s\<lparr>hdrs := h, free_head := free_head s, heap_used := heap_used s\<rparr>"
    "s\<lparr>free_head := p\<rparr> = s\<lparr>hdrs := hdrs s, free_head := p, heap_used := heap_used s\<rparr>"
    "s\<lparr>heap_used := u\<rparr> = s\<lparr>hdrs := hdrs s, free_head := free_head s, heap_used := u\<rparr>" by simp_all
  then show "heap_frame s (s\<lparr>hdrs := h\<rparr>)" "heap_frame s (s\<lparr>free_head := p\<rparr>)" "heap_frame s (s\<lparr>heap_used := u\<rparr>)"
    unfolding heap_frame_def by blast+
qed

lemma heap_frame_fields:
  assumes "heap_frame s s'"
  shows "heap_mem s' = heap_mem s" "heap_phys_offset s' = heap_phys_offset s"
    "total_frames s' = total_frames s" "pmm_used s' = pmm_used s" "pmm_wf s' = pmm_wf s"
    "heap_state.more s' = heap_state.more s"
  using assms unfolding heap_frame_def by (auto simp: pmm_used_def pmm_wf_def)

lemma upd_blk_Some: "a \<in> dom (hdrs s) \<Longrightarrow> upd_blk a f s = Some (s\<lparr>hdrs := (hdrs s)(a \<mapsto> f (hdr s a))\<rparr>)"
  by (auto simp: upd_blk_def hdr_def)

lemma hdrs_Some: "a \<in> dom (hdrs s) \<Longrightarrow> hdrs s a = Some (hdr s a)"
  by (auto simp: hdr_def)

lemma hdr_upd [simp]: "hdr (s\<lparr>hdrs := h(a \<mapsto> b)\<rparr>) = (hdr (s\<lparr>hdrs := h\<rparr>))(a := b)"
  "hdr (s\<lparr>hdrs := hdrs s'\<rparr>) = hdr s'"
  by (rule ext, simp add: hdr_def)+

lemma hdr_free_head [simp]: "hdr (s\<lparr>free_head := p\<rparr>) = hdr s"
  "hdr (s\<lparr>heap_used := u\<rparr>) = hdr s"
  by (rule ext, simp add: hdr_def)+

lemma free_list_add_ok:
  assumes fl: "flist fl s" and a: "a \<in> dom (hdrs s)" "a \<notin> set fl" "a \<noteq> NULL"
  obtains s' where "free_list_add a s = Some s'" "flist (a # fl) s'" "looks s' (hdr s)"
    "dom (hdrs s') = dom (hdrs s)" "heap_frame s s'" "heap_used s' = heap_used s"
proof -
  let ?p = "free_head s"
  let ?s1 = "s\<lparr>hdrs := (hdrs s)(a \<mapsto> hdr s a\<lparr>blk_next_free := ?p, blk_prev_free := NULL\<rparr>)\<rparr>"
  have dl: "dlist (\<lambda>a. blk_next_free (hdr s a)) (\<lambda>a. blk_prev_free (hdr s a)) ?p fl"
    using fl by (simp add: flist_def)
  have p: "?p \<in> set fl" if "?p \<noteq> NULL"
    using dlist_chain[OF dl] that by (auto simp: chain_nonNULL)
  have u1: "upd_blk a (\<lambda>b. b\<lparr>blk_next_free := ?p, blk_prev_free := NULL\<rparr>) s = Some ?s1"
    by (rule upd_blk_Some[OF a(1)])
  have dl': "dlist ((\<lambda>x. blk_next_free (hdr s x))(a := ?p))
      (((\<lambda>x. blk_prev_free (hdr s x))(a := NULL))(?p := if ?p = NULL then blk_prev_free (hdr s ?p) else a)) a (a # fl)"
    by (rule dlist_add[OF dl a(2,3)])
  define s2 where "s2 = (if ?p \<noteq> NULL then ?s1\<lparr>hdrs := (hdrs ?s1)(?p \<mapsto> hdr ?s1 ?p\<lparr>blk_prev_free := a\<rparr>)\<rparr> else ?s1)"
  have u2: "(if ?p \<noteq> NULL then upd_blk ?p (\<lambda>b. b\<lparr>blk_prev_free := a\<rparr>) ?s1 else Some ?s1) = Some s2"
  proof (cases "?p = NULL")
    case False
    then have "?p \<in> dom (hdrs ?s1)" using p fl by (auto simp: flist_def)
    with False show ?thesis by (simp only: s2_def upd_blk_Some if_True if_False simp_thms)
  qed (simp add: s2_def)
  have pa: "?p \<noteq> a" using p a(2,3) by metis
  have nf: "blk_next_free (hdr s2 x) = ((\<lambda>x. blk_next_free (hdr s x))(a := ?p)) x" for x
    using pa by (simp add: s2_def)
  have pf: "blk_prev_free (hdr s2 x) = (((\<lambda>x. blk_prev_free (hdr s x))(a := NULL))
      (?p := if ?p = NULL then blk_prev_free (hdr s ?p) else a)) x" for x
    using pa a(3) by (auto simp: s2_def)
  have res: "free_list_add a s = Some (s2\<lparr>free_head := a\<rparr>)"
  proof -
    have "free_head ?s1 = ?p" by simp
    then show ?thesis by (simp only: free_list_add_def u1 u2 Option.bind.simps)
  qed
  have d2: "dom (hdrs s2) = dom (hdrs s)" using a(1) p fl by (auto simp: s2_def flist_def)
  have "flist (a # fl) (s2\<lparr>free_head := a\<rparr>)"
    using dl' fl a(1) d2 unfolding flist_def by (simp add: nf pf del: fun_upd_apply)
  moreover have "looks (s2\<lparr>free_head := a\<rparr>) (hdr s)"
    by (simp add: looks_def s2_def)
  moreover have "heap_frame s (s2\<lparr>free_head := a\<rparr>)"
    by (intro heap_frame_trans[OF _ heap_frame_upd(2)])
       (auto simp: s2_def intro: heap_frame_upd)
  moreover have "heap_used (s2\<lparr>free_head := a\<rparr>) = heap_used s" by (simp add: s2_def)
  ultimately show thesis using res d2 by (intro that[of "s2\<lparr>free_head := a\<rparr>"]) simp_all
qed

lemma free_list_remove_ok:
  assumes fl: "flist fl s" and a: "a \<in> set fl"
  obtains s' where "free_list_remove a s = Some s'" "flist (remove1 a fl) s'" "looks s' (hdr s)"
    "dom (hdrs s') = dom (hdrs s)" "heap_frame s s'" "heap_used s' = heap_used s"
proof -
  let ?nf = "\<lambda>a. blk_next_free (hdr s a)" and ?pf = "\<lambda>a. blk_prev_free (hdr s a)"
  have dl: "dlist ?nf ?pf (free_head s) fl" and dom: "set fl \<subseteq> dom (hdrs s)"
    using fl by (simp_all add: flist_def)
  note R = dlist_remove[OF dl a]
  have ad: "a \<in> dom (hdrs s)" using a dom by blast
  define s1 where "s1 = (if ?pf a \<noteq> NULL
    then s\<lparr>hdrs := (hdrs s)(?pf a \<mapsto> hdr s (?pf a)\<lparr>blk_next_free := ?nf a\<rparr>)\<rparr>
    else s\<lparr>free_head := ?nf a\<rparr>)"
  have u1: "(if ?pf a \<noteq> NULL then upd_blk (?pf a) (\<lambda>p. p\<lparr>blk_next_free := ?nf a\<rparr>) s
      else Some (s\<lparr>free_head := ?nf a\<rparr>)) = Some s1"
    using R(4) dom by (auto simp: s1_def intro!: upd_blk_Some)
  have h1: "hdr s1 a = hdr s a" using R(2) by (simp add: s1_def)
  have d1: "dom (hdrs s1) = dom (hdrs s)" using R(4) dom by (auto simp: s1_def)
  define s2 where "s2 = (if ?nf a \<noteq> NULL
    then s1\<lparr>hdrs := (hdrs s1)(?nf a \<mapsto> hdr s1 (?nf a)\<lparr>blk_prev_free := ?pf a\<rparr>)\<rparr> else s1)"
  have u2: "(if ?nf a \<noteq> NULL then upd_blk (?nf a) (\<lambda>n. n\<lparr>blk_prev_free := ?pf a\<rparr>) s1 else Some s1) = Some s2"
    using R(5) dom d1 by (auto simp: s2_def intro!: upd_blk_Some)
  have d2: "dom (hdrs s2) = dom (hdrs s)" using R(5) dom d1 by (auto simp: s2_def)
  define s3 where "s3 = s2\<lparr>hdrs := (hdrs s2)(a \<mapsto> hdr s2 a\<lparr>blk_next_free := NULL, blk_prev_free := NULL\<rparr>)\<rparr>"
  have u3: "upd_blk a (\<lambda>b. b\<lparr>blk_next_free := NULL, blk_prev_free := NULL\<rparr>) s2 = Some s3"
    unfolding s3_def using ad d2 by (intro upd_blk_Some) simp
  have res: "free_list_remove a s = Some s3"
  proof -
    have "hdrs s a = Some (hdr s a)" "hdrs s1 a = Some (hdr s a)"
      using ad d1 h1 by (simp_all only: hdrs_Some)
    then show ?thesis by (simp only: free_list_remove_def u1 u2 u3 Option.bind.simps)
  qed
  have h2: "hdr s2 a = hdr s a" using h1 R(3) by (simp add: s2_def)
  have as: "a \<notin> set (remove1 a fl)" using dlist_distinct[OF dl] by simp
  let ?nf' = "if ?pf a = NULL then ?nf else ?nf(?pf a := ?nf a)"
  let ?pf' = "if ?nf a = NULL then ?pf else ?pf(?nf a := ?pf a)"
  have nf: "blk_next_free (hdr s3 x) = ?nf' x" if "x \<noteq> a" for x
    using that R(3) by (auto simp: s3_def s2_def s1_def)
  have pf: "blk_prev_free (hdr s3 x) = ?pf' x" if "x \<noteq> a" for x
    using that R(2) by (auto simp: s3_def s2_def s1_def)
  have head: "free_head s3 = (if ?pf a = NULL then ?nf a else free_head s)"
    by (simp add: s3_def s2_def s1_def)
  have "dlist ?nf' ?pf' (free_head s3) (remove1 a fl)" unfolding head by (rule R(1))
  then have "dlist (\<lambda>x. blk_next_free (hdr s3 x)) (\<lambda>x. blk_prev_free (hdr s3 x)) (free_head s3) (remove1 a fl)"
    using nf pf as by (subst dlist_cong[of _ _ ?nf' _ ?pf']) (metis (no_types, lifting))+
  moreover have d3: "dom (hdrs s3) = dom (hdrs s)" using d2 ad by (auto simp: s3_def)
  moreover have "set (remove1 a fl) \<subseteq> set fl" by (rule set_remove1_subset)
  ultimately have "flist (remove1 a fl) s3" using dom unfolding flist_def by blast
  moreover have "looks s3 (hdr s)"
    by (auto simp: looks_def s3_def s2_def s1_def)
  moreover have "heap_frame s s3"
  proof -
    have "heap_frame s s1" by (auto simp: s1_def intro: heap_frame_upd)
    also have "heap_frame s1 s2" by (auto simp: s2_def intro: heap_frame_upd)
    also have "heap_frame s2 s3" unfolding s3_def by (rule heap_frame_upd)
    finally show ?thesis .
  qed
  moreover have "heap_used s3 = heap_used s" by (simp add: s3_def s2_def s1_def)
  ultimately show thesis using res d3 by (intro that)
qed

section \<open>Invariant\<close>

text \<open>
  \<open>B\<close> are the blocks, \<open>H\<close> the frames of the heap, \<open>fl\<close> its free list. \<open>heap_core\<close> holds
  also in the middle of an operation; \<open>heap_inv\<close> adds what holds between operations: no two
  neighbours are both free.
\<close>

definition heap_env :: "nat set \<Rightarrow> 'a heap_state_scheme \<Rightarrow> bool" where
  "heap_env H s \<longleftrightarrow> pmm_wf s \<and> 0 \<in> pmm_used s \<and> heap_phys_offset s mod 8 = 0 \<and>
     heap_phys_offset s + total_frames s * PAGE_SIZE < two64 \<and> H \<subseteq> pmm_used s - {0}"

definition free_set :: "addr set \<Rightarrow> (addr \<Rightarrow> block) \<Rightarrow> addr set" where
  "free_set B h = {a \<in> B. \<not> blk_used (h a)}"

definition used_set :: "addr set \<Rightarrow> (addr \<Rightarrow> block) \<Rightarrow> addr set" where
  "used_set B h = {a \<in> B. blk_used (h a)}"

definition used_sum :: "addr set \<Rightarrow> (addr \<Rightarrow> block) \<Rightarrow> nat" where
  "used_sum B h = (\<Sum>a\<in>used_set B h. blk_size (h a))"

definition heap_core :: "addr set \<Rightarrow> nat set \<Rightarrow> addr list \<Rightarrow> 'a heap_state_scheme \<Rightarrow> bool" where
  "heap_core B H fl s \<longleftrightarrow> heap_env H s \<and> B \<subseteq> dom (hdrs s) \<and>
     tiling (heap_phys_offset s) H B (hdr s) \<and> flist fl s \<and> set fl = free_set B (hdr s) \<and>
     heap_used s = used_sum B (hdr s)"

text \<open>The blocks whose right neighbour is free while they are free themselves.\<close>

definition free_pairs :: "addr set \<Rightarrow> (addr \<Rightarrow> block) \<Rightarrow> addr set" where
  "free_pairs B h = {a \<in> B. \<not> blk_used (h a) \<and> blk_next (h a) \<noteq> NULL \<and> \<not> blk_used (h (blk_next (h a)))}"

definition heap_inv :: "addr set \<Rightarrow> nat set \<Rightarrow> addr list \<Rightarrow> 'a heap_state_scheme \<Rightarrow> bool" where
  "heap_inv B H fl s \<longleftrightarrow> heap_core B H fl s \<and> free_pairs B (hdr s) = {}"

lemma heap_coreD:
  assumes "heap_core B H fl s"
  shows "heap_env H s" "B \<subseteq> dom (hdrs s)" "tiling (heap_phys_offset s) H B (hdr s)" "flist fl s"
    "set fl = free_set B (hdr s)" "heap_used s = used_sum B (hdr s)"
  using assms unfolding heap_core_def by blast+

lemma heap_env_frame: "heap_frame s s' \<Longrightarrow> heap_env H s' = heap_env H s"
  by (simp add: heap_env_def heap_frame_fields)

lemma looks_trans: "looks s' h \<Longrightarrow> (\<And>x. blk_size (h x) = blk_size (h' x) \<and> blk_used (h x) = blk_used (h' x) \<and>
    blk_next (h x) = blk_next (h' x) \<and> blk_prev (h x) = blk_prev (h' x)) \<Longrightarrow> looks s' h'"
  by (simp add: looks_def)

lemma looksD: "looks s h \<Longrightarrow> blk_size (hdr s x) = blk_size (h x)" "looks s h \<Longrightarrow> blk_used (hdr s x) = blk_used (h x)"
  "looks s h \<Longrightarrow> blk_next (hdr s x) = blk_next (h x)" "looks s h \<Longrightarrow> blk_prev (hdr s x) = blk_prev (h x)"
  by (simp_all add: looks_def)

lemma looks_sets:
  assumes "looks s h"
  shows "free_set B (hdr s) = free_set B h" "used_set B (hdr s) = used_set B h"
    "used_sum B (hdr s) = used_sum B h" "free_pairs B (hdr s) = free_pairs B h"
    "tiling off H B (hdr s) = tiling off H B h"
proof -
  show "free_set B (hdr s) = free_set B h" "used_set B (hdr s) = used_set B h"
    "free_pairs B (hdr s) = free_pairs B h"
    using looksD[OF assms] by (simp_all add: free_set_def used_set_def free_pairs_def)
  then show "used_sum B (hdr s) = used_sum B h"
    using looksD(1)[OF assms] by (simp add: used_sum_def)
  show "tiling off H B (hdr s) = tiling off H B h"
    using tiling_cong[of B "hdr s" h off H] tiling_cong[of B h "hdr s" off H] looksD[OF assms] by fastforce
qed

text \<open>Building the core of a new state from the headers it shows.\<close>

lemma heap_coreI:
  assumes "heap_env H s" "B \<subseteq> dom (hdrs s)" "looks s h" "tiling (heap_phys_offset s) H B h" "flist fl s"
    "set fl = free_set B h" "heap_used s = used_sum B h"
  shows "heap_core B H fl s"
  using assms by (simp add: heap_core_def looks_sets[OF assms(3)])

lemma heap_core_bounds:
  assumes "heap_core B H fl s" "a \<in> B"
  shows "a + HEADER_SIZE + blk_size (hdr s a) < two64" "a \<noteq> NULL" "blk_size (hdr s a) < two64"
    "a + HEADER_SIZE + blk_size (hdr s a) \<le> heap_phys_offset s + total_frames s * PAGE_SIZE"
proof -
  note C = heap_coreD[OF assms(1)]
  have "H \<subseteq> {..<total_frames s}"
    using C(1) pmm_used_bounded[of s] unfolding heap_env_def by blast
  from blk_inside_bound(2)[OF tilingD(3)[OF C(3)] this assms(2)]
  show "a + HEADER_SIZE + blk_size (hdr s a) \<le> heap_phys_offset s + total_frames s * PAGE_SIZE" .
  also have "\<dots> < two64" using C(1) unfolding heap_env_def by blast
  finally show "a + HEADER_SIZE + blk_size (hdr s a) < two64" .
  then show "blk_size (hdr s a) < two64" by simp
  show "a \<noteq> NULL" using blk_linksD(1)[OF tilingD(5)[OF C(3)]] assms(2) by metis
qed

lemma merged_free_links [simp]:
  "blk_next_free (merged a n h x) = blk_next_free (h x)" "blk_prev_free (merged a n h x) = blk_prev_free (h x)"
  by (simp_all add: merged_def Let_def)

lemma flist_links:
  assumes "flist fl s" "dom (hdrs s) \<subseteq> dom (hdrs s')" "free_head s' = free_head s"
    "\<And>x. x \<in> set fl \<Longrightarrow> blk_next_free (hdr s' x) = blk_next_free (hdr s x) \<and>
       blk_prev_free (hdr s' x) = blk_prev_free (hdr s x)"
  shows "flist fl s'"
proof -
  have "dlist (\<lambda>a. blk_next_free (hdr s' a)) (\<lambda>a. blk_prev_free (hdr s' a)) (free_head s') fl =
      dlist (\<lambda>a. blk_next_free (hdr s a)) (\<lambda>a. blk_prev_free (hdr s a)) (free_head s) fl"
    unfolding assms(3) using assms(4) by (intro dlist_cong) simp
  then show ?thesis using assms(1,2) unfolding flist_def by blast
qed

section \<open>The steps of the operations keep the core\<close>

lemma absorb_headers:
  assumes l1: "blk_links B (hdr s1)" and B: "B \<subseteq> dom (hdrs s1)" and a: "a \<in> B" and n: "n = blk_next (hdr s1 a)" "n \<noteq> NULL"
    and sz: "add64 (blk_size (hdr s1 a)) (add64 HEADER_SIZE (blk_size (hdr s1 n))) = blk_size (hdr s1 a) + (HEADER_SIZE + blk_size (hdr s1 n))"
    and s1: "free_list_remove n s = Some s1"
  obtains s3 where "absorb a n s = Some s3" "hdr s3 = merged a n (hdr s1)" "heap_frame s1 s3" "dom (hdrs s3) = dom (hdrs s1)"
    "free_head s3 = free_head s1" "heap_used s3 = heap_used s1"
proof -
  have nB: "n \<in> B" using merged_fields(6)[OF l1 a n] .
  have d: "a \<in> dom (hdrs s1)" "n \<in> dom (hdrs s1)" using B a nB by blast+
  let ?nb = "hdr s1 n" and ?m = "blk_next (hdr s1 n)"
  define s2 where "s2 = s1\<lparr>hdrs := (hdrs s1)(a \<mapsto> hdr s1 a\<lparr>blk_size := blk_size (hdr s1 a) +
      (HEADER_SIZE + blk_size ?nb), blk_next := ?m\<rparr>)\<rparr>"
  have u2: "upd_blk a (\<lambda>b. b\<lparr>blk_size := add64 (blk_size b) (add64 HEADER_SIZE (blk_size ?nb)),
      blk_next := ?m\<rparr>) s1 = Some s2"
    unfolding s2_def upd_blk_Some[OF d(1)] sz ..
  define s3 where "s3 = (if ?m \<noteq> NULL then s2\<lparr>hdrs := (hdrs s2)(?m \<mapsto> hdr s2 ?m\<lparr>blk_prev := a\<rparr>)\<rparr> else s2)"
  have md: "?m \<in> dom (hdrs s2)" if "?m \<noteq> NULL"
    using blk_linksD(3)[OF l1 nB that] B by (auto simp: s2_def)
  have u3: "(if ?m \<noteq> NULL then upd_blk ?m (\<lambda>b. b\<lparr>blk_prev := a\<rparr>) s2 else Some s2) = Some s3"
    using md by (simp add: s3_def upd_blk_Some del: hdr_upd)
  have h3: "hdr s3 = merged a n (hdr s1)"
    by (simp add: s3_def s2_def merged_def Let_def)
  have res: "absorb a n s = Some s3"
    by (simp only: absorb_def s1 hdrs_Some[OF d(2)] u2 u3 Option.bind.simps)
  have "heap_frame s1 s2" unfolding s2_def by (rule heap_frame_upd)
  also have "heap_frame s2 s3" by (simp add: s3_def heap_frame_upd del: hdr_upd)
  finally have fr: "heap_frame s1 s3" .
  have d3: "dom (hdrs s3) = dom (hdrs s1)" using md d by (auto simp: s3_def s2_def)
  have "free_head s3 = free_head s1" "heap_used s3 = heap_used s1" by (simp_all add: s3_def s2_def)
  with res h3 fr d3 show thesis by (rule that)
qed

lemma absorb_core:
  assumes core: "heap_core B H fl s" and a: "a \<in> B" "\<not> blk_used (hdr s a)"
    and n: "n = blk_next (hdr s a)" "n \<noteq> NULL" "\<not> blk_used (hdr s n)"
  obtains s' where "absorb a n s = Some s'" "heap_core (B - {n}) H (remove1 n fl) s'"
    "looks s' (merged a n (hdr s))" "heap_frame s s'" "dom (hdrs s') = dom (hdrs s)"
proof -
  note C = heap_coreD[OF core]
  note T = tilingD[OF C(3)]
  have nB: "n \<in> B" using blk_linksD(3)[OF T(5) a(1)] n by simp
  have nfl: "n \<in> set fl" using C(5) nB n(3) by (simp add: free_set_def)
  obtain s1 where s1: "free_list_remove n s = Some s1" "flist (remove1 n fl) s1" "looks s1 (hdr s)"
    "dom (hdrs s1) = dom (hdrs s)" "heap_frame s s1" "heap_used s1 = heap_used s"
    using free_list_remove_ok[OF C(4) nfl] .
  note T1 = C(3)[folded looks_sets(5)[OF s1(3)]]
  have l1: "blk_links B (hdr s1)" by (rule tilingD(5)[OF T1])
  have n1: "n = blk_next (hdr s1 a)" using n(1) by (simp add: looksD[OF s1(3)])
  note M1 = merged_fields[OF l1 a(1) n1 n(2)]
  note M = merged_fields[OF T(5) a(1) n(1,2)]
  have "add64 (blk_size (hdr s1 a)) (add64 HEADER_SIZE (blk_size (hdr s1 n))) =
      blk_size (hdr s1 a) + (HEADER_SIZE + blk_size (hdr s1 n))"
    using heap_core_bounds(1)[OF core nB] M(9) by (simp add: wrap looksD[OF s1(3)])
  then obtain s3 where res: "absorb a n s = Some s3" and h3: "hdr s3 = merged a n (hdr s1)" and s3: "heap_frame s1 s3"
    "dom (hdrs s3) = dom (hdrs s1)" "free_head s3 = free_head s1" "heap_used s3 = heap_used s1"
    using absorb_headers[OF l1 _ a(1) n1 n(2) _ s1(1)] C(2) s1(4) by metis
  have L: "looks s3 (merged a n (hdr s))"
    by (simp add: looks_def h3 M1(1-4) M(1-4) looksD[OF s1(3)])
  have fr: "heap_frame s s3" using heap_frame_trans[OF s1(5) s3(1)] .
  have d3: "dom (hdrs s3) = dom (hdrs s)" using s3(2) s1(4) by simp
  have "heap_core (B - {n}) H (remove1 n fl) s3"
  proof (rule heap_coreI[OF _ _ L])
    show "heap_env H s3" using C(1) heap_env_frame[OF fr] by simp
    show "B - {n} \<subseteq> dom (hdrs s3)" using C(2) d3 by blast
    show "tiling (heap_phys_offset s3) H (B - {n}) (merged a n (hdr s))"
      using tiling_merge[OF C(3) a(1) n(1,2)] by (simp add: heap_frame_fields[OF fr])
    show "flist (remove1 n fl) s3"
      using s1(2) by (rule flist_links) (simp_all add: d3 s1(4) h3 s3(3))
    have "distinct fl" using C(4) dlist_distinct unfolding flist_def by blast
    then show "set (remove1 n fl) = free_set (B - {n}) (merged a n (hdr s))"
      using C(5) by (auto simp: free_set_def M(4))
    have "used_set (B - {n}) (merged a n (hdr s)) = used_set B (hdr s)"
      using n(3) by (auto simp: used_set_def M(4))
    moreover have "a \<notin> used_set B (hdr s)" using a(2) by (simp add: used_set_def)
    ultimately have "used_sum (B - {n}) (merged a n (hdr s)) = used_sum B (hdr s)"
      unfolding used_sum_def by (intro sum.cong) (auto simp: M(1))
    then show "heap_used s3 = used_sum (B - {n}) (merged a n (hdr s))"
      using C(6) s1(6) s3(4) by simp
  qed
  then show thesis using res L fr d3 by (intro that)
qed

text \<open>Every byte of the frames of the heap is payload or header.\<close>

lemma tiling_accounting:
  assumes "tiling off H B h"
  shows "used_sum B h + (\<Sum>a\<in>free_set B h. blk_size (h a)) + HEADER_SIZE * card B = card H * PAGE_SIZE"
proof -
  note T = tilingD[OF assms]
  have B: "B = used_set B h \<union> free_set B h" "used_set B h \<inter> free_set B h = {}"
    "finite (used_set B h)" "finite (free_set B h)"
    using T(1) by (auto simp: used_set_def free_set_def)
  have "(\<Sum>a\<in>B. blk_size (h a)) = used_sum B h + (\<Sum>a\<in>free_set B h. blk_size (h a))"
    unfolding used_sum_def by (subst B(1), rule sum.union_disjoint) (use B in simp_all)
  moreover have "(\<Sum>a\<in>B. HEADER_SIZE + blk_size (h a)) = HEADER_SIZE * card B + (\<Sum>a\<in>B. blk_size (h a))"
    by (simp add: sum.distrib)
  ultimately show ?thesis using T(7) by simp
qed

lemma heap_core_total:
  assumes "heap_core B H fl s"
  shows "used_sum B (hdr s) + (\<Sum>a\<in>free_set B (hdr s). blk_size (hdr s a)) + HEADER_SIZE * card B < two64"
proof -
  note C = heap_coreD[OF assms]
  have "H \<subseteq> {..<total_frames s}" using C(1) pmm_used_bounded[of s] unfolding heap_env_def by blast
  then have "card H \<le> total_frames s" using card_mono[of "{..<total_frames s}" H] by simp
  then have "card H * PAGE_SIZE \<le> total_frames s * PAGE_SIZE" by (rule mult_le_mono1)
  also have "\<dots> < two64" using C(1) unfolding heap_env_def by simp
  finally show ?thesis unfolding tiling_accounting[OF C(3)] .
qed

text \<open>Freeing a block, before its neighbours are looked at.\<close>

lemma release_core:
  assumes core: "heap_core B H fl s" and a: "a \<in> B" "blk_used (hdr s a)"
  defines "s1 \<equiv> s\<lparr>hdrs := (hdrs s)(a \<mapsto> hdr s a\<lparr>blk_used := False\<rparr>)\<rparr>"
  obtains s' where
    "free_list_add a (s1\<lparr>heap_used := sub64 (heap_used s1) (blk_size (hdr s a))\<rparr>) = Some s'"
    "heap_core B H (a # fl) s'" "looks s' ((hdr s)(a := hdr s a\<lparr>blk_used := False\<rparr>))"
    "heap_frame s s'" "dom (hdrs s') = dom (hdrs s)"
proof -
  note C = heap_coreD[OF core]
  note T = tilingD[OF C(3)]
  let ?h = "(hdr s)(a := hdr s a\<lparr>blk_used := False\<rparr>)"
  define s2 where "s2 = s1\<lparr>heap_used := sub64 (heap_used s1) (blk_size (hdr s a))\<rparr>"
  have ad: "a \<in> dom (hdrs s)" using C(2) a(1) by blast
  have fl_a: "a \<notin> set fl" using C(5) a(2) by (simp add: free_set_def)
  have d2: "dom (hdrs s2) = dom (hdrs s)" using ad by (auto simp: s2_def s1_def)
  have h2: "hdr s2 = ?h" by (simp add: s2_def s1_def)
  have f2: "flist fl s2"
    using C(4) by (rule flist_links) (simp_all add: d2 h2, simp add: s2_def s1_def)
  obtain s' where s': "free_list_add a s2 = Some s'" "flist (a # fl) s'" "looks s' (hdr s2)"
    "dom (hdrs s') = dom (hdrs s2)" "heap_frame s2 s'" "heap_used s' = heap_used s2"
    using free_list_add_ok[OF f2 _ fl_a heap_core_bounds(2)[OF core a(1)]] ad d2 by metis
  have L: "looks s' ?h" using s'(3) h2 by simp
  have fr: "heap_frame s s'"
  proof -
    have "heap_frame s s1" unfolding s1_def by (rule heap_frame_upd)
    also have "heap_frame s1 s2" unfolding s2_def by (rule heap_frame_upd)
    also note s'(5)
    finally show ?thesis .
  qed
  have fin: "finite (used_set B (hdr s))" using T(1) by (simp add: used_set_def)
  have us: "used_set B ?h = used_set B (hdr s) - {a}" "a \<in> used_set B (hdr s)"
    using a by (auto simp: used_set_def)
  have "used_sum B ?h = (\<Sum>x\<in>used_set B (hdr s) - {a}. blk_size (hdr s x))"
    unfolding used_sum_def us(1) by (intro sum.cong) auto
  then have sum: "used_sum B (hdr s) = blk_size (hdr s a) + used_sum B ?h"
    unfolding used_sum_def[of B "hdr s"] using fin us(2) by (simp add: sum.remove)
  have "heap_core B H (a # fl) s'"
  proof (rule heap_coreI[OF _ _ L _ s'(2)])
    show "heap_env H s'" using C(1) heap_env_frame[OF fr] by simp
    show "B \<subseteq> dom (hdrs s')" using C(2) s'(4) d2 by blast
    show "tiling (heap_phys_offset s') H B ?h"
      unfolding heap_frame_fields(2)[OF fr] using C(3) by (rule tiling_cong[rotated]) simp
    show "set (a # fl) = free_set B ?h" using C(5) a(1) by (auto simp: free_set_def)
    have "sub64 (heap_used s) (blk_size (hdr s a)) = used_sum B ?h"
      using heap_core_total[OF core] sum C(6) by (simp add: wrap)
    then show "heap_used s' = used_sum B ?h" using s'(6) by (simp add: s2_def s1_def)
  qed
  then show thesis using s'(1) L fr s'(4) d2 unfolding s2_def by (intro that[of s']) simp_all
qed

text \<open>Handing a block out.\<close>

lemma acquire_core:
  assumes core: "heap_core B H fl s" and a: "a \<in> B" "\<not> blk_used (hdr s a)"
  obtains s2 s' where "free_list_remove a s = Some s2"
    "upd_blk a (\<lambda>b. b\<lparr>blk_used := True\<rparr>) s2 = Some s'"
    "hdrs s' a = Some (hdr s' a)" "blk_size (hdr s' a) = blk_size (hdr s a)"
    "heap_core B H (remove1 a fl) (s'\<lparr>heap_used := add64 (heap_used s') (blk_size (hdr s' a))\<rparr>)"
    "looks s' ((hdr s)(a := hdr s a\<lparr>blk_used := True\<rparr>))" "heap_frame s s'" "dom (hdrs s') = dom (hdrs s)"
proof -
  note C = heap_coreD[OF core]
  note T = tilingD[OF C(3)]
  let ?h = "(hdr s)(a := hdr s a\<lparr>blk_used := True\<rparr>)"
  have ad: "a \<in> dom (hdrs s)" using C(2) a(1) by blast
  have fl_a: "a \<in> set fl" using C(5) a by (simp add: free_set_def)
  obtain s2 where s2: "free_list_remove a s = Some s2" "flist (remove1 a fl) s2" "looks s2 (hdr s)"
    "dom (hdrs s2) = dom (hdrs s)" "heap_frame s s2" "heap_used s2 = heap_used s"
    using free_list_remove_ok[OF C(4) fl_a] .
  have ad2: "a \<in> dom (hdrs s2)" using ad s2(4) by simp
  define s3 where "s3 = s2\<lparr>hdrs := (hdrs s2)(a \<mapsto> hdr s2 a\<lparr>blk_used := True\<rparr>)\<rparr>"
  have u3: "upd_blk a (\<lambda>b. b\<lparr>blk_used := True\<rparr>) s2 = Some s3"
    unfolding s3_def by (rule upd_blk_Some[OF ad2])
  have h3: "hdr s3 = (hdr s2)(a := hdr s2 a\<lparr>blk_used := True\<rparr>)" by (simp add: s3_def)
  have L: "looks s3 ?h" by (simp add: looks_def h3 looksD[OF s2(3)])
  have d3: "dom (hdrs s3) = dom (hdrs s)" using ad2 s2(4) by (auto simp: s3_def)
  have fr: "heap_frame s s3"
    using heap_frame_trans[OF s2(5)] heap_frame_upd(1) unfolding s3_def by blast
  define s4 where "s4 = s3\<lparr>heap_used := add64 (heap_used s3) (blk_size (hdr s3 a))\<rparr>"
  have L4: "looks s4 ?h" using L by (simp add: s4_def looks_def)
  have fr4: "heap_frame s s4"
    using heap_frame_trans[OF fr] heap_frame_upd(3) unfolding s4_def by blast
  have d4: "dom (hdrs s4) = dom (hdrs s)" using d3 by (simp add: s4_def)
  have fin: "finite (used_set B ?h)" "finite (free_set B (hdr s))"
    using T(1) by (simp_all add: used_set_def free_set_def)
  have us: "used_set B (hdr s) = used_set B ?h - {a}" "a \<in> used_set B ?h"
    using a by (auto simp: used_set_def)
  have "used_sum B (hdr s) = (\<Sum>x\<in>used_set B ?h - {a}. blk_size (?h x))"
    unfolding used_sum_def us(1) by (intro sum.cong) auto
  then have sum: "used_sum B ?h = blk_size (hdr s a) + used_sum B (hdr s)"
    unfolding used_sum_def[of B ?h] using fin us(2) by (simp add: sum.remove)
  have "a \<in> free_set B (hdr s)" using a by (simp add: free_set_def)
  then have "blk_size (hdr s a) \<le> (\<Sum>a\<in>free_set B (hdr s). blk_size (hdr s a))"
    using fin(2) by (intro member_le_sum) simp_all
  then have nowrap: "used_sum B (hdr s) + blk_size (hdr s a) < two64"
    using heap_core_total[OF core] by linarith
  have "heap_core B H (remove1 a fl) s4"
  proof (rule heap_coreI[OF _ _ L4])
    show "heap_env H s4" using C(1) heap_env_frame[OF fr4] by simp
    show "B \<subseteq> dom (hdrs s4)" using C(2) d4 by blast
    show "tiling (heap_phys_offset s4) H B ?h"
      unfolding heap_frame_fields(2)[OF fr4] using C(3) by (rule tiling_cong[rotated]) simp
    show "flist (remove1 a fl) s4"
      using s2(2) by (rule flist_links) (simp_all add: d4 s2(4), simp_all add: s4_def h3, simp add: s3_def)
    have "distinct fl" using C(4) dlist_distinct unfolding flist_def by blast
    then show "set (remove1 a fl) = free_set B ?h"
      using C(5) by (auto simp: free_set_def)
    have "heap_used s3 = used_sum B (hdr s)" using C(6) s2(6) by (simp add: s3_def)
    then show "heap_used s4 = used_sum B ?h"
      using sum nowrap looksD(1)[OF L, of a] by (simp add: s4_def wrap)
  qed
  then show thesis
    using s2(1) u3 L fr d3 ad hdrs_Some[of a s3] looksD(1)[OF L, of a]
    by (intro that[of s2 s3]) (simp_all add: s4_def)
qed

lemma splitted_free_links:
  assumes "x \<noteq> a + HEADER_SIZE + sz"
  shows "blk_next_free (splitted a sz h x) = blk_next_free (h x)" "blk_prev_free (splitted a sz h x) = blk_prev_free (h x)"
  using assms by (simp_all add: splitted_def Let_def)

text \<open>Cutting a free block.\<close>

lemma split_headers:
  assumes core: "heap_core B H fl s" and aB: "a \<in> B" and sz': "sz + HEADER_SIZE \<le> blk_size (hdr s a)"
    and c: "c = a + HEADER_SIZE + sz"
  obtains s4 where "split_block sz a s = free_list_add c s4" "hdr s4 = splitted a sz (hdr s)"
    "dom (hdrs s4) = insert c (dom (hdrs s))" "heap_frame s s4" "free_head s4 = free_head s" "heap_used s4 = heap_used s"
proof -
  note C = heap_coreD[OF core]
  note T = tilingD[OF C(3)]
  note S = splitted_fields[OF T(5,4) aB sz' c]
  note bd = heap_core_bounds[OF core aB]
  have ad: "a \<in> dom (hdrs s)" using C(2) aB by blast
  let ?m = "blk_next (hdr s a)"
  have ar: "add64 (add64 a HEADER_SIZE) sz = c"
    "sub64 (sub64 (blk_size (hdr s a)) sz) HEADER_SIZE = blk_size (hdr s a) - sz - HEADER_SIZE"
    using bd sz' c by (simp_all add: wrap)
  define s1 where "s1 = s\<lparr>hdrs := (hdrs s)(a \<mapsto> hdr s a\<lparr>blk_size := sz\<rparr>)\<rparr>"
  define s2 where "s2 = new_blk c \<lparr>blk_size = blk_size (hdr s a) - sz - HEADER_SIZE, blk_used = False,
      blk_next = ?m, blk_prev = a, blk_next_free = NULL, blk_prev_free = NULL\<rparr> s1"
  define s3 where "s3 = (if ?m \<noteq> NULL then s2\<lparr>hdrs := (hdrs s2)(?m \<mapsto> hdr s2 ?m\<lparr>blk_prev := c\<rparr>)\<rparr> else s2)"
  define s4 where "s4 = s3\<lparr>hdrs := (hdrs s3)(a \<mapsto> hdr s3 a\<lparr>blk_next := c\<rparr>)\<rparr>"
  have u1: "upd_blk a (\<lambda>b. b\<lparr>blk_size := sz\<rparr>) s = Some s1"
    unfolding s1_def by (rule upd_blk_Some[OF ad])
  have md: "?m \<in> dom (hdrs s)" if "?m \<noteq> NULL"
    using blk_linksD(3)[OF T(5) aB that] C(2) by blast
  have d2: "dom (hdrs s2) = insert c (dom (hdrs s))" using ad by (auto simp: s2_def new_blk_def s1_def)
  have u3: "(if ?m \<noteq> NULL then upd_blk ?m (\<lambda>b. b\<lparr>blk_prev := c\<rparr>) s2 else Some s2) = Some s3"
    using md d2 by (simp add: s3_def upd_blk_Some del: hdr_upd)
  have d3: "dom (hdrs s3) = insert c (dom (hdrs s))" using md d2 by (auto simp: s3_def)
  have u4: "upd_blk a (\<lambda>b. b\<lparr>blk_next := c\<rparr>) s3 = Some s4"
    unfolding s4_def using ad d3 by (intro upd_blk_Some) simp
  have d4: "dom (hdrs s4) = insert c (dom (hdrs s))" using ad d3 by (auto simp: s4_def)
  have h4: "hdr s4 = splitted a sz (hdr s)"
    using S(2-4) unfolding splitted_def Let_def c[symmetric]
    by (intro ext) (simp add: s4_def s3_def s2_def s1_def new_blk_def)
  have fr4: "heap_frame s s4"
  proof -
    have "heap_frame s s1" unfolding s1_def by (rule heap_frame_upd)
    also have "heap_frame s1 s2" unfolding s2_def new_blk_def by (rule heap_frame_upd)
    also have "heap_frame s2 s3" by (simp add: s3_def heap_frame_upd del: hdr_upd)
    also have "heap_frame s3 s4" unfolding s4_def by (rule heap_frame_upd)
    finally show ?thesis .
  qed
  have hd4: "free_head s4 = free_head s" "heap_used s4 = heap_used s"
    by (simp_all add: s4_def s3_def s2_def s1_def new_blk_def)
  have "split_block sz a s = free_list_add c s4"
    using u3 by (simp only: split_block_def hdrs_Some[OF ad] u1 Option.bind.simps Let_def ar s2_def[symmetric] u4)
  then show thesis using h4 d4 fr4 hd4 by (rule that)
qed

lemma split_core:
  assumes core: "heap_core B H fl s" and a: "a \<in> B" "\<not> blk_used (hdr s a)"
    and sz: "sz + HEADER_SIZE + MIN_SPLIT \<le> blk_size (hdr s a)" "sz mod 8 = 0"
    and c: "c = a + HEADER_SIZE + sz"
  obtains s' where "split_block sz a s = Some s'" "heap_core (insert c B) H (c # fl) s'"
    "looks s' (splitted a sz (hdr s))" "heap_frame s s'" "c \<notin> B"
    "dom (hdrs s') = insert c (dom (hdrs s))"
proof -
  note C = heap_coreD[OF core]
  note T = tilingD[OF C(3)]
  have sz': "sz + HEADER_SIZE \<le> blk_size (hdr s a)" using sz(1) by simp
  note S = splitted_fields[OF T(5,4) a(1) sz' c]
  obtain s4 where s4: "split_block sz a s = free_list_add c s4" and h4: "hdr s4 = splitted a sz (hdr s)"
    and d4: "dom (hdrs s4) = insert c (dom (hdrs s))" and fr4: "heap_frame s s4"
    and hd4: "free_head s4 = free_head s" "heap_used s4 = heap_used s"
    using split_headers[OF core a(1) sz' c] .
  have cfl: "c \<notin> set fl" using C(5) S(1) by (simp add: free_set_def)
  have f4: "flist fl s4"
    using C(4)
  proof (rule flist_links)
    fix x assume "x \<in> set fl"
    then have "x \<noteq> a + HEADER_SIZE + sz" using cfl c by blast
    then show "blk_next_free (hdr s4 x) = blk_next_free (hdr s x) \<and> blk_prev_free (hdr s4 x) = blk_prev_free (hdr s x)"
      unfolding h4 by (simp add: splitted_free_links)
  qed (use d4 hd4 in auto)
  obtain s' where s': "free_list_add c s4 = Some s'" "flist (c # fl) s'" "looks s' (hdr s4)"
    "dom (hdrs s') = dom (hdrs s4)" "heap_frame s4 s'" "heap_used s' = heap_used s4"
    using free_list_add_ok[OF f4 _ cfl S(5)] d4 by auto
  have L: "looks s' (splitted a sz (hdr s))" using s'(3) h4 by simp
  have fr: "heap_frame s s'" using heap_frame_trans[OF fr4 s'(5)] .
  have res: "split_block sz a s = Some s'" using s4 s'(1) by simp
  have "heap_core (insert c B) H (c # fl) s'"
  proof (rule heap_coreI[OF _ _ L _ s'(2)])
    show "heap_env H s'" using C(1) heap_env_frame[OF fr] by simp
    show "insert c B \<subseteq> dom (hdrs s')" using C(2) s'(4) d4 by blast
    show "tiling (heap_phys_offset s') H (insert c B) (splitted a sz (hdr s))"
      unfolding heap_frame_fields(2)[OF fr] using C(3) a(1) sz' sz(2) c by (rule tiling_split)
    show "set (c # fl) = free_set (insert c B) (splitted a sz (hdr s))"
      using C(5) S(1) by (auto simp: free_set_def S(9))
    have "used_set (insert c B) (splitted a sz (hdr s)) = used_set B (hdr s)"
      using S(1) by (auto simp: used_set_def S(9))
    moreover have "a \<notin> used_set B (hdr s)" "c \<notin> used_set B (hdr s)"
      using a(2) S(1) by (simp_all add: used_set_def)
    ultimately have "used_sum (insert c B) (splitted a sz (hdr s)) = used_sum B (hdr s)"
      unfolding used_sum_def by (intro sum.cong) (auto simp: S(6))
    then show "heap_used s' = used_sum (insert c B) (splitted a sz (hdr s))"
      using C(6) s'(6) hd4 by simp
  qed
  then show thesis using res L fr S(1) s'(4) d4 by (intro that) simp_all
qed

section \<open>Live allocations and neighbours\<close>

text \<open>What clients hold: the header and the payload size of each block in use.\<close>

definition live :: "addr set \<Rightarrow> (addr \<Rightarrow> block) \<Rightarrow> (addr \<times> nat) set" where
  "live B h = (\<lambda>a. (a, blk_size (h a))) ` used_set B h"

lemma in_live: "(a, n) \<in> live B h \<longleftrightarrow> a \<in> B \<and> blk_used (h a) \<and> n = blk_size (h a)"
  by (auto simp: live_def used_set_def)

lemma live_looks: "looks s h \<Longrightarrow> live B (hdr s) = live B h"
  by (auto simp: live_def looks_sets looksD)

lemma live_merged:
  assumes "blk_links B h" "a \<in> B" "n = blk_next (h a)" "n \<noteq> NULL" "\<not> blk_used (h a)" "\<not> blk_used (h n)"
  shows "live (B - {n}) (merged a n h) = live B h"
  using assms(5,6) by (auto simp: in_live merged_fields(1-4)[OF assms(1-4)])

lemma live_splitted:
  assumes "blk_links B h" "blk_disjoint B h" "a \<in> B" "sz + HEADER_SIZE \<le> blk_size (h a)"
    "c = a + HEADER_SIZE + sz" "\<not> blk_used (h a)"
  shows "live (insert c B) (splitted a sz h) = live B h"
  using assms(6) splitted_fields(1)[OF assms(1-5)] by (auto simp: in_live splitted_fields[OF assms(1-5)])

lemma free_pairs_merged:
  assumes "blk_links B h" "a \<in> B" "n = blk_next (h a)" "n \<noteq> NULL"
    and "blk_next (h n) = NULL \<or> blk_used (h (blk_next (h n)))"
  shows "free_pairs (B - {n}) (merged a n h) \<subseteq> free_pairs B h - {a}"
  using assms(5) by (auto simp: free_pairs_def merged_fields(1-4)[OF assms(1-4)])

lemma free_pairs_splitted:
  assumes "blk_links B h" "blk_disjoint B h" "a \<in> B" "sz + HEADER_SIZE \<le> blk_size (h a)"
    "c = a + HEADER_SIZE + sz" "free_pairs B h = {}" "\<not> blk_used (h a)"
  shows "free_pairs (insert c B) (splitted a sz h) \<subseteq> {a}"
proof
  note S = splitted_fields[OF assms(1-5)]
  fix x assume x: "x \<in> free_pairs (insert c B) (splitted a sz h)"
  show "x \<in> {a}"
  proof (rule ccontr)
    assume xa: "x \<notin> {a}"
    then have nx: "blk_next (splitted a sz h x) = (if x = c then blk_next (h a) else blk_next (h x))"
      by (simp add: S(7))
    have ns: "blk_next (splitted a sz h x) \<noteq> c"
      using x xa S(1,4,5) blk_linksD(3)[OF assms(1), of x] unfolding nx free_pairs_def by (auto simp: S(7))
    let ?y = "if x = c then a else x"
    have "?y \<in> free_pairs B h"
      using x xa ns assms(3,7) unfolding free_pairs_def by (auto simp: S(7,9) split: if_split_asm)
    with assms(6) show False by blast
  qed
qed

text \<open>Freeing \<open>a\<close> can only make \<open>a\<close> and its left neighbour part of a free pair.\<close>

lemma free_pairs_release:
  assumes "blk_links B h" "a \<in> B" "free_pairs B h = {}"
  defines "h' \<equiv> h(a := h a\<lparr>blk_used := False\<rparr>)"
  shows "free_pairs B h' \<subseteq> {a, blk_prev (h a)}"
proof
  fix x assume x: "x \<in> free_pairs B h'"
  show "x \<in> {a, blk_prev (h a)}"
  proof (rule ccontr)
    assume n: "x \<notin> {a, blk_prev (h a)}"
    then have "blk_next (h x) \<noteq> a"
      using x blk_linksD(4)[OF assms(1), of x] by (auto simp: free_pairs_def h'_def)
    with x n have "x \<in> free_pairs B h" by (auto simp: free_pairs_def h'_def)
    with assms(3) show False by blast
  qed
qed

lemma blk_links_used [simp]: "blk_links B (h(a := h a\<lparr>blk_used := u\<rparr>)) = blk_links B h"
proof -
  have "blk_size ((h(a := h a\<lparr>blk_used := u\<rparr>)) x) = blk_size (h x)"
    "blk_next ((h(a := h a\<lparr>blk_used := u\<rparr>)) x) = blk_next (h x)"
    "blk_prev ((h(a := h a\<lparr>blk_used := u\<rparr>)) x) = blk_prev (h x)" for x by simp_all
  then show ?thesis unfolding blk_links_def by simp
qed

section \<open>Searching the free list\<close>

lemma find_fit_chain:
  assumes "chain (\<lambda>a. blk_next_free (hdr s a)) p as" "set as \<subseteq> dom (hdrs s)"
  shows "find_fit sz p s = Some (case find (\<lambda>a. sz \<le> blk_size (hdr s a)) as of None \<Rightarrow> NULL | Some a \<Rightarrow> a)"
  using assms
proof (induction as arbitrary: p)
  case Nil
  then show ?case by (subst find_fit.simps) simp
next
  case (Cons a as)
  then have "hdrs s a = Some (hdr s a)" by (intro hdrs_Some) simp
  with Cons show ?case by (subst find_fit.simps) simp
qed

lemma sum_free_chain:
  assumes "chain (\<lambda>a. blk_next_free (hdr s a)) p as" "set as \<subseteq> dom (hdrs s)"
    "acc + (\<Sum>a\<leftarrow>as. blk_size (hdr s a)) < two64"
  shows "sum_free acc p s = Some (acc + (\<Sum>a\<leftarrow>as. blk_size (hdr s a)))"
  using assms
proof (induction as arbitrary: p acc)
  case Nil
  then show ?case by (subst sum_free.simps) simp
next
  case (Cons a as)
  then have "hdrs s a = Some (hdr s a)" by (intro hdrs_Some) simp
  moreover have "add64 acc (blk_size (hdr s a)) = acc + blk_size (hdr s a)"
    using Cons.prems(3) by (simp add: wrap)
  ultimately show ?case
    using Cons by (subst sum_free.simps) (simp add: add.assoc)
qed

lemma flist_chain: "flist fl s \<Longrightarrow> chain (\<lambda>a. blk_next_free (hdr s a)) (free_head s) fl"
  "flist fl s \<Longrightarrow> set fl \<subseteq> dom (hdrs s)"
  unfolding flist_def using dlist_chain by blast+

lemma align_up_pow2:
  assumes "v + 2 ^ k < two64"
  shows "align_up v (2 ^ k) = (v + 2 ^ k - 1) div 2 ^ k * 2 ^ k"
proof -
  have "sub64 (add64 v (2 ^ k)) 1 = v + 2 ^ k - 1" "sub64 (2 ^ k) 1 = 2 ^ k - 1"
  proof -
    have p: "(1::nat) \<le> 2 ^ k" by simp
    then have "1 \<le> v + 2 ^ k" by (rule trans_le_add2)
    then show "sub64 (add64 v (2 ^ k)) 1 = v + 2 ^ k - 1"
      unfolding add64_id[OF assms] using assms by (rule sub64_id)
    have "(2::nat) ^ k < two64" using assms by simp
    with p show "sub64 (2 ^ k) 1 = 2 ^ k - 1" by (rule sub64_id)
  qed
  moreover have "v + 2 ^ k - 1 < two64" using assms by linarith
  ultimately show ?thesis by (simp only: align_up_def and_not64_pow2)
qed

lemma align_up_8:
  assumes "v + 8 < two64"
  shows "align_up v 8 = (v + 7) div 8 * 8" "v \<le> align_up v 8" "align_up v 8 \<le> v + 7" "align_up v 8 mod 8 = 0"
proof -
  show a: "align_up v 8 = (v + 7) div 8 * 8"
    using align_up_pow2[of v 3] assms by (simp add: add.commute)
  show "v \<le> align_up v 8" "align_up v 8 \<le> v + 7" "align_up v 8 mod 8 = 0"
    unfolding a by presburger+
qed

lemma align_up_8_idem: "v mod 8 = 0 \<Longrightarrow> v + 8 < two64 \<Longrightarrow> align_up v 8 = v"
  using align_up_8(1)[of v] by presburger

text \<open>Frame 0 is not the heap's: the lowest block starts a page above the offset.\<close>

lemma heap_core_low:
  assumes "heap_core B H fl s" "a \<in> B"
  shows "PAGE_SIZE \<le> a"
proof -
  note C = heap_coreD[OF assms(1)]
  have "heap_phys_offset s \<le> a" "(a - heap_phys_offset s) div PAGE_SIZE \<in> H"
    using tilingD(3)[OF C(3)] assms(2) blk_bytes_self[of a "hdr s"] unfolding blk_inside_def by blast+
  moreover have "0 \<notin> H" using C(1) unfolding heap_env_def by blast
  ultimately have "(a - heap_phys_offset s) div PAGE_SIZE \<noteq> 0" by metis
  then have "PAGE_SIZE \<le> a - heap_phys_offset s" by (simp add: div_eq_0_iff not_less)
  then show ?thesis by simp
qed

section \<open>What the operations do\<close>

text \<open>Cutting a free block to size, if it is worth it.\<close>

lemma cut_block:
  assumes inv: "heap_inv B H fl s" and aB: "a \<in> B" "\<not> blk_used (hdr s a)" and sz: "sz \<le> blk_size (hdr s a)" "sz mod 8 = 0"
  obtains B1 fl1 s1 where "(if add64 (add64 sz HEADER_SIZE) MIN_SPLIT \<le> blk_size (hdr s a)
      then split_block sz a s else Some s) = Some s1"
    "heap_core B1 H fl1 s1" "live B1 (hdr s1) = live B (hdr s)" "a \<in> B1" "\<not> blk_used (hdr s1 a)"
    "free_pairs B1 (hdr s1) \<subseteq> {a}" "sz \<le> blk_size (hdr s1 a)"
    "blk_size (hdr s1 a) < sz + HEADER_SIZE + MIN_SPLIT" "heap_frame s s1"
proof -
  have core: "heap_core B H fl s" and np: "free_pairs B (hdr s) = {}" using inv by (simp_all add: heap_inv_def)
  note T = tilingD[OF heap_coreD(3)[OF core]]
  have ar: "add64 (add64 sz HEADER_SIZE) MIN_SPLIT = sz + HEADER_SIZE + MIN_SPLIT"
    using heap_core_low[OF core aB(1)] heap_core_bounds(1)[OF core aB(1)] sz(1) by (simp add: wrap)
  show thesis
  proof (cases "sz + HEADER_SIZE + MIN_SPLIT \<le> blk_size (hdr s a)")
    case True
    let ?c = "a + HEADER_SIZE + sz"
    have le: "sz + HEADER_SIZE \<le> blk_size (hdr s a)" using True by simp
    obtain s1 where s1: "split_block sz a s = Some s1" "heap_core (insert ?c B) H (?c # fl) s1"
      "looks s1 (splitted a sz (hdr s))" "heap_frame s s1" "?c \<notin> B"
      using split_core[OF core aB True sz(2) refl] .
    note S = splitted_fields[OF T(5,4) aB(1) le refl]
    have "live (insert ?c B) (hdr s1) = live B (hdr s)"
      unfolding live_looks[OF s1(3)] by (rule live_splitted[OF T(5,4) aB(1) le refl aB(2)])
    moreover have "free_pairs (insert ?c B) (hdr s1) \<subseteq> {a}"
      unfolding looks_sets(4)[OF s1(3)] by (rule free_pairs_splitted[OF T(5,4) aB(1) le refl np aB(2)])
    ultimately show thesis
      using s1 True ar aB S(2) by (intro that[of s1 "insert ?c B" "?c # fl"]) (simp_all add: looksD[OF s1(3)] S(6,9))
  next
    case False
    then show thesis
      using ar core aB np sz(1) by (intro that[of s B fl]) simp_all
  qed
qed

lemma take_block_ok:
  assumes inv: "heap_inv B H fl s" and a: "a \<in> set fl" and sz: "sz \<le> blk_size (hdr s a)" "sz mod 8 = 0"
  obtains B' fl' s' where "take_block sz a s = Some (a + HEADER_SIZE, s')" "heap_inv B' H fl' s'"
    "live B' (hdr s') = insert (a, blk_size (hdr s' a)) (live B (hdr s))" "a \<in> B" "\<not> blk_used (hdr s a)"
    "sz \<le> blk_size (hdr s' a)" "blk_size (hdr s' a) < sz + HEADER_SIZE + MIN_SPLIT" "heap_frame s s'"
proof -
  have core: "heap_core B H fl s" using inv by (simp add: heap_inv_def)
  note C = heap_coreD[OF core]
  have aB: "a \<in> B" "\<not> blk_used (hdr s a)" using a C(5) by (simp_all add: free_set_def)
  note bd = heap_core_bounds[OF core aB(1)]
  have ad: "a \<in> dom (hdrs s)" using aB C(2) by blast
  obtain B1 fl1 s1 where s1: "(if add64 (add64 sz HEADER_SIZE) MIN_SPLIT \<le> blk_size (hdr s a)
      then split_block sz a s else Some s) = Some s1"
    "heap_core B1 H fl1 s1" "live B1 (hdr s1) = live B (hdr s)" "a \<in> B1" "\<not> blk_used (hdr s1 a)"
    "free_pairs B1 (hdr s1) \<subseteq> {a}" "sz \<le> blk_size (hdr s1 a)"
    "blk_size (hdr s1 a) < sz + HEADER_SIZE + MIN_SPLIT" "heap_frame s s1"
    using cut_block[OF inv aB sz] .
  obtain s2 s3 where s3: "free_list_remove a s1 = Some s2" "upd_blk a (\<lambda>b. b\<lparr>blk_used := True\<rparr>) s2 = Some s3"
    "hdrs s3 a = Some (hdr s3 a)" "blk_size (hdr s3 a) = blk_size (hdr s1 a)"
    "heap_core B1 H (remove1 a fl1) (s3\<lparr>heap_used := add64 (heap_used s3) (blk_size (hdr s3 a))\<rparr>)"
    "looks s3 ((hdr s1)(a := hdr s1 a\<lparr>blk_used := True\<rparr>))" "heap_frame s1 s3"
    using acquire_core[OF s1(2,4,5)] by metis
  let ?s = "s3\<lparr>heap_used := add64 (heap_used s3) (blk_size (hdr s3 a))\<rparr>"
  let ?h = "(hdr s1)(a := hdr s1 a\<lparr>blk_used := True\<rparr>)"
  have "free_pairs B1 ?h = {}" using s1(6) by (auto simp: free_pairs_def split: if_split_asm)
  then have i: "heap_inv B1 H (remove1 a fl1) ?s"
    using s3(5) by (simp add: heap_inv_def looks_sets(4)[OF s3(6)])
  have lv: "live B1 (hdr ?s) = insert (a, blk_size (hdr ?s a)) (live B (hdr s))"
  proof -
    have "live B1 ?h = insert (a, blk_size (hdr s1 a)) (live B1 (hdr s1))"
      using s1(4,5) by (auto simp: in_live split: if_split_asm)
    then show ?thesis using s1(3) s3(4) by (simp add: live_looks[OF s3(6)])
  qed
  have "add64 a HEADER_SIZE = a + HEADER_SIZE" using bd(1) by (simp add: wrap)
  then have res: "take_block sz a s = Some (a + HEADER_SIZE, ?s)"
    using s1(1) by (simp only: take_block_def hdrs_Some[OF ad] s3(1-3) Option.bind.simps)
  have fr: "heap_frame s ?s"
    using heap_frame_trans[OF s1(9) heap_frame_trans[OF s3(7) heap_frame_upd(3)]] .
  show thesis
    using that[OF res i lv aB _ _ fr] s1(7,8) s3(4) by simp
qed

text \<open>The memory manager does not touch the fields of the heap.\<close>

lemma pmm_alloc_contiguous_frame:
  assumes "pmm_alloc_contiguous n s = (p, s')"
  shows "hdrs s' = hdrs s" "free_head s' = free_head s" "heap_used s' = heap_used s"
    "heap_phys_offset s' = heap_phys_offset s" "heap_mem s' = heap_mem s" "heap_state.more s' = heap_state.more s"
proof -
  have "hdrs s' = hdrs s \<and> free_head s' = free_head s \<and> heap_used s' = heap_used s \<and>
    heap_phys_offset s' = heap_phys_offset s \<and> heap_mem s' = heap_mem s \<and> heap_state.more s' = heap_state.more s"
    using assms by (auto simp: pmm_alloc_contiguous_def split: if_splits option.splits)
  then show "hdrs s' = hdrs s" "free_head s' = free_head s" "heap_used s' = heap_used s"
    "heap_phys_offset s' = heap_phys_offset s" "heap_mem s' = heap_mem s" "heap_state.more s' = heap_state.more s"
    by blast+
qed

text \<open>The run of frames \<open>grow_heap\<close> asks for.\<close>

definition grow_pages :: "size_t \<Rightarrow> nat" where
  "grow_pages sz = (sz + HEADER_SIZE + PAGE_SIZE - 1) div PAGE_SIZE"

definition no_run :: "nat \<Rightarrow> 'a pmm_state_scheme \<Rightarrow> bool" where
  "no_run n s \<longleftrightarrow> (\<forall>st. st + n \<le> total_frames s \<longrightarrow> {st..<st + n} \<inter> pmm_used s \<noteq> {})"

text \<open>A fresh arena, before it is put on the free list, and after.\<close>

lemma new_arena:
  assumes inv: "heap_inv B H fl s" and st: "0 < st" "0 < n" "st + n \<le> total_frames s" "{st..<st + n} \<inter> pmm_used s = {}"
    and s1: "pmm_used s1 = pmm_used s \<union> {st..<st + n}" "total_frames s1 = total_frames s" "pmm_wf s1"
    and fr: "hdrs s1 = hdrs s" "free_head s1 = free_head s" "heap_used s1 = heap_used s" "heap_phys_offset s1 = heap_phys_offset s"
    and a: "a = heap_phys_offset s + st * PAGE_SIZE"
  defines "b \<equiv> \<lparr>blk_size = n * PAGE_SIZE - HEADER_SIZE, blk_used = False, blk_next = NULL, blk_prev = NULL,
      blk_next_free = NULL, blk_prev_free = NULL\<rparr>"
  obtains s' where "free_list_add a (new_blk a b s1) = Some s'" "heap_inv (insert a B) (H \<union> {st..<st + n}) (a # fl) s'"
    "live (insert a B) (hdr s') = live B (hdr s)" "blk_size (hdr s' a) = n * PAGE_SIZE - HEADER_SIZE" "heap_frame s1 s'"
proof -
  have core: "heap_core B H fl s" and np: "free_pairs B (hdr s) = {}" using inv by (simp_all add: heap_inv_def)
  note C = heap_coreD[OF core]
  note T = tilingD[OF C(3)]
  let ?off = "heap_phys_offset s" and ?s2 = "new_blk a b s1"
  have env: "pmm_wf s" "0 \<in> pmm_used s" "?off mod 8 = 0" "?off + total_frames s * PAGE_SIZE < two64" "H \<subseteq> pmm_used s - {0}"
    using C(1) unfolding heap_env_def by blast+
  have bf: "blk_used b = False" "blk_next b = NULL" "blk_prev b = NULL" "blk_size b = n * PAGE_SIZE - HEADER_SIZE" by (simp_all add: b_def)
  have a0: "a \<noteq> NULL" using st(1) a by simp
  have h2: "hdr ?s2 = (hdr s)(a := b)" by (rule ext) (simp add: new_blk_def hdr_def fr)
  have dis: "{st..<st + n} \<inter> H = {}" using st(4) env(5) by blast
  note TN = tiling_new[OF C(3) dis st(2) a a0, of b]
  have t2: "tiling ?off (H \<union> {st..<st + n}) (insert a B) (hdr ?s2)" and aB: "a \<notin> B"
    unfolding h2 using TN env(3) by (simp_all add: bf)
  have d2: "dom (hdrs ?s2) = insert a (dom (hdrs s))" by (simp add: new_blk_def fr)
  have afl: "a \<notin> set fl" using C(5) aB by (simp add: free_set_def)
  have "x \<noteq> a" if "x \<in> set fl" for x using that afl by metis
  then have f2: "flist fl ?s2"
    by (intro flist_links[OF C(4)]) (auto simp: d2 h2, simp add: new_blk_def fr)
  obtain s' where s': "free_list_add a ?s2 = Some s'" "flist (a # fl) s'" "looks s' (hdr ?s2)"
    "dom (hdrs s') = dom (hdrs ?s2)" "heap_frame ?s2 s'" "heap_used s' = heap_used ?s2"
    using free_list_add_ok[OF f2 _ afl a0] d2 by auto
  have sets: "free_set (insert a B) (hdr ?s2) = insert a (free_set B (hdr s))" "used_set (insert a B) (hdr ?s2) = used_set B (hdr s)"
    using aB by (auto simp: free_set_def used_set_def h2 bf)
  have "heap_core (insert a B) (H \<union> {st..<st + n}) (a # fl) s'"
  proof (rule heap_coreI[OF _ _ s'(3) _ s'(2)])
    have "heap_env (H \<union> {st..<st + n}) ?s2"
      using env st(1) s1 unfolding heap_env_def by (auto simp: new_blk_def fr pmm_used_def pmm_wf_def)
    then show "heap_env (H \<union> {st..<st + n}) s'" using heap_env_frame[OF s'(5)] by blast
    show "insert a B \<subseteq> dom (hdrs s')" using C(2) s'(4) d2 by blast
    show "tiling (heap_phys_offset s') (H \<union> {st..<st + n}) (insert a B) (hdr ?s2)"
      using t2 heap_frame_fields(2)[OF s'(5)] by (simp add: new_blk_def fr)
    show "set (a # fl) = free_set (insert a B) (hdr ?s2)" using C(5) sets(1) by simp
    have "used_sum (insert a B) (hdr ?s2) = used_sum B (hdr s)"
      unfolding used_sum_def sets(2) using aB by (intro sum.cong) (auto simp: h2 used_set_def)
    then show "heap_used s' = used_sum (insert a B) (hdr ?s2)" using C(6) s'(6) by (simp add: new_blk_def fr)
  qed
  moreover have "blk_next (hdr s x) \<noteq> a" if "x \<in> B" for x using blk_linksD(3)[OF T(5) that] aB a0 by metis
  then have "free_pairs (insert a B) (hdr ?s2) = {}" using np by (auto simp: free_pairs_def h2 bf)
  ultimately have "heap_inv (insert a B) (H \<union> {st..<st + n}) (a # fl) s'" by (simp add: heap_inv_def looks_sets(4)[OF s'(3)])
  moreover have "live (insert a B) (hdr s') = live B (hdr s)"
    unfolding live_looks[OF s'(3)] using aB by (auto simp: in_live h2 bf)
  moreover have "heap_frame s1 s'"
    using heap_frame_trans[OF _ s'(5)] heap_frame_upd(1) unfolding new_blk_def by blast
  ultimately show thesis using s'(1) by (intro that) (simp_all add: looksD[OF s'(3)] h2 bf)
qed

lemma grow_heap_ok:
  assumes inv: "heap_inv B H fl s" and sz: "sz + HEADER_SIZE + PAGE_SIZE < two64"
  obtains (Failed) "grow_heap sz s = Some (False, s)" "no_run (grow_pages sz) s"
    | (Grown) a H' s' where "grow_heap sz s = Some (True, s')" "heap_inv (insert a B) H' (a # fl) s'"
        "live (insert a B) (hdr s') = live B (hdr s)" "sz \<le> blk_size (hdr s' a)" "a \<noteq> NULL"
        "heap_mem s' = heap_mem s" "heap_phys_offset s' = heap_phys_offset s"
        "total_frames s' = total_frames s" "heap_state.more s' = heap_state.more s"
proof -
  have core: "heap_core B H fl s" using inv by (simp add: heap_inv_def)
  note C = heap_coreD[OF core]
  let ?n = "grow_pages sz" and ?off = "heap_phys_offset s"
  have env: "pmm_wf s" "0 \<in> pmm_used s" "?off mod 8 = 0" "?off + total_frames s * PAGE_SIZE < two64"
    "H \<subseteq> pmm_used s - {0}"
    using C(1) unfolding heap_env_def by blast+
  have "add64 sz HEADER_SIZE = sz + HEADER_SIZE" using sz by (simp add: wrap)
  moreover have "sub64 (add64 (sz + HEADER_SIZE) PAGE_SIZE) 1 = sz + HEADER_SIZE + PAGE_SIZE - 1"
    unfolding add64_id[OF sz] by (rule sub64_id[OF _ sz]) simp
  ultimately have pg: "sub64 (add64 (add64 sz HEADER_SIZE) PAGE_SIZE) 1 div PAGE_SIZE = ?n"
    by (simp only: grow_pages_def)
  have n0: "0 < ?n" by (simp add: grow_pages_def)
  have nsz: "sz + HEADER_SIZE \<le> ?n * PAGE_SIZE"
  proof -
    have "(sz + HEADER_SIZE + PAGE_SIZE - 1) mod PAGE_SIZE < PAGE_SIZE" by simp
    then show ?thesis
      using div_mult_mod_eq[of "sz + HEADER_SIZE + PAGE_SIZE - 1" PAGE_SIZE] unfolding grow_pages_def by linarith
  qed
  obtain pa s1 where r: "pmm_alloc_contiguous ?n s = (pa, s1)" by fastforce
  note fr = pmm_alloc_contiguous_frame[OF r]
  show thesis
  proof (cases "pa = 0")
    case True
    have "s1 = s" using env(1,2) r True frames.run_zero by blast
    moreover have "no_run ?n s"
      unfolding no_run_def
    proof (intro allI impI notI)
      fix st assume st: "st + ?n \<le> total_frames s" "{st..<st + ?n} \<inter> pmm_used s = {}"
      then have "\<exists>st. st + ?n \<le> total_frames s \<and> {st..<st + ?n} \<inter> pmm_used s = {}" by blast
      from frames.run_some[OF env(1) n0 this r] True env(2) n0 show False by force
    qed
    moreover have "grow_heap sz s = Some (False, s1)"
      unfolding grow_heap_def Let_def pg r prod.case using True by simp
    ultimately show thesis using that(1) by simp
  next
    case False
    obtain st where st: "0 < st" "st + ?n \<le> total_frames s" "{st..<st + ?n} \<inter> pmm_used s = {}"
      "pa = st * PAGE_SIZE" "pmm_used s1 = pmm_used s \<union> {st..<st + ?n}"
      "total_frames s1 = total_frames s" "pmm_wf s1"
      using frames.run_nonzero[OF env(1) r False] by metis
    have "(st + ?n) * PAGE_SIZE \<le> total_frames s * PAGE_SIZE" using st(2) by (rule mult_le_mono1)
    then have bd: "?off + st * PAGE_SIZE + ?n * PAGE_SIZE < two64"
      using env(4) unfolding add_mult_distrib by linarith
    let ?a = "?off + st * PAGE_SIZE"
    let ?b = "\<lparr>blk_size = ?n * PAGE_SIZE - HEADER_SIZE, blk_used = False, blk_next = NULL, blk_prev = NULL,
      blk_next_free = NULL, blk_prev_free = NULL\<rparr>"
    have a0: "?a \<noteq> NULL" using st(1) by simp
    have ar: "heap_phys_to_virt pa s1 = ?a" "sub64 (mul64 ?n PAGE_SIZE) HEADER_SIZE = ?n * PAGE_SIZE - HEADER_SIZE"
      using bd nsz by (simp_all add: heap_phys_to_virt_def fr st(4) wrap add.commute)
    obtain s' where s': "free_list_add ?a (new_blk ?a ?b s1) = Some s'" "heap_inv (insert ?a B) (H \<union> {st..<st + ?n}) (?a # fl) s'"
      "live (insert ?a B) (hdr s') = live B (hdr s)" "blk_size (hdr s' ?a) = ?n * PAGE_SIZE - HEADER_SIZE" "heap_frame s1 s'"
      using new_arena[OF inv st(1) n0 st(2,3,5-7) fr(1-4) refl] by metis
    have "grow_heap sz s = Some (True, s')"
      unfolding grow_heap_def Let_def pg r prod.case ar using False s'(1) by simp
    then show thesis
      using that(2)[OF _ s'(2,3)] a0 nsz s'(4) heap_frame_fields[OF s'(5)] fr(4-6) st(6) by simp
  qed
qed

lemma kmalloc_hit:
  assumes inv: "heap_inv B H fl s" and sz: "0 < sz" "sz + 8 < two64"
    and f: "find (\<lambda>a. align_up sz 8 \<le> blk_size (hdr s a)) fl = Some a"
  shows "kmalloc sz s = take_block (align_up sz 8) a s" "a \<in> set fl" "align_up sz 8 \<le> blk_size (hdr s a)"
proof -
  have core: "heap_core B H fl s" using inv by (simp add: heap_inv_def)
  note fl = heap_coreD(4)[OF core]
  show a: "a \<in> set fl" "align_up sz 8 \<le> blk_size (hdr s a)"
    using f by (auto simp: find_Some_iff)
  have "a \<noteq> NULL" using chain_no_NULL[OF flist_chain(1)[OF fl]] a(1) by metis
  moreover have "find_fit (align_up sz 8) (free_head s) s = Some a"
    using find_fit_chain[OF flist_chain[OF fl]] f by simp
  ultimately show "kmalloc sz s = take_block (align_up sz 8) a s"
    using sz(1) by (subst kmalloc.simps) (simp add: Let_def)
qed

lemma kmalloc_cases [consumes 3, case_names None Some]:
  assumes inv: "heap_inv B H fl s" and sz: "0 < sz" "sz + 4160 < two64"
  obtains "kmalloc sz s = Some (NULL, s)" "\<And>a. a \<in> set fl \<Longrightarrow> blk_size (hdr s a) < align_up sz 8"
      "no_run (grow_pages (align_up sz 8)) s"
    | a B' H' fl' s' where "kmalloc sz s = Some (a + HEADER_SIZE, s')" "heap_inv B' H' fl' s'"
        "live B' (hdr s') = insert (a, blk_size (hdr s' a)) (live B (hdr s))"
        "\<And>n. (a, n) \<notin> live B (hdr s)" "sz \<le> blk_size (hdr s' a)"
        "blk_size (hdr s' a) < sz + 88" "heap_mem s' = heap_mem s" "heap_phys_offset s' = heap_phys_offset s"
        "total_frames s' = total_frames s" "heap_state.more s' = heap_state.more s"
proof -
  have core: "heap_core B H fl s" using inv by (simp add: heap_inv_def)
  note C = heap_coreD[OF core]
  let ?sz = "align_up sz 8"
  have sz8: "sz + 8 < two64" using sz(2) by simp
  note al = align_up_8[OF sz8]
  show thesis
  proof (cases "find (\<lambda>a. ?sz \<le> blk_size (hdr s a)) fl")
    case (Some a)
    note hit = kmalloc_hit[OF inv sz(1) sz8 Some]
    obtain B' fl' s' where t: "take_block ?sz a s = Some (a + HEADER_SIZE, s')" "heap_inv B' H fl' s'"
      "live B' (hdr s') = insert (a, blk_size (hdr s' a)) (live B (hdr s))" "a \<in> B" "\<not> blk_used (hdr s a)"
      "?sz \<le> blk_size (hdr s' a)" "blk_size (hdr s' a) < ?sz + HEADER_SIZE + MIN_SPLIT" "heap_frame s s'"
      using take_block_ok[OF inv hit(2,3) al(4)] .
    show thesis
      using t(1-3,5-7) hit(1) al(2,3) heap_frame_fields[OF t(8)]
      by (intro that(2)[of a s' B' H fl']) (simp_all add: in_live)
  next
    case None
    then have small: "blk_size (hdr s a) < ?sz" if "a \<in> set fl" for a
      using that by (auto simp: find_None_iff)
    have "find_fit ?sz (free_head s) s = Some NULL"
      using find_fit_chain[OF flist_chain[OF C(4)], of ?sz] None by simp
    then have k: "kmalloc sz s = (grow_heap ?sz s \<bind> (\<lambda>r. if fst r then kmalloc ?sz (snd r) else Some (NULL, snd r)))"
      using sz(1) by (subst kmalloc.simps) (simp add: Let_def)
    have "?sz + HEADER_SIZE + PAGE_SIZE < two64" using al(3) sz(2) by simp
    with inv show thesis
    proof (cases rule: grow_heap_ok)
      case Failed
      then show thesis using small k that(1) by simp
    next
      case (Grown a H1 s1)
      have idem: "align_up ?sz 8 = ?sz" and p: "0 < ?sz" "?sz + 8 < two64"
        using al sz by (auto intro: align_up_8_idem)
      have f: "find (\<lambda>a. align_up ?sz 8 \<le> blk_size (hdr s1 a)) (a # fl) = Some a"
        using Grown(4) idem by simp
      note hit = kmalloc_hit[OF Grown(2) p f, unfolded idem]
      obtain B' fl' s' where t: "take_block ?sz a s1 = Some (a + HEADER_SIZE, s')" "heap_inv B' H1 fl' s'"
        "live B' (hdr s') = insert (a, blk_size (hdr s' a)) (live (insert a B) (hdr s1))"
        "a \<in> insert a B" "\<not> blk_used (hdr s1 a)"
        "?sz \<le> blk_size (hdr s' a)" "blk_size (hdr s' a) < ?sz + HEADER_SIZE + MIN_SPLIT" "heap_frame s1 s'"
        using take_block_ok[OF Grown(2) hit(2,3) al(4)] .
      have "(a, n) \<notin> live B (hdr s)" for n
        unfolding Grown(3)[symmetric] using t(5) by (simp add: in_live)
      then show thesis
        using t(1-3,6,7) hit(1) al(2,3) heap_frame_fields[OF t(8)] k Grown(1,3,6-9)
        by (intro that(2)[of a s' B' H1 fl']) simp_all
    qed
  qed
qed

text \<open>The free block \<open>a\<close> and its right neighbour.\<close>

lemma absorb_right:
  assumes core: "heap_core B H fl s2" and aB: "a \<in> B" and fa2: "\<not> blk_used (hdr s2 a)"
    and fp2: "free_pairs B (hdr s2) \<subseteq> {a, blk_prev (hdr s2 a)}"
  obtains B3 fl3 s3 where
    "(if blk_next (hdr s2 a) \<noteq> NULL then do { m \<leftarrow> hdrs s2 (blk_next (hdr s2 a)); if \<not> blk_used m then absorb a (blk_next (hdr s2 a)) s2 else Some s2 } else Some s2) = Some s3"
    "heap_core B3 H fl3 s3" "live B3 (hdr s3) = live B (hdr s2)" "heap_frame s2 s3" "dom (hdrs s3) = dom (hdrs s2)"
    "a \<in> B3" "\<not> blk_used (hdr s3 a)" "blk_prev (hdr s3 a) = blk_prev (hdr s2 a)"
    "free_pairs B3 (hdr s3) \<subseteq> {blk_prev (hdr s3 a)}" "blk_next (hdr s3 a) = NULL \<or> blk_used (hdr s3 (blk_next (hdr s3 a)))"
proof -
  note C2 = heap_coreD[OF core]
  note T2 = tilingD[OF C2(3)]
  let ?n = "blk_next (hdr s2 a)"
  show thesis
  proof (cases "?n \<noteq> NULL \<and> \<not> blk_used (hdr s2 ?n)")
    case True
    then have n: "?n \<noteq> NULL" "\<not> blk_used (hdr s2 ?n)" by blast+
    note M = merged_fields[OF T2(5) aB refl n(1)]
    obtain s3 where s3: "absorb a ?n s2 = Some s3" "heap_core (B - {?n}) H (remove1 ?n fl) s3"
      "looks s3 (merged a ?n (hdr s2))" "heap_frame s2 s3" "dom (hdrs s3) = dom (hdrs s2)"
      using absorb_core[OF core aB fa2 refl n] .
    have nd: "hdrs s2 ?n = Some (hdr s2 ?n)" using M(6) C2(2) by (intro hdrs_Some) blast
    have nn: "blk_next (hdr s2 ?n) = NULL \<or> blk_used (hdr s2 (blk_next (hdr s2 ?n)))"
    proof (rule ccontr)
      assume "\<not> (blk_next (hdr s2 ?n) = NULL \<or> blk_used (hdr s2 (blk_next (hdr s2 ?n))))"
      then have "?n \<in> free_pairs B (hdr s2)" using M(6) n(2) by (simp add: free_pairs_def)
      with fp2 have "?n \<in> {a, blk_prev (hdr s2 a)}" by (rule subsetD)
      then have "?n = blk_prev (hdr s2 a)" using M(5) by (elim insertE) simp_all
      then have "blk_next (hdr s2 ?n) = a" using blk_linksD(6)[OF T2(5) aB] n(1) by simp
      with M(7) show False ..
    qed
    have "live (B - {?n}) (hdr s3) = live B (hdr s2)"
      unfolding live_looks[OF s3(3)] by (rule live_merged[OF T2(5) aB refl n(1) fa2 n(2)])
    moreover have "blk_prev (hdr s3 a) = blk_prev (hdr s2 a)"
      using M(7) by (auto simp: looksD[OF s3(3)] M(3))
    moreover have "free_pairs (B - {?n}) (hdr s3) \<subseteq> {blk_prev (hdr s2 a)}"
      unfolding looks_sets(4)[OF s3(3)] using free_pairs_merged[OF T2(5) aB refl n(1) nn] fp2 by blast
    moreover have "blk_next (hdr s3 a) = NULL \<or> blk_used (hdr s3 (blk_next (hdr s3 a)))"
      using nn by (simp add: looksD[OF s3(3)] M(2,4))
    moreover have "\<not> blk_used (hdr s3 a)" using fa2 by (simp add: looksD[OF s3(3)] M(4))
    ultimately show thesis
      using s3(1,2,4,5) n nd aB M(5) by (intro that[of s3 "B - {?n}" "remove1 ?n fl"]) simp_all
  next
    case False
    have "hdrs s2 ?n = Some (hdr s2 ?n)" if "?n \<noteq> NULL"
      using blk_linksD(3)[OF T2(5) aB that] C2(2) by (intro hdrs_Some) blast
    then have "(if ?n \<noteq> NULL then do { m \<leftarrow> hdrs s2 ?n; if \<not> blk_used m then absorb a ?n s2 else Some s2 } else Some s2) = Some s2"
      using False by auto
    moreover have "a \<notin> free_pairs B (hdr s2)" using False by (auto simp: free_pairs_def)
    then have "free_pairs B (hdr s2) \<subseteq> {blk_prev (hdr s2 a)}" using fp2 by blast
    ultimately show thesis using False core aB fa2 by (intro that[of s2 B "fl"]) auto
  qed
qed

text \<open>The free block \<open>a\<close> and its left neighbour.\<close>

lemma absorb_left:
  assumes core: "heap_core B3 H fl3 s3" and a: "a \<in> B3" "\<not> blk_used (hdr s3 a)"
    and fp: "free_pairs B3 (hdr s3) \<subseteq> {blk_prev (hdr s3 a)}" and nn: "blk_next (hdr s3 a) = NULL \<or> blk_used (hdr s3 (blk_next (hdr s3 a)))"
  obtains B4 fl4 s4 where
    "(if blk_prev (hdr s3 a) \<noteq> NULL then do { m \<leftarrow> hdrs s3 (blk_prev (hdr s3 a)); if \<not> blk_used m then absorb (blk_prev (hdr s3 a)) a s3 else Some s3 } else Some s3) = Some s4"
    "heap_core B4 H fl4 s4" "live B4 (hdr s4) = live B3 (hdr s3)" "heap_frame s3 s4" "dom (hdrs s4) = dom (hdrs s3)"
    "\<not> blk_used (hdr s4 a)" "free_pairs B4 (hdr s4) = {}"
proof -
  note C3 = heap_coreD[OF core]
  note T3 = tilingD[OF C3(3)]
  let ?p = "blk_prev (hdr s3 a)"
  show thesis
  proof (cases "?p \<noteq> NULL \<and> \<not> blk_used (hdr s3 ?p)")
    case True
    then have p: "?p \<noteq> NULL" "\<not> blk_used (hdr s3 ?p)" by blast+
    have pB: "?p \<in> B3" "a = blk_next (hdr s3 ?p)" using blk_linksD(5,6)[OF T3(5) a(1) p(1)] by simp_all
    have a0: "a \<noteq> NULL" using heap_core_bounds(2)[OF core a(1)] .
    note M = merged_fields[OF T3(5) pB a0]
    obtain s4 where s4: "absorb ?p a s3 = Some s4" "heap_core (B3 - {a}) H (remove1 a fl3) s4"
      "looks s4 (merged ?p a (hdr s3))" "heap_frame s3 s4" "dom (hdrs s4) = dom (hdrs s3)"
      using absorb_core[OF core pB(1) p(2) pB(2) a0 a(2)] .
    have pd: "hdrs s3 ?p = Some (hdr s3 ?p)" using pB(1) C3(2) by (intro hdrs_Some) blast
    have "live (B3 - {a}) (hdr s4) = live B3 (hdr s3)"
      unfolding live_looks[OF s4(3)] by (rule live_merged[OF T3(5) pB a0 p(2) a(2)])
    moreover have "free_pairs (B3 - {a}) (hdr s4) = {}"
      unfolding looks_sets(4)[OF s4(3)] using free_pairs_merged[OF T3(5) pB a0 nn] fp by blast
    moreover have "\<not> blk_used (hdr s4 a)" using a(2) by (simp add: looksD[OF s4(3)] M(4))
    ultimately show thesis
      using s4(1,2,4,5) p pd by (intro that[of s4 "B3 - {a}" "remove1 a fl3"]) simp_all
  next
    case False
    have "hdrs s3 ?p = Some (hdr s3 ?p)" if "?p \<noteq> NULL"
      using blk_linksD(5)[OF T3(5) a(1) that] C3(2) by (intro hdrs_Some) blast
    then have "(if ?p \<noteq> NULL then do { m \<leftarrow> hdrs s3 ?p; if \<not> blk_used m then absorb ?p a s3 else Some s3 } else Some s3) = Some s3"
      using False by auto
    moreover have "?p \<notin> free_pairs B3 (hdr s3)"
      using False blk_linksD(1)[OF T3(5)] by (auto simp: free_pairs_def)
    then have "free_pairs B3 (hdr s3) = {}" using fp by blast
    ultimately show thesis using core a(2) by (intro that[of s3 B3 fl3]) auto
  qed
qed

lemma kfree_ok:
  assumes inv: "heap_inv B H fl s" and a: "(a, n) \<in> live B (hdr s)"
  obtains B' fl' s' where "kfree (a + HEADER_SIZE) s = Some s'" "heap_inv B' H fl' s'"
    "live B' (hdr s') = live B (hdr s) - {(a, n)}" "heap_frame s s'"
    "hdrs s' a = Some (hdr s' a)" "\<not> blk_used (hdr s' a)"
proof -
  have core: "heap_core B H fl s" and np: "free_pairs B (hdr s) = {}" using inv by (simp_all add: heap_inv_def)
  note C = heap_coreD[OF core]
  note T = tilingD[OF C(3)]
  have aB: "a \<in> B" "blk_used (hdr s a)" "n = blk_size (hdr s a)" using a by (simp_all add: in_live)
  note bd = heap_core_bounds[OF core aB(1)]
  have ad: "a \<in> dom (hdrs s)" using aB C(2) by blast
  have ptr: "sub64 (a + HEADER_SIZE) HEADER_SIZE = a" "a + HEADER_SIZE \<noteq> NULL"
    using bd(1) by (simp_all add: wrap)
  let ?s1 = "s\<lparr>hdrs := (hdrs s)(a \<mapsto> hdr s a\<lparr>blk_used := False\<rparr>)\<rparr>"
  let ?h0 = "(hdr s)(a := hdr s a\<lparr>blk_used := False\<rparr>)"
  obtain s2 where s2: "free_list_add a (?s1\<lparr>heap_used := sub64 (heap_used ?s1) (blk_size (hdr s a))\<rparr>) = Some s2"
    "heap_core B H (a # fl) s2" "looks s2 ?h0" "heap_frame s s2" "dom (hdrs s2) = dom (hdrs s)"
    using release_core[OF core aB(1,2)] by metis
  have lv2: "live B (hdr s2) = live B (hdr s) - {(a, n)}"
    unfolding live_looks[OF s2(3)] using aB by (auto simp: in_live split: if_split_asm)
  have fp2: "free_pairs B (hdr s2) \<subseteq> {a, blk_prev (hdr s2 a)}"
    using free_pairs_release[OF T(5) aB(1) np] by (simp add: looks_sets(4)[OF s2(3)] looksD[OF s2(3)])
  have fa2: "\<not> blk_used (hdr s2 a)" by (simp add: looksD[OF s2(3)])
  have ad2: "a \<in> dom (hdrs s2)" using ad s2(5) by simp
  let ?n = "blk_next (hdr s2 a)"
  obtain B3 fl3 s3 where s3:
    "(if ?n \<noteq> NULL then do { m \<leftarrow> hdrs s2 ?n; if \<not> blk_used m then absorb a ?n s2 else Some s2 } else Some s2) = Some s3"
    "heap_core B3 H fl3 s3" "live B3 (hdr s3) = live B (hdr s2)" "heap_frame s2 s3" "dom (hdrs s3) = dom (hdrs s2)"
    "a \<in> B3" "\<not> blk_used (hdr s3 a)" "blk_prev (hdr s3 a) = blk_prev (hdr s2 a)"
    "free_pairs B3 (hdr s3) \<subseteq> {blk_prev (hdr s3 a)}" "blk_next (hdr s3 a) = NULL \<or> blk_used (hdr s3 (blk_next (hdr s3 a)))"
    using absorb_right[OF s2(2) aB(1) fa2 fp2] by metis
  let ?p = "blk_prev (hdr s3 a)"
  obtain B4 fl4 s4 where s4:
    "(if ?p \<noteq> NULL then do { m \<leftarrow> hdrs s3 ?p; if \<not> blk_used m then absorb ?p a s3 else Some s3 } else Some s3) = Some s4"
    "heap_core B4 H fl4 s4" "live B4 (hdr s4) = live B3 (hdr s3)" "heap_frame s3 s4" "dom (hdrs s4) = dom (hdrs s3)"
    "\<not> blk_used (hdr s4 a)" "free_pairs B4 (hdr s4) = {}"
    using absorb_left[OF s3(2,6,7,9,10)] by metis
  have res: "kfree (a + HEADER_SIZE) s = Some s4"
    using ptr(2) aB(2) s3(1) s4(1)
    by (simp only: kfree_def Let_def ptr(1) hdrs_Some[OF ad] upd_blk_Some[OF ad] s2(1) hdrs_Some[OF ad2]
        hdrs_Some[of a s3] Option.bind.simps if_False simp_thms s3(5) ad2)
  have "heap_inv B4 H fl4 s4" using s4(2,7) by (simp add: heap_inv_def)
  moreover have "heap_frame s s4" using heap_frame_trans[OF s2(4) heap_frame_trans[OF s3(4) s4(4)]] .
  moreover have "live B4 (hdr s4) = live B (hdr s) - {(a, n)}" using s4(3) s3(3) lv2 by simp
  moreover have "hdrs s4 a = Some (hdr s4 a)" using ad2 s3(5) s4(5) by (intro hdrs_Some) simp
  ultimately show thesis using res s4(6) by (intro that)
qed

end
