(* ===== verification/Byte_Allocator.thy ===== *)
theory Byte_Allocator
  imports Aura_Prelude
begin

text \<open>
  The contract between an allocator of byte ranges, the kernel heap, and its clients, such as
  the pool of compressed pages: which ranges a client holds, and that the allocator neither
  hands out a byte twice nor writes into what it has handed out.
\<close>

locale byte_allocator =
  fixes ok :: "(addr \<times> size_t) set \<Rightarrow> 's \<Rightarrow> bool"
    and alloc :: "size_t \<Rightarrow> 's \<Rightarrow> (addr \<times> 's) option"
    and release :: "addr \<Rightarrow> 's \<Rightarrow> 's option"
    and mem :: "'s \<Rightarrow> addr \<Rightarrow> u8"
    and rest :: "'s \<Rightarrow> 'r"
    and limit :: size_t
  assumes held_disjoint: "ok L s \<Longrightarrow> (p, n) \<in> L \<Longrightarrow> (q, m) \<in> L \<Longrightarrow> (p, n) \<noteq> (q, m) \<Longrightarrow>
      {p..<p + n} \<inter> {q..<q + m} = {}"
    and held_nonnull: "ok L s \<Longrightarrow> (p, n) \<in> L \<Longrightarrow> p \<noteq> NULL \<and> p + n < two64"
    and held_unique: "ok L s \<Longrightarrow> (p, n) \<in> L \<Longrightarrow> (p, m) \<in> L \<Longrightarrow> n = m"
    and alloc_total: "ok L s \<Longrightarrow> 0 < n \<Longrightarrow> n < limit \<Longrightarrow> \<exists>p s'. alloc n s = Some (p, s')"
    and alloc_null: "ok L s \<Longrightarrow> 0 < n \<Longrightarrow> n < limit \<Longrightarrow> alloc n s = Some (NULL, s') \<Longrightarrow> s' = s"
    and alloc_held: "ok L s \<Longrightarrow> 0 < n \<Longrightarrow> n < limit \<Longrightarrow> alloc n s = Some (p, s') \<Longrightarrow> p \<noteq> NULL \<Longrightarrow>
      \<exists>m \<ge> n. ok (insert (p, m) L) s' \<and> (\<forall>k. (p, k) \<notin> L) \<and> mem s' = mem s \<and> rest s' = rest s"
    and release_held: "ok L s \<Longrightarrow> (p, n) \<in> L \<Longrightarrow>
      \<exists>s'. release p s = Some s' \<and> ok (L - {(p, n)}) s' \<and> mem s' = mem s \<and> rest s' = rest s"
begin

lemma alloc_cases:
  assumes "ok L s" "0 < n" "n < limit"
  obtains "alloc n s = Some (NULL, s)"
    | p m s' where "alloc n s = Some (p, s')" "p \<noteq> NULL" "n \<le> m" "ok (insert (p, m) L) s'"
        "(p, m) \<notin> L" "mem s' = mem s" "rest s' = rest s"
proof -
  obtain p s' where r: "alloc n s = Some (p, s')" using alloc_total[OF assms] by blast
  show thesis
  proof (cases "p = NULL")
    case True
    with r alloc_null[OF assms] show thesis by (intro that(1)) blast
  next
    case False
    from alloc_held[OF assms r False] show thesis using r False by (blast intro: that(2))
  qed
qed

text \<open>A new range overlaps nothing that is held.\<close>

lemma alloc_disjoint:
  assumes "ok L s" "0 < n" "n < limit" "alloc n s = Some (p, s')" "p \<noteq> NULL" "(q, m) \<in> L"
  shows "{p..<p + n} \<inter> {q..<q + m} = {}"
proof -
  obtain k where k: "n \<le> k" "ok (insert (p, k) L) s'" "\<forall>k. (p, k) \<notin> L"
    using alloc_held[OF assms(1-5)] by blast
  have "(p, k) \<noteq> (q, m)" using k(3) assms(6) by blast
  then have "{p..<p + k} \<inter> {q..<q + m} = {}"
    using held_disjoint[OF k(2)] assms(6) by blast
  moreover have "{p..<p + n} \<subseteq> {p..<p + k}" using k(1) by simp
  ultimately show ?thesis by blast
qed

text \<open>Releasing one range leaves every other one held.\<close>

lemma release_others:
  assumes "ok L s" "(p, n) \<in> L" "(q, m) \<in> L" "q \<noteq> p" "release p s = Some s'"
  shows "\<exists>L'. ok L' s' \<and> (q, m) \<in> L' \<and> (\<forall>k. (p, k) \<notin> L')"
proof -
  have "ok (L - {(p, n)}) s'" using release_held[OF assms(1,2)] assms(5) by auto
  moreover have "(p, k) \<notin> L - {(p, n)}" for k using held_unique[OF assms(1,2)] by blast
  ultimately show ?thesis using assms(3,4) by blast
qed

end

end
