(* ===== verification/Kheap_Clients.thy ===== *)
theory Kheap_Clients
  imports Kheap_Inv Byte_Allocator
begin

text \<open>
  The kernel heap as its clients see it: which payloads they hold, the interpretation of the
  contract \<open>byte_allocator\<close>, \<open>krealloc\<close> and \<open>kmalloc_aligned\<close>, the states that clients can
  reach, and the properties that hold in all of them.
\<close>

section \<open>The heap as an allocator of byte ranges\<close>

text \<open>\<open>L\<close>: the payloads clients hold, with their sizes.\<close>

definition heap_ok :: "(addr \<times> size_t) set \<Rightarrow> 'a heap_state_scheme \<Rightarrow> bool" where
  "heap_ok L s \<longleftrightarrow> (\<exists>B H fl. heap_inv B H fl s \<and> L = (\<lambda>(a, n). (a + HEADER_SIZE, n)) ` live B (hdr s))"

lemma heap_okI: "heap_inv B H fl s \<Longrightarrow> heap_ok ((\<lambda>(a, n). (a + HEADER_SIZE, n)) ` live B (hdr s)) s"
  unfolding heap_ok_def by blast

lemma heap_ok_held:
  assumes inv: "heap_inv B H fl s" and L: "L = (\<lambda>(a, n). (a + HEADER_SIZE, n)) ` live B (hdr s)"
    and p: "(p, n) \<in> L"
  obtains a where "p = a + HEADER_SIZE" "a \<in> B" "blk_used (hdr s a)" "n = blk_size (hdr s a)"
    "(a, n) \<in> live B (hdr s)"
  using p unfolding L by (auto simp: in_live)

text \<open>Payloads do not overlap, nor does any payload overlap the header of another.\<close>

lemma heap_ok_disjoint_headers:
  assumes "heap_ok L s" "(p, n) \<in> L" "(q, m) \<in> L" "(p, n) \<noteq> (q, m)"
  shows "{p - HEADER_SIZE..<p + n} \<inter> {q - HEADER_SIZE..<q + m} = {}"
proof -
  obtain B H fl where inv: "heap_inv B H fl s" and L: "L = (\<lambda>(a, n). (a + HEADER_SIZE, n)) ` live B (hdr s)"
    using assms(1) unfolding heap_ok_def by blast
  obtain a where a: "p = a + HEADER_SIZE" "a \<in> B" "n = blk_size (hdr s a)"
    using heap_ok_held[OF inv L assms(2)] .
  obtain b where b: "q = b + HEADER_SIZE" "b \<in> B" "m = blk_size (hdr s b)"
    using heap_ok_held[OF inv L assms(3)] .
  have "a \<noteq> b" using a b assms(4) by auto
  moreover have "blk_disjoint B (hdr s)"
    using inv tilingD(4) heap_coreD(3) unfolding heap_inv_def by blast
  ultimately have "blk_bytes (hdr s) a \<inter> blk_bytes (hdr s) b = {}"
    using a(2) b(2) unfolding blk_disjoint_def by blast
  then show ?thesis unfolding a b by (simp add: blk_bytes_def)
qed

lemma heap_ok_disjoint_free:
  assumes "heap_ok L s" "(p, n) \<in> L"
  shows "\<exists>fl. chain (\<lambda>a. blk_next_free (hdr s a)) (free_head s) fl \<and>
    (\<forall>a \<in> set fl. {p - HEADER_SIZE..<p + n} \<inter> {a..<a + HEADER_SIZE + blk_size (hdr s a)} = {})"
proof -
  obtain B H fl where inv: "heap_inv B H fl s" and L: "L = (\<lambda>(a, n). (a + HEADER_SIZE, n)) ` live B (hdr s)"
    using assms(1) unfolding heap_ok_def by blast
  obtain a where a: "p = a + HEADER_SIZE" "a \<in> B" "blk_used (hdr s a)" "n = blk_size (hdr s a)"
    using heap_ok_held[OF inv L assms(2)] .
  have core: "heap_core B H fl s" using inv by (simp add: heap_inv_def)
  note C = heap_coreD[OF core]
  have "{p - HEADER_SIZE..<p + n} \<inter> {b..<b + HEADER_SIZE + blk_size (hdr s b)} = {}" if "b \<in> set fl" for b
  proof -
    have "b \<in> B" "b \<noteq> a" using that C(5) a(3) by (auto simp: free_set_def)
    then have "blk_bytes (hdr s) a \<inter> blk_bytes (hdr s) b = {}"
      using tilingD(4)[OF C(3)] a(2) unfolding blk_disjoint_def by blast
    then show ?thesis using a(1,4) by (simp add: blk_bytes_def)
  qed
  with flist_chain(1)[OF C(4)] show ?thesis by blast
qed

lemma heap_ok_disjoint:
  assumes "heap_ok L s" "(p, n) \<in> L" "(q, m) \<in> L" "(p, n) \<noteq> (q, m)"
  shows "{p..<p + n} \<inter> {q..<q + m} = {}"
proof -
  have "{p..<p + n} \<subseteq> {p - HEADER_SIZE..<p + n}" "{q..<q + m} \<subseteq> {q - HEADER_SIZE..<q + m}"
    by (simp_all add: atLeastLessThan_subset_iff)
  with heap_ok_disjoint_headers[OF assms] show ?thesis by blast
qed

text \<open>Every held payload lies in frames that are marked in use, is 8-byte aligned, and ends
  below the end of memory.\<close>

lemma heap_ok_held_facts:
  assumes "heap_ok L s" "(p, n) \<in> L"
  shows "p \<noteq> NULL" "p + n < two64" "p mod 8 = 0" "n mod 8 = 0" "HEADER_SIZE \<le> p"
    "hdrs s (p - HEADER_SIZE) = Some (hdr s (p - HEADER_SIZE))"
    "blk_used (hdr s (p - HEADER_SIZE))" "blk_size (hdr s (p - HEADER_SIZE)) = n"
    "p \<le> x \<Longrightarrow> x < p + n \<Longrightarrow> (x - heap_phys_offset s) div PAGE_SIZE \<in> pmm_used s - {0}"
proof -
  obtain B H fl where inv: "heap_inv B H fl s" and L: "L = (\<lambda>(a, n). (a + HEADER_SIZE, n)) ` live B (hdr s)"
    using assms(1) unfolding heap_ok_def by blast
  have core: "heap_core B H fl s" using inv by (simp add: heap_inv_def)
  note C = heap_coreD[OF core]
  note T = tilingD[OF C(3)]
  obtain a where a: "p = a + HEADER_SIZE" "a \<in> B" "blk_used (hdr s a)" "n = blk_size (hdr s a)"
    using heap_ok_held[OF inv L assms(2)] .
  show "p \<noteq> NULL" "HEADER_SIZE \<le> p" "blk_used (hdr s (p - HEADER_SIZE))"
    "blk_size (hdr s (p - HEADER_SIZE)) = n" using a by simp_all
  show "p + n < two64" using heap_core_bounds(1)[OF core a(2)] a(1,4) by simp
  have "a mod 8 = 0" "n mod 8 = 0" using T(6) a(2) unfolding blk_aligned_def a(4) by simp_all
  then show "p mod 8 = 0" "n mod 8 = 0" using a(1) by presburger+
  show "hdrs s (p - HEADER_SIZE) = Some (hdr s (p - HEADER_SIZE))"
    using a(1,2) C(2) by (intro hdrs_Some) auto
  assume x: "p \<le> x" "x < p + n"
  then have "x \<in> blk_bytes (hdr s) a" using a by (simp add: blk_bytes_def)
  then have "(x - heap_phys_offset s) div PAGE_SIZE \<in> H"
    using T(3) a(2) unfolding blk_inside_def by blast
  moreover have "H \<subseteq> pmm_used s - {0}" using C(1) unfolding heap_env_def by blast
  ultimately show "(x - heap_phys_offset s) div PAGE_SIZE \<in> pmm_used s - {0}" by (rule rev_subsetD)
qed

lemma heap_ok_unique:
  assumes "heap_ok L s" "(p, n) \<in> L" "(p, m) \<in> L"
  shows "n = m"
  using heap_ok_held_facts(8)[OF assms(1,2)] heap_ok_held_facts(8)[OF assms(1,3)] by simp

lemma heap_ok_kmalloc:
  assumes "heap_ok L s" "0 < n" "n + 4160 < two64"
  obtains "kmalloc n s = Some (NULL, s)" "no_run (grow_pages (align_up n 8)) s"
      "\<exists>fl. chain (\<lambda>a. blk_next_free (hdr s a)) (free_head s) fl \<and> (\<forall>a\<in>set fl. blk_size (hdr s a) < align_up n 8)"
    | p m s' where "kmalloc n s = Some (p, s')" "p \<noteq> NULL" "n \<le> m" "m < n + 88" "heap_ok (insert (p, m) L) s'"
        "\<And>k. (p, k) \<notin> L" "heap_mem s' = heap_mem s" "heap_phys_offset s' = heap_phys_offset s"
        "total_frames s' = total_frames s" "heap_state.more s' = heap_state.more s"
proof -
  obtain B H fl where inv: "heap_inv B H fl s" and L: "L = (\<lambda>(a, n). (a + HEADER_SIZE, n)) ` live B (hdr s)"
    using assms(1) unfolding heap_ok_def by blast
  have fl: "chain (\<lambda>a. blk_next_free (hdr s a)) (free_head s) fl"
    using inv heap_coreD(4) flist_chain(1) unfolding heap_inv_def by blast
  from inv assms(2,3) show thesis
  proof (cases rule: kmalloc_cases)
    case None
    then show thesis using that(1) fl by blast
  next
    case (Some a B' H' fl' s')
    have "heap_ok (insert (a + HEADER_SIZE, blk_size (hdr s' a)) L) s'"
      using heap_okI[OF Some(2)] unfolding Some(3) L by simp
    moreover have "(a + HEADER_SIZE, k) \<notin> L" for k using Some(4) unfolding L by auto
    ultimately show thesis
      using Some(1,5-10) by (intro that(2)[of "a + HEADER_SIZE" s' "blk_size (hdr s' a)"]) simp_all
  qed
qed

lemma heap_ok_kfree:
  assumes "heap_ok L s" "(p, n) \<in> L"
  obtains s' where "kfree p s = Some s'" "heap_ok (L - {(p, n)}) s'" "heap_frame s s'"
    "hdrs s' (p - HEADER_SIZE) = Some (hdr s' (p - HEADER_SIZE))" "\<not> blk_used (hdr s' (p - HEADER_SIZE))"
proof -
  obtain B H fl where inv: "heap_inv B H fl s" and L: "L = (\<lambda>(a, n). (a + HEADER_SIZE, n)) ` live B (hdr s)"
    using assms(1) unfolding heap_ok_def by blast
  obtain a where a: "p = a + HEADER_SIZE" "(a, n) \<in> live B (hdr s)"
    using heap_ok_held[OF inv L assms(2)] .
  obtain B' fl' s' where s': "kfree (a + HEADER_SIZE) s = Some s'" "heap_inv B' H fl' s'"
    "live B' (hdr s') = live B (hdr s) - {(a, n)}" "heap_frame s s'"
    "hdrs s' a = Some (hdr s' a)" "\<not> blk_used (hdr s' a)"
    using kfree_ok[OF inv a(2)] .
  have "(\<lambda>(a, n). (a + HEADER_SIZE, n)) ` (live B (hdr s) - {(a, n)}) = L - {(p, n)}"
    unfolding L a(1) by auto
  then have "heap_ok (L - {(p, n)}) s'" using heap_okI[OF s'(2)] unfolding s'(3) by simp
  with s' a(1) show thesis by (intro that[of s']) simp_all
qed

interpretation heap: byte_allocator heap_ok kmalloc kfree heap_mem
    "\<lambda>s. (heap_phys_offset s, total_frames s, heap_state.more s)" "two64 - 4160"
proof (unfold_locales, goal_cases)
  case (1 L s p n q m)
  then show ?case by (rule heap_ok_disjoint)
next
  case (2 L s p n)
  then show ?case using heap_ok_held_facts(1,2) by blast
next
  case (3 L s p n m)
  then show ?case by (rule heap_ok_unique)
next
  case (4 L s n)
  then have "n + 4160 < two64" by simp
  with 4(1,2) show ?case by (rule heap_ok_kmalloc) blast+
next
  case (5 L s n s')
  then have "n + 4160 < two64" by simp
  with 5(1,2) show ?case by (rule heap_ok_kmalloc) (use 5(4) in auto)
next
  case (6 L s n p s')
  then have "n + 4160 < two64" by simp
  with 6(1,2) show ?case
  proof (rule heap_ok_kmalloc, goal_cases)
    case 1
    with 6(4,5) show ?case by simp
  next
    case (2 q m s'')
    with 6(4) show ?case by (intro exI[of _ m]) simp
  qed
next
  case (7 L s p n)
  obtain s' where s': "kfree p s = Some s'" "heap_ok (L - {(p, n)}) s'" "heap_frame s s'"
    using heap_ok_kfree[OF 7] .
  then show ?case using heap_frame_fields[OF s'(3)] by simp
qed

text \<open>The queries.\<close>

lemma heap_ok_accounting:
  assumes "heap_ok L s"
  obtains f k h where "heap_get_used s = (\<Sum>(p, n)\<in>L. n)" "heap_get_free s = Some f"
    "heap_get_used s + f + k * HEADER_SIZE = h * PAGE_SIZE" "card L \<le> k" "h < total_frames s"
proof -
  obtain B H fl where inv: "heap_inv B H fl s" and L: "L = (\<lambda>(a, n). (a + HEADER_SIZE, n)) ` live B (hdr s)"
    using assms unfolding heap_ok_def by blast
  have core: "heap_core B H fl s" using inv by (simp add: heap_inv_def)
  note C = heap_coreD[OF core]
  note T = tilingD[OF C(3)]
  let ?U = "used_set B (hdr s)" and ?F = "free_set B (hdr s)"
  have L': "L = (\<lambda>a. (a + HEADER_SIZE, blk_size (hdr s a))) ` ?U"
    unfolding L live_def by (simp add: image_image)
  have inj: "inj_on (\<lambda>a. (a + HEADER_SIZE, blk_size (hdr s a))) ?U" by (auto intro: inj_onI)
  have u: "heap_get_used s = (\<Sum>(p, n)\<in>L. n)"
    unfolding heap_get_used_def C(6) used_sum_def L' sum.reindex[OF inj] by simp
  have dis: "distinct fl" using C(4) dlist_distinct unfolding flist_def by blast
  have f: "(\<Sum>a\<leftarrow>fl. blk_size (hdr s a)) = (\<Sum>a\<in>?F. blk_size (hdr s a))"
    using sum_list_distinct_conv_sum_set[OF dis, of "\<lambda>a. blk_size (hdr s a)"] C(5) by simp
  have "0 + (\<Sum>a\<leftarrow>fl. blk_size (hdr s a)) < two64" using heap_core_total[OF core] f by simp
  from sum_free_chain[OF flist_chain[OF C(4)] this]
  have "heap_get_free s = Some (\<Sum>a\<in>?F. blk_size (hdr s a))" by (simp add: heap_get_free_def f)
  moreover have "heap_get_used s + (\<Sum>a\<in>?F. blk_size (hdr s a)) + card B * HEADER_SIZE = card H * PAGE_SIZE"
    using tiling_accounting[OF C(3)] C(6) by (simp add: heap_get_used_def mult.commute)
  moreover have "card L \<le> card B"
    unfolding L' card_image[OF inj] using T(1) by (intro card_mono) (auto simp: used_set_def)
  moreover have "card H < total_frames s"
  proof -
    have e: "H \<subseteq> pmm_used s - {0}" "0 \<in> pmm_used s" using C(1) unfolding heap_env_def by blast+
    then have "H \<subseteq> {..<total_frames s} - {0}" "0 < total_frames s"
      using pmm_used_bounded[of s] by (blast, auto simp: in_pmm_used)
    then have "card H \<le> card ({..<total_frames s} - {0})" by (intro card_mono) simp_all
    then show ?thesis using \<open>0 < total_frames s\<close> by simp
  qed
  ultimately show thesis using u by (intro that)
qed

section \<open>Moving and aligning\<close>

lemma heap_ok_mem [simp]: "heap_ok L (s\<lparr>heap_mem := m\<rparr>) = heap_ok L s"
proof -
  have h: "hdr (s\<lparr>heap_mem := m\<rparr>) = hdr s" by (rule ext) (simp add: hdr_def)
  have "heap_env H (s\<lparr>heap_mem := m\<rparr>) = heap_env H s" for H
    by (simp add: heap_env_def pmm_wf_def pmm_used_def)
  moreover have "flist fl (s\<lparr>heap_mem := m\<rparr>) = flist fl s" for fl by (simp add: flist_def h)
  ultimately show ?thesis by (simp add: heap_ok_def heap_inv_def heap_core_def h)
qed

lemma copy_bytes_mem:
  assumes "dst + n < two64" "src + n < two64" "{dst..<dst + n} \<inter> {src..<src + n} = {}"
  shows "copy_bytes dst src n s = s\<lparr>heap_mem := (\<lambda>x. if dst \<le> x \<and> x < dst + n
    then heap_mem s (src + (x - dst)) else heap_mem s x)\<rparr>"
  using assms
proof (induction n)
  case 0
  have "(\<lambda>x. if dst \<le> x \<and> x < dst + 0 then heap_mem s (src + (x - dst)) else heap_mem s x) = heap_mem s"
    by (rule ext) auto
  then show ?case by (simp add: copy_bytes_def)
next
  case (Suc n)
  have sub: "{dst..<dst + n} \<subseteq> {dst..<dst + Suc n}" "{src..<src + n} \<subseteq> {src..<src + Suc n}" by simp_all
  then have IH: "copy_bytes dst src n s = s\<lparr>heap_mem := (\<lambda>x. if dst \<le> x \<and> x < dst + n
      then heap_mem s (src + (x - dst)) else heap_mem s x)\<rparr>"
    using Suc.prems by (intro Suc.IH) auto
  have step: "copy_bytes dst src (Suc n) s = (copy_bytes dst src n s)\<lparr>heap_mem :=
      (heap_mem (copy_bytes dst src n s))(add64 dst n := heap_mem (copy_bytes dst src n s) (add64 src n))\<rparr>"
    by (simp add: copy_bytes_def)
  have w: "add64 dst n = dst + n" "add64 src n = src + n" using Suc.prems by (simp_all add: wrap)
  have "src + n \<notin> {dst..<dst + Suc n}" using Suc.prems(3) by force
  then have "\<not> (dst \<le> src + n \<and> src + n < dst + n)" by auto
  then show ?case
    unfolding step IH w by (auto simp: fun_eq_iff less_Suc_eq intro!: arg_cong[where f = "\<lambda>m. s\<lparr>heap_mem := m\<rparr>"])
qed

lemma heap_ok_krealloc:
  assumes ok: "heap_ok L s" and p: "(p, n) \<in> L" and m: "0 < m" "m + 4168 < two64"
  obtains "align_up m 8 \<le> n" "krealloc p m s = Some (p, s)"
    | "n < align_up m 8" "krealloc p m s = Some (NULL, s)"
    | q k s' where "n < align_up m 8" "krealloc p m s = Some (q, s')" "q \<noteq> NULL" "m \<le> k" "n \<le> k"
        "heap_ok (insert (q, k) (L - {(p, n)})) s'" "\<And>k. (q, k) \<notin> L"
        "\<And>i. i < n \<Longrightarrow> heap_mem s' (q + i) = heap_mem s (p + i)"
        "\<And>x. x \<notin> {q..<q + n} \<Longrightarrow> heap_mem s' x = heap_mem s x"
proof -
  note P = heap_ok_held_facts[OF ok p]
  let ?m = "align_up m 8" and ?h = "hdr s (p - HEADER_SIZE)"
  have al: "m \<le> ?m" "?m + 4160 < two64" "0 < ?m"
    using align_up_8(2,3)[of m] m by simp_all
  have blk: "sub64 p HEADER_SIZE = p - HEADER_SIZE" using P(2,5) by (simp add: wrap)
  show thesis
  proof (cases "?m \<le> n")
    case True
    have "krealloc p m s = Some (p, s)"
      using P(1) m(1) True P(8) by (simp add: krealloc_def Let_def blk P(6))
    then show thesis using True that(1) by blast
  next
    case False
    then have k: "krealloc p m s = (kmalloc ?m s \<bind> (\<lambda>r. if fst r = NULL then Some (NULL, snd r)
        else do { b1 \<leftarrow> hdrs (snd r) (p - HEADER_SIZE);
                  s2 \<leftarrow> kfree p (copy_bytes (fst r) p (blk_size b1) (snd r)); Some (fst r, s2) }))"
      using P(1) m(1) P(8) by (simp add: krealloc_def Let_def blk P(6))
    have lt: "n < ?m" using False by simp
    from ok al(3,2) show thesis
    proof (rule heap_ok_kmalloc, goal_cases)
      case 1
      then show thesis using that(2) lt k by simp
    next
      case (2 q l s1)
      have ok1: "heap_ok (insert (q, l) L) s1" by (rule 2(5))
      have pL: "(p, n) \<in> insert (q, l) L" using p by simp
      have qp: "(p, n) \<noteq> (q, l)" using 2(6) p by blast
      note P1 = heap_ok_held_facts[OF ok1 pL]
      have nl: "n \<le> l" using lt 2(3) by simp
      have ql: "q + l < two64" using heap_ok_held_facts(2)[OF ok1] by blast
      have "{q..<q + l} \<inter> {p..<p + n} = {}"
        using heap_ok_disjoint[OF ok1 _ pL] qp by blast
      moreover have "{q..<q + n} \<subseteq> {q..<q + l}" using nl by simp
      ultimately have dis: "{q..<q + n} \<inter> {p..<p + n} = {}" by blast
      let ?mem = "\<lambda>x. if q \<le> x \<and> x < q + n then heap_mem s1 (p + (x - q)) else heap_mem s1 x"
      have cp: "copy_bytes q p n s1 = s1\<lparr>heap_mem := ?mem\<rparr>"
        using dis nl ql P1(2) by (intro copy_bytes_mem) simp_all
      have ok2: "heap_ok (insert (q, l) L) (copy_bytes q p n s1)" using ok1 by (simp add: cp)
      obtain s2 where s2: "kfree p (copy_bytes q p n s1) = Some s2"
        "heap_ok (insert (q, l) L - {(p, n)}) s2" "heap_frame (copy_bytes q p n s1) s2"
        using heap_ok_kfree[OF ok2 pL] .
      have "krealloc p m s = Some (q, s2)"
        using 2(1,2) s2(1) P1(8) by (simp add: k P1(6))
      moreover have "insert (q, l) L - {(p, n)} = insert (q, l) (L - {(p, n)})" using qp by blast
      moreover have "heap_mem s2 = ?mem" using heap_frame_fields(1)[OF s2(3)] by (simp add: cp)
      moreover have "m \<le> l" using al(1) 2(3) by simp
      ultimately show thesis
        using 2(2,6,7) lt nl s2(2) by (intro that(3)[of q s2 l]) auto
    qed
  qed
qed

lemma pow2_test:
  assumes "j < 64"
  shows "(of_nat (2 ^ j) :: u64) AND (of_nat (2 ^ j) - 1) = 0"
proof -
  have m: "(of_nat (2 ^ j) :: u64) - 1 = mask j" by (simp add: mask_eq_exp_minus_1)
  show ?thesis unfolding m
    by (rule bit_word_eqI) (simp add: bit_simps)
qed

lemma heap_ok_kmalloc_aligned:
  assumes ok: "heap_ok L s" and n: "0 < n" "n + 2 ^ j + 4224 < two64"
  obtains "kmalloc_aligned n (2 ^ j) s = Some (NULL, s)" "no_run (grow_pages (align_up (n + 2 ^ j + 56) 8)) s"
    | q raw k s' where "kmalloc_aligned n (2 ^ j) s = Some (q, s')" "q \<noteq> NULL" "q mod 2 ^ j = 0"
        "heap_ok (insert (raw, k) L) s'" "\<And>k. (raw, k) \<notin> L" "raw + 8 \<le> q" "q + n \<le> raw + k"
        "\<And>m. (q, m) \<notin> insert (raw, k) L" "\<And>x. x \<notin> {raw..<q} \<Longrightarrow> heap_mem s' x = heap_mem s x"
proof -
  let ?al = "2 ^ j :: nat" and ?pad = "n + 2 ^ j + 56"
  have j: "j < 64"
  proof (rule ccontr)
    assume "\<not> j < 64"
    then have "(2::nat) ^ 64 \<le> 2 ^ j" by (intro power_increasing) simp_all
    with n(2) show False by simp
  qed
  have w: "add64 (add64 (add64 n ?al) HEADER_SIZE) 8 = ?pad" using n(2) by (simp add: wrap)
  have k: "kmalloc_aligned n ?al s = (kmalloc ?pad s \<bind> (\<lambda>r. let raw = fst r in
      if raw = NULL then Some (NULL, snd r)
      else let aligned = align_up (add64 raw 8) ?al in Some (aligned, store_ptr (sub64 aligned 8) raw (snd r))))"
    using n(1) pow2_test[OF j] by (simp add: kmalloc_aligned_def w)
  have "0 < ?pad" "?pad + 4160 < two64" using n by simp_all
  with ok show thesis
  proof (rule heap_ok_kmalloc, goal_cases)
    case 1
    then show thesis using that(1) k by simp
  next
    case (2 raw l s1)
    have in1: "(raw, l) \<in> insert (raw, l) L" by simp
    note R = heap_ok_held_facts[OF 2(5) in1]
    let ?v = "raw + 8" and ?q = "align_up (raw + 8) ?al"
    have v: "add64 raw 8 = ?v" "?v + ?al < two64" using R(2) 2(3) by (simp_all add: wrap)
    have q: "?q = (?v + ?al - 1) div ?al * ?al" by (rule align_up_pow2[OF v(2)])
    have md: "?q + (?v + ?al - 1) mod ?al = ?v + ?al - 1" unfolding q by (rule div_mult_mod_eq)
    have "(?v + ?al - 1) mod ?al < ?al" by simp
    with md have b: "?v \<le> ?q" "?q \<le> ?v + ?al - 1" by linarith+
    have q8: "sub64 ?q 8 = ?q - 8" using b v(2) by (simp add: wrap)
    have res: "kmalloc_aligned n ?al s = Some (?q, store_ptr (?q - 8) raw s1)"
      using 2(1,2) by (simp add: k v(1) q8 Let_def)
    have okq: "heap_ok (insert (raw, l) L) (store_ptr (?q - 8) raw s1)"
      using 2(5) by (simp add: store_ptr_def)
    have fits: "?q + n \<le> raw + l" using b(2) 2(3) by linarith
    have nq: "(?q, m) \<notin> insert (raw, l) L" for m
    proof
      assume m: "(?q, m) \<in> insert (raw, l) L"
      have ne: "(?q, m) \<noteq> (raw, l)" using b(1) by auto
      have "{?q - HEADER_SIZE..<?q + m} \<inter> {raw - HEADER_SIZE..<raw + l} = {}"
        using heap_ok_disjoint_headers[OF 2(5) m in1 ne] .
      moreover have "?q - 1 \<in> {?q - HEADER_SIZE..<?q + m}" "?q - 1 \<in> {raw - HEADER_SIZE..<raw + l}"
        using b(1) fits n(1) by auto
      ultimately show False by blast
    qed
    have mem: "heap_mem (store_ptr (?q - 8) raw s1) x = heap_mem s x" if "x \<notin> {raw..<?q}" for x
      using that b(1) 2(7) by (auto simp: store_ptr_def)
    have qm: "?q mod ?al = 0" unfolding q by simp
    have "?q \<noteq> NULL" using b(1) by linarith
    from that(2)[OF res this qm okq 2(6) b(1) fits nq mem] show thesis .
  qed
qed

section \<open>Clients\<close>

text \<open>
  The states of the heap while clients use it as heap.h asks: they free or resize a payload
  they hold, with the pointer \<open>kmalloc\<close> gave them, and write only into payloads they hold (a
  write over the bytes of a header that merging has left behind destroys that header). The
  other parts of the kernel take frames in between. \<open>L\<close> is what clients hold.
\<close>

definition payload_size :: "'a heap_state_scheme \<Rightarrow> addr \<Rightarrow> size_t" where
  "payload_size s p = blk_size (hdr s (p - HEADER_SIZE))"

definition client_write :: "addr \<Rightarrow> u8 \<Rightarrow> 'a heap_state_scheme \<Rightarrow> 'a heap_state_scheme" where
  "client_write x v s = s\<lparr>heap_mem := (heap_mem s)(x := v),
     hdrs := (\<lambda>h. if h \<le> x \<and> x < h + HEADER_SIZE then None else hdrs s h)\<rparr>"

inductive heap_reach :: "(addr \<times> size_t) set \<Rightarrow> 'a heap_state_scheme \<Rightarrow> bool" where
  init: "pmm_wf s \<Longrightarrow> 0 \<in> pmm_used s \<Longrightarrow> off mod 8 = 0 \<Longrightarrow> off + total_frames s * PAGE_SIZE < two64 \<Longrightarrow>
    heap_reach {} (heap_init off s)"
| alloc: "heap_reach L s \<Longrightarrow> 0 < n \<Longrightarrow> n + 4160 < two64 \<Longrightarrow> kmalloc n s = Some (p, s') \<Longrightarrow>
    heap_reach (if p = NULL then L else insert (p, payload_size s' p) L) s'"
| free: "heap_reach L s \<Longrightarrow> (p, n) \<in> L \<Longrightarrow> kfree p s = Some s' \<Longrightarrow> heap_reach (L - {(p, n)}) s'"
| realloc: "heap_reach L s \<Longrightarrow> (p, n) \<in> L \<Longrightarrow> 0 < m \<Longrightarrow> m + 4168 < two64 \<Longrightarrow>
    krealloc p m s = Some (q, s') \<Longrightarrow>
    heap_reach (if q = NULL \<or> q = p then L else insert (q, payload_size s' q) (L - {(p, n)})) s'"
| store: "heap_reach L s \<Longrightarrow> (p, n) \<in> L \<Longrightarrow> p \<le> x \<Longrightarrow> x < p + n \<Longrightarrow> heap_reach L (client_write x v s)"
| others: "heap_reach L s \<Longrightarrow> \<forall>p. \<not> frees c p \<Longrightarrow> heap_reach L (pmm_step c s)"

lemma heap_init_ok:
  assumes "pmm_wf s" "0 \<in> pmm_used s" "off mod 8 = 0" "off + total_frames s * PAGE_SIZE < two64"
  shows "heap_ok {} (heap_init off s)"
proof -
  have "heap_env {} (heap_init off s)"
    using assms by (simp add: heap_env_def heap_init_def pmm_used_def pmm_wf_def)
  moreover have "tiling off {} {} h" for h
    by (simp add: tiling_def blk_inside_def blk_disjoint_def blk_links_def blk_aligned_def)
  moreover have "flist [] (heap_init off s)" by (simp add: flist_def dlist_def heap_init_def)
  ultimately have "heap_inv {} {} [] (heap_init off s)"
    by (simp add: heap_inv_def heap_core_def free_set_def used_sum_def used_set_def free_pairs_def)
       (simp add: heap_init_def)
  from heap_okI[OF this] show ?thesis by (simp add: live_def used_set_def)
qed

lemma pmm_step_heap_frame:
  "hdrs (pmm_step c s) = hdrs s" "free_head (pmm_step c s) = free_head s"
  "heap_used (pmm_step c s) = heap_used s" "heap_phys_offset (pmm_step c s) = heap_phys_offset s"
  "heap_mem (pmm_step c s) = heap_mem s"
  by (cases c; auto simp: pmm_mark_used_def pmm_mark_free_def pmm_free_frame_def Let_def take_frame_def
      pmm_alloc_contiguous_def pmm_alloc_frame_def split: option.split)+

lemma heap_ok_others:
  assumes "heap_ok L s" "\<forall>p. \<not> frees c p"
  shows "heap_ok L (pmm_step c s)"
proof -
  obtain B H fl where inv: "heap_inv B H fl s" and L: "L = (\<lambda>(a, n). (a + HEADER_SIZE, n)) ` live B (hdr s)"
    using assms(1) unfolding heap_ok_def by blast
  have h: "hdr (pmm_step c s) = hdr s" by (rule ext) (simp add: hdr_def pmm_step_heap_frame)
  have "heap_env H s" using inv by (simp add: heap_inv_def heap_core_def)
  then have env: "pmm_wf s" "0 \<in> pmm_used s" "heap_phys_offset s mod 8 = 0"
    "heap_phys_offset s + total_frames s * PAGE_SIZE < two64" "H \<subseteq> pmm_used s - {0}"
    unfolding heap_env_def by blast+
  have u: "f \<in> pmm_used (pmm_step c s)" if "f \<in> pmm_used s" for f
    using pmm_step_keeps_used[OF env(1), of "f * PAGE_SIZE" c] that assms(2) by simp
  then have "pmm_used s - {0} \<subseteq> pmm_used (pmm_step c s) - {0}" by blast
  with env(5) have H: "H \<subseteq> pmm_used (pmm_step c s) - {0}" by (rule order_trans)
  have "heap_env H (pmm_step c s)"
    unfolding heap_env_def pmm_step_heap_frame pmm_step_wf(2)[OF env(1)]
    using pmm_step_wf(1)[OF env(1)] u[OF env(2)] env(3,4) H by blast
  moreover have "flist fl (pmm_step c s) = flist fl s" by (simp add: flist_def h pmm_step_heap_frame)
  ultimately have "heap_inv B H fl (pmm_step c s)"
    using inv unfolding heap_inv_def heap_core_def by (simp add: h pmm_step_heap_frame)
  from heap_okI[OF this] show ?thesis by (simp add: L h)
qed

lemma heap_ok_client_write:
  assumes ok: "heap_ok L s" and p: "(p, n) \<in> L" "p \<le> x" "x < p + n"
  shows "heap_ok L (client_write x v s)"
proof -
  obtain B H fl where inv: "heap_inv B H fl s" and L: "L = (\<lambda>(a, n). (a + HEADER_SIZE, n)) ` live B (hdr s)"
    using ok unfolding heap_ok_def by blast
  have core: "heap_core B H fl s" and np: "free_pairs B (hdr s) = {}" using inv by (simp_all add: heap_inv_def)
  note C = heap_coreD[OF core]
  note T = tilingD[OF C(3)]
  let ?s = "client_write x v s"
  obtain a where a: "p = a + HEADER_SIZE" "a \<in> B" "n = blk_size (hdr s a)"
    using heap_ok_held[OF inv L p(1)] .
  have keep: "\<not> (b \<le> x \<and> x < b + HEADER_SIZE)" if "b \<in> B" for b
  proof (cases "b = a")
    case True
    then show ?thesis using p(2) a(1) by simp
  next
    case False
    then have "blk_bytes (hdr s) a \<inter> blk_bytes (hdr s) b = {}"
      using T(4) a(2) that unfolding blk_disjoint_def by blast
    moreover have "x \<in> blk_bytes (hdr s) a" using p(2,3) a by (simp add: blk_bytes_def)
    ultimately have "x \<notin> blk_bytes (hdr s) b" by blast
    then show ?thesis by (auto simp: blk_bytes_def)
  qed
  then have h: "hdrs ?s b = hdrs s b" "hdr ?s b = hdr s b" if "b \<in> B" for b
    using that by (auto simp: client_write_def hdr_def)
  have nx: "blk_next (hdr s b) \<in> B" if "b \<in> B" "blk_next (hdr s b) \<noteq> NULL" for b
    using blk_linksD(3)[OF T(5) that] .
  have sets: "free_set B (hdr ?s) = free_set B (hdr s)" "used_set B (hdr ?s) = used_set B (hdr s)"
    "free_pairs B (hdr ?s) = free_pairs B (hdr s)"
    using h(2) nx by (auto simp: free_set_def used_set_def free_pairs_def)
  have us: "used_sum B (hdr ?s) = used_sum B (hdr s)" "live B (hdr ?s) = live B (hdr s)"
    using h(2) unfolding used_sum_def live_def sets by (auto simp: used_set_def intro!: sum.cong)
  have flB: "set fl \<subseteq> B" using C(5) by (auto simp: free_set_def)
  have fh: "free_head ?s = free_head s" by (simp add: client_write_def)
  have dom: "B \<subseteq> dom (hdrs ?s)" using C(2) h(1) by (auto simp: dom_def)
  have "flist fl ?s"
  proof -
    have "dlist (\<lambda>a. blk_next_free (hdr ?s a)) (\<lambda>a. blk_prev_free (hdr ?s a)) (free_head ?s) fl =
        dlist (\<lambda>a. blk_next_free (hdr s a)) (\<lambda>a. blk_prev_free (hdr s a)) (free_head s) fl"
      unfolding fh using flB h(2) by (intro dlist_cong) auto
    then show ?thesis using C(4) dom flB unfolding flist_def by blast
  qed
  moreover have "heap_env H ?s" using C(1) by (simp add: heap_env_def client_write_def pmm_used_def pmm_wf_def)
  moreover have "tiling (heap_phys_offset ?s) H B (hdr ?s)"
  proof -
    have "heap_phys_offset ?s = heap_phys_offset s" by (simp add: client_write_def)
    then show ?thesis using C(3) h(2) by (simp add: tiling_cong[of B "hdr ?s" "hdr s"])
  qed
  moreover have "heap_used ?s = heap_used s" by (simp add: client_write_def)
  ultimately have "heap_inv B H fl ?s"
    using C(5,6) np dom unfolding heap_inv_def heap_core_def sets us by simp
  from heap_okI[OF this] show ?thesis by (simp add: L us)
qed

lemma heap_ok_payload: "heap_ok (insert (p, m) L) s \<Longrightarrow> payload_size s p = m"
  using heap_ok_held_facts(8)[of "insert (p, m) L" s p m] by (simp add: payload_size_def)

lemma heap_reach_ok: "heap_reach L s \<Longrightarrow> heap_ok L s"
proof (induction rule: heap_reach.induct)
  case (init s off)
  then show ?case by (rule heap_init_ok)
next
  case (alloc L s n p s')
  from alloc.IH alloc.hyps(2,3) show ?case
  proof (rule heap_ok_kmalloc, goal_cases)
    case 1
    with alloc.hyps(4) alloc.IH show ?case by simp
  next
    case (2 q m t)
    with alloc.hyps(4) heap_ok_payload[OF 2(5)] show ?case by simp
  qed
next
  case (free L s p n s')
  from free.IH free.hyps(2) obtain t where "kfree p s = Some t" "heap_ok (L - {(p, n)}) t"
    by (rule heap_ok_kfree)
  with free.hyps(3) show ?case by simp
next
  case (realloc L s p n m q s')
  from realloc.IH realloc.hyps(2-4) show ?case
  proof (rule heap_ok_krealloc, goal_cases)
    case 1
    with realloc.hyps(5) realloc.IH show ?case by simp
  next
    case 2
    with realloc.hyps(5) realloc.IH show ?case by simp
  next
    case (3 r k t)
    then have "r \<noteq> p" using realloc.hyps(2) by blast
    with 3 realloc.hyps(5) heap_ok_payload[OF 3(6)] show ?case by simp
  qed
next
  case (store L s p n x v)
  then show ?case by (intro heap_ok_client_write)
next
  case (others L s c)
  then show ?case by (intro heap_ok_others)
qed

section \<open>An example\<close>

text \<open>A heap on 100 frames, of which frame 0 is reserved, and the first two allocations.\<close>

definition heap_static :: heap_state where
  "heap_static = \<lparr>bitmap_base = NULL, bitmap = [], total_frames = 0, used_frames = 0, alloc_hint = 0,
     free_head = NULL, heap_used = 0, heap_phys_offset = 0, hdrs = (\<lambda>_. None), heap_mem = (\<lambda>_. 0)\<rparr>"

definition heap_start :: heap_state where
  "heap_start = heap_init 0 (pmm_mark_used 0 (pmm_init 409600 0 heap_static))"

lemma heap_start_facts:
  shows "heap_reach {} heap_start" "pmm_wf heap_start" "pmm_used heap_start = {0}" "total_frames heap_start = 100"
    "free_head heap_start = NULL" "heap_used heap_start = 0" "heap_phys_offset heap_start = 0" "hdrs heap_start = (\<lambda>_. None)"
proof -
  let ?s = "pmm_mark_used 0 (pmm_init 409600 0 heap_static)"
  have wf: "pmm_wf (pmm_init 409600 0 heap_static)" by (rule pmm_init_wf) simp
  have tot: "total_frames (pmm_init 409600 0 heap_static) = 100" by (simp add: pmm_init_def)
  have s: "pmm_wf ?s" "pmm_used ?s = {0}" "total_frames ?s = 100"
    using pmm_mark_used_abs[OF wf, of 0] tot by (simp_all add: pmm_init_used Collect_conv_if)
  have h: "hdrs ?s = (\<lambda>_. None)"
    by (simp add: pmm_mark_used_def pmm_init_def heap_static_def Let_def)
  show "heap_reach {} heap_start"
    unfolding heap_start_def by (rule heap_reach.init) (simp_all add: s)
  show "pmm_wf heap_start" "pmm_used heap_start = {0}" "total_frames heap_start = 100"
    using s by (simp_all add: heap_start_def heap_init_def pmm_wf_def pmm_used_def)
  show "free_head heap_start = NULL" "heap_used heap_start = 0" "heap_phys_offset heap_start = 0"
    "hdrs heap_start = (\<lambda>_. None)"
    using h by (simp_all add: heap_start_def heap_init_def)
qed

lemma align_up_100: "align_up 100 8 = 104" and align_up_104: "align_up 104 8 = 104"
  by (simp_all add: align_up_8)

lemma heap_start_grow:
  obtains s where "pmm_alloc_contiguous 1 heap_start = (4096, s)" "hdrs s = (\<lambda>_. None)" "free_head s = NULL"
    "heap_used s = 0" "heap_phys_offset s = 0"
proof -
  note S = heap_start_facts
  obtain p s where r: "pmm_alloc_contiguous 1 heap_start = (p, s)" by fastforce
  have "lowest_run 1 heap_start = Some 1"
    using free_run_used[of heap_start 1] S(3,4) by (auto simp: lowest_run_def first_from_Some)
  from pmm_alloc_contiguous_abs[OF S(2) _ this r] have "p = 4096" by simp
  then show thesis using r S pmm_alloc_contiguous_frame[OF r] by (intro that[of s]) simp_all
qed

lemma heap_start_alloc:
  obtains s where "kmalloc 100 heap_start = Some (4144, s)" "heap_reach {(4144, 104)} s" "free_head s = 4248"
proof -
  note S = heap_start_facts
  obtain s0 where s0: "pmm_alloc_contiguous 1 heap_start = (4096, s0)" "hdrs s0 = (\<lambda>_. None)" "free_head s0 = NULL"
    "heap_used s0 = 0" "heap_phys_offset s0 = 0" by (rule heap_start_grow)
  let ?s1 = "s0\<lparr>hdrs := (\<lambda>_. None)(4096 \<mapsto> \<lparr>blk_size = 4048, blk_used = False, blk_next = NULL, blk_prev = NULL,
      blk_next_free = NULL, blk_prev_free = NULL\<rparr>), free_head := 4096\<rparr>"
  have g: "grow_heap 104 heap_start = Some (True, ?s1)"
    using s0 by (simp add: grow_heap_def Let_def wrap heap_phys_to_virt_def new_blk_def free_list_add_def upd_blk_def)
  obtain s where t: "take_block 104 4096 ?s1 = Some (4144, s)" "free_head s = 4248" "payload_size s 4144 = 104"
    using s0 by (simp add: take_block_def split_block_def wrap upd_blk_def new_blk_def free_list_add_def
        free_list_remove_def payload_size_def hdr_def)
  have f: "find_fit 104 4096 ?s1 = Some 4096" by (subst find_fit.simps) simp
  have f0: "find_fit 104 NULL heap_start = Some NULL" by (subst find_fit.simps) simp
  have k1: "kmalloc 104 ?s1 = Some (4144, s)"
    using f t(1) by (subst kmalloc.simps) (simp add: Let_def align_up_104)
  have k: "kmalloc 100 heap_start = Some (4144, s)"
    using f0 g k1 S(5) by (subst kmalloc.simps) (simp add: Let_def align_up_100)
  from heap_reach.alloc[OF S(1) _ _ k] have "heap_reach {(4144, 104)} s" by (simp add: t(3))
  then show thesis using k t(2) by (intro that)
qed

text \<open>
  Two runs of one frame each, side by side, whose blocks are not coalesced when both are free: a request for the
  8080 bytes they could hold together would take new frames.
\<close>

lemma kmalloc_whole_frame:
  assumes "pmm_wf s" "pmm_used s = {..<k}" "0 < k" "k < total_frames s" "k < 100" "free_head s = NULL" "heap_phys_offset s = 0"
  obtains s' where "kmalloc 4000 s = Some (k * PAGE_SIZE + HEADER_SIZE, s')" "pmm_wf s'" "pmm_used s' = {..<Suc k}" "total_frames s' = total_frames s"
    "free_head s' = NULL" "heap_phys_offset s' = 0" "hdrs s' = (hdrs s)(k * PAGE_SIZE \<mapsto> \<lparr>blk_size = 4048, blk_used = True, blk_next = NULL,
       blk_prev = NULL, blk_next_free = NULL, blk_prev_free = NULL\<rparr>)"
proof -
  obtain p s0 where r: "pmm_alloc_contiguous 1 s = (p, s0)" by fastforce
  have "lowest_run 1 s = Some k"
    using assms(2-4) by (auto simp: lowest_run_def first_from_Some free_run_used)
  note A = pmm_alloc_contiguous_abs[OF assms(1) _ this r] and F = pmm_alloc_contiguous_frame[OF r]
  have p: "p = k * PAGE_SIZE" "p \<noteq> 0" using A(1) assms(3) by simp_all
  have w: "add64 p 0 = p" "add64 p HEADER_SIZE = p + HEADER_SIZE" using p(1) assms(5) by (simp_all add: wrap)
  let ?b = "\<lparr>blk_size = 4048, blk_used = False, blk_next = NULL, blk_prev = NULL, blk_next_free = NULL, blk_prev_free = NULL\<rparr>"
  let ?s1 = "s0\<lparr>hdrs := (hdrs s)(p \<mapsto> ?b), free_head := p\<rparr>"
  have al: "align_up 4000 8 = 4000" by (simp add: align_up_8)
  have g: "grow_heap 4000 s = Some (True, ?s1)"
    using r F p(2) w(1) assms(6,7) by (simp add: grow_heap_def Let_def wrap heap_phys_to_virt_def new_blk_def free_list_add_def upd_blk_def)
  have f: "find_fit 4000 p ?s1 = Some p" "find_fit 4000 NULL s = Some NULL" by (subst find_fit.simps, simp add: p(2))+
  let ?s2 = "?s1\<lparr>hdrs := (hdrs s)(p \<mapsto> ?b\<lparr>blk_used := True\<rparr>), free_head := NULL, heap_used := add64 (heap_used s0) 4048\<rparr>"
  have "take_block 4000 p ?s1 = Some (p + HEADER_SIZE, ?s2)"
    using w(2) by (simp add: take_block_def wrap upd_blk_def free_list_remove_def)
  then have "kmalloc 4000 ?s1 = Some (p + HEADER_SIZE, ?s2)"
    using f(1) p(2) by (subst kmalloc.simps) (simp add: Let_def al)
  then have "kmalloc 4000 s = Some (p + HEADER_SIZE, ?s2)"
    using f(2) g assms(6) by (subst kmalloc.simps) (simp add: Let_def al)
  moreover have "pmm_wf ?s2" "pmm_used ?s2 = {..<Suc k}" "total_frames ?s2 = total_frames s" "heap_phys_offset ?s2 = 0"
    using A(2-4) F(4) assms(2,7) by (auto simp: pmm_wf_def pmm_used_def)
  ultimately show thesis by (intro that[of ?s2]) (simp_all add: p(1))
qed

lemma runs_not_coalesced:
  "\<exists>s :: heap_state. heap_reach {} s \<and> chain (\<lambda>a. blk_next_free (hdr s a)) (free_head s) [8192, 4096] \<and>
     \<not> blk_used (hdr s 4096) \<and> \<not> blk_used (hdr s 8192) \<and> 4096 + HEADER_SIZE + blk_size (hdr s 4096) = 8192"
proof -
  note S = heap_start_facts
  have u: "pmm_used heap_start = {..<1}" "0 < (1 :: nat)" "1 < total_frames heap_start" "(1 :: nat) < 100" using S(3,4) by auto
  obtain s1 where s1: "kmalloc 4000 heap_start = Some (4144, s1)" "pmm_wf s1" "pmm_used s1 = {..<Suc 1}" "total_frames s1 = total_frames heap_start"
    "free_head s1 = NULL" "heap_phys_offset s1 = 0" "hdrs s1 = (hdrs heap_start)(4096 \<mapsto> \<lparr>blk_size = 4048, blk_used = True, blk_next = NULL,
       blk_prev = NULL, blk_next_free = NULL, blk_prev_free = NULL\<rparr>)"
    by (rule kmalloc_whole_frame[OF S(2) u S(5,7)]) simp
  have u1: "0 < Suc 1" "Suc 1 < total_frames s1" "Suc 1 < 100" using s1(4) S(4) by simp_all
  obtain s2 where s2: "kmalloc 4000 s1 = Some (8240, s2)" "free_head s2 = NULL" "hdrs s2 = (hdrs s1)(8192 \<mapsto> \<lparr>blk_size = 4048, blk_used = True, blk_next = NULL,
       blk_prev = NULL, blk_next_free = NULL, blk_prev_free = NULL\<rparr>)"
    by (rule kmalloc_whole_frame[OF s1(2,3) u1 s1(5,6)]) simp
  have "payload_size s1 4144 = 4048" "payload_size s2 8240 = 4048" by (simp_all add: payload_size_def hdr_def s1(7) s2(3))
  then have L2: "heap_reach {(8240, 4048), (4144, 4048)} s2"
    using heap_reach.alloc[OF heap_reach.alloc[OF S(1) _ _ s1(1)] _ _ s2(1)] by simp
  obtain s3 where s3: "kfree 4144 s2 = Some s3" "free_head s3 = 4096" "hdrs s3 = (hdrs s2)(4096 \<mapsto> \<lparr>blk_size = 4048, blk_used = False, blk_next = NULL,
       blk_prev = NULL, blk_next_free = NULL, blk_prev_free = NULL\<rparr>)"
    using s2(2) by (simp add: kfree_def wrap upd_blk_def free_list_add_def s1(7) s2(3))
  obtain s4 where s4: "kfree 8240 s3 = Some s4" "free_head s4 = 8192" "hdrs s4 = (hdrs s3)(8192 \<mapsto> \<lparr>blk_size = 4048, blk_used = False, blk_next = NULL,
       blk_prev = NULL, blk_next_free = 4096, blk_prev_free = NULL\<rparr>, 4096 \<mapsto> \<lparr>blk_size = 4048, blk_used = False, blk_next = NULL,
       blk_prev = NULL, blk_next_free = NULL, blk_prev_free = 8192\<rparr>)"
    using s3(2) by (simp add: kfree_def wrap upd_blk_def free_list_add_def s3(3) s2(3))
  have e: "{(8240, 4048), (4144, 4048)} - {(4144, 4048)} - {(8240, 4048)} = ({} :: (nat \<times> nat) set)" by blast
  have "heap_reach ({(8240, 4048), (4144, 4048)} - {(4144, 4048)} - {(8240, 4048)}) s4"
    by (rule heap_reach.free[OF heap_reach.free[OF L2 _ s3(1)] _ s4(1)]) simp_all
  then have "heap_reach {} s4" unfolding e .
  then show ?thesis by (intro exI[of _ s4]) (simp add: s4(2,3) hdr_def)
qed

section \<open>Properties\<close>

text \<open>
  C28: \<open>kmalloc\<close> returns in every state clients can reach, for every size below 2 to the 64 minus 4160. For size 0
  it returns NULL and changes nothing. For any other it returns NULL, changing nothing, only if the memory manager
  has no run of frames long enough for the request; otherwise a payload of at least the size asked for and less
  than 88 bytes more, aligned to 8 bytes, which overlaps no payload that is held, and leaves what they hold as it was.
\<close>

theorem kmalloc_result:
  assumes "heap_reach L s" and "n + 4160 < two64"
  shows "\<exists>p s'. kmalloc n s = Some (p, s') \<and> heap_mem s' = heap_mem s \<and>
    (if n = 0 then p = NULL \<and> s' = s
     else if p = NULL then s' = s \<and> no_run (grow_pages (align_up n 8)) s
     else heap_reach (insert (p, payload_size s' p) L) s' \<and> p mod 8 = 0 \<and>
       n \<le> payload_size s' p \<and> payload_size s' p < n + 88 \<and>
       (\<forall>(q, m) \<in> L. {p..<p + payload_size s' p} \<inter> {q..<q + m} = {}))"
proof (cases "n = 0")
  case True
  then show ?thesis by (subst kmalloc.simps) simp
next
  case False
  then have n: "0 < n" by simp
  from heap_reach_ok[OF assms(1)] n assms(2) show ?thesis
  proof (rule heap_ok_kmalloc, goal_cases)
    case 1
    then show ?case using n by simp
  next
    case (2 p m s')
    note sz = heap_ok_payload[OF 2(5)]
    have p8: "p mod 8 = 0" using heap_ok_held_facts(3)[OF 2(5)] by blast
    have dis: "{p..<p + m} \<inter> {q..<q + k} = {}" if "(q, k) \<in> L" for q k
      by (rule heap_ok_disjoint[OF 2(5)]) (use that 2(6) in auto)
    have "heap_reach (insert (p, m) L) s'"
      using heap_reach.alloc[OF assms(1) n assms(2) 2(1)] 2(2) sz by simp
    with 2(1-4,7) sz p8 dis n show ?case by (intro exI[of _ p] exI[of _ s']) auto
  qed
qed

theorem kmalloc_result_witness:
  "\<exists>p s'. kmalloc 200 heap_start = Some (p, s') \<and> p \<noteq> NULL \<and> p mod 8 = 0 \<and> payload_size s' p < 288"
proof -
  have "grow_pages (align_up 200 8) = 1" by (simp add: grow_pages_def align_up_8)
  then have "\<not> no_run (grow_pages (align_up 200 8)) heap_start"
    by (auto simp: no_run_def heap_start_facts intro!: exI[of _ 5])
  with kmalloc_result[OF heap_start_facts(1), of 200] show ?thesis by (auto split: if_split_asm)
qed

text \<open>
  C29: Memory safety of the clients. In every state they can reach, the payloads they hold are
  pairwise disjoint and overlap no header, neither one of their own nor one of a free block, nor the bytes of a free block,
  and all their bytes lie in frames that the memory manager has marked in use, frame 0 excluded.
\<close>

theorem heap_payloads_disjoint:
  assumes "heap_reach L s" and "(p, n) \<in> L"
  shows "(\<forall>(q, m) \<in> L. (q, m) \<noteq> (p, n) \<longrightarrow> {p - HEADER_SIZE..<p + n} \<inter> {q - HEADER_SIZE..<q + m} = {}) \<and>
    (\<exists>fl. chain (\<lambda>a. blk_next_free (hdr s a)) (free_head s) fl \<and>
       (\<forall>a \<in> set fl. {p - HEADER_SIZE..<p + n} \<inter> {a..<a + HEADER_SIZE + blk_size (hdr s a)} = {})) \<and>
    (\<lambda>x. (x - heap_phys_offset s) div PAGE_SIZE) ` {p..<p + n} \<subseteq> pmm_used s - {0}"
proof -
  note ok = heap_reach_ok[OF assms(1)]
  have "(\<lambda>x. (x - heap_phys_offset s) div PAGE_SIZE) ` {p..<p + n} \<subseteq> pmm_used s - {0}"
    using heap_ok_held_facts(9)[OF ok assms(2)] by (intro image_subsetI) simp
  moreover have "\<forall>(q, m) \<in> L. (q, m) \<noteq> (p, n) \<longrightarrow> {p - HEADER_SIZE..<p + n} \<inter> {q - HEADER_SIZE..<q + m} = {}"
    using heap_ok_disjoint_headers[OF ok assms(2)] by fastforce
  ultimately show ?thesis using heap_ok_disjoint_free[OF ok assms(2)] by blast
qed

theorem heap_payloads_disjoint_witness:
  "\<exists>s. kmalloc 100 heap_start = Some (4144, s) \<and>
     (\<lambda>x. (x - heap_phys_offset s) div PAGE_SIZE) ` {4144..<4248} \<subseteq> pmm_used s - {0}"
proof -
  obtain s where s: "kmalloc 100 heap_start = Some (4144, s)" "heap_reach {(4144, 104)} s"
    by (rule heap_start_alloc)
  from heap_payloads_disjoint[OF s(2), of 4144 104] s(1) show ?thesis by auto
qed

text \<open>
  Freeing a payload that is held returns, touches no payload, and takes exactly that one
  out of those held; freeing it once more right after is detected and changes nothing.
\<close>

theorem kfree_result:
  assumes "heap_reach L s" and "(p, n) \<in> L"
  shows "\<exists>s'. kfree p s = Some s' \<and> heap_reach (L - {(p, n)}) s' \<and> heap_mem s' = heap_mem s \<and>
    kfree p s' = Some s'"
proof -
  note ok = heap_reach_ok[OF assms(1)]
  obtain s' where s': "kfree p s = Some s'" "heap_frame s s'"
    "hdrs s' (p - HEADER_SIZE) = Some (hdr s' (p - HEADER_SIZE))" "\<not> blk_used (hdr s' (p - HEADER_SIZE))"
    using heap_ok_kfree[OF ok assms(2)] by metis
  note P = heap_ok_held_facts[OF ok assms(2)]
  have "sub64 p HEADER_SIZE = p - HEADER_SIZE" using P(2,5) by (simp add: wrap)
  then have "kfree p s' = Some s'" using P(1) s'(3,4) by (simp add: kfree_def Let_def)
  with s' heap_reach.free[OF assms s'(1)] heap_frame_fields(1)[OF s'(2)] show ?thesis by blast
qed

theorem kfree_result_witness:
  "\<exists>s s'. kmalloc 100 heap_start = Some (4144, s) \<and> kfree 4144 s = Some s' \<and> heap_reach {} s'"
proof -
  obtain s where s: "kmalloc 100 heap_start = Some (4144, s)" "heap_reach {(4144, 104)} s"
    by (rule heap_start_alloc)
  from kfree_result[OF s(2), of 4144 104] s(1) show ?thesis by auto
qed

text \<open>
  The counters are right in every reachable state: the bytes reported as used are the
  sizes of the payloads held, \<open>heap_get_free\<close> returns, and used bytes, free bytes and one
  48-byte header for each block add up to whole frames: no byte of the heap is lost.
\<close>

theorem heap_accounting:
  assumes "heap_reach L s"
  shows "\<exists>f blocks frames. heap_get_used s = (\<Sum>(p, n)\<in>L. n) \<and> heap_get_free s = Some f \<and>
    heap_get_used s + f + blocks * HEADER_SIZE = frames * PAGE_SIZE \<and> card L \<le> blocks \<and> frames < total_frames s"
  using heap_reach_ok[OF assms] by (rule heap_ok_accounting) blast

theorem heap_accounting_witness:
  "\<exists>s. kmalloc 100 heap_start = Some (4144, s) \<and> heap_get_used s = 104"
proof -
  obtain s where s: "kmalloc 100 heap_start = Some (4144, s)" "heap_reach {(4144, 104)} s"
    by (rule heap_start_alloc)
  from heap_accounting[OF s(2)] s(1) show ?thesis by auto
qed

text \<open>
  C30: Coalescing within a run of frames is complete. In every reachable state, if a block on the free list is linked to a
  right neighbour, that lies right behind it and is in use. Two free blocks are side by side only where one run of
  frames that \<open>grow_heap\<close> took ends and another starts: the left one is the last of its run. Across runs nothing is coalesced,
  and such blocks occur (\<open>runs_not_coalesced\<close>).
\<close>

theorem heap_coalesced:
  assumes "heap_reach L s"
  shows "\<exists>fl. chain (\<lambda>a. blk_next_free (hdr s a)) (free_head s) fl \<and>
    (\<forall>a \<in> set fl. blk_next (hdr s a) = NULL \<or> blk_used (hdr s (blk_next (hdr s a))) \<and>
       blk_next (hdr s a) = a + HEADER_SIZE + blk_size (hdr s a)) \<and>
    (\<forall>a \<in> set fl. \<forall>b \<in> set fl. b = a + HEADER_SIZE + blk_size (hdr s a) \<longrightarrow> blk_next (hdr s a) = NULL)"
proof -
  obtain B H fl where inv: "heap_inv B H fl s" using heap_reach_ok[OF assms] unfolding heap_ok_def by blast
  then have core: "heap_core B H fl s" and np: "free_pairs B (hdr s) = {}" by (simp_all add: heap_inv_def)
  note C = heap_coreD[OF core]
  have fl: "a \<in> B" "\<not> blk_used (hdr s a)" if "a \<in> set fl" for a using that C(5) by (simp_all add: free_set_def)
  have right: "blk_next (hdr s a) = NULL \<or> blk_used (hdr s (blk_next (hdr s a))) \<and>
       blk_next (hdr s a) = a + HEADER_SIZE + blk_size (hdr s a)" if "a \<in> set fl" for a
  proof -
    have "a \<notin> free_pairs B (hdr s)" using np by blast
    with fl[OF that] blk_linksD(2)[OF tilingD(5)[OF C(3)] fl(1)[OF that]] show ?thesis by (auto simp: free_pairs_def)
  qed
  then have "blk_next (hdr s a) = NULL" if "a \<in> set fl" "b \<in> set fl" "b = a + HEADER_SIZE + blk_size (hdr s a)" for a b
    using that fl(2)[OF that(2)] by metis
  with right flist_chain(1)[OF C(4)] show ?thesis by blast
qed

theorem heap_coalesced_witness:
  "\<exists>s fl. kmalloc 100 heap_start = Some (4144, s) \<and> chain (\<lambda>a. blk_next_free (hdr s a)) 4248 fl \<and> fl \<noteq> []"
proof -
  obtain s where s: "kmalloc 100 heap_start = Some (4144, s)" "heap_reach {(4144, 104)} s" "free_head s = 4248"
    by (rule heap_start_alloc)
  from heap_coalesced[OF s(2)] s(1,3) show ?thesis by (auto simp: chain_nonNULL)
qed

text \<open>
  C31: \<open>krealloc\<close> of a held payload, for every size below 2 to the 64 minus 4168. Size 0 frees the payload and returns
  NULL. For any other: if the size asked for, rounded up to 8, fits, the same
  pointer and nothing changed; otherwise NULL with nothing changed, or a new payload, large
  enough, that starts with all the bytes of the old one, which is freed; no byte outside the
  new payload changes.
\<close>

theorem krealloc_keeps_contents:
  assumes "heap_reach L s" and "(p, n) \<in> L" and "m + 4168 < two64"
  shows "\<exists>q s'. krealloc p m s = Some (q, s') \<and>
    (if m = 0 then q = NULL \<and> heap_reach (L - {(p, n)}) s' \<and> heap_mem s' = heap_mem s
     else if align_up m 8 \<le> n then q = p \<and> s' = s
     else if q = NULL then s' = s
     else heap_reach (insert (q, payload_size s' q) (L - {(p, n)})) s' \<and> m \<le> payload_size s' q \<and>
       (\<forall>i < n. heap_mem s' (q + i) = heap_mem s (p + i)) \<and>
       (\<forall>x. x \<notin> {q..<q + n} \<longrightarrow> heap_mem s' x = heap_mem s x))"
proof (cases "m = 0")
  case True
  note ok = heap_reach_ok[OF assms(1)]
  obtain s' where s': "kfree p s = Some s'" "heap_frame s s'" using heap_ok_kfree[OF ok assms(2)] by metis
  have "krealloc p m s = Some (NULL, s')" using True s'(1) heap_ok_held_facts(1)[OF ok assms(2)] by (simp add: krealloc_def)
  then show ?thesis using True heap_reach.free[OF assms(1,2) s'(1)] heap_frame_fields(1)[OF s'(2)] by simp
next
  case False
  then have m: "0 < m" by simp
  from heap_reach_ok[OF assms(1)] assms(2) m assms(3) show ?thesis
  proof (rule heap_ok_krealloc, goal_cases)
    case 1
    then show ?case using m by simp
  next
    case 2
    then show ?case using m by simp
  next
    case (3 q k s')
    have "q \<noteq> p" using 3(7) assms(2) by blast
    then have "heap_reach (insert (q, payload_size s' q) (L - {(p, n)})) s'"
      using heap_reach.realloc[OF assms(1,2) m assms(3) 3(2)] 3(3) by simp
    with 3 heap_ok_payload[OF 3(6)] m show ?case by (intro exI[of _ q] exI[of _ s']) auto
  qed
qed

theorem krealloc_keeps_contents_witness:
  "\<exists>s q s'. kmalloc 100 heap_start = Some (4144, s) \<and> krealloc 4144 200 s = Some (q, s') \<and> krealloc 4144 50 s = Some (4144, s)"
proof -
  obtain s where s: "kmalloc 100 heap_start = Some (4144, s)" "heap_reach {(4144, 104)} s"
    by (rule heap_start_alloc)
  have a: "align_up 50 8 = 56" "align_up 200 8 = 200" by (simp_all add: align_up_8)
  have "krealloc 4144 50 s = Some (4144, s)"
    using krealloc_keeps_contents[OF s(2), of 4144 104 50] a by auto
  moreover obtain q s' where "krealloc 4144 200 s = Some (q, s')"
    using krealloc_keeps_contents[OF s(2), of 4144 104 200] by auto
  ultimately show ?thesis using s(1) by blast
qed

text \<open>
  C32: \<open>kmalloc_aligned\<close> with a power of two, for sizes above 0 that with alignment and 4224 stay below 2 to the 64, returns NULL
  if there is no run of frames long enough for it, or a pointer aligned as asked for, to
  bytes within one new payload. That pointer is not itself the start of a payload: the
  header \<open>kfree\<close> would read in front of it is none of a block in use, although heap.h offers
  \<open>kfree\<close> for it.
\<close>

theorem kmalloc_aligned_result:
  assumes "heap_reach L s" and "0 < n" and "n + 2 ^ j + 4224 < two64"
  shows "\<exists>q s'. kmalloc_aligned n (2 ^ j) s = Some (q, s') \<and>
    (if q = NULL then s' = s \<and> no_run (grow_pages (align_up (n + 2 ^ j + 56) 8)) s
     else q mod 2 ^ j = 0 \<and>
       (\<exists>raw k. heap_ok (insert (raw, k) L) s' \<and> raw + 8 \<le> q \<and> q + n \<le> raw + k \<and>
          (\<forall>(p, m) \<in> L. {q..<q + n} \<inter> {p..<p + m} = {}) \<and> (\<forall>m. (q, m) \<notin> insert (raw, k) L)))"
proof -
  note ok = heap_reach_ok[OF assms(1)]
  from ok assms(2,3) show ?thesis
  proof (rule heap_ok_kmalloc_aligned, goal_cases)
    case 1
    then show ?case by simp
  next
    case (2 q raw k s')
    have "{q..<q + n} \<inter> {p..<p + m} = {}" if "(p, m) \<in> L" for p m
    proof -
      have "{raw..<raw + k} \<inter> {p..<p + m} = {}"
        by (rule heap_ok_disjoint[OF 2(4)]) (use that 2(5) in auto)
      moreover have "{q..<q + n} \<subseteq> {raw..<raw + k}" using 2(6,7) by simp
      ultimately show ?thesis by blast
    qed
    then have "\<forall>(p, m) \<in> L. {q..<q + n} \<inter> {p..<p + m} = {}" by blast
    with 2 show ?case
      by (intro exI[of _ q] exI[of _ s'] conjI) (simp_all del: split_paired_All, intro exI[of _ raw] exI[of _ k], simp)
  qed
qed

theorem kmalloc_aligned_result_witness:
  "\<exists>q s'. kmalloc_aligned 100 64 heap_start = Some (q, s') \<and> q \<noteq> NULL \<and> q mod 64 = 0"
proof -
  have "grow_pages (align_up (100 + 2 ^ 6 + 56) 8) = 1" by (simp add: grow_pages_def align_up_8)
  then have "\<not> no_run (grow_pages (align_up (100 + 2 ^ 6 + 56) 8)) heap_start"
    by (auto simp: no_run_def heap_start_facts intro!: exI[of _ 5])
  with kmalloc_aligned_result[OF heap_start_facts(1), of 100 6] show ?thesis
    by (auto split: if_split_asm)
qed

text \<open>
  A request within 8 bytes of 2 to the 64 wraps around to size 0 when it is rounded up:
  instead of NULL, \<open>kmalloc\<close> returns a small block, whenever the free list is not empty.
\<close>

theorem kmalloc_size_overflow:
  assumes "heap_reach L s" and "free_head s \<noteq> NULL" and "two64 - 8 < n" and "n < two64"
  shows "\<exists>p s'. kmalloc n s = Some (p, s') \<and> p \<noteq> NULL \<and> payload_size s' p < 80"
proof -
  obtain B H fl where inv: "heap_inv B H fl s" using heap_reach_ok[OF assms(1)] unfolding heap_ok_def by blast
  then have fl: "flist fl s" using heap_coreD(4) unfolding heap_inv_def by blast
  have au: "align_up n 8 = 0"
  proof -
    have "add64 n 8 = n + 8 - two64" using assms(3,4) by (simp add: add64_def le_mod_geq)
    moreover have "sub64 (n + 8 - two64) 1 = n + 8 - two64 - 1" using assms(3,4) by (intro sub64_id) linarith+
    moreover have "sub64 8 1 = 2 ^ 3 - 1" by (simp add: wrap)
    ultimately have "align_up n 8 = (n + 8 - two64 - 1) div 2 ^ 3 * 2 ^ 3"
      unfolding align_up_def using assms(4) by (simp only: and_not64_pow2)
    moreover have "(n + 8 - two64 - 1) div 2 ^ 3 = 0" using assms(4) by simp
    ultimately show ?thesis by simp
  qed
  obtain rest where rest: "fl = free_head s # rest"
    using flist_chain(1)[OF fl] assms(2) by (auto simp: chain_nonNULL)
  have "find_fit 0 (free_head s) s = Some (free_head s)"
    using find_fit_chain[OF flist_chain[OF fl], of 0] rest by simp
  then have k: "kmalloc n s = take_block 0 (free_head s) s"
    using assms(2,3) au by (subst kmalloc.simps) (simp add: Let_def)
  have m: "free_head s \<in> set fl" using rest by simp
  obtain s' where "take_block 0 (free_head s) s = Some (free_head s + HEADER_SIZE, s')"
    "blk_size (hdr s' (free_head s)) < 0 + HEADER_SIZE + MIN_SPLIT"
    by (rule take_block_ok[OF inv m, of 0]) simp_all
  then show ?thesis using k by (auto simp: payload_size_def)
qed

theorem kmalloc_size_overflow_witness:
  "\<exists>s p s'. kmalloc 100 heap_start = Some (4144, s) \<and> kmalloc 18446744073709551615 s = Some (p, s') \<and>
     p \<noteq> NULL \<and> payload_size s' p < 80"
proof -
  obtain s where s: "kmalloc 100 heap_start = Some (4144, s)" "heap_reach {(4144, 104)} s" "free_head s = 4248"
    by (rule heap_start_alloc)
  have "free_head s \<noteq> NULL" using s(3) by simp
  from kmalloc_size_overflow[OF s(2) this, of 18446744073709551615] s(1) show ?thesis by auto
qed

end
