(* ===== verification/Zram_Codec.thy ===== *)
theory Zram_Codec
  imports Aura_Prelude
begin

text \<open>
  The page compressor of kernel/core/zram.c: \<open>zram_compress_page\<close> turns a page of 4096
  bytes into blocks (a run of zeros, a run of one byte, or up to 127 literal bytes) and
  \<open>zram_decompress_page\<close> reads them back. A buffer the code writes is the list of the bytes
  written so far, so that \<open>out_idx\<close> is its length; the functions return the C result
  together with what they wrote. The theory shows that both are total and stay within their
  buffers, when a page survives the round trip, and that some pages do not.
\<close>

section \<open>Compression\<close>

abbreviation ZRAM_PAGE_SIZE :: nat where
  "ZRAM_PAGE_SIZE \<equiv> 4096"

abbreviation ZRAM_TAG_LITERAL :: u8 where "ZRAM_TAG_LITERAL \<equiv> 0"
abbreviation ZRAM_TAG_ZEROS :: u8 where "ZRAM_TAG_ZEROS \<equiv> 1"
abbreviation ZRAM_TAG_RUN :: u8 where "ZRAM_TAG_RUN \<equiv> 2"

text \<open>The loops that count how often the byte \<open>v\<close> repeats from index \<open>i\<close>, up to 255 times.\<close>

function count_run :: "u8 list \<Rightarrow> u8 \<Rightarrow> nat \<Rightarrow> nat \<Rightarrow> nat" where
  "count_run src v i run =
     (if i + run < ZRAM_PAGE_SIZE \<and> src ! (i + run) = v \<and> run < 255
      then count_run src v i (Suc run) else run)"
  by pat_completeness auto
termination
  by (relation "measure (\<lambda>(src, v, i, run). 255 - run)") auto

text \<open>The loop that collects literal bytes: it stops before four zeros, unless these end the page.\<close>

function count_literal :: "u8 list \<Rightarrow> nat \<Rightarrow> nat \<Rightarrow> nat \<Rightarrow> nat" where
  "count_literal src cap i len =
     (if i < ZRAM_PAGE_SIZE \<and> len < cap then
        if i + 4 < ZRAM_PAGE_SIZE \<and> src ! i = 0 \<and> src ! (i + 1) = 0 \<and>
           src ! (i + 2) = 0 \<and> src ! (i + 3) = 0
        then len else count_literal src cap (Suc i) (Suc len)
      else len)"
  by pat_completeness auto
termination
  by (relation "measure (\<lambda>(src, cap, i, len). cap - len)") auto

declare count_run.simps [simp del] count_literal.simps [simp del]

datatype zram_block = Zeros nat | Run nat u8 | Literal "u8 list"

text \<open>What the body of the loop finds at \<open>in_idx\<close>, with \<open>space = max_dst - out_idx\<close>.\<close>

definition next_block :: "u8 list \<Rightarrow> nat \<Rightarrow> nat \<Rightarrow> zram_block" where
  "next_block src space i =
     (let zrun = count_run src 0 i 0; run = count_run src (src ! i) i 0
      in if src ! i = 0 \<and> 4 \<le> zrun then Zeros zrun
         else if 6 \<le> run then Run run (src ! i)
         else let lit_cap = (if 127 < space - 1 then 127 else space - 1)
              in Literal (map ((!) src) [i..<i + count_literal src lit_cap i 0]))"

text \<open>The bytes it writes for a block. An empty literal block writes nothing.\<close>

fun emit :: "zram_block \<Rightarrow> u8 list" where
  "emit (Zeros run) = [ZRAM_TAG_ZEROS, of_nat run]"
| "emit (Run run v) = [ZRAM_TAG_RUN, of_nat run, v]"
| "emit (Literal bs) = (if bs = [] then [] else (ZRAM_TAG_LITERAL OR (of_nat (length bs) AND 127)) # bs)"

text \<open>The bytes of the page a block stands for, and so how far \<open>in_idx\<close> moves.\<close>

fun expand :: "zram_block \<Rightarrow> u8 list" where
  "expand (Zeros run) = replicate run 0"
| "expand (Run run v) = replicate run v"
| "expand (Literal bs) = bs"

text \<open>The loop always moves on: three facts that the termination of the main loop needs.\<close>

lemma count_run_ge: "run \<le> count_run src v i run"
  by (induction src v i run rule: count_run.induct) (subst count_run.simps, auto)

lemma count_literal_ge: "len \<le> count_literal src cap i len"
  by (induction src cap i len rule: count_literal.induct) (subst count_literal.simps, auto)

lemma count_run_zeros:
  assumes "i + 4 < ZRAM_PAGE_SIZE" "src ! i = 0" "src ! (i + 1) = 0" "src ! (i + 2) = 0" "src ! (i + 3) = 0"
  shows "4 \<le> count_run src 0 i 0"
proof -
  have "count_run src 0 i 0 = count_run src 0 i 1"
    using assms by (subst count_run.simps) simp
  also have "\<dots> = count_run src 0 i 2"
    using assms by (subst count_run.simps) (simp add: numeral_2_eq_2)
  also have "\<dots> = count_run src 0 i 3"
    using assms by (subst count_run.simps) simp
  also have "\<dots> = count_run src 0 i 4"
    using assms by (subst count_run.simps) simp
  finally have "count_run src 0 i 0 = count_run src 0 i 4" .
  with count_run_ge[of 4 src 0 i] show ?thesis by simp
qed

lemma next_block_progress:
  assumes "i < ZRAM_PAGE_SIZE" "4 < space"
  shows "expand (next_block src space i) \<noteq> []"
proof -
  let ?cap = "if 127 < space - 1 then 127 else space - 1"
  have "0 < count_literal src ?cap i 0" if "\<not> (src ! i = 0 \<and> 4 \<le> count_run src 0 i 0)"
  proof -
    have "\<not> (i + 4 < ZRAM_PAGE_SIZE \<and> src ! i = 0 \<and> src ! (i + 1) = 0 \<and> src ! (i + 2) = 0 \<and> src ! (i + 3) = 0)"
      using that count_run_zeros[of i src] by blast
    then have "count_literal src ?cap i 0 = count_literal src ?cap (Suc i) (Suc 0)"
      using assms by (subst count_literal.simps) auto
    with count_literal_ge[of "Suc 0" src ?cap "Suc i"] show ?thesis by simp
  qed
  then show ?thesis
    using assms by (auto simp: next_block_def Let_def)
qed

function compress_from :: "u8 list \<Rightarrow> size_t \<Rightarrow> nat \<Rightarrow> u8 list \<Rightarrow> int \<times> u8 list" where
  "compress_from src max_dst i out =
     (if i < ZRAM_PAGE_SIZE then
        if max_dst \<le> length out + 4 then (-1, out)
        else let b = next_block src (max_dst - length out) i
             in case b of
                  Literal bs \<Rightarrow>
                    if bs \<noteq> [] \<and> max_dst < length out + 1 + length bs then (-1, out)
                    else compress_from src max_dst (i + length (expand b)) (out @ emit b)
                | _ \<Rightarrow> compress_from src max_dst (i + length (expand b)) (out @ emit b)
      else (int (length out), out))"
  by pat_completeness auto
termination
  by (relation "measure (\<lambda>(src, m, i, out). ZRAM_PAGE_SIZE - i)")
     (auto intro!: diff_less_mono2 simp: next_block_progress)

declare compress_from.simps [simp del]

definition zram_compress_page :: "u8 list \<Rightarrow> size_t \<Rightarrow> int \<times> u8 list" where
  "zram_compress_page src max_dst = compress_from src max_dst 0 []"

section \<open>Decompression\<close>

text \<open>
  The loops that copy bytes to \<open>dst\<close> stop when the page is full.
\<close>

definition put_bytes :: "u8 list \<Rightarrow> u8 list \<Rightarrow> u8 list" where
  "put_bytes out bs = out @ take (ZRAM_PAGE_SIZE - length out) bs"

function decompress_from :: "u8 list \<Rightarrow> size_t \<Rightarrow> nat \<Rightarrow> u8 list \<Rightarrow> int \<times> u8 list" where
  "decompress_from src src_len i out =
     (if i < src_len \<and> length out < ZRAM_PAGE_SIZE then
        let tag = src ! i; i1 = i + 1 in
        if tag = ZRAM_TAG_ZEROS then
          if src_len \<le> i1 then (-1, out)
          else decompress_from src src_len (i1 + 1) (put_bytes out (replicate (unat (src ! i1)) 0))
        else if tag = ZRAM_TAG_RUN then
          if src_len \<le> i1 + 1 then (-1, out)
          else decompress_from src src_len (i1 + 2)
                 (put_bytes out (replicate (unat (src ! i1)) (src ! (i1 + 1))))
        else let lit_len = unat (tag AND 127) in
          if lit_len = 0 \<or> src_len < i1 + lit_len then (-1, out)
          else decompress_from src src_len (i1 + min lit_len (ZRAM_PAGE_SIZE - length out))
                 (put_bytes out (take lit_len (drop i1 src)))
      else (0, out @ replicate (ZRAM_PAGE_SIZE - length out) 0))"
  by pat_completeness auto
termination
  by (relation "measure (\<lambda>(src, n, i, out). n - i)") auto

declare decompress_from.simps [simp del]

definition zram_decompress_page :: "u8 list \<Rightarrow> size_t \<Rightarrow> int \<times> u8 list" where
  "zram_decompress_page src src_len = decompress_from src src_len 0 []"

section \<open>Blocks\<close>

lemma count_run_bounds:
  "run \<le> 255 \<Longrightarrow> count_run src v i run \<le> 255"
  "i + run \<le> ZRAM_PAGE_SIZE \<Longrightarrow> i + count_run src v i run \<le> ZRAM_PAGE_SIZE"
  by (induction src v i run rule: count_run.induct) (subst count_run.simps, auto)+

lemma count_run_same:
  "run \<le> k \<Longrightarrow> k < count_run src v i run \<Longrightarrow> src ! (i + k) = v"
proof (induction src v i run rule: count_run.induct)
  case (1 src v i run)
  show ?case
  proof (cases "i + run < ZRAM_PAGE_SIZE \<and> src ! (i + run) = v \<and> run < 255")
    case True
    with 1 show ?thesis
      by (cases "k = run") (auto simp: count_run.simps[of src v i run])
  next
    case False
    then have "count_run src v i run = run" by (subst count_run.simps) auto
    with 1 show ?thesis by simp
  qed
qed

lemma count_literal_bounds:
  "len \<le> cap \<Longrightarrow> count_literal src cap i len \<le> cap"
  "i \<le> ZRAM_PAGE_SIZE \<Longrightarrow> i + count_literal src cap i len \<le> ZRAM_PAGE_SIZE + len"
  by (induction src cap i len rule: count_literal.induct) (subst count_literal.simps, auto)+

text \<open>The blocks the compressor produces, and those the decompressor reads back.\<close>

fun block_wf :: "nat \<Rightarrow> zram_block \<Rightarrow> bool" where
  "block_wf space (Zeros n) \<longleftrightarrow> 4 \<le> n \<and> n \<le> 255"
| "block_wf space (Run n v) \<longleftrightarrow> 6 \<le> n \<and> n \<le> 255"
| "block_wf space (Literal bs) \<longleftrightarrow> 1 \<le> length bs \<and> length bs \<le> 127 \<and> length bs < space"

text \<open>
  A literal block of length 1 or 2 starts with the byte 1 or 2, the tags of the other two
  kinds of blocks.
\<close>

fun block_exact :: "zram_block \<Rightarrow> bool" where
  "block_exact (Literal bs) \<longleftrightarrow> 3 \<le> length bs"
| "block_exact _ \<longleftrightarrow> True"

lemma next_block_wf:
  assumes "i < ZRAM_PAGE_SIZE" "4 < space"
  shows "block_wf space (next_block src space i)"
proof -
  let ?cap = "if 127 < space - 1 then 127 else space - 1"
  have "count_literal src ?cap i 0 \<le> ?cap" by (rule count_literal_bounds) simp
  then have lit: "count_literal src ?cap i 0 \<le> 127" "count_literal src ?cap i 0 < space"
    using assms(2) by (auto split: if_splits)
  have run: "count_run src v i 0 \<le> 255" for v by (rule count_run_bounds) simp
  show ?thesis
    using next_block_progress[OF assms, of src] run lit
    by (auto simp: next_block_def Let_def Suc_le_eq split: if_split_asm)
qed

lemma next_block_expand:
  assumes "i < ZRAM_PAGE_SIZE"
  shows "expand (next_block src space i) = map ((!) src) [i..<i + length (expand (next_block src space i))]"
    and "i + length (expand (next_block src space i)) \<le> ZRAM_PAGE_SIZE"
proof -
  have run: "replicate (count_run src v i 0) v = map ((!) src) [i..<i + count_run src v i 0]" for v
    by (rule nth_equalityI) (simp_all add: count_run_same[of 0, simplified])
  show "expand (next_block src space i) = map ((!) src) [i..<i + length (expand (next_block src space i))]"
    using run by (simp add: next_block_def Let_def)
  have "i + count_run src v i 0 \<le> ZRAM_PAGE_SIZE" for v
    using assms by (intro count_run_bounds(2)) simp
  moreover have "i + count_literal src cap i 0 \<le> ZRAM_PAGE_SIZE" for cap
    using assms count_literal_bounds(2)[of i src cap 0] by simp
  ultimately show "i + length (expand (next_block src space i)) \<le> ZRAM_PAGE_SIZE"
    by (simp add: next_block_def Let_def)
qed

lemma next_block_take:
  assumes "i < ZRAM_PAGE_SIZE" "length src = ZRAM_PAGE_SIZE"
  shows "take (i + length (expand (next_block src space i))) src = take i src @ expand (next_block src space i)"
proof -
  define n where "n = length (expand (next_block src space i))"
  have n: "expand (next_block src space i) = map ((!) src) [i..<i + n]" "i + n \<le> length src"
    using next_block_expand[OF assms(1), of src space] assms(2) by (simp_all add: n_def)
  have "map ((!) src) [i..<i + n] = take n (drop i src)"
    using n(2) by (intro nth_equalityI) simp_all
  with n show ?thesis unfolding n_def[symmetric] by (simp add: take_add)
qed

lemma length_emit:
  assumes "block_wf space b" "4 < space"
  shows "length (emit b) \<le> space" "0 < length (emit b)"
  using assms by (cases b; auto)+

text \<open>One turn of the decompressor reads back one block.\<close>

lemma tag_of_nat: "n < 128 \<Longrightarrow> (of_nat n :: u8) AND 127 = of_nat n"
proof -
  assume "n < 128"
  have m: "(127 :: u8) = mask 7" by (simp add: mask_eq_exp_minus_1)
  have "take_bit 7 n = n" using \<open>n < 128\<close> by (simp add: take_bit_nat_eq_self)
  then show ?thesis
    unfolding m take_bit_eq_mask[symmetric] by (simp add: take_bit_of_nat)
qed

lemma unat_byte: "n < 256 \<Longrightarrow> unat (of_nat n :: u8) = n"
  by (simp add: unsigned_of_nat take_bit_nat_eq_self)

lemma byte_neq: "n < 256 \<Longrightarrow> m < 256 \<Longrightarrow> n \<noteq> m \<Longrightarrow> (of_nat n :: u8) \<noteq> of_nat m"
  by (metis unat_byte)

lemma decompress_block:
  assumes "block_wf space b" "block_exact b"
    and "length out + length (expand b) \<le> ZRAM_PAGE_SIZE"
    and "src = pre @ emit b @ post" "length pre + length (emit b) \<le> n" "i = length pre"
  shows "decompress_from src n i out = decompress_from src n (i + length (emit b)) (out @ expand b)"
proof (cases b)
  case (Zeros k)
  with assms show ?thesis
    by (subst decompress_from.simps) (simp add: nth_append unat_byte put_bytes_def)
next
  case (Run k v)
  with assms show ?thesis
    by (subst decompress_from.simps) (simp add: nth_append unat_byte put_bytes_def numeral_3_eq_3)
next
  case (Literal bs)
  let ?k = "length bs"
  have k: "3 \<le> ?k" "?k \<le> 127" using Literal assms(1,2) by simp_all
  then have e: "emit b = of_nat ?k # bs" using Literal by (auto simp: tag_of_nat)
  have tag: "src ! i = of_nat ?k" using assms(4,6) e by simp
  have ne: "(of_nat ?k :: u8) \<noteq> 1" "(of_nat ?k :: u8) \<noteq> 2"
    using byte_neq[of ?k 1] byte_neq[of ?k 2] k by simp_all
  have bs: "take ?k (drop (Suc i) src) = bs" using assms(4,6) e by simp
  have u: "unat ((of_nat ?k :: u8) AND 127) = ?k" using k by (simp add: tag_of_nat unat_byte)
  have nb: "bs \<noteq> []" using k(1) by auto
  have le: "i + 1 + ?k \<le> n" using assms(5,6) e by simp
  have lt: "length out < ZRAM_PAGE_SIZE" using assms(3) Literal k(1) by simp
  have "decompress_from src n i out = decompress_from src n (i + 1 + min ?k (ZRAM_PAGE_SIZE - length out))
      (put_bytes out bs)"
    using le lt nb ne u bs
    by (subst decompress_from.simps) (simp add: tag Let_def)
  then show ?thesis using assms(3) Literal e by (simp add: put_bytes_def)
qed

section \<open>Whole pages\<close>

text \<open>The blocks of a page: the run of the compressor, seen as a list.\<close>

function page_blocks :: "u8 list \<Rightarrow> size_t \<Rightarrow> nat \<Rightarrow> nat \<Rightarrow> zram_block list" where
  "page_blocks src max_dst i o_idx =
     (if i < ZRAM_PAGE_SIZE \<and> o_idx + 4 < max_dst then
        let b = next_block src (max_dst - o_idx) i
        in b # page_blocks src max_dst (i + length (expand b)) (o_idx + length (emit b))
      else [])"
  by pat_completeness auto
termination
  by (relation "measure (\<lambda>(src, m, i, k). ZRAM_PAGE_SIZE - i)")
     (auto intro!: diff_less_mono2 simp: next_block_progress)

declare page_blocks.simps [simp del]

definition zram_exact :: "u8 list \<Rightarrow> size_t \<Rightarrow> bool" where
  "zram_exact src max_dst \<longleftrightarrow> list_all block_exact (page_blocks src max_dst 0 0)"

text \<open>The second bound check of the compressor never fails.\<close>

lemma compress_from_step:
  assumes "i < ZRAM_PAGE_SIZE" "length out + 4 < max_dst"
    "b = next_block src (max_dst - length out) i"
  shows "compress_from src max_dst i out = compress_from src max_dst (i + length (expand b)) (out @ emit b)"
    "block_wf (max_dst - length out) b" "length (out @ emit b) \<le> max_dst"
proof -
  have sp: "4 < max_dst - length out" using assms(2) by simp
  show wf: "block_wf (max_dst - length out) b"
    unfolding assms(3) using assms(1) sp by (rule next_block_wf)
  then show "compress_from src max_dst i out = compress_from src max_dst (i + length (expand b)) (out @ emit b)"
    using assms sp by (subst compress_from.simps) (auto simp: Let_def split: zram_block.split)
  show "length (out @ emit b) \<le> max_dst"
    using length_emit(1)[OF wf sp] assms(2) by simp
qed

lemma compress_from_stop:
  "i < ZRAM_PAGE_SIZE \<Longrightarrow> max_dst \<le> length out + 4 \<Longrightarrow> compress_from src max_dst i out = (-1, out)"
  "\<not> i < ZRAM_PAGE_SIZE \<Longrightarrow> compress_from src max_dst i out = (int (length out), out)"
  by (subst compress_from.simps, simp)+

lemma compress_from_cases [consumes 1, case_names Full Done Step]:
  assumes "compress_from src max_dst i out = (r, res)"
  obtains "i < ZRAM_PAGE_SIZE" "max_dst \<le> length out + 4" "r = -1" "res = out"
    | "\<not> i < ZRAM_PAGE_SIZE" "r = int (length out)" "res = out"
    | b where "i < ZRAM_PAGE_SIZE" "length out + 4 < max_dst"
        "b = next_block src (max_dst - length out) i" "block_wf (max_dst - length out) b"
        "compress_from src max_dst (i + length (expand b)) (out @ emit b) = (r, res)"
        "length (out @ emit b) \<le> max_dst"
proof -
  consider "\<not> i < ZRAM_PAGE_SIZE" | "i < ZRAM_PAGE_SIZE" "max_dst \<le> length out + 4"
    | "i < ZRAM_PAGE_SIZE" "length out + 4 < max_dst" by linarith
  then show thesis
  proof cases
    case 1
    then show thesis using compress_from_stop(2)[OF 1, of src max_dst out] assms
      by (intro that(2)) auto
  next
    case 2
    then show thesis using compress_from_stop(1)[OF 2, of src] assms
      by (intro that(1)) auto
  next
    case 3
    note st = compress_from_step[OF 3 refl, of src]
    show thesis
      by (rule that(3)[OF 3 refl st(2) trans[OF st(1)[symmetric] assms] st(3)])
  qed
qed

lemma page_step:
  assumes "i < ZRAM_PAGE_SIZE" "length out + 4 < max_dst"
    "b = next_block src (max_dst - length out) i" "length src = ZRAM_PAGE_SIZE"
  shows "i + length (expand b) \<le> ZRAM_PAGE_SIZE"
    "take (i + length (expand b)) src = take i src @ expand b"
    "ZRAM_PAGE_SIZE - (i + length (expand b)) < ZRAM_PAGE_SIZE - i"
    "page_blocks src max_dst i (length out) =
       b # page_blocks src max_dst (i + length (expand b)) (length (out @ emit b))"
proof -
  show "i + length (expand b) \<le> ZRAM_PAGE_SIZE"
    unfolding assms(3) using assms(1) by (rule next_block_expand(2))
  show "take (i + length (expand b)) src = take i src @ expand b"
    unfolding assms(3) using assms(1,4) by (rule next_block_take)
  show "page_blocks src max_dst i (length out) =
       b # page_blocks src max_dst (i + length (expand b)) (length (out @ emit b))"
    using assms(1-3) by (subst page_blocks.simps) (simp add: Let_def)
  have "expand b \<noteq> []" unfolding assms(3) using assms(1,2) by (intro next_block_progress) simp_all
  then show "ZRAM_PAGE_SIZE - (i + length (expand b)) < ZRAM_PAGE_SIZE - i"
    using assms(1) by (intro diff_less_mono2) simp_all
qed

text \<open>
  What the compressor writes is the blocks of the page one after the other, and together
  they stand for the whole page.
\<close>

lemma compress_from_blocks:
  assumes "compress_from src max_dst i out = (r, res)" "i \<le> ZRAM_PAGE_SIZE" "length out \<le> max_dst"
    "length src = ZRAM_PAGE_SIZE"
  shows "res = out @ concat (map emit (page_blocks src max_dst i (length out))) \<and> length res \<le> max_dst \<and>
    (if r < 0 then r = -1 \<and> max_dst \<le> length res + 4
     else r = int (length res) \<and>
       take i src @ concat (map expand (page_blocks src max_dst i (length out))) = src)"
  using assms(1-3)
proof (induction "ZRAM_PAGE_SIZE - i" arbitrary: i out rule: less_induct)
  case less
  from less.prems(1) show ?case
  proof (cases rule: compress_from_cases)
    case Full
    with less show ?thesis by (simp add: page_blocks.simps)
  next
    case Done
    with less assms(4) show ?thesis by (simp add: page_blocks.simps)
  next
    case (Step b)
    let ?j = "i + length (expand b)"
    note nx = page_step[OF Step(1-3) assms(4)]
    note IH = less.hyps[OF nx(3) Step(5) nx(1) Step(6)]
    from IH show ?thesis unfolding nx(2,4) by (cases "r < 0") auto
  qed
qed

lemma compress_page_blocks:
  assumes "length page = ZRAM_PAGE_SIZE" "zram_compress_page page max_dst = (n, res)"
  shows "res = concat (map emit (page_blocks page max_dst 0 0))" "length res \<le> max_dst"
    "n < 0 \<Longrightarrow> n = -1 \<and> max_dst \<le> length res + 4"
    "0 \<le> n \<Longrightarrow> n = int (length res) \<and> concat (map expand (page_blocks page max_dst 0 0)) = page"
proof -
  note c = assms(2)[unfolded zram_compress_page_def]
  have *: "res = [] @ concat (map emit (page_blocks page max_dst 0 (length ([] :: u8 list)))) \<and> length res \<le> max_dst \<and>
    (if n < 0 then n = -1 \<and> max_dst \<le> length res + 4
     else n = int (length res) \<and>
       take 0 page @ concat (map expand (page_blocks page max_dst 0 (length ([] :: u8 list)))) = page)"
    by (rule compress_from_blocks[OF c _ _ assms(1)]) simp_all
  from * show "res = concat (map emit (page_blocks page max_dst 0 0))" by simp
  from * show "length res \<le> max_dst" by blast
  from * have "if n < 0 then n = -1 \<and> max_dst \<le> length res + 4
    else n = int (length res) \<and> concat (map expand (page_blocks page max_dst 0 0)) = page"
    by (elim conjE) (simp only: take_0 append_Nil list.size)
  then show "n < 0 \<Longrightarrow> n = -1 \<and> max_dst \<le> length res + 4"
    "0 \<le> n \<Longrightarrow> n = int (length res) \<and> concat (map expand (page_blocks page max_dst 0 0)) = page"
    by simp_all
qed

text \<open>The round trip, from the state both sides are in after the same blocks.\<close>

lemma decompress_blocks:
  assumes "compress_from src max_dst i out = (r, res)" "0 \<le> r" "i \<le> ZRAM_PAGE_SIZE"
    "length src = ZRAM_PAGE_SIZE" "list_all block_exact (page_blocks src max_dst i (length out))"
    "length out \<le> max_dst"
  shows "decompress_from res (length res) (length out) (take i src) = (0, src)"
  using assms(1-3,5,6)
proof (induction "ZRAM_PAGE_SIZE - i" arbitrary: i out rule: less_induct)
  case less
  from less.prems(1) show ?case
  proof (cases rule: compress_from_cases)
    case Full
    with less show ?thesis by simp
  next
    case Done
    with less.prems(3) assms(4) show ?thesis by (subst decompress_from.simps) simp
  next
    case (Step b)
    let ?j = "i + length (expand b)"
    note nx = page_step[OF Step(1-3) assms(4)]
    have ex: "block_exact b" "list_all block_exact (page_blocks src max_dst ?j (length (out @ emit b)))"
      using less.prems(4) unfolding nx(4) by simp_all
    note IH = less.hyps[OF nx(3) Step(5) less.prems(2) nx(1) ex(2) Step(6)]
    obtain post where post: "res = out @ emit b @ post"
      using compress_from_blocks[OF Step(5) nx(1) Step(6) assms(4)] by auto
    have "decompress_from res (length res) (length out) (take i src) =
        decompress_from res (length res) (length out + length (emit b)) (take i src @ expand b)"
      using Step(1,4) ex(1) nx(1) assms(4) post
      by (intro decompress_block[of _ b _ _ out post]) simp_all
    then show ?thesis using IH unfolding nx(2) by simp
  qed
qed

section \<open>The decompressor on any input\<close>

lemma length_put_bytes: "length out \<le> ZRAM_PAGE_SIZE \<Longrightarrow> length (put_bytes out bs) \<le> ZRAM_PAGE_SIZE"
  by (simp add: put_bytes_def)

lemma decompress_from_result:
  assumes "length out \<le> ZRAM_PAGE_SIZE"
  shows "fst (decompress_from src n i out) = 0 \<and> length (snd (decompress_from src n i out)) = ZRAM_PAGE_SIZE \<or>
    fst (decompress_from src n i out) = -1 \<and> length (snd (decompress_from src n i out)) < ZRAM_PAGE_SIZE"
  using assms
proof (induction src n i out rule: decompress_from.induct)
  case (1 src n i out)
  show ?case
    apply (subst (1 2 3 4) decompress_from.simps)
    using 1 by (simp add: Let_def length_put_bytes)
qed

text \<open>The bytes at and after \<open>src_len\<close> do not matter: they are not read.\<close>

lemma decompress_from_cong:
  assumes "n \<le> length src" "n \<le> length src'" "take n src = take n src'"
  shows "decompress_from src n i out = decompress_from src' n i out"
proof -
  have nth: "src ! k = src' ! k" if "k < n" for k
    using that assms(3) by (metis nth_take)
  have tk: "take l (drop k src) = take l (drop k src')" if "k + l \<le> n" for k l
    using that assms by (intro nth_equalityI) (auto intro!: nth)
  show ?thesis
  proof (induction "n - i" arbitrary: i out rule: less_induct)
    case less
    show ?case
    proof (cases "i < n \<and> length out < ZRAM_PAGE_SIZE")
      case True
      then have "decompress_from src n k o' = decompress_from src' n k o'" if "i < k" for k o'
        using that True by (intro less.hyps diff_less_mono2) auto
      with True show ?thesis
        using nth tk[of "Suc i"]
        by (subst (1 2) decompress_from.simps) (simp add: Let_def)
    qed (subst (1 2) decompress_from.simps, auto)
  qed
qed

section \<open>Pages that end in zeros\<close>

lemma count_run_tail:
  assumes "\<And>k. i \<le> k \<Longrightarrow> k < ZRAM_PAGE_SIZE \<Longrightarrow> src ! k = v" "run \<le> 255" "i + run \<le> ZRAM_PAGE_SIZE"
  shows "count_run src v i run = min 255 (ZRAM_PAGE_SIZE - i)"
  using assms
proof (induction src v i run rule: count_run.induct)
  case (1 src v i run)
  show ?case
  proof (cases "i + run < ZRAM_PAGE_SIZE \<and> run < 255")
    case True
    then have "src ! (i + run) = v" using 1 by simp
    with True 1 show ?thesis by (subst count_run.simps) simp
  next
    case False
    then have "count_run src v i run = run" by (subst count_run.simps) auto
    with False 1(3,4) show ?thesis by linarith
  qed
qed

lemma next_block_zero_tail:
  assumes "\<And>k. i \<le> k \<Longrightarrow> k < ZRAM_PAGE_SIZE \<Longrightarrow> src ! k = 0" "i + 4 \<le> ZRAM_PAGE_SIZE"
  shows "next_block src space i = Zeros (min 255 (ZRAM_PAGE_SIZE - i))"
proof -
  have "count_run src 0 i 0 = min 255 (ZRAM_PAGE_SIZE - i)"
    using assms by (intro count_run_tail) simp_all
  moreover have "4 \<le> min 255 (ZRAM_PAGE_SIZE - i)" using assms(2) by linarith
  ultimately show ?thesis using assms by (simp add: next_block_def Let_def)
qed

lemma compress_zero_tail:
  assumes "\<And>k. i \<le> k \<Longrightarrow> k < ZRAM_PAGE_SIZE \<Longrightarrow> src ! k = 0"
    and "ZRAM_PAGE_SIZE = i + 255 * m + t" "4 \<le> t" "t \<le> 255" "length out + 2 * m + 4 < max_dst"
  shows "compress_from src max_dst i out =
      (int (length out + 2 * m + 2), out @ concat (map emit (replicate m (Zeros 255) @ [Zeros t])))"
    and "page_blocks src max_dst i (length out) = replicate m (Zeros 255) @ [Zeros t]"
proof -
  have "compress_from src max_dst i out =
      (int (length out + 2 * m + 2), out @ concat (map emit (replicate m (Zeros 255) @ [Zeros t]))) \<and>
    page_blocks src max_dst i (length out) = replicate m (Zeros 255) @ [Zeros t]"
    using assms
  proof (induction m arbitrary: i out)
    case 0
    then have "min 255 (ZRAM_PAGE_SIZE - i) = t" "i + 4 \<le> ZRAM_PAGE_SIZE" by linarith+
    then have b: "next_block src (max_dst - length out) i = Zeros t"
      using next_block_zero_tail[of i src "max_dst - length out"] 0(1) by simp
    have i: "i < ZRAM_PAGE_SIZE" and sp: "length out + 4 < max_dst" and e: "i + t = ZRAM_PAGE_SIZE"
      using 0(2-5) by simp_all
    have c: "compress_from src max_dst i out = compress_from src max_dst (i + t) (out @ emit (Zeros t))"
      using compress_from_step(1)[OF i sp refl, of src] b by simp
    have p: "page_blocks src max_dst i (length out) = [Zeros t]"
      using i sp e b by (subst page_blocks.simps, subst page_blocks.simps) (simp add: Let_def)
    show ?case using c p e by (simp add: compress_from_stop(2))
  next
    case (Suc m)
    then have "ZRAM_PAGE_SIZE - i = 255 + (255 * m + t)" "i + 4 \<le> ZRAM_PAGE_SIZE" by simp_all
    then have "min 255 (ZRAM_PAGE_SIZE - i) = 255" "i + 4 \<le> ZRAM_PAGE_SIZE" by simp_all
    then have b: "next_block src (max_dst - length out) i = Zeros 255"
      using next_block_zero_tail[of i src "max_dst - length out"] Suc(2) by simp
    have i: "i < ZRAM_PAGE_SIZE" and sp: "length out + 4 < max_dst"
      using Suc(3-6) by simp_all
    have c: "compress_from src max_dst i out = compress_from src max_dst (i + 255) (out @ emit (Zeros 255))"
      using compress_from_step(1)[OF i sp refl, of src] b by simp
    have p: "page_blocks src max_dst i (length out) =
        Zeros 255 # page_blocks src max_dst (i + 255) (length (out @ emit (Zeros 255)))"
      using i sp b by (subst page_blocks.simps) (simp add: Let_def)
    let ?out = "out @ emit (Zeros 255)"
    have "compress_from src max_dst (i + 255) ?out =
        (int (length ?out + 2 * m + 2), ?out @ concat (map emit (replicate m (Zeros 255) @ [Zeros t]))) \<and>
      page_blocks src max_dst (i + 255) (length ?out) = replicate m (Zeros 255) @ [Zeros t]"
      by (rule Suc.IH) (use Suc.prems in simp_all)
    then show ?case unfolding c p by simp
  qed
  then show "compress_from src max_dst i out =
      (int (length out + 2 * m + 2), out @ concat (map emit (replicate m (Zeros 255) @ [Zeros t])))"
    and "page_blocks src max_dst i (length out) = replicate m (Zeros 255) @ [Zeros t]" by blast+
qed

text \<open>Blocks of zeros decode to zeros, however many there are.\<close>

lemma decompress_zero_blocks:
  assumes "out = replicate k 0" "k \<le> ZRAM_PAGE_SIZE"
  shows "decompress_from (pre @ concat (map (\<lambda>c. [ZRAM_TAG_ZEROS, c]) cs))
      (length pre + 2 * length cs) (length pre) out = (0, replicate ZRAM_PAGE_SIZE 0)"
  using assms
proof (induction cs arbitrary: pre out k)
  case Nil
  then show ?case by (subst decompress_from.simps) (simp flip: replicate_add)
next
  case (Cons c cs)
  show ?case
  proof (cases "k = ZRAM_PAGE_SIZE")
    case True
    with Cons.prems show ?thesis by (subst decompress_from.simps) simp
  next
    case False
    let ?k = "min (ZRAM_PAGE_SIZE) (k + unat c)"
    have "put_bytes out (replicate (unat c) 0) = replicate ?k 0"
    proof -
      have "k + min (ZRAM_PAGE_SIZE - k) (unat c) = ?k" using Cons.prems(2) by linarith
      then show ?thesis using Cons.prems(1) by (simp add: put_bytes_def flip: replicate_add)
    qed
    then show ?thesis
      using Cons.IH[of "replicate ?k 0" ?k "pre @ [ZRAM_TAG_ZEROS, c]"] Cons.prems False
      by (subst decompress_from.simps) (simp add: nth_append)
  qed
qed

section \<open>The contract of a page codec\<close>

text \<open>
  What the pool of compressed pages relies on. \<open>exact p m\<close> says of a page that the codec
  keeps it when it is given a buffer of \<open>m\<close> bytes.
\<close>

locale page_codec =
  fixes compress :: "u8 list \<Rightarrow> size_t \<Rightarrow> int \<times> u8 list"
    and decompress :: "u8 list \<Rightarrow> size_t \<Rightarrow> int \<times> u8 list"
    and exact :: "u8 list \<Rightarrow> size_t \<Rightarrow> bool"
  assumes compress_length: "length p = ZRAM_PAGE_SIZE \<Longrightarrow> compress p m = (r, res) \<Longrightarrow> 0 \<le> r \<Longrightarrow>
      r = int (length res) \<and> length res \<le> m"
    and decompress_result: "fst (decompress src n) = 0 \<and> length (snd (decompress src n)) = ZRAM_PAGE_SIZE \<or>
      fst (decompress src n) = -1 \<and> length (snd (decompress src n)) < ZRAM_PAGE_SIZE"
    and decompress_reads: "n \<le> length src \<Longrightarrow> n \<le> length src' \<Longrightarrow> take n src = take n src' \<Longrightarrow>
      decompress src n = decompress src' n"
    and roundtrip: "length p = ZRAM_PAGE_SIZE \<Longrightarrow> exact p m \<Longrightarrow> compress p m = (r, res) \<Longrightarrow> 0 \<le> r \<Longrightarrow>
      decompress res (length res) = (0, p)"
begin

text \<open>The compressed bytes may be followed by anything in memory.\<close>

lemma roundtrip_in_buffer:
  assumes "length p = ZRAM_PAGE_SIZE" "exact p m" "compress p m = (r, res)" "0 \<le> r"
    "take (nat r) buf = res" "nat r \<le> length buf"
  shows "decompress buf (nat r) = (0, p)"
proof -
  have len: "nat r = length res" using compress_length[OF assms(1,3,4)] by simp
  have "decompress buf (nat r) = decompress res (nat r)"
    using assms(5,6) len by (intro decompress_reads) auto
  then show ?thesis using roundtrip[OF assms(1-4)] len by simp
qed

text \<open>Decompression writes to the caller's page only, and never past its end.\<close>

lemma decompress_fits: "decompress src n = (r, res) \<Longrightarrow> length res \<le> ZRAM_PAGE_SIZE"
  using decompress_result[of src n] by auto

end

interpretation codec: page_codec zram_compress_page zram_decompress_page zram_exact
proof (unfold_locales, goal_cases)
  case (1 p m r res)
  then show ?case using compress_page_blocks(2,4) by blast
next
  case (2 src n)
  show ?case unfolding zram_decompress_page_def by (rule decompress_from_result) simp
next
  case (3 n src src')
  then show ?case unfolding zram_decompress_page_def by (rule decompress_from_cong)
next
  case (4 p m r res)
  then show ?case
    using decompress_blocks[of p m 0 "[]" r res]
    by (simp add: zram_compress_page_def zram_decompress_page_def zram_exact_def)
qed

section \<open>Properties\<close>

text \<open>
  C24: The round trip. A page of 4096 bytes that the compressor splits into no literal block of
  one or two bytes, when compressed without error and then decompressed from any buffer that
  starts with the compressed bytes, comes back as it was.
\<close>

theorem zram_roundtrip:
  assumes "length page = ZRAM_PAGE_SIZE" and "zram_exact page max_dst"
    and "zram_compress_page page max_dst = (n, res)" and "0 \<le> n"
  shows "zram_decompress_page (res @ rest) (nat n) = (0, page)"
proof -
  have "n = int (length res)" using codec.compress_length[OF assms(1,3,4)] by simp
  then show ?thesis by (intro codec.roundtrip_in_buffer[OF assms]) simp_all
qed

lemma zero_page:
  "zram_compress_page (replicate ZRAM_PAGE_SIZE 0) 4096 =
     (34, concat (map emit (replicate 16 (Zeros 255) @ [Zeros 16])))"
  "zram_exact (replicate ZRAM_PAGE_SIZE 0) 4096"
proof -
  let ?p = "replicate ZRAM_PAGE_SIZE (0::u8)"
  have "compress_from ?p 4096 0 [] =
      (int (length ([] :: u8 list) + 2 * 16 + 2), [] @ concat (map emit (replicate 16 (Zeros 255) @ [Zeros 16])))"
    by (rule compress_zero_tail(1)) simp_all
  then show "zram_compress_page ?p 4096 = (34, concat (map emit (replicate 16 (Zeros 255) @ [Zeros 16])))"
    by (simp only: zram_compress_page_def) simp
  have "page_blocks ?p 4096 0 (length ([] :: u8 list)) = replicate 16 (Zeros 255) @ [Zeros 16]"
    by (rule compress_zero_tail(2)) simp_all
  then show "zram_exact ?p 4096" by (simp add: zram_exact_def list_all_iff)
qed

theorem zram_roundtrip_witness:
  "zram_decompress_page (concat (map emit (replicate 16 (Zeros 255) @ [Zeros 16])) @ [7]) 34 =
     (0, replicate ZRAM_PAGE_SIZE 0)"
  using zram_roundtrip[OF _ zero_page(2,1), of "[7]"] by simp

text \<open>
  What the compressor does with any page and any buffer size: it stays within the buffer,
  and either fails with -1 because fewer than five bytes of the buffer were left, or returns
  the number of bytes written, which are the blocks of the page in order, together standing
  for exactly the bytes of the page.
\<close>

theorem zram_compress_covers_page:
  assumes "length page = ZRAM_PAGE_SIZE"
  shows "\<exists>n res. zram_compress_page page max_dst = (n, res) \<and> length res \<le> max_dst \<and>
    res = concat (map emit (page_blocks page max_dst 0 0)) \<and>
    (n = -1 \<and> max_dst \<le> length res + 4 \<or>
     n = int (length res) \<and> concat (map expand (page_blocks page max_dst 0 0)) = page)"
proof -
  obtain n res where r: "zram_compress_page page max_dst = (n, res)" by fastforce
  note b = compress_page_blocks[OF assms r]
  show ?thesis using r b(1,2) b(3,4) by (cases "n < 0") (simp_all only: not_less, blast+)
qed

theorem zram_compress_covers_page_witness:
  "concat (map expand (page_blocks (replicate ZRAM_PAGE_SIZE 0) 4096 0 0)) = replicate ZRAM_PAGE_SIZE 0"
  using zram_compress_covers_page[of "replicate ZRAM_PAGE_SIZE 0" 4096] zero_page(1) by simp

text \<open>
  Decompression is total and memory-safe on any input, also a corrupted one: it returns 0
  with a full page of 4096 bytes, or -1 having written less than a page, and it does not
  depend on any byte at or after the given length.
\<close>

theorem zram_decompress_any_input:
  "(fst (zram_decompress_page src n) = 0 \<and> length (snd (zram_decompress_page src n)) = ZRAM_PAGE_SIZE \<or>
    fst (zram_decompress_page src n) = -1 \<and> length (snd (zram_decompress_page src n)) < ZRAM_PAGE_SIZE) \<and>
   zram_decompress_page (bs @ rest) (length bs) = zram_decompress_page bs (length bs)"
proof (rule conjI)
  show "zram_decompress_page (bs @ rest) (length bs) = zram_decompress_page bs (length bs)"
    by (rule codec.decompress_reads) simp_all
qed (rule codec.decompress_result)

text \<open>
  C25: A page lost. A page that has one nonzero byte at its start and is zero otherwise is
  compressed without error to 36 bytes, decompresses without error, and comes back as all
  zeros: its first literal block has one byte, and its tag byte is that of a run of zeros.
\<close>

theorem zram_loses_lone_byte:
  assumes "v \<noteq> 0"
  shows "\<exists>res. zram_compress_page (v # replicate 4095 0) 4096 = (36, res) \<and>
    zram_decompress_page res 36 = (0, replicate ZRAM_PAGE_SIZE 0)"
proof -
  let ?p = "v # replicate 4095 (0::u8)"
  have r: "count_run ?p v 0 0 = 1"
    using assms by (subst count_run.simps, subst count_run.simps) simp
  have l: "count_literal ?p 127 0 0 = 1"
    using assms by (subst count_literal.simps, subst count_literal.simps) simp
  have b: "next_block ?p 4096 0 = Literal [v]"
    using assms r l by (simp add: next_block_def Let_def)
  have "zram_compress_page ?p 4096 = compress_from ?p 4096 1 [1, v]"
    using compress_from_step(1)[of 0 "[]" 4096, OF _ _ refl, of ?p] b
    by (simp add: zram_compress_page_def)
  also have "\<dots> = (36, [1, v] @ concat (map emit (replicate 16 (Zeros 255) @ [Zeros 15])))"
  proof -
    have "compress_from ?p 4096 1 [1, v] = (int (length [1, v] + 2 * 16 + 2),
        [1, v] @ concat (map emit (replicate 16 (Zeros 255) @ [Zeros 15])))"
      by (rule compress_zero_tail(1)) (simp_all add: nth_Cons')
    then show ?thesis by simp
  qed
  finally have c: "zram_compress_page ?p 4096 =
      (36, [1, v] @ concat (map emit (replicate 16 (Zeros 255) @ [Zeros 15])))" .
  have "[1, v] @ concat (map emit (replicate 16 (Zeros 255) @ [Zeros 15])) =
      concat (map (\<lambda>c. [ZRAM_TAG_ZEROS, c]) (v # replicate 16 255 @ [15]))"
    by simp
  then have "zram_decompress_page ([1, v] @ concat (map emit (replicate 16 (Zeros 255) @ [Zeros 15]))) 36 =
      (0, replicate ZRAM_PAGE_SIZE 0)"
    using decompress_zero_blocks[of "[]" 0 "[]" "v # replicate 16 255 @ [15]"]
    by (simp add: zram_decompress_page_def)
  with c show ?thesis by blast
qed

theorem zram_loses_lone_byte_witness:
  "\<exists>res. zram_compress_page (5 # replicate 4095 0) 4096 = (36, res) \<and>
    snd (zram_decompress_page res 36) \<noteq> 5 # replicate 4095 0"
proof -
  obtain res where "zram_compress_page (5 # replicate 4095 0) 4096 = (36, res)"
    "zram_decompress_page res 36 = (0, replicate ZRAM_PAGE_SIZE 0)"
    using zram_loses_lone_byte[of 5] by auto
  moreover have "replicate ZRAM_PAGE_SIZE (0::u8) ! 0 \<noteq> (5 # replicate 4095 (0::u8)) ! 0" by simp
  ultimately show ?thesis by (metis snd_conv)
qed

end
