(* ===== verification/Zram_Pool.thy ===== *)
theory Zram_Pool
  imports Kheap_Clients Zram_Codec
begin

text \<open>
  The pool of compressed pages, the second half of kernel/core/zram.c: 1024 slots, each with a
  payload of the kernel heap that holds a compressed page, and the statistics. The proofs
  rest on the contracts \<open>byte_allocator\<close> and \<open>page_codec\<close>, through their interpretations
  for the heap and the compressor of the kernel.
\<close>

section \<open>State\<close>

abbreviation ZRAM_MAX_PAGES :: nat where
  "ZRAM_MAX_PAGES \<equiv> 1024"

record zram_slot =
  slot_data :: addr
  compressed_len :: u16
  slot_used :: bool

record zram_stats =
  pages_stored :: u32
  original_bytes :: u32
  compressed_bytes :: u32
  compression_ratio_x100 :: u32
  total_compressions :: u32
  total_decompressions :: u32

record zram_state = heap_state +
  pool :: "zram_slot list"
  zstats :: zram_stats

definition zram_init :: "'a zram_state_scheme \<Rightarrow> int \<times> 'a zram_state_scheme" where
  "zram_init s = (0, s\<lparr>pool := replicate ZRAM_MAX_PAGES \<lparr>slot_data = NULL, compressed_len = 0, slot_used = False\<rparr>,
     zstats := \<lparr>pages_stored = 0, original_bytes = 0, compressed_bytes = 0, compression_ratio_x100 = 100,
       total_compressions = 0, total_decompressions = 0\<rparr>\<rparr>)"

section \<open>Operations\<close>

text \<open>\<open>(uint32_t)(((uint64_t)original_bytes * 100) / compressed_bytes)\<close>\<close>

definition zram_ratio :: "zram_stats \<Rightarrow> u32" where
  "zram_ratio st = of_nat (unat (original_bytes st) * 100 div unat (compressed_bytes st))"

text \<open>Copying bytes to the heap, and reading them from it.\<close>

definition store_bytes :: "addr \<Rightarrow> u8 list \<Rightarrow> 'a heap_state_scheme \<Rightarrow> 'a heap_state_scheme" where
  "store_bytes dst bs s = fold (\<lambda>i s. client_write (add64 dst i) (bs ! i) s) [0..<length bs] s"

definition load_bytes :: "addr \<Rightarrow> nat \<Rightarrow> 'a heap_state_scheme \<Rightarrow> u8 list" where
  "load_bytes src n s = map (\<lambda>i. heap_mem s (add64 src i)) [0..<n]"

text \<open>
  The results are the C return value, what is written through the out parameter, if anything,
  and the new state. A null pointer for \<open>src\<close> is None; \<open>out_handle\<close> and \<open>dst\<close> say whether
  these pointers are not null.
\<close>

definition zram_store :: "u8 list option \<Rightarrow> bool \<Rightarrow> 'a zram_state_scheme \<Rightarrow>
    (int \<times> u32 option \<times> 'a zram_state_scheme) option" where
  "zram_store src out_handle s =
     (case src of
        None \<Rightarrow> Some (-1, None, s)
      | Some page \<Rightarrow>
          if \<not> out_handle then Some (-1, None, s)
          else case first_from (\<lambda>i. \<not> slot_used (pool s ! i)) 0 ZRAM_MAX_PAGES of
            None \<Rightarrow> Some (-2, None, s)
          | Some slot \<Rightarrow>
              (case zram_compress_page page 4096 of (comp_len, temp_buf) \<Rightarrow>
                if comp_len \<le> 0 \<or> 4096 - 64 \<le> comp_len then Some (-3, None, s)
                else do {
                  r \<leftarrow> kmalloc (nat comp_len) s;
                  let heap_buf = fst r;
                  let s1 = snd r;
                  if heap_buf = NULL then Some (-4, None, s1)
                  else let s2 = store_bytes heap_buf (take (nat comp_len) temp_buf) s1;
                           st = zstats s2;
                           st1 = st\<lparr>pages_stored := pages_stored st + 1,
                                    original_bytes := original_bytes st + 4096,
                                    compressed_bytes := compressed_bytes st + of_int comp_len,
                                    total_compressions := total_compressions st + 1\<rparr>;
                           st2 = (if compressed_bytes st1 > 0
                                  then st1\<lparr>compression_ratio_x100 := zram_ratio st1\<rparr> else st1)
                       in Some (0, Some (of_nat slot),
                            s2\<lparr>pool := (pool s2)[slot := \<lparr>slot_data = heap_buf,
                                 compressed_len = of_int comp_len, slot_used = True\<rparr>],
                               zstats := st2\<rparr>)
                }))"

definition zram_load :: "u32 \<Rightarrow> bool \<Rightarrow> 'a zram_state_scheme \<Rightarrow> int \<times> u8 list \<times> 'a zram_state_scheme" where
  "zram_load handle dst s =
     (let h = unat handle; sl = pool s ! h in
      if ZRAM_MAX_PAGES \<le> h \<or> \<not> slot_used sl \<or> \<not> dst then (-1, [], s)
      else let n = unat (compressed_len sl)
           in case zram_decompress_page (load_bytes (slot_data sl) n s) n of (ret, page) \<Rightarrow>
                if ret = 0
                then (ret, page, s\<lparr>zstats := (zstats s)\<lparr>total_decompressions := total_decompressions (zstats s) + 1\<rparr>\<rparr>)
                else (ret, page, s))"

definition zram_free :: "u32 \<Rightarrow> 'a zram_state_scheme \<Rightarrow> (int \<times> 'a zram_state_scheme) option" where
  "zram_free handle s =
     (let h = unat handle; sl = pool s ! h in
      if ZRAM_MAX_PAGES \<le> h \<or> \<not> slot_used sl then Some (-1, s)
      else let st = zstats s;
               st1 = st\<lparr>pages_stored := pages_stored st - 1,
                        original_bytes := original_bytes st - 4096,
                        compressed_bytes := compressed_bytes st - ucast (compressed_len sl)\<rparr>;
               st2 = (if compressed_bytes st1 > 0
                      then st1\<lparr>compression_ratio_x100 := zram_ratio st1\<rparr>
                      else st1\<lparr>compression_ratio_x100 := 100\<rparr>)
           in do {
                s1 \<leftarrow> kfree (slot_data sl) (s\<lparr>zstats := st2\<rparr>);
                Some (0, s1\<lparr>pool := (pool s1)[h := \<lparr>slot_data = NULL, compressed_len = 0, slot_used = False\<rparr>]\<rparr>)
              })"

definition zram_get_stats :: "'a zram_state_scheme \<Rightarrow> zram_stats" where
  "zram_get_stats s = \<lparr>pages_stored = pages_stored (zstats s), original_bytes = original_bytes (zstats s),
     compressed_bytes = compressed_bytes (zstats s),
     compression_ratio_x100 = compression_ratio_x100 (zstats s),
     total_compressions = total_compressions (zstats s),
     total_decompressions = total_decompressions (zstats s)\<rparr>"

section \<open>Bytes in the heap\<close>

lemma heap_ok_pool [simp]:
  "heap_ok L (s\<lparr>pool := p\<rparr>) = heap_ok L s" "heap_ok L (s\<lparr>zstats := st\<rparr>) = heap_ok L s"
proof -
  have h: "hdr (s\<lparr>pool := p\<rparr>) = hdr s" "hdr (s\<lparr>zstats := st\<rparr>) = hdr s"
    by (rule ext, simp add: hdr_def)+
  have "heap_env H (s\<lparr>pool := p\<rparr>) = heap_env H s" "heap_env H (s\<lparr>zstats := st\<rparr>) = heap_env H s" for H
    by (simp_all add: heap_env_def pmm_wf_def pmm_used_def)
  moreover have "flist fl (s\<lparr>pool := p\<rparr>) = flist fl s" "flist fl (s\<lparr>zstats := st\<rparr>) = flist fl s" for fl
    by (simp_all add: flist_def h)
  ultimately show "heap_ok L (s\<lparr>pool := p\<rparr>) = heap_ok L s" "heap_ok L (s\<lparr>zstats := st\<rparr>) = heap_ok L s"
    by (simp_all add: heap_ok_def heap_inv_def heap_core_def h)
qed

lemma zram_more:
  assumes "heap_state.more s' = heap_state.more s"
  shows "pool s' = pool s" "zstats s' = zstats s"
  using assms by (cases s, cases s', simp)+

lemma client_write_more: "heap_state.more (client_write x v s) = heap_state.more s"
  "heap_mem (client_write x v s) = (heap_mem s)(x := v)"
  by (simp_all add: client_write_def)

text \<open>Writing into a held range keeps the heap, and changes those bytes only.\<close>

lemma store_bytes_held:
  assumes "heap_ok L s" "(p, n) \<in> L" "length bs \<le> n"
  shows "heap_ok L (store_bytes p bs s)" "heap_state.more (store_bytes p bs s) = heap_state.more s"
    "heap_mem (store_bytes p bs s) = (\<lambda>x. if p \<le> x \<and> x < p + length bs then bs ! (x - p) else heap_mem s x)"
proof -
  have pn: "p + n < two64" using heap.held_nonnull[OF assms(1,2)] by blast
  let ?w = "\<lambda>k. fold (\<lambda>i s. client_write (add64 p i) (bs ! i) s) [0..<k] s"
  have "heap_ok L (?w k) \<and> heap_state.more (?w k) = heap_state.more s \<and>
      heap_mem (?w k) = (\<lambda>x. if p \<le> x \<and> x < p + k then bs ! (x - p) else heap_mem s x)"
    if "k \<le> length bs" for k
    using that
  proof (induction k)
    case 0
    then show ?case using assms(1) by (auto simp: fun_eq_iff)
  next
    case (Suc k)
    then have IH: "heap_ok L (?w k)" "heap_state.more (?w k) = heap_state.more s"
      "heap_mem (?w k) = (\<lambda>x. if p \<le> x \<and> x < p + k then bs ! (x - p) else heap_mem s x)" by simp_all
    have a: "add64 p k = p + k" using Suc.prems assms(3) pn by (simp add: wrap)
    have w: "?w (Suc k) = client_write (p + k) (bs ! k) (?w k)" by (simp add: a)
    have "heap_ok L (?w (Suc k))"
      unfolding w by (rule heap_ok_client_write[OF IH(1) assms(2)]) (use Suc.prems assms(3) in linarith)+
    moreover have "heap_mem (?w (Suc k)) = (\<lambda>x. if p \<le> x \<and> x < p + Suc k then bs ! (x - p) else heap_mem s x)"
      unfolding w client_write_more IH(3) by (auto simp: fun_eq_iff less_Suc_eq)
    moreover have "heap_state.more (?w (Suc k)) = heap_state.more s"
      unfolding w client_write_more by (rule IH(2))
    ultimately show ?case by blast
  qed
  from this[OF order_refl] show "heap_ok L (store_bytes p bs s)" "heap_state.more (store_bytes p bs s) = heap_state.more s"
    "heap_mem (store_bytes p bs s) = (\<lambda>x. if p \<le> x \<and> x < p + length bs then bs ! (x - p) else heap_mem s x)"
    unfolding store_bytes_def by blast+
qed

lemma load_bytes_cong:
  assumes "\<And>x. d \<le> x \<Longrightarrow> x < d + k \<Longrightarrow> heap_mem s' x = heap_mem s x" "d + k < two64"
  shows "load_bytes d k s' = load_bytes d k s"
  unfolding load_bytes_def using assms by (intro map_cong refl) (simp add: wrap)

lemma load_bytes_store:
  assumes "heap_mem s = (\<lambda>x. if p \<le> x \<and> x < p + length bs then bs ! (x - p) else m x)" "p + length bs < two64"
  shows "load_bytes p (length bs) s = bs"
  using assms unfolding load_bytes_def by (intro nth_equalityI) (simp_all add: wrap)

section \<open>Invariant\<close>

text \<open>
  \<open>M\<close> maps each slot in use to the page it stores, \<open>X\<close> are the payloads of the heap that
  others hold, \<open>sz\<close> the sizes of the payloads of the slots.
\<close>

definition slot_range :: "(nat \<Rightarrow> nat) \<Rightarrow> 'a zram_state_scheme \<Rightarrow> nat \<Rightarrow> addr \<times> size_t" where
  "slot_range sz s i = (slot_data (pool s ! i), sz i)"

definition slot_holds :: "u8 list \<Rightarrow> nat \<Rightarrow> 'a heap_state_scheme \<Rightarrow> zram_slot \<Rightarrow> bool" where
  "slot_holds page n s sl \<longleftrightarrow> length page = ZRAM_PAGE_SIZE \<and>
     (\<exists>res. zram_compress_page page 4096 = (int (length res), res) \<and> 0 < length res \<and> length res < 4032 \<and>
        unat (compressed_len sl) = length res \<and> length res \<le> n \<and> load_bytes (slot_data sl) (length res) s = res)"

definition zram_stats_ok :: "nat set \<Rightarrow> zram_slot list \<Rightarrow> zram_stats \<Rightarrow> bool" where
  "zram_stats_ok D p st \<longleftrightarrow> unat (pages_stored st) = card D \<and> unat (original_bytes st) = card D * 4096 \<and>
     unat (compressed_bytes st) = (\<Sum>i\<in>D. unat (compressed_len (p ! i))) \<and>
     compression_ratio_x100 st = (if compressed_bytes st = 0 then 100 else zram_ratio st)"

definition zram_inv :: "(nat \<Rightarrow> u8 list option) \<Rightarrow> (addr \<times> size_t) set \<Rightarrow> (nat \<Rightarrow> nat) \<Rightarrow> 'a zram_state_scheme \<Rightarrow> bool" where
  "zram_inv M X sz s \<longleftrightarrow> length (pool s) = ZRAM_MAX_PAGES \<and> dom M \<subseteq> {..<ZRAM_MAX_PAGES} \<and>
     heap_ok (X \<union> slot_range sz s ` dom M) s \<and> X \<inter> slot_range sz s ` dom M = {} \<and>
     inj_on (slot_range sz s) (dom M) \<and>
     (\<forall>i < ZRAM_MAX_PAGES. slot_used (pool s ! i) \<longleftrightarrow> i \<in> dom M) \<and>
     (\<forall>i\<in>dom M. slot_holds (the (M i)) (sz i) s (pool s ! i)) \<and>
     zram_stats_ok (dom M) (pool s) (zstats s)"

lemma zram_invD:
  assumes "zram_inv M X sz s"
  shows "length (pool s) = ZRAM_MAX_PAGES" "dom M \<subseteq> {..<ZRAM_MAX_PAGES}"
    "heap_ok (X \<union> slot_range sz s ` dom M) s" "X \<inter> slot_range sz s ` dom M = {}"
    "inj_on (slot_range sz s) (dom M)"
    "i < ZRAM_MAX_PAGES \<Longrightarrow> slot_used (pool s ! i) \<longleftrightarrow> i \<in> dom M"
    "i \<in> dom M \<Longrightarrow> slot_holds (the (M i)) (sz i) s (pool s ! i)"
    "zram_stats_ok (dom M) (pool s) (zstats s)"
  using assms unfolding zram_inv_def by blast+

lemma slot_holds_mem:
  assumes "slot_holds page n s sl" "\<And>x. slot_data sl \<le> x \<Longrightarrow> x < slot_data sl + n \<Longrightarrow> heap_mem s' x = heap_mem s x"
    "slot_data sl + n < two64"
  shows "slot_holds page n s' sl"
proof -
  obtain res where res: "zram_compress_page page 4096 = (int (length res), res)" "0 < length res" "length res < 4032"
    "unat (compressed_len sl) = length res" "length res \<le> n" "load_bytes (slot_data sl) (length res) s = res"
    "length page = ZRAM_PAGE_SIZE"
    using assms(1) unfolding slot_holds_def by blast
  have "load_bytes (slot_data sl) (length res) s' = load_bytes (slot_data sl) (length res) s"
    using assms(2,3) res(5) by (intro load_bytes_cong) simp_all
  with res show ?thesis unfolding slot_holds_def by auto
qed

text \<open>A step that keeps the pool and every byte of the payloads of the slots keeps the invariant.\<close>

lemma zram_inv_heap_step:
  assumes inv: "zram_inv M X sz s" and p: "pool s' = pool s" "zstats s' = zstats s"
    and ok: "heap_ok (X' \<union> slot_range sz s ` dom M) s'" "X' \<inter> slot_range sz s ` dom M = {}"
    and mem: "\<And>i x. i \<in> dom M \<Longrightarrow> slot_data (pool s ! i) \<le> x \<Longrightarrow> x < slot_data (pool s ! i) + sz i \<Longrightarrow>
      heap_mem s' x = heap_mem s x"
  shows "zram_inv M X' sz s'"
proof -
  note I = zram_invD[OF inv]
  have r: "slot_range sz s' = slot_range sz s" by (rule ext) (simp add: slot_range_def p)
  have "slot_holds (the (M i)) (sz i) s' (pool s ! i)" if "i \<in> dom M" for i
  proof (rule slot_holds_mem[OF I(7)[OF that] mem[OF that]])
    have "(slot_data (pool s ! i), sz i) \<in> X \<union> slot_range sz s ` dom M"
      using that unfolding slot_range_def by blast
    then show "slot_data (pool s ! i) + sz i < two64" using heap.held_nonnull[OF I(3)] by blast
  qed
  then show ?thesis
    using I(1,2,5,6,8) ok unfolding zram_inv_def r p by blast
qed

section \<open>The operations keep the invariant\<close>

lemma unat_ucast_u32: "unat (ucast (x :: u16) :: u32) = unat x"
proof -
  have "unat x < 2 ^ 16" using unsigned_less[of x] by simp
  then show ?thesis by (simp add: unsigned_ucast_eq take_bit_nat_eq_self)
qed

lemma unat_add_u32: "unat x + unat y < 2 ^ 32 \<Longrightarrow> unat (x + y :: u32) = unat x + unat y"
  using unat_add_lem[of x y] by simp

lemma unat_sub_u32: "unat y \<le> unat x \<Longrightarrow> unat (x - y :: u32) = unat x - unat y"
  by (simp add: unat_sub word_le_nat_alt)

lemma zram_inv_lens:
  assumes "zram_inv M X sz s"
  shows "card (dom M) \<le> ZRAM_MAX_PAGES" "i \<in> dom M \<Longrightarrow> unat (compressed_len (pool s ! i)) < 4032"
    "i \<in> dom M \<Longrightarrow> 0 < unat (compressed_len (pool s ! i))" "finite (dom M)"
    "(\<Sum>i\<in>dom M. unat (compressed_len (pool s ! i))) \<le> card (dom M) * 4032"
proof -
  note I = zram_invD[OF assms]
  show fin: "finite (dom M)" using I(2) finite_subset by blast
  show "card (dom M) \<le> ZRAM_MAX_PAGES" using card_mono[OF _ I(2)] by simp
  show l: "unat (compressed_len (pool s ! i)) < 4032" if "i \<in> dom M" for i
    using I(7)[OF that] unfolding slot_holds_def by auto
  show "i \<in> dom M \<Longrightarrow> 0 < unat (compressed_len (pool s ! i))"
    using I(7)[of i] unfolding slot_holds_def by auto
  have "unat (compressed_len (pool s ! i)) \<le> 4032" if "i \<in> dom M" for i
    using l[OF that] by simp
  from sum_bounded_above[of "dom M", OF this]
  show "(\<Sum>i\<in>dom M. unat (compressed_len (pool s ! i))) \<le> card (dom M) * 4032" by simp
qed

lemma zram_stats_store:
  fixes t :: u32
  assumes st: "zram_stats_ok D p st" and i: "i \<notin> D" "finite D" "i < length p" "card D < ZRAM_MAX_PAGES"
    and sum: "(\<Sum>i\<in>D. unat (compressed_len (p ! i))) \<le> card D * 4032"
    and n: "0 < n" "n < 4032"
    and sl: "unat (compressed_len sl) = n"
  defines "st1 \<equiv> st\<lparr>pages_stored := pages_stored st + 1, original_bytes := original_bytes st + 4096,
      compressed_bytes := compressed_bytes st + of_nat n, total_compressions := t\<rparr>"
  shows "compressed_bytes st1 > 0"
    "zram_stats_ok (insert i D) (p[i := sl]) (st1\<lparr>compression_ratio_x100 := zram_ratio st1\<rparr>)"
proof -
  have S: "unat (pages_stored st) = card D" "unat (original_bytes st) = card D * 4096"
    "unat (compressed_bytes st) = (\<Sum>i\<in>D. unat (compressed_len (p ! i)))"
    using st by (simp_all add: zram_stats_ok_def)
  have un: "unat (of_nat n :: u32) = n" using n(2) by (simp add: unsigned_of_nat take_bit_nat_eq_self)
  have "unat (pages_stored st + 1) = card D + 1"
    using S(1) i(4) by (subst unat_add_u32) simp_all
  moreover have "unat (original_bytes st + 4096) = card D * 4096 + 4096"
    using S(2) i(4) by (subst unat_add_u32) simp_all
  moreover have c: "unat (compressed_bytes st + of_nat n) = (\<Sum>i\<in>D. unat (compressed_len (p ! i))) + n"
    using S(3) sum i(4) n(2) by (subst unat_add_u32) (simp_all add: un)
  moreover have "(\<Sum>j\<in>insert i D. unat (compressed_len (p[i := sl] ! j))) = (\<Sum>i\<in>D. unat (compressed_len (p ! i))) + n"
  proof -
    have "(\<Sum>j\<in>D. unat (compressed_len (p[i := sl] ! j))) = (\<Sum>j\<in>D. unat (compressed_len (p ! j)))"
      using i(1) by (intro sum.cong refl) (metis nth_list_update_neq)
    then show ?thesis using i sl by simp
  qed
  moreover have "compressed_bytes st1 \<noteq> 0"
  proof
    assume "compressed_bytes st1 = 0"
    then have "unat (compressed_bytes st + of_nat n) = 0" by (simp add: st1_def)
    with c n(1) show False by simp
  qed
  ultimately show "compressed_bytes st1 > 0"
    "zram_stats_ok (insert i D) (p[i := sl]) (st1\<lparr>compression_ratio_x100 := zram_ratio st1\<rparr>)"
    using i(1,2) by (simp_all add: zram_stats_ok_def st1_def zram_ratio_def word_neq_0_conv)
qed

text \<open>A payload that is added to the held ones touches no byte of the slots in use.\<close>

lemma slot_bytes_apart:
  assumes "heap_ok (insert (p, m) (X \<union> slot_range sz s ` D)) t" and "(p, m) \<notin> slot_range sz s ` D" and "j \<in> D"
  shows "slot_data (pool s ! j) + sz j < two64"
    "slot_data (pool s ! j) \<le> x \<Longrightarrow> x < slot_data (pool s ! j) + sz j \<Longrightarrow> x \<notin> {p..<p + m}"
proof -
  let ?r = "(slot_data (pool s ! j), sz j)"
  have "?r \<in> slot_range sz s ` D" using assms(3) unfolding slot_range_def by blast
  then have L: "?r \<in> insert (p, m) (X \<union> slot_range sz s ` D)" "?r \<noteq> (p, m)" using assms(2) by (blast, metis)
  show "slot_data (pool s ! j) + sz j < two64" using heap.held_nonnull[OF assms(1) L(1)] by blast
  show "x \<notin> {p..<p + m}" if "slot_data (pool s ! j) \<le> x" "x < slot_data (pool s ! j) + sz j"
    using heap.held_disjoint[OF assms(1) L(1) insertI1 L(2)] that by auto
qed

text \<open>Filling a free slot with a page, and clearing one.\<close>

lemma zram_inv_fill:
  assumes inv: "zram_inv M X sz s" and i: "i < ZRAM_MAX_PAGES" "i \<notin> dom M"
    and ok: "heap_ok (insert (p, m) (X \<union> slot_range sz s ` dom M)) t"
    and fresh: "(p, m) \<notin> X \<union> slot_range sz s ` dom M"
    and mem: "\<And>x. x \<notin> {p..<p + m} \<Longrightarrow> heap_mem t x = heap_mem s x"
    and sl: "slot_data sl = p" "slot_used sl" "slot_holds page m t sl"
    and st: "zram_stats_ok (insert i (dom M)) ((pool s)[i := sl]) st"
  shows "zram_inv (M(i \<mapsto> page)) X (sz(i := m)) (t\<lparr>pool := (pool s)[i := sl], zstats := st\<rparr>)"
proof -
  note I = zram_invD[OF inv]
  let ?t = "t\<lparr>pool := (pool s)[i := sl], zstats := st\<rparr>" and ?sz = "sz(i := m)"
  have len: "i < length (pool s)" using i(1) I(1) by simp
  have sr: "slot_range ?sz ?t j = (if j = i then (p, m) else slot_range sz s j)" for j
    using len sl(1) by (simp add: slot_range_def)
  have img0: "slot_range ?sz ?t ` dom M = slot_range sz s ` dom M" using i(2) by (intro image_cong refl) (metis sr)
  then have img: "slot_range ?sz ?t ` insert i (dom M) = insert (p, m) (slot_range sz s ` dom M)" by (simp only: image_insert sr[of i] refl if_True)
  have inj: "inj_on (slot_range ?sz ?t) (insert i (dom M))"
  proof -
    have "inj_on (slot_range ?sz ?t) (dom M)" using I(5) i(2) by (subst inj_on_cong[of _ _ "slot_range sz s"]) (metis sr)+
    moreover have "slot_range ?sz ?t i \<notin> slot_range ?sz ?t ` dom M" using fresh unfolding img0 sr[of i] by simp
    moreover have "dom M - {i} = dom M" using i(2) by blast
    ultimately show ?thesis by (simp add: inj_on_insert)
  qed
  have holds: "slot_holds (the ((M(i \<mapsto> page)) j)) (?sz j) ?t ((pool s)[i := sl] ! j)" if "j \<in> insert i (dom M)" for j
  proof (cases "j = i")
    case True
    then show ?thesis using sl(3) len by (simp add: slot_holds_def load_bytes_def)
  next
    case False
    with that have j: "j \<in> dom M" by simp
    have f: "(p, m) \<notin> slot_range sz s ` dom M" using fresh by blast
    note a = slot_bytes_apart[OF ok f j]
    have "slot_holds (the (M j)) (sz j) ?t (pool s ! j)"
      by (rule slot_holds_mem[OF I(7)[OF j] _ a(1)]) (simp add: mem[OF a(2)])
    then show ?thesis using False by simp
  qed
  have d: "dom (M(i \<mapsto> page)) = insert i (dom M)" by simp
  show ?thesis
    unfolding zram_inv_def d img
  proof (intro conjI)
    show "heap_ok (X \<union> insert (p, m) (slot_range sz s ` dom M)) ?t" using ok by simp
    show "X \<inter> insert (p, m) (slot_range sz s ` dom M) = {}" using I(4) fresh by blast
    show "\<forall>j < ZRAM_MAX_PAGES. slot_used (pool ?t ! j) = (j \<in> insert i (dom M))" using I(6) len sl(2) by (simp add: nth_list_update)
    show "\<forall>j \<in> insert i (dom M). slot_holds (the ((M(i \<mapsto> page)) j)) (?sz j) ?t (pool ?t ! j)" using holds by simp
  qed (use I(1,2) i(1) st inj in simp_all)
qed

text \<open>What \<open>zram_store\<close> does once it has a slot and the compressed page.\<close>

definition stored_stats :: "nat \<Rightarrow> zram_stats \<Rightarrow> zram_stats" where
  "stored_stats n st = st\<lparr>pages_stored := pages_stored st + 1, original_bytes := original_bytes st + 4096,
     compressed_bytes := compressed_bytes st + of_nat n, total_compressions := total_compressions st + 1\<rparr>"

lemma zram_store_eq:
  assumes "first_from (\<lambda>i. \<not> slot_used (pool s ! i)) 0 ZRAM_MAX_PAGES = Some i"
    and "zram_compress_page page 4096 = (int (length res), res)" and "0 < length res" and "length res < 4032"
  shows "zram_store (Some page) True s =
    map_option (\<lambda>(p, s1).
        if p = NULL then (-4, None, s1)
        else
          (let s2 = store_bytes p res s1; st = stored_stats (length res) (zstats s2);
               st = (if compressed_bytes st > 0 then st\<lparr>compression_ratio_x100 := zram_ratio st\<rparr> else st)
           in (0, Some (of_nat i), s2\<lparr>pool := (pool s2)[i := \<lparr>slot_data = p, compressed_len = of_nat (length res), slot_used = True\<rparr>],
               zstats := st\<rparr>)))
      (kmalloc (length res) s)"
  using assms by (cases "kmalloc (length res) s") (simp_all add: zram_store_def stored_stats_def Let_def split_beta cong: if_cong)

lemma zram_store_new:
  assumes inv: "zram_inv M X sz s" and page: "length page = ZRAM_PAGE_SIZE"
    and i: "i < ZRAM_MAX_PAGES" "i \<notin> dom M"
    and c: "zram_compress_page page 4096 = (int (length res), res)" "0 < length res" "length res < 4032" "length res \<le> m"
    and ok: "heap_ok (insert (p, m) (X \<union> slot_range sz s ` dom M)) t" "(p, m) \<notin> X \<union> slot_range sz s ` dom M"
    and t: "heap_mem t = heap_mem s" "heap_state.more t = heap_state.more s"
  defines "st \<equiv> stored_stats (length res) (zstats s)"
    and "sl \<equiv> \<lparr>slot_data = p, compressed_len = of_nat (length res), slot_used = True\<rparr>"
  shows "compressed_bytes st > 0" "pool (store_bytes p res t) = pool s" "zstats (store_bytes p res t) = zstats s"
    "zram_inv (M(i \<mapsto> page)) X (sz(i := m))
       ((store_bytes p res t)\<lparr>pool := (pool s)[i := sl], zstats := st\<lparr>compression_ratio_x100 := zram_ratio st\<rparr>\<rparr>)"
proof -
  note I = zram_invD[OF inv] and Ln = zram_inv_lens[OF inv]
  note W = store_bytes_held[OF ok(1) insertI1 c(4)]
  show "pool (store_bytes p res t) = pool s" "zstats (store_bytes p res t) = zstats s"
    using zram_more[OF W(2)] zram_more[OF t(2)] by simp_all
  have un: "unat (compressed_len sl) = length res" using c(3) by (simp add: sl_def unsigned_of_nat take_bit_nat_eq_self)
  have "dom M \<subset> {..<ZRAM_MAX_PAGES}" using I(2) i by blast
  then have lt: "card (dom M) < ZRAM_MAX_PAGES" using psubset_card_mono[of "{..<ZRAM_MAX_PAGES}" "dom M"] by simp
  have "i < length (pool s)" using i(1) I(1) by simp
  note ST = zram_stats_store[OF I(8) i(2) Ln(4) this lt Ln(5) c(2,3) un, of "total_compressions (zstats s) + 1", folded stored_stats_def st_def]
  show "compressed_bytes st > 0" by (rule ST(1))
  have "p + m < two64" using heap.held_nonnull[OF ok(1) insertI1] by blast
  then have "load_bytes p (length res) (store_bytes p res t) = res" using W(3) c(4) by (intro load_bytes_store) simp_all
  then have holds: "slot_holds page m (store_bytes p res t) sl"
    using page c un unfolding slot_holds_def by (auto simp: sl_def)
  show "zram_inv (M(i \<mapsto> page)) X (sz(i := m))
       ((store_bytes p res t)\<lparr>pool := (pool s)[i := sl], zstats := st\<lparr>compression_ratio_x100 := zram_ratio st\<rparr>\<rparr>)"
    using c(4) by (intro zram_inv_fill[OF inv i W(1) ok(2) _ _ _ holds ST(2)]) (auto simp: W(3) t(1) sl_def)
qed

lemma zram_store_cases [consumes 2, case_names Full Incompressible NoMemory Stored]:
  assumes inv: "zram_inv M X sz s" and page: "length page = ZRAM_PAGE_SIZE"
  obtains "zram_store (Some page) True s = Some (-2, None, s)" "dom M = {..<ZRAM_MAX_PAGES}"
    | "zram_store (Some page) True s = Some (-3, None, s)"
        "fst (zram_compress_page page 4096) \<le> 0 \<or> 4032 \<le> fst (zram_compress_page page 4096)"
    | "zram_store (Some page) True s = Some (-4, None, s)"
        "kmalloc (nat (fst (zram_compress_page page 4096))) s = Some (NULL, s)"
    | i n s' where "zram_store (Some page) True s = Some (0, Some (of_nat i), s')" "i < ZRAM_MAX_PAGES" "i \<notin> dom M"
        "zram_inv (M(i \<mapsto> page)) X (sz(i := n)) s'" "{..<i} \<subseteq> dom M"
proof -
  note I = zram_invD[OF inv]
  have free: "(\<not> slot_used (pool s ! i)) = (i \<notin> dom M)" if "i < ZRAM_MAX_PAGES" for i
    using I(6)[OF that] by simp
  obtain r res where c: "zram_compress_page page 4096 = (r, res)" by fastforce
  consider (full) "first_from (\<lambda>i. \<not> slot_used (pool s ! i)) 0 ZRAM_MAX_PAGES = None"
    | (large) i where "first_from (\<lambda>i. \<not> slot_used (pool s ! i)) 0 ZRAM_MAX_PAGES = Some i" "r \<le> 0 \<or> 4032 \<le> r"
    | (fits) i where "first_from (\<lambda>i. \<not> slot_used (pool s ! i)) 0 ZRAM_MAX_PAGES = Some i" "0 < r" "r < 4032"
    by (cases "first_from (\<lambda>i. \<not> slot_used (pool s ! i)) 0 ZRAM_MAX_PAGES"; force)
  then show thesis
  proof cases
    case full
    then have "\<forall>i < ZRAM_MAX_PAGES. i \<in> dom M" using free by (simp add: first_from_None)
    then have "dom M = {..<ZRAM_MAX_PAGES}" using I(2) by blast
    then show thesis using full by (intro that(1)) (simp_all add: zram_store_def)
  next
    case (large i)
    then have "zram_store (Some page) True s = Some (-3, None, s)" using c by (auto simp: zram_store_def)
    then show thesis using large(2) c that(2) by simp
  next
    case (fits i)
    then have "i < ZRAM_MAX_PAGES" "\<not> slot_used (pool s ! i)" by (simp_all add: first_from_Some)
    then have i: "i < ZRAM_MAX_PAGES" "i \<notin> dom M" using free by blast+
    have low: "{..<i} \<subseteq> dom M" using fits(1) free by (force simp: first_from_Some)
    have r: "r = int (length res)" using codec.compress_length[OF page c] fits(2) by simp
    then have n: "0 < length res" "length res < two64 - 4160" "length res < 4032" using fits(2,3) by simp_all
    note c = c[unfolded r] and eq = zram_store_eq[OF fits(1) c[unfolded r] n(1,3)]
    from I(3) n(1,2) show thesis
    proof (cases rule: heap.alloc_cases)
      case 1
      then show thesis using eq c by (intro that(3)) simp_all
    next
      case (2 p m t)
      have "(p, m) \<notin> X \<union> slot_range sz s ` dom M" using 2(5) by blast
      note f = this
      have "heap_state.more t = heap_state.more s" using 2(7) by simp
      note new = zram_store_new[OF inv page i c n(1,3) 2(3,4) f 2(6) this]
      show thesis using eq 2(1,2) new by (intro that(4)[OF _ i new(4) low]) (simp add: Let_def)
    qed
  qed
qed

lemma unat_slot: "i < ZRAM_MAX_PAGES \<Longrightarrow> unat (of_nat i :: u32) = i"
  by (simp add: unsigned_of_nat take_bit_nat_eq_self)

lemma zram_load_held:
  assumes inv: "zram_inv M X sz s" and i: "unat h \<in> dom M" "M (unat h) = Some page"
  defines "d \<equiv> (let res = snd (zram_compress_page page 4096) in zram_decompress_page res (length res))"
  obtains s' where "zram_load h True s = (fst d, snd d, s')" "zram_inv M X sz s'"
proof -
  note I = zram_invD[OF inv]
  have b: "unat h < ZRAM_MAX_PAGES" using I(2) i(1) by blast
  obtain res where res: "zram_compress_page page 4096 = (int (length res), res)"
    "unat (compressed_len (pool s ! unat h)) = length res"
    "load_bytes (slot_data (pool s ! unat h)) (length res) s = res"
    using I(7)[OF i(1)] i(2) unfolding slot_holds_def by auto
  have d: "zram_decompress_page res (length res) = d" by (simp add: d_def res(1))
  have u: "slot_used (pool s ! unat h)" using I(6)[OF b] i(1) by simp
  let ?t = "s\<lparr>zstats := (zstats s)\<lparr>total_decompressions := total_decompressions (zstats s) + 1\<rparr>\<rparr>"
  let ?s = "if fst d = 0 then ?t else s"
  have "zram_load h True s = (fst d, snd d, ?s)"
    using b u d by (simp add: zram_load_def Let_def res(2,3) split: prod.split)
  moreover have "zram_inv M X sz ?t"
  proof -
    have r: "slot_range sz ?t = slot_range sz s" by (rule ext) (simp add: slot_range_def)
    have "zram_stats_ok (dom M) (pool ?t) (zstats ?t)"
      using I(8) by (simp add: zram_stats_ok_def zram_ratio_def)
    moreover have "slot_holds p n ?t sl = slot_holds p n s sl" for p n sl
      by (simp add: slot_holds_def load_bytes_def)
    ultimately show ?thesis using I(1-7) unfolding zram_inv_def r by simp
  qed
  ultimately show thesis using inv by (intro that[of ?s]) simp_all
qed

lemma zram_invalid_handle:
  assumes inv: "zram_inv M X sz s" and h: "unat h \<notin> dom M"
  shows "zram_load h d s = (-1, [], s)" "zram_free h s = Some (-1, s)"
  using zram_invD(6)[OF inv, of "unat h"] h
  by (auto simp: zram_load_def zram_free_def Let_def not_less[symmetric])

lemma zram_stats_free:
  assumes st: "zram_stats_ok D p st" and i: "i \<in> D" "finite D" "i < length p" "card D \<le> ZRAM_MAX_PAGES"
    and sl: "compressed_len sl = 0"
  defines "st1 \<equiv> st\<lparr>pages_stored := pages_stored st - 1, original_bytes := original_bytes st - 4096,
      compressed_bytes := compressed_bytes st - ucast (compressed_len (p ! i))\<rparr>"
  shows "zram_stats_ok (D - {i}) (p[i := sl]) (if compressed_bytes st1 > 0
    then st1\<lparr>compression_ratio_x100 := zram_ratio st1\<rparr> else st1\<lparr>compression_ratio_x100 := 100\<rparr>)"
proof -
  have S: "unat (pages_stored st) = card D" "unat (original_bytes st) = card D * 4096"
    "unat (compressed_bytes st) = (\<Sum>i\<in>D. unat (compressed_len (p ! i)))"
    using st by (simp_all add: zram_stats_ok_def)
  have c: "0 < card D" using i(1,2) by (auto simp: card_gt_0_iff)
  have sum: "(\<Sum>i\<in>D. unat (compressed_len (p ! i))) =
      unat (compressed_len (p ! i)) + (\<Sum>i\<in>D - {i}. unat (compressed_len (p ! i)))"
    using i(1,2) by (simp add: sum.remove)
  have "unat (pages_stored st - 1) = card (D - {i})"
    using S(1) c i(1,2) by (subst unat_sub_u32) simp_all
  moreover have "unat (original_bytes st - 4096) = card (D - {i}) * 4096"
    using S(2) c i(1,2) by (subst unat_sub_u32) (simp_all add: diff_mult_distrib)
  moreover have "unat (compressed_bytes st - ucast (compressed_len (p ! i))) =
      (\<Sum>j\<in>D - {i}. unat (compressed_len (p[i := sl] ! j)))"
  proof -
    have "(\<Sum>j\<in>D - {i}. unat (compressed_len (p[i := sl] ! j))) = (\<Sum>j\<in>D - {i}. unat (compressed_len (p ! j)))"
      by (intro sum.cong refl) simp
    then show ?thesis using S(3) sum by (subst unat_sub_u32) (simp_all add: unat_ucast_u32)
  qed
  moreover define c where "c = compressed_bytes st - ucast (compressed_len (p ! i))"
  ultimately show ?thesis
    unfolding st1_def zram_stats_ok_def c_def[symmetric]
    by (cases "c = 0") (simp_all add: zram_ratio_def word_neq_0_conv)
qed

lemma zram_inv_clear:
  assumes inv: "zram_inv M X sz s" and i: "i \<in> dom M"
    and ok: "heap_ok (X \<union> slot_range sz s ` dom M - {slot_range sz s i}) t" and mem: "heap_mem t = heap_mem s"
    and sl: "\<not> slot_used sl" and st: "zram_stats_ok (dom M - {i}) ((pool s)[i := sl]) st"
  shows "zram_inv (M(i := None)) X sz (t\<lparr>pool := (pool s)[i := sl], zstats := st\<rparr>)"
proof -
  note I = zram_invD[OF inv]
  let ?t = "t\<lparr>pool := (pool s)[i := sl], zstats := st\<rparr>"
  have len: "i < length (pool s)" using i I(1,2) by auto
  have sr: "slot_range sz ?t j = slot_range sz s j" if "j \<noteq> i" for j using that by (simp add: slot_range_def)
  have "slot_range sz ?t ` (dom M - {i}) = slot_range sz s ` (dom M - {i})" using sr by (intro image_cong refl) blast
  also have "\<dots> = slot_range sz s ` dom M - slot_range sz s ` {i}"
    using I(5) i by (intro inj_on_image_set_diff[of _ "dom M"]) auto
  finally have img: "slot_range sz ?t ` (dom M - {i}) = slot_range sz s ` dom M - {slot_range sz s i}" by simp
  have nX: "slot_range sz s i \<notin> X" using I(4) i by blast
  have d: "dom (M(i := None)) = dom M - {i}" by simp
  show ?thesis
    unfolding zram_inv_def d img
  proof (intro conjI)
    have "X \<union> (slot_range sz s ` dom M - {slot_range sz s i}) = X \<union> slot_range sz s ` dom M - {slot_range sz s i}" using nX by blast
    then show "heap_ok (X \<union> (slot_range sz s ` dom M - {slot_range sz s i})) ?t" using ok by simp
    show "X \<inter> (slot_range sz s ` dom M - {slot_range sz s i}) = {}" using I(4) by blast
    have "inj_on (slot_range sz s) (dom M - {i})" using I(5) by (rule inj_on_subset) blast
    then show "inj_on (slot_range sz ?t) (dom M - {i})" by (subst inj_on_cong[of _ _ "slot_range sz s"]) (auto simp: sr)
    show "\<forall>j < ZRAM_MAX_PAGES. slot_used (pool ?t ! j) = (j \<in> dom M - {i})" using I(6) len sl by (auto simp: nth_list_update)
    show "\<forall>j \<in> dom M - {i}. slot_holds (the ((M(i := None)) j)) (sz j) ?t (pool ?t ! j)"
      using I(7) mem by (auto simp: slot_holds_def load_bytes_def)
  qed (use I(1,2) st in auto)
qed

lemma zram_free_held:
  assumes inv: "zram_inv M X sz s" and i: "unat h \<in> dom M"
  obtains s' where "zram_free h s = Some (0, s')" "zram_inv (M(unat h := None)) X sz s'"
    "heap_mem s' = heap_mem s"
proof -
  note I = zram_invD[OF inv] and Ln = zram_inv_lens[OF inv]
  let ?sl = "pool s ! unat h" and ?L = "X \<union> slot_range sz s ` dom M"
  have b: "unat h < ZRAM_MAX_PAGES" using I(2) i by blast
  have u: "slot_used ?sl" using I(6)[OF b] i by simp
  let ?st1 = "(zstats s)\<lparr>pages_stored := pages_stored (zstats s) - 1, original_bytes := original_bytes (zstats s) - 4096,
      compressed_bytes := compressed_bytes (zstats s) - ucast (compressed_len ?sl)\<rparr>"
  let ?st2 = "if compressed_bytes ?st1 > 0 then ?st1\<lparr>compression_ratio_x100 := zram_ratio ?st1\<rparr>
      else ?st1\<lparr>compression_ratio_x100 := 100\<rparr>"
  let ?t = "s\<lparr>zstats := ?st2\<rparr>" and ?nsl = "\<lparr>slot_data = NULL, compressed_len = 0, slot_used = False\<rparr>"
  have r: "slot_range sz s (unat h) = (slot_data ?sl, sz (unat h))" by (simp add: slot_range_def)
  then have inL: "(slot_data ?sl, sz (unat h)) \<in> ?L" using i by (metis UnCI imageI)
  have okt: "heap_ok ?L ?t" using I(3) by simp
  obtain s1 where s1: "kfree (slot_data ?sl) ?t = Some s1" "heap_ok (?L - {slot_range sz s (unat h)}) s1"
    "heap_mem s1 = heap_mem s" "heap_state.more s1 = heap_state.more ?t"
    using heap.release_held[OF okt inL] unfolding r by auto
  have p1: "pool s1 = pool s" "zstats s1 = ?st2" using zram_more[OF s1(4)] by simp_all
  have "unat h < length (pool s)" using b I(1) by simp
  then have st: "zram_stats_ok (dom M - {unat h}) ((pool s)[unat h := ?nsl]) ?st2"
    using i Ln(4,1) by (intro zram_stats_free[OF I(8)]) simp_all
  have "\<not> slot_used ?nsl" by simp
  from zram_inv_clear[OF inv i s1(2,3) this st] have "zram_inv (M(unat h := None)) X sz (s1\<lparr>pool := (pool s)[unat h := ?nsl]\<rparr>)"
    unfolding p1(2)[symmetric] by simp
  moreover have "zram_free h s = Some (0, s1\<lparr>pool := (pool s)[unat h := ?nsl]\<rparr>)"
    using b u s1(1) by (simp add: zram_free_def Let_def p1(1))
  ultimately show thesis using s1(3) by (intro that[of "s1\<lparr>pool := (pool s)[unat h := ?nsl]\<rparr>"]) simp_all
qed

section \<open>Clients of the pool and of the heap\<close>

text \<open>
  The states while pages are stored, loaded and freed, and other parts of the kernel use the
  heap in between. \<open>M\<close>: what was stored in each slot in use; \<open>X\<close>: the payloads held by others.
\<close>

inductive zram_reach :: "(nat \<Rightarrow> u8 list option) \<Rightarrow> (addr \<times> size_t) set \<Rightarrow> 'a zram_state_scheme \<Rightarrow> bool" where
  init: "heap_reach X s \<Longrightarrow> zram_reach (\<lambda>_. None) X (snd (zram_init s))"
| store: "zram_reach M X s \<Longrightarrow> length page = ZRAM_PAGE_SIZE \<Longrightarrow>
    zram_store (Some page) True s = Some (ret, h, s') \<Longrightarrow>
    zram_reach (case h of None \<Rightarrow> M | Some i \<Rightarrow> M(unat i \<mapsto> page)) X s'"
| load: "zram_reach M X s \<Longrightarrow> zram_load h True s = (ret, page, s') \<Longrightarrow> zram_reach M X s'"
| free: "zram_reach M X s \<Longrightarrow> zram_free h s = Some (ret, s') \<Longrightarrow> zram_reach (M(unat h := None)) X s'"
| heap_alloc: "zram_reach M X s \<Longrightarrow> 0 < n \<Longrightarrow> n + 4160 < two64 \<Longrightarrow> kmalloc n s = Some (p, s') \<Longrightarrow>
    zram_reach M (if p = NULL then X else insert (p, payload_size s' p) X) s'"
| heap_free: "zram_reach M X s \<Longrightarrow> (p, n) \<in> X \<Longrightarrow> kfree p s = Some s' \<Longrightarrow> zram_reach M (X - {(p, n)}) s'"
| heap_store: "zram_reach M X s \<Longrightarrow> (p, n) \<in> X \<Longrightarrow> p \<le> x \<Longrightarrow> x < p + n \<Longrightarrow> zram_reach M X (client_write x v s)"
| others: "zram_reach M X s \<Longrightarrow> \<forall>p. \<not> frees c p \<Longrightarrow> zram_reach M X (pmm_step c s)"

lemma pmm_step_more: "heap_state.more (pmm_step c s) = heap_state.more s"
  by (cases c; auto simp: pmm_mark_used_def pmm_mark_free_def pmm_free_frame_def Let_def take_frame_def
      pmm_alloc_contiguous_def pmm_alloc_frame_def split: option.split)

text \<open>What others do with the heap keeps the pool.\<close>

lemma zram_inv_kmalloc:
  assumes inv: "zram_inv M X sz s" and "0 < n" and "n + 4160 < two64" and "kmalloc n s = Some (p, t)"
  shows "zram_inv M (if p = NULL then X else insert (p, payload_size t p) X) sz t"
proof -
  note I = zram_invD[OF inv]
  have "n < two64 - 4160" using assms(3) by simp
  from I(3) assms(2) this show ?thesis
  proof (cases rule: heap.alloc_cases)
    case 1
    then show ?thesis using assms(4) inv by simp
  next
    case (2 q m u)
    have t: "p = q" "t = u" using 2(1) assms(4) by simp_all
    have "zram_inv M (insert (q, m) X) sz u"
    proof (rule zram_inv_heap_step[OF inv])
      show "pool u = pool s" "zstats u = zstats s" using zram_more 2(7) by blast+
      show "heap_ok (insert (q, m) X \<union> slot_range sz s ` dom M) u" using 2(4) by simp
      show "insert (q, m) X \<inter> slot_range sz s ` dom M = {}" using I(4) 2(5) by blast
    qed (simp add: 2(6))
    then show ?thesis using heap_ok_payload[OF 2(4)] 2(2) t by simp
  qed
qed

lemma zram_inv_kfree:
  assumes inv: "zram_inv M X sz s" and "(p, n) \<in> X" and "kfree p s = Some t"
  shows "zram_inv M (X - {(p, n)}) sz t"
proof -
  note I = zram_invD[OF inv]
  have "(p, n) \<in> X \<union> slot_range sz s ` dom M" using assms(2) by blast
  from heap.release_held[OF I(3) this] assms(3)
  have r: "heap_ok (X \<union> slot_range sz s ` dom M - {(p, n)}) t" "heap_mem t = heap_mem s"
    "heap_state.more t = heap_state.more s" by auto
  have "X \<union> slot_range sz s ` dom M - {(p, n)} = X - {(p, n)} \<union> slot_range sz s ` dom M"
    using I(4) assms(2) by blast
  with r I(4) show ?thesis by (intro zram_inv_heap_step[OF inv zram_more[OF r(3)]]) auto
qed

lemma zram_inv_client_write:
  assumes inv: "zram_inv M X sz s" and pn: "(p, n) \<in> X" "p \<le> x" "x < p + n"
  shows "zram_inv M X sz (client_write x v s)"
proof (rule zram_inv_heap_step[OF inv zram_more])
  note I = zram_invD[OF inv]
  let ?L = "X \<union> slot_range sz s ` dom M"
  have L: "(p, n) \<in> ?L" using pn(1) by blast
  then have ins: "heap_ok (insert (p, n) ?L) s" using I(3) by (simp add: insert_absorb)
  show "heap_ok ?L (client_write x v s)" using I(3) L pn(2,3) by (rule heap_ok_client_write)
  have f: "(p, n) \<notin> slot_range sz s ` dom M" using I(4) pn(1) by blast
  fix i y assume "i \<in> dom M" "slot_data (pool s ! i) \<le> y" "y < slot_data (pool s ! i) + sz i"
  from slot_bytes_apart(2)[OF ins f this] have "y \<noteq> x" using pn(2,3) by auto
  then show "heap_mem (client_write x v s) y = heap_mem s y" by (simp add: client_write_more)
qed (use zram_invD(4)[OF inv] in \<open>simp_all add: client_write_more\<close>)

text \<open>The operations of the pool.\<close>

lemma zram_inv_store:
  assumes inv: "zram_inv M X sz s" and "length page = ZRAM_PAGE_SIZE" and "zram_store (Some page) True s = Some (ret, h, t)"
  shows "\<exists>sz. zram_inv (case h of None \<Rightarrow> M | Some i \<Rightarrow> M(unat i \<mapsto> page)) X sz t"
  using inv assms(2)
proof (cases rule: zram_store_cases)
  case (Stored i n u)
  then have t: "t = u" "h = Some (of_nat i)" using assms(3) by simp_all
  have "(case h of None \<Rightarrow> M | Some i \<Rightarrow> M(unat i \<mapsto> page)) = M(i \<mapsto> page)"
    by (simp only: t(2) option.case unat_slot[OF Stored(2)])
  then show ?thesis unfolding t(1) using Stored(4) by (metis (full_types))
qed (use inv assms(3) in auto)

lemma zram_inv_load:
  assumes inv: "zram_inv M X sz s" and "zram_load h True s = (ret, page, t)"
  shows "\<exists>sz. zram_inv M X sz t"
proof (cases "unat h \<in> dom M")
  case True
  then obtain p where "M (unat h) = Some p" by blast
  with inv True show ?thesis by (rule zram_load_held) (use assms(2) in auto)
next
  case False
  then show ?thesis using zram_invalid_handle(1)[OF inv, of h True] inv assms(2) by auto
qed

lemma zram_inv_free:
  assumes inv: "zram_inv M X sz s" and "zram_free h s = Some (ret, t)"
  shows "zram_inv (M(unat h := None)) X sz t"
proof (cases "unat h \<in> dom M")
  case True
  obtain u where u: "zram_free h s = Some (0, u)" "zram_inv (M(unat h := None)) X sz u"
    using zram_free_held[OF inv True] .
  then show ?thesis using assms(2) by simp
next
  case False
  then have "M(unat h := None) = M" by auto
  moreover have "t = s" using zram_invalid_handle(2)[OF inv False] assms(2) by simp
  ultimately show ?thesis using inv by (simp only:)
qed

lemma zram_reach_inv: "zram_reach M X s \<Longrightarrow> \<exists>sz. zram_inv M X sz s"
proof (induction rule: zram_reach.induct)
  case (init X s)
  have "zram_inv (\<lambda>_. None) X (\<lambda>_. 0) (snd (zram_init s))"
    using heap_reach_ok[OF init] by (simp add: zram_inv_def zram_init_def zram_stats_ok_def)
  then show ?case by blast
next
  case (others M X s c)
  then obtain sz where inv: "zram_inv M X sz s" by blast
  note I = zram_invD[OF inv]
  have "zram_inv M X sz (pmm_step c s)"
    using I(3,4) others.hyps(2)
    by (intro zram_inv_heap_step[OF inv zram_more[OF pmm_step_more] _ I(4)] heap_ok_others)
       (simp_all add: pmm_step_heap_frame)
  then show ?case by blast
next
  case (store M X s page ret h s')
  then obtain sz where "zram_inv M X sz s" by blast
  from zram_inv_store[OF this store.hyps(2,3)] show ?case .
next
  case (load M X s h ret page s')
  then obtain sz where "zram_inv M X sz s" by blast
  from zram_inv_load[OF this load.hyps(2)] show ?case .
next
  case (free M X s h ret s')
  then obtain sz where "zram_inv M X sz s" by blast
  from zram_inv_free[OF this free.hyps(2)] show ?case by blast
next
  case (heap_alloc M X s n p s')
  then obtain sz where "zram_inv M X sz s" by blast
  from zram_inv_kmalloc[OF this heap_alloc.hyps(2-4)] show ?case by blast
next
  case (heap_free M X s p n s')
  then obtain sz where "zram_inv M X sz s" by blast
  from zram_inv_kfree[OF this heap_free.hyps(2,3)] show ?case by blast
next
  case (heap_store M X s p n x v)
  then obtain sz where "zram_inv M X sz s" by blast
  from zram_inv_client_write[OF this heap_store.hyps(2-4)] show ?case by blast
qed

section \<open>Properties\<close>

text \<open>The pool that the properties are exercised on: 100 frames, an empty heap and an empty pool.\<close>

definition zram_static :: zram_state where
  "zram_static = heap_state.extend heap_static \<lparr>pool = [],
     zstats = \<lparr>pages_stored = 0, original_bytes = 0, compressed_bytes = 0, compression_ratio_x100 = 0,
       total_compressions = 0, total_decompressions = 0\<rparr>\<rparr>"

definition zram_start :: zram_state where
  "zram_start = snd (zram_init (heap_init 0 (pmm_mark_used 0 (pmm_init 409600 0 zram_static))))"

lemma zram_start_reach: "zram_reach (\<lambda>_. None) {} zram_start" "pmm_used zram_start = {0}" "total_frames zram_start = 100"
proof -
  let ?s = "pmm_mark_used 0 (pmm_init 409600 0 zram_static)"
  have wf: "pmm_wf (pmm_init 409600 0 zram_static)" by (rule pmm_init_wf) simp
  have tot: "total_frames (pmm_init 409600 0 zram_static) = 100" by (simp add: pmm_init_def)
  have s: "pmm_wf ?s" "pmm_used ?s = {0}" "total_frames ?s = 100"
    using pmm_mark_used_abs[OF wf, of 0] tot by (simp_all add: pmm_init_used Collect_conv_if)
  have "heap_reach {} (heap_init 0 ?s)" by (rule heap_reach.init) (simp_all add: s)
  then show "zram_reach (\<lambda>_. None) {} zram_start" unfolding zram_start_def by (rule zram_reach.init)
  show "pmm_used zram_start = {0}" "total_frames zram_start = 100"
    using s by (simp_all add: zram_start_def zram_init_def heap_init_def pmm_used_def)
qed

lemma zram_start_store:
  obtains s where "zram_store (Some (replicate ZRAM_PAGE_SIZE 0)) True zram_start = Some (0, Some 0, s)"
    "zram_reach ((\<lambda>_. None)(0 \<mapsto> replicate ZRAM_PAGE_SIZE 0)) {} s"
proof -
  let ?p = "replicate ZRAM_PAGE_SIZE (0 :: u8)"
  obtain sz where inv: "zram_inv (\<lambda>_. None) {} sz zram_start" using zram_reach_inv[OF zram_start_reach(1)] by blast
  have ok: "heap_ok {} zram_start" using zram_invD(3)[OF inv] by simp
  have "grow_pages (align_up 34 8) = 1" by (simp add: grow_pages_def align_up_8)
  then have nr: "\<not> no_run (grow_pages (align_up 34 8)) zram_start"
    by (auto simp: no_run_def zram_start_reach intro!: exI[of _ 5])
  have "kmalloc 34 zram_start \<noteq> Some (NULL, zram_start)"
    by (rule heap_ok_kmalloc[OF ok, of 34]) (use nr in auto)
  then have k: "kmalloc (nat (fst (zram_compress_page ?p 4096))) zram_start \<noteq> Some (NULL, zram_start)"
    by (simp add: zero_page(1))
  from inv length_replicate show thesis
  proof (cases rule: zram_store_cases[where page = ?p])
    case (Stored i n s')
    have "i = 0" using Stored(5) by auto
    with Stored(1) have st: "zram_store (Some ?p) True zram_start = Some (0, Some 0, s')" by simp
    from zram_reach.store[OF zram_start_reach(1) _ st] show thesis using st by (intro that[of s']) simp_all
  qed (use zero_page(1) k lessThan_empty_iff[of ZRAM_MAX_PAGES] in simp_all)
qed

text \<open>
  C27: \<open>zram_store\<close> of a page always returns. It stores the page in the lowest free slot and
  hands out its number; or it returns -2 when all 1024 slots are in use, -3 when the page does not
  compress to fewer than 4032 bytes, -4 when the heap has no room, each with nothing changed.
\<close>

theorem zram_store_result:
  assumes "zram_reach M X s" and "length page = ZRAM_PAGE_SIZE"
  shows "\<exists>ret h s'. zram_store (Some page) True s = Some (ret, h, s') \<and>
    (ret = 0 \<and> (\<exists>i < ZRAM_MAX_PAGES. h = Some (of_nat i) \<and> M i = None \<and> {..<i} \<subseteq> dom M \<and> zram_reach (M(i \<mapsto> page)) X s') \<or>
     s' = s \<and> h = None \<and>
       (ret = -2 \<and> dom M = {..<ZRAM_MAX_PAGES} \<or>
        ret = -3 \<and> (fst (zram_compress_page page 4096) \<le> 0 \<or> 4032 \<le> fst (zram_compress_page page 4096)) \<or>
        ret = -4 \<and> kmalloc (nat (fst (zram_compress_page page 4096))) s = Some (NULL, s)))"
proof -
  obtain sz where inv: "zram_inv M X sz s" using zram_reach_inv[OF assms(1)] by blast
  from inv assms(2) show ?thesis
  proof (cases rule: zram_store_cases)
    case (Stored i n s')
    have "zram_reach (M(i \<mapsto> page)) X s'"
      using zram_reach.store[OF assms Stored(1)] by (simp add: unat_slot[OF Stored(2)])
    with Stored show ?thesis by (intro exI[of _ 0] exI[of _ "Some (of_nat i)"] exI[of _ s']) auto
  qed simp_all
qed

theorem zram_store_result_witness:
  "\<exists>s'. zram_store (Some (replicate ZRAM_PAGE_SIZE 0)) True zram_start = Some (0, Some 0, s')"
proof -
  obtain s where s: "zram_store (Some (replicate ZRAM_PAGE_SIZE 0)) True zram_start = Some (0, Some 0, s)"
    by (rule zram_start_store)
  from zram_store_result[OF zram_start_reach(1), of "replicate ZRAM_PAGE_SIZE 0"] s show ?thesis by auto
qed

text \<open>
  C26: A page whose blocks the two formats agree on comes back from the pool exactly as it was
  stored, whatever was stored, freed and allocated in between.
\<close>

theorem zram_store_load:
  assumes "zram_reach M X s" and "M i = Some page" and "zram_exact page 4096"
  shows "\<exists>s'. zram_load (of_nat i) True s = (0, page, s') \<and> zram_reach M X s'"
proof -
  obtain sz where inv: "zram_inv M X sz s" using zram_reach_inv[OF assms(1)] by blast
  have i: "i < ZRAM_MAX_PAGES" using zram_invD(2)[OF inv] assms(2) by blast
  have len: "length page = ZRAM_PAGE_SIZE"
    using zram_invD(7)[OF inv, of i] assms(2) by (auto simp: slot_holds_def)
  note u = unat_slot[OF i]
  let ?res = "snd (zram_compress_page page 4096)"
  have d: "zram_decompress_page ?res (length ?res) = (0, page)"
  proof -
    have "slot_holds page (sz i) s (pool s ! i)" using zram_invD(7)[OF inv, of i] assms(2) by auto
    then obtain res where res: "zram_compress_page page 4096 = (int (length res), res)" by (auto simp: slot_holds_def)
    show ?thesis using codec.roundtrip[OF len assms(3) res] res by simp
  qed
  obtain s' where s': "zram_load (of_nat i) True s = (0, page, s')"
    using zram_load_held[OF inv, of "of_nat i" page] assms(2) d unfolding u by (auto simp: Let_def)
  with zram_reach.load[OF assms(1) s'] show ?thesis by blast
qed

theorem zram_store_load_witness:
  "\<exists>s s'. zram_store (Some (replicate ZRAM_PAGE_SIZE 0)) True zram_start = Some (0, Some 0, s) \<and>
     zram_load 0 True s = (0, replicate ZRAM_PAGE_SIZE 0, s')"
proof -
  obtain s where s: "zram_store (Some (replicate ZRAM_PAGE_SIZE 0)) True zram_start = Some (0, Some 0, s)"
    "zram_reach ((\<lambda>_. None)(0 \<mapsto> replicate ZRAM_PAGE_SIZE 0)) {} s" by (rule zram_start_store)
  from zram_store_load[OF s(2), of 0] s(1) zero_page(2) show ?thesis by auto
qed

text \<open>
  \<open>zram_free\<close> of a stored page releases its slot and its payload, and gives the heap
  back to the others once the pool is empty; of any other handle it returns -1 and changes nothing.
\<close>

theorem zram_free_result:
  assumes "zram_reach M X s"
  shows "\<exists>s'. zram_free h s = Some (if unat h \<in> dom M then 0 else -1, s') \<and>
    (if unat h \<in> dom M then zram_reach (M(unat h := None)) X s' \<and> heap_mem s' = heap_mem s else s' = s) \<and>
    (dom M \<subseteq> {unat h} \<longrightarrow> heap_ok X s')"
proof -
  obtain sz where inv: "zram_inv M X sz s" using zram_reach_inv[OF assms] by blast
  show ?thesis
  proof (cases "unat h \<in> dom M")
    case True
    obtain s' where s': "zram_free h s = Some (0, s')" "zram_inv (M(unat h := None)) X sz s'" "heap_mem s' = heap_mem s"
      using zram_free_held[OF inv True] .
    have "dom (M(unat h := None)) = {}" if "dom M \<subseteq> {unat h}" using that by auto
    then have "dom M \<subseteq> {unat h} \<longrightarrow> heap_ok X s'" using zram_invD(3)[OF s'(2)]
      by (metis Un_empty_right image_empty)
    with zram_reach.free[OF assms s'(1)] s' True show ?thesis by (intro exI[of _ s']) simp
  next
    case False
    have "dom M = {}" if "dom M \<subseteq> {unat h}" using that False by blast
    then have "dom M \<subseteq> {unat h} \<longrightarrow> heap_ok X s" using zram_invD(3)[OF inv] by auto
    with zram_invalid_handle(2)[OF inv False] False show ?thesis by (intro exI[of _ s]) simp
  qed
qed

theorem zram_free_result_witness:
  "\<exists>s s'. zram_store (Some (replicate ZRAM_PAGE_SIZE 0)) True zram_start = Some (0, Some 0, s) \<and>
     zram_free 0 s = Some (0, s') \<and> zram_free 7 s = Some (-1, s)"
proof -
  obtain s where s: "zram_store (Some (replicate ZRAM_PAGE_SIZE 0)) True zram_start = Some (0, Some 0, s)"
    "zram_reach ((\<lambda>_. None)(0 \<mapsto> replicate ZRAM_PAGE_SIZE 0)) {} s" by (rule zram_start_store)
  from zram_free_result[OF s(2), of 0] zram_free_result[OF s(2), of 7] s(1) show ?thesis by auto
qed

text \<open>
  In every reachable state the statistics are right: the number of pages stored, their
  original size, the sum of the compressed sizes (none of the counters has wrapped around) and the
  ratio in percent, 100 for the empty pool.
\<close>

theorem zram_stats_exact:
  assumes "zram_reach M X s"
  shows "unat (pages_stored (zram_get_stats s)) = card (dom M) \<and>
    unat (original_bytes (zram_get_stats s)) = card (dom M) * 4096 \<and>
    unat (compressed_bytes (zram_get_stats s)) = (\<Sum>i\<in>dom M. unat (compressed_len (pool s ! i))) \<and>
    unat (compression_ratio_x100 (zram_get_stats s)) =
      (if dom M = {} then 100
       else card (dom M) * 409600 div (\<Sum>i\<in>dom M. unat (compressed_len (pool s ! i))))"
proof -
  obtain sz where inv: "zram_inv M X sz s" using zram_reach_inv[OF assms] by blast
  note st = zram_invD(8)[OF inv, unfolded zram_stats_ok_def] and L = zram_inv_lens[OF inv]
  let ?c = "\<Sum>i\<in>dom M. unat (compressed_len (pool s ! i))" and ?z = "zstats s"
  have c0: "compressed_bytes ?z = 0 \<longleftrightarrow> dom M = {}"
  proof -
    have "?c = 0 \<longleftrightarrow> dom M = {}" using L(3,4) by (force simp: sum_eq_0_iff simp del: dom_eq_empty_conv)
    then show ?thesis using st by (metis unat_eq_zero)
  qed
  have len32: "LENGTH(32) = 32" by simp
  have "card (dom M) * 409600 div ?c < 2 ^ 32"
  proof -
    have "card (dom M) * 409600 div ?c \<le> card (dom M) * 409600" by (rule div_le_dividend)
    also have "\<dots> < 2 ^ 32" using L(1) by simp
    finally show ?thesis .
  qed
  then have "unat (of_nat (card (dom M) * 409600 div ?c) :: u32) = card (dom M) * 409600 div ?c"
    by (simp only: unsigned_of_nat of_nat_id take_bit_nat_eq_self len32)
  moreover have "zram_ratio ?z = of_nat (card (dom M) * 409600 div ?c)"
    using st by (simp add: zram_ratio_def mult.commute)
  ultimately have "unat (zram_ratio ?z) = card (dom M) * 409600 div ?c" by simp
  with st c0 show ?thesis unfolding zram_get_stats_def by simp
qed

theorem zram_stats_exact_witness:
  "\<exists>s. zram_store (Some (replicate ZRAM_PAGE_SIZE 0)) True zram_start = Some (0, Some 0, s) \<and>
     unat (pages_stored (zram_get_stats s)) = 1"
proof -
  obtain s where s: "zram_store (Some (replicate ZRAM_PAGE_SIZE 0)) True zram_start = Some (0, Some 0, s)"
    "zram_reach ((\<lambda>_. None)(0 \<mapsto> replicate ZRAM_PAGE_SIZE 0)) {} s" by (rule zram_start_store)
  from zram_stats_exact[OF s(2)] s(1) show ?thesis by auto
qed

end
