(* ===== verification/Sysmon.thy ===== *)
theory Sysmon
  imports Keyboard Zram_Pool
begin

text \<open>
  The timer and the system monitor: kernel/arch/x86_shared/pit.c and kernel/core/sysmon.c. Each
  timer interrupt counts a tick and calls the callback, which is \<open>sysmon_tick\<close> once the monitor is
  set up. The memory managers it reads are the field \<open>memory\<close> of the state.
\<close>

section \<open>The programmable interval timer\<close>

datatype pit_callback_t = sysmon_tick_callback

record pit_state = kbd_state +
  pit_ticks :: u64
  pit_callback :: "pit_callback_t option"

definition pit_irq :: "(pit_callback_t \<Rightarrow> 'a pit_state_scheme \<Rightarrow> 'a pit_state_scheme) \<Rightarrow> 'a pit_state_scheme \<Rightarrow> 'a pit_state_scheme" where
  "pit_irq call s =
     (let s1 = s\<lparr>pit_ticks := pit_ticks s + 1\<rparr>
      in case pit_callback s1 of None \<Rightarrow> s1 | Some cb \<Rightarrow> call cb s1)"

abbreviation PIT_TICKS_PER_SECOND :: u32 where "PIT_TICKS_PER_SECOND \<equiv> 1000"
abbreviation PIT_BASE_FREQUENCY :: u32 where "PIT_BASE_FREQUENCY \<equiv> 1193182"
abbreviation PIT_CHANNEL0_DATA :: u16 where "PIT_CHANNEL0_DATA \<equiv> 0x40"
abbreviation PIT_COMMAND :: u16 where "PIT_COMMAND \<equiv> 0x43"
abbreviation PIT_MODE_SQUARE_WAVE :: u8 where "PIT_MODE_SQUARE_WAVE \<equiv> 0x36"

definition pit_init :: "'a pit_state_scheme \<Rightarrow> 'a pit_state_scheme" where
  "pit_init s =
     (let divisor = PIT_BASE_FREQUENCY div PIT_TICKS_PER_SECOND;
          s = outb PIT_COMMAND PIT_MODE_SQUARE_WAVE s;
          s = outb PIT_CHANNEL0_DATA (ucast (divisor AND 0xFF)) s;
          s = outb PIT_CHANNEL0_DATA (ucast (drop_bit 8 divisor AND 0xFF)) s
      in isr_register_handler 32 pit_irq_handler s)"

definition pit_set_callback :: "pit_callback_t option \<Rightarrow> 'a pit_state_scheme \<Rightarrow> 'a pit_state_scheme" where
  "pit_set_callback cb s = s\<lparr>pit_callback := cb\<rparr>"

definition pit_get_ticks :: "'a pit_state_scheme \<Rightarrow> u64" where
  "pit_get_ticks s = pit_ticks s"

section \<open>The system monitor\<close>

abbreviation SYSMON_WINDOW :: u32 where
  "SYSMON_WINDOW \<equiv> 1000"

record sysmon_state = pit_state +
  idle_ticks :: u64
  current_idle :: bool
  window_idle :: u64
  window_count :: u32
  prev_window_idle :: u32
  prev_window_total :: u32
  init_tick :: u64
  memory :: zram_state

record sysmon_stats =
  uptime_ms :: u64
  cpu_load_pct :: u8
  ram_used_kb :: u32
  ram_total_kb :: u32
  zram_saved_kb :: u32
  zram_ratio_x100 :: u32

definition sysmon_init :: "'a sysmon_state_scheme \<Rightarrow> 'a sysmon_state_scheme" where
  "sysmon_init s = pit_set_callback (Some sysmon_tick_callback)
     (s\<lparr>idle_ticks := 0, current_idle := False, window_idle := 0, window_count := 0, prev_window_idle := 0,
        prev_window_total := SYSMON_WINDOW, init_tick := pit_get_ticks s\<rparr>)"

definition sysmon_tick :: "'a sysmon_state_scheme \<Rightarrow> 'a sysmon_state_scheme" where
  "sysmon_tick s =
     (let s = (if current_idle s then s\<lparr>window_idle := window_idle s + 1, idle_ticks := idle_ticks s + 1\<rparr> else s);
          s = s\<lparr>current_idle := False\<rparr>;
          s = s\<lparr>window_count := window_count s + 1\<rparr>
      in if SYSMON_WINDOW \<le> window_count s
         then s\<lparr>prev_window_idle := ucast (window_idle s), prev_window_total := window_count s, window_idle := 0, window_count := 0\<rparr>
         else s)"

definition sysmon_set_idle :: "'a sysmon_state_scheme \<Rightarrow> 'a sysmon_state_scheme" where
  "sysmon_set_idle s = s\<lparr>current_idle := True\<rparr>"

definition sysmon_get_stats :: "'a sysmon_state_scheme \<Rightarrow> sysmon_stats" where
  "sysmon_get_stats s =
     (let total = pmm_get_total_memory (memory s); free = pmm_get_free_memory (memory s); z = zram_get_stats (memory s);
          idle_pct = prev_window_idle s * 100 div prev_window_total s
      in \<lparr>uptime_ms = pit_get_ticks s - init_tick s,
          cpu_load_pct = (if 0 < prev_window_total s then ucast (100 - (if 100 < idle_pct then 100 else idle_pct)) else 0),
          ram_used_kb = of_nat (sub64 total free div 1024),
          ram_total_kb = of_nat (total div 1024),
          zram_saved_kb = (if compressed_bytes z \<le> original_bytes z then (original_bytes z - compressed_bytes z) div 1024 else 0),
          zram_ratio_x100 = compression_ratio_x100 z\<rparr>)"

text \<open>The timer interrupt with the callback it finds.\<close>

definition run_callback :: "pit_callback_t \<Rightarrow> 'a sysmon_state_scheme \<Rightarrow> 'a sysmon_state_scheme" where
  "run_callback cb = (case cb of sysmon_tick_callback \<Rightarrow> sysmon_tick)"

definition timer_interrupt :: "'a sysmon_state_scheme \<Rightarrow> 'a sysmon_state_scheme" where
  "timer_interrupt = pit_irq run_callback"

section \<open>The load as it should be\<close>

text \<open>
  What happens to the monitor: timer interrupts, and announcements that the processor goes idle.
  A tick is idle if such an announcement came since the tick before.
\<close>

datatype sysmon_event = Timer_tick | Going_idle

definition sysmon_step :: "sysmon_event \<Rightarrow> 'a sysmon_state_scheme \<Rightarrow> 'a sysmon_state_scheme" where
  "sysmon_step e = (case e of Timer_tick \<Rightarrow> timer_interrupt | Going_idle \<Rightarrow> sysmon_set_idle)"

fun idle_flags :: "bool \<Rightarrow> sysmon_event list \<Rightarrow> bool list" where
  "idle_flags b [] = []"
| "idle_flags b (Timer_tick # es) = b # idle_flags False es"
| "idle_flags b (Going_idle # es) = idle_flags True es"

definition last_window :: "bool list \<Rightarrow> bool list" where
  "last_window fs = take 1000 (drop (1000 * (length fs div 1000 - 1)) fs)"

definition cpu_load :: "bool list \<Rightarrow> nat" where
  "cpu_load fs = (if length fs < 1000 then 100 else 100 - count_list (last_window fs) True div 10)"

definition monitors :: "bool list \<Rightarrow> bool \<Rightarrow> 'a sysmon_state_scheme \<Rightarrow> bool" where
  "monitors fs b s \<longleftrightarrow>
     pit_callback s = Some sysmon_tick_callback \<and> current_idle s = b \<and> pit_ticks s = init_tick s + of_nat (length fs) \<and>
     window_count s = of_nat (length fs mod 1000) \<and> window_idle s = of_nat (count_list (drop (1000 * (length fs div 1000)) fs) True) \<and>
     prev_window_total s = 1000 \<and>
     prev_window_idle s = of_nat (if length fs < 1000 then 0 else count_list (last_window fs) True)"

lemma monitors_init: "monitors [] False (sysmon_init s)"
  by (simp add: monitors_def sysmon_init_def pit_set_callback_def pit_get_ticks_def)

lemma count_list_length: "count_list xs x \<le> length xs"
  by (induction xs) auto

lemma div_mod_Suc:
  fixes n :: nat
  shows "Suc (n mod 1000) < 1000 \<Longrightarrow> Suc n div 1000 = n div 1000 \<and> Suc n mod 1000 = Suc (n mod 1000)"
    and "n mod 1000 = 999 \<Longrightarrow> Suc n div 1000 = Suc (n div 1000) \<and> Suc n mod 1000 = 0"
  by (simp_all add: mod_Suc div_Suc)

lemma monitors_tick:
  assumes "monitors fs b s"
  shows "monitors (fs @ [b]) False (timer_interrupt s)"
proof -
  let ?n = "length fs"
  let ?w = "drop (1000 * (?n div 1000)) fs"
  have s: "pit_callback s = Some sysmon_tick_callback" "current_idle s = b" "pit_ticks s = init_tick s + of_nat ?n"
    "window_count s = of_nat (?n mod 1000)" "window_idle s = of_nat (count_list ?w True)"
    "prev_window_total s = 1000" "prev_window_idle s = of_nat (if ?n < 1000 then 0 else count_list (last_window fs) True)"
    using assms by (simp_all add: monitors_def)
  have count: "window_count s + 1 = of_nat (Suc (?n mod 1000))" by (simp add: s(4))
  have small: "Suc (?n mod 1000) < 2 ^ LENGTH(32)"
    using mod_less_divisor[of 1000 ?n] by simp
  have full: "1000 \<le> window_count s + 1 \<longleftrightarrow> ?n mod 1000 = 999"
    unfolding count word_le_nat_alt unat_of_nat_small[OF small] using mod_less_divisor[of 1000 ?n] by auto
  have idle: "window_idle s + (if b then 1 else 0) = of_nat (count_list (?w @ [b]) True)"
    by (simp add: s(5) count_list_append)
  have le: "1000 * (?n div 1000) \<le> ?n" by simp
  show ?thesis
  proof (cases "?n mod 1000 = 999")
    case True
    have n: "?n = 1000 * (?n div 1000) + 999" using True div_mult_mod_eq[of ?n 1000] by simp
    have lw: "last_window (fs @ [b]) = ?w @ [b]"
    proof -
      have "length (?w @ [b]) = 1000" using n by simp
      then have "take 1000 (?w @ [b]) = ?w @ [b]" by simp
      moreover have "drop (1000 * (?n div 1000)) (fs @ [b]) = ?w @ [b]" using le by simp
      ultimately show ?thesis using div_mod_Suc(2)[OF True] by (simp add: last_window_def)
    qed
    have c: "ucast (of_nat (count_list (?w @ [b]) True) :: u64) = (of_nat (count_list (?w @ [b]) True) :: u32)"
    proof -
      have "count_list (?w @ [b]) True < 2 ^ LENGTH(64)"
        using count_list_length[of "?w @ [b]" True] mod_less_divisor[of 1000 ?n] by (simp add: minus_div_mult_eq_mod[symmetric] mult.commute)
      then show ?thesis by (metis of_nat_unat unat_of_nat_small)
    qed
    have "1000 \<le> Suc ?n" using n by linarith
    moreover have "of_nat (Suc (?n mod 1000)) = (1000 :: u32)" by (simp add: True)
    ultimately show ?thesis
      using s full True idle c count div_mod_Suc(2)[OF True] lw
      by (cases b) (simp_all add: monitors_def timer_interrupt_def pit_irq_def run_callback_def sysmon_tick_def Let_def add.assoc add.commute)
  next
    case False
    have lt: "Suc (?n mod 1000) < 1000" using False mod_less_divisor[of 1000 ?n] by linarith
    note d = div_mod_Suc(1)[OF lt]
    have lw: "last_window (fs @ [b]) = last_window fs" if "1000 \<le> ?n"
    proof -
      have "1000 * (?n div 1000 - 1) + 1000 \<le> ?n" using that by (simp add: diff_mult_distrib2) 
      then show ?thesis using d by (simp add: last_window_def)
    qed
    have "Suc ?n < 1000 \<longleftrightarrow> ?n < 1000" using False by (cases "?n = 999") auto
    then show ?thesis
      using s full False idle count d lw le
      by (cases b) (simp_all add: monitors_def timer_interrupt_def pit_irq_def run_callback_def sysmon_tick_def Let_def add.assoc add.commute)
  qed
qed

lemma monitors_run: "monitors fs b s \<Longrightarrow> \<exists>c. monitors (fs @ idle_flags b es) c (fold sysmon_step es s)"
proof (induction es arbitrary: fs b s)
  case (Cons e es)
  show ?case
  proof (cases e)
    case Timer_tick
    from Cons.IH[OF monitors_tick[OF Cons.prems]] show ?thesis by (simp add: Timer_tick sysmon_step_def)
  next
    case Going_idle
    have "monitors fs True (sysmon_set_idle s)" using Cons.prems by (simp add: monitors_def sysmon_set_idle_def)
    from Cons.IH[OF this] show ?thesis by (simp add: Going_idle sysmon_step_def)
  qed
qed auto

lemma monitors_load:
  assumes "monitors fs b s"
  shows "unat (cpu_load_pct (sysmon_get_stats s)) = cpu_load fs" and "uptime_ms (sysmon_get_stats s) = of_nat (length fs)"
proof -
  define n where "n = (if length fs < 1000 then 0 else count_list (last_window fs) True)"
  have p: "prev_window_idle s = of_nat n" "prev_window_total s = 1000" using assms by (simp_all add: monitors_def n_def)
  have n: "n \<le> 1000" unfolding n_def last_window_def using count_list_length[of "take 1000 (drop (1000 * (length fs div 1000 - 1)) fs)" True] by simp
  have m: "unat (of_nat n * 100 :: u32) = n * 100"
    using unat_of_nat_small[of "n * 100", where 'a = 32] n by simp
  have q: "unat (of_nat n * 100 div 1000 :: u32) = n div 10" by (simp add: unat_div m)
  have le: "of_nat n * 100 div 1000 \<le> (100 :: u32)" using n by (simp add: word_le_nat_alt q)
  have "unat (100 - of_nat n * 100 div 1000 :: u32) = 100 - n div 10"
    using unat_sub[OF le] q by simp
  then have "unat (ucast (100 - of_nat n * 100 div 1000 :: u32) :: u8) = 100 - n div 10"
    by (simp add: unsigned_ucast_eq take_bit_nat_eq_self)
  then show "unat (cpu_load_pct (sysmon_get_stats s)) = cpu_load fs"
    using le by (auto simp: sysmon_get_stats_def p Let_def cpu_load_def n_def)
  show "uptime_ms (sysmon_get_stats s) = of_nat (length fs)"
    using assms by (simp add: sysmon_get_stats_def monitors_def pit_get_ticks_def Let_def)
qed

section \<open>Properties\<close>

text \<open>
  C15: The monitor is right. After \<open>sysmon_init\<close> and any sequence of timer interrupts and idle
  announcements, the uptime is the number of ticks since then, and the load is 100 minus the
  percentage, rounded down, of idle ticks in the last complete window of 1000 ticks, thus at most
  100; during the first window it is 100 whatever the processor does.
\<close>

theorem sysmon_load_exact:
  "let s' = fold sysmon_step es (sysmon_init s); st = sysmon_get_stats s'; fs = idle_flags False es in
     unat (cpu_load_pct st) = cpu_load fs \<and> cpu_load fs \<le> 100 \<and> uptime_ms st = of_nat (length fs)"
  using monitors_run[OF monitors_init[of s], of es] monitors_load[of "idle_flags False es" _ "fold sysmon_step es (sysmon_init s)"]
  by (auto simp: cpu_load_def Let_def)

end
