(* ===== verification/Dashboard.thy ===== *)
theory Dashboard
  imports Screen Sysmon
begin

text \<open>
  The dashboard: kernel/core/dashboard.c. It draws the numbers of the system monitor and a table of
  four fixed tasks. The ticks and the heap are read at the calls that show them.
\<close>

section \<open>State\<close>

record dashboard_process =
  proc_pid :: u32
  proc_name :: string
  proc_state :: string
  proc_cpu_pct :: u8
  proc_mem_kb :: u32
  proc_priority :: u32

record dash_state = sysmon_state +
  processes :: "dashboard_process list"

definition processes_static :: "dashboard_process list" where
  "processes_static =
     [\<lparr>proc_pid = 0, proc_name = ''kernel_idle'', proc_state = ''RUN'', proc_cpu_pct = 0, proc_mem_kb = 0, proc_priority = 0\<rparr>,
      \<lparr>proc_pid = 1, proc_name = ''sysmon_sampler'', proc_state = ''RUN'', proc_cpu_pct = 0, proc_mem_kb = 4, proc_priority = 10\<rparr>,
      \<lparr>proc_pid = 2, proc_name = ''pit_timer'', proc_state = ''RUN'', proc_cpu_pct = 0, proc_mem_kb = 2, proc_priority = 5\<rparr>,
      \<lparr>proc_pid = 3, proc_name = ''vga_dashboard'', proc_state = ''RUN'', proc_cpu_pct = 0, proc_mem_kb = 64, proc_priority = 8\<rparr>]"

section \<open>Drawing\<close>

text \<open>\<open>'0' + (char)n\<close>\<close>

definition digit_char :: "u64 \<Rightarrow> char" where
  "digit_char n = char_of (unat (48 + ucast n :: u8))"

definition format_uptime :: "u64 \<Rightarrow> char list" where
  "format_uptime ms =
     (let total_s = ms div 1000; h = total_s div 3600; m = (total_s mod 3600) div 60; s = total_s mod 60
      in [digit_char (h div 10), digit_char (h mod 10), CHR '':'', digit_char (m div 10), digit_char (m mod 10), CHR '':'',
          digit_char (s div 10), digit_char (s mod 10), CHR 0x00])"

definition draw_cpu_box :: "'a sysmon_state_scheme \<Rightarrow> 'a sysmon_state_scheme option" where
  "draw_cpu_box s =
     (let stats = sysmon_get_stats s in do {
        s \<leftarrow> tui_draw_box 0 1 40 8 COLOR_PRIMARY COLOR_TEXT (Some '' cpu '') (COLOR_PRIMARY \<noteq> 0) s;
        s \<leftarrow> tui_printf_at 2 3 COLOR_TEXT ''Load'' [] s;
        s \<leftarrow> tui_printf_at 8 3 COLOR_SUCCESS ''%u%%'' [CInt (ucast (cpu_load_pct stats))] s;
        s \<leftarrow> tui_printf_at 20 3 COLOR_TEXT ''Ticks'' [] s;
        s \<leftarrow> tui_printf_at 27 3 COLOR_PRIMARY ''%u'' [CInt (ucast (pit_get_ticks s))] s;
        s \<leftarrow> tui_draw_bar 2 5 36 (ucast (cpu_load_pct stats)) 100 COLOR_SUCCESS COLOR_BORDER s;
        tui_printf_at 17 6 COLOR_SUCCESS ''%u%%'' [CInt (ucast (cpu_load_pct stats))] s
      })"

definition draw_memory_box :: "'a sysmon_state_scheme \<Rightarrow> 'a sysmon_state_scheme option" where
  "draw_memory_box s =
     (let stats = sysmon_get_stats s; total_mb = ram_total_kb stats div 1024; used_mb = ram_used_kb stats div 1024 in do {
        s \<leftarrow> tui_draw_box 40 1 40 8 COLOR_MAGENTA COLOR_TEXT (Some '' mem '') (COLOR_MAGENTA \<noteq> 0) s;
        s \<leftarrow> tui_printf_at 42 3 COLOR_TEXT ''RAM'' [] s;
        s \<leftarrow> tui_printf_at 47 3 COLOR_MAGENTA ''%u/%u MB'' [CInt used_mb, CInt total_mb] s;
        s \<leftarrow> tui_printf_at 42 4 COLOR_TEXT ''Heap'' [] s;
        s \<leftarrow> tui_printf_at 48 4 COLOR_MAGENTA ''%u KB used'' [CInt (of_nat (heap_get_used (memory s) div 1024))] s;
        s \<leftarrow> tui_printf_at 42 5 COLOR_TEXT ''zRAM'' [] s;
        s \<leftarrow> tui_printf_at 48 5 COLOR_SUCCESS ''%uKB saved (%u.%ux)''
              [CInt (zram_saved_kb stats), CInt (zram_ratio_x100 stats div 100), CInt (zram_ratio_x100 stats mod 100 div 10)] s;
        tui_draw_bar 42 7 36 (ram_used_kb stats) (ram_total_kb stats) COLOR_MAGENTA COLOR_BORDER s
      })"

definition process_format :: string where
  "process_format = ''%-4d %-16s %-6s %-6u %-7u %-3d''"

definition process_row :: "nat \<Rightarrow> 'a dash_state_scheme \<Rightarrow> 'a dash_state_scheme option" where
  "process_row i s =
     (let row_color = (if i mod 2 = 0 then COLOR_TEXT else COLOR_PRIMARY); p = processes s ! i
      in tui_printf_at 2 (12 + int i) row_color process_format
           [CInt (proc_pid p), CStr (Some (proc_name p)), CStr (Some (proc_state p)), CInt (ucast (proc_cpu_pct p)),
            CInt (proc_mem_kb p), CInt (proc_priority p)] s)"

definition draw_process_table :: "'a dash_state_scheme \<Rightarrow> 'a dash_state_scheme option" where
  "draw_process_table s =
     (let stats = sysmon_get_stats s; load = cpu_load_pct stats; th_color = push_bit 4 COLOR_PRIMARY OR COLOR_BG in do {
        s \<leftarrow> tui_draw_box 0 9 80 14 COLOR_WARN COLOR_TEXT (Some '' tasks '') (COLOR_WARN \<noteq> 0) s;
        s \<leftarrow> tui_printf_at 2 11 th_color ''PID  NAME             STATE  CPU%   MEM(KB) PRI'' [] s;
        s \<leftarrow> clear_row 50 78 11 th_color s;
        s \<leftarrow> Some (s\<lparr>processes := (processes s)
               [0 := (processes s ! 0)\<lparr>proc_cpu_pct := 100 - load\<rparr>,
                3 := (processes s ! 3)\<lparr>proc_cpu_pct := if 5 < load then load div 3 else 1\<rparr>]\<rparr>);
        for_loop 0 (min 4 10) process_row s
      })"

definition dashboard_render :: "'a dash_state_scheme \<Rightarrow> 'a dash_state_scheme option" where
  "dashboard_render s =
     (let stats = sysmon_get_stats s; uptime_str = format_uptime (uptime_ms stats) in do {
        s \<leftarrow> tui_draw_header '' AuraOS v0.3.1 '' (Some (c_string uptime_str)) s;
        s \<leftarrow> draw_cpu_box s;
        s \<leftarrow> draw_memory_box s;
        s \<leftarrow> draw_process_table s;
        tui_draw_footer '' [Q] menu   [R] redraw'' s
      })"

section \<open>What the dashboard shows\<close>

lemma drew_printf:
  "format_text tui_conv None fmt args \<noteq> None \<Longrightarrow> length (vga_mem s) = 2000 \<Longrightarrow> drew (tui_printf_at x y color fmt args s) s"
  using draws_printf drewI by blast

lemma tui_conv_simps [simp]:
  "tui_conv (CHR ''u'') (CInt v # as) = Some (number_text 10 (unat v), as)"
  "tui_conv (CHR ''%'') as = Some (''%'', as)"
  "tui_conv (CHR ''s'') (CStr (Some t) # as) = Some (t, as)"
  by (simp_all add: tui_conv_def)

lemma drew_cpu_box: "length (vga_mem s) = 2000 \<Longrightarrow> drew (draw_cpu_box s) s"
  unfolding draw_cpu_box_def Let_def
  by (intro drew_bind drew_printf drew_bar draws_box[THEN drewI]; (erule drawn_length)?; simp)

lemma drew_memory_box: "length (vga_mem s) = 2000 \<Longrightarrow> drew (draw_memory_box s) s"
  unfolding draw_memory_box_def Let_def
  by (intro drew_bind drew_printf drew_bar draws_box[THEN drewI]; (erule drawn_length)?; simp)

lemma process_text: "tui_text process_format args = Some process_format"
  by (simp add: tui_text_def process_format_def tui_directive_def buf_push_def)

abbreviation row_color :: "nat \<Rightarrow> u8" where
  "row_color i \<equiv> (if i mod 2 = 0 then COLOR_TEXT else COLOR_PRIMARY)"

definition rows_shown :: "nat \<Rightarrow> 'a vga_state_scheme \<Rightarrow> bool" where
  "rows_shown n s \<longleftrightarrow> (\<forall>i < n. \<forall>k < length process_format. cell s (2 + int k) (12 + int i) = vga_entry (process_format ! k) (row_color i))"

lemma length_process_format: "length process_format = 30"
  by (simp add: process_format_def)

lemma draws_process_row:
  "length (vga_mem s) = 2000 \<Longrightarrow> draws (process_row i s) (puts_ov 2 (12 + int i) process_format (row_color i)) s"
  unfolding process_row_def Let_def by (rule draws_printf_text[OF process_text])

lemma rows_shown_step:
  assumes "rows_shown n s" and "drawn (puts_ov 2 (12 + int n) process_format (row_color n)) s s'" and "n < 4"
  shows "rows_shown (Suc n) s'"
  unfolding rows_shown_def
proof (intro allI impI)
  fix i k assume i: "i < Suc n" and k: "k < length process_format"
  have "on_screen (2 + int k) (12 + int i)" using i k assms(3) by (simp add: on_screen_def length_process_format)
  then have "cell s' (2 + int k) (12 + int i) = (case puts_ov 2 (12 + int n) process_format (row_color n) (2 + int k) (12 + int i) of
      Some v \<Rightarrow> v | None \<Rightarrow> cell s (2 + int k) (12 + int i))"
    using assms(2) unfolding drawn_def by blast
  then show "cell s' (2 + int k) (12 + int i) = vga_entry (process_format ! k) (row_color i)"
    using i k assms(1) by (cases "i = n") (simp_all add: puts_ov_def rows_shown_def)
qed

lemma process_rows:
  assumes "length (vga_mem s) = 2000"
  shows "\<exists>s'. for_loop 0 (min 4 10) process_row s = Some s' \<and> length (vga_mem s') = 2000 \<and> s' = s\<lparr>vga_mem := vga_mem s'\<rparr> \<and> rows_shown 4 s'"
proof -
  define P where "P n s' \<longleftrightarrow> length (vga_mem s') = 2000 \<and> s' = s\<lparr>vga_mem := vga_mem s'\<rparr> \<and> rows_shown n s'" for n and s' :: "'a dash_state_scheme"
  have "\<exists>s'. for_loop 0 4 process_row s = Some s' \<and> P 4 s'"
  proof (rule for_loop_rule)
    show "P 0 s" using assms by (simp add: P_def rows_shown_def)
  next
    fix i and t :: "'a dash_state_scheme" assume i: "i < 4" and P: "P i t"
    then have l: "length (vga_mem t) = 2000" by (simp add: P_def)
    obtain t' where t': "process_row i t = Some t'" "drawn (puts_ov 2 (12 + int i) process_format (row_color i)) t t'"
      using draws_process_row[OF l, of i] by (rule drawsE)
    have "rows_shown (Suc i) t'" using rows_shown_step[OF _ t'(2) i] P by (simp add: P_def)
    moreover have "t' = s\<lparr>vga_mem := vga_mem t'\<rparr>" 
    proof -
      have "t' = t\<lparr>vga_mem := vga_mem t'\<rparr>" "t = s\<lparr>vga_mem := vga_mem t\<rparr>" using t'(2) P by (simp_all add: drawn_def P_def)
      then show ?thesis by (metis vga_state.surjective vga_state.update_convs(1))
    qed
    ultimately show "\<exists>s'. process_row i t = Some s' \<and> P (Suc i) s'"
      using t' by (auto simp: P_def drawn_def)
  qed simp
  then show ?thesis by (simp add: P_def)
qed

text \<open>Drawing the dashboard changes the screen and the loads in the table of tasks, nothing else.\<close>

definition dash_frame :: "'a dash_state_scheme \<Rightarrow> 'a dash_state_scheme \<Rightarrow> bool" where
  "dash_frame s s' \<longleftrightarrow> (\<exists>m ps. s' = s\<lparr>vga_mem := m, processes := ps\<rparr>)"

lemma dash_frame_refl: "dash_frame s s"
proof -
  have "s = s\<lparr>vga_mem := vga_mem s, processes := processes s\<rparr>" by simp
  then show ?thesis unfolding dash_frame_def by blast
qed

lemma dash_frame_mem: "dash_frame s t \<Longrightarrow> dash_frame s (t\<lparr>vga_mem := m\<rparr>)"
proof -
  assume "dash_frame s t"
  then obtain m' ps where t: "t = s\<lparr>vga_mem := m', processes := ps\<rparr>" unfolding dash_frame_def by blast
  have "t\<lparr>vga_mem := m\<rparr> = s\<lparr>vga_mem := m, processes := ps\<rparr>" unfolding t by simp
  then show ?thesis unfolding dash_frame_def by blast
qed

lemma dash_frame_processes: "dash_frame s t \<Longrightarrow> dash_frame s (t\<lparr>processes := ps\<rparr>)"
proof -
  assume "dash_frame s t"
  then obtain m' ps' where t: "t = s\<lparr>vga_mem := m', processes := ps'\<rparr>" unfolding dash_frame_def by blast
  have "t\<lparr>processes := ps\<rparr> = s\<lparr>vga_mem := m', processes := ps\<rparr>" unfolding t by simp
  then show ?thesis unfolding dash_frame_def by blast
qed

lemma dash_frame_drawn: "dash_frame s t \<Longrightarrow> drawn ov t t' \<Longrightarrow> dash_frame s t'"
  using dash_frame_mem[of s t "vga_mem t'"] unfolding drawn_def by metis

lemma dash_frame_trans: "dash_frame s t \<Longrightarrow> dash_frame t u \<Longrightarrow> dash_frame s u"
proof -
  assume st: "dash_frame s t" and "dash_frame t u"
  then obtain m ps where u: "u = t\<lparr>vga_mem := m, processes := ps\<rparr>" unfolding dash_frame_def by blast
  show ?thesis unfolding u by (rule dash_frame_processes[OF dash_frame_mem[OF st]])
qed

lemma draw_process_table_rows:
  assumes "length (vga_mem s) = 2000"
  shows "\<exists>s'. draw_process_table s = Some s' \<and> length (vga_mem s') = 2000 \<and>
    dash_frame s s' \<and> rows_shown 4 s'"
proof -
  let ?th = "push_bit 4 COLOR_PRIMARY OR COLOR_BG" and ?load = "cpu_load_pct (sysmon_get_stats s)"
  define upd where "upd t = (t :: 'a dash_state_scheme)\<lparr>processes := (processes t)
               [0 := (processes t ! 0)\<lparr>proc_cpu_pct := 100 - ?load\<rparr>,
                3 := (processes t ! 3)\<lparr>proc_cpu_pct := if 5 < ?load then ?load div 3 else 1\<rparr>]\<rparr>" for t
  define pre where "pre = tui_draw_box 0 9 80 14 COLOR_WARN COLOR_TEXT (Some '' tasks '') (COLOR_WARN \<noteq> 0) s \<bind> (\<lambda>s.
      tui_printf_at 2 11 ?th ''PID  NAME             STATE  CPU%   MEM(KB) PRI'' [] s \<bind> clear_row 50 78 11 ?th)"
  have "drew pre s"
    unfolding pre_def
  proof (intro drew_bind drew_calls(3) draws_box[THEN drewI])
    fix ov and s1 :: "'a dash_state_scheme" assume "drawn ov s s1"
    then have l: "length (vga_mem s1) = 2000" by (rule drawn_length)
    have "tui_text ''PID  NAME             STATE  CPU%   MEM(KB) PRI'' [] = Some ''PID  NAME             STATE  CPU%   MEM(KB) PRI''"
      by (simp add: tui_text_def tui_directive_def buf_push_def)
    from draws_printf_text[OF this l] drewI
    show "drew (tui_printf_at 2 11 ?th ''PID  NAME             STATE  CPU%   MEM(KB) PRI'' [] s1) s1" by blast
  qed (use assms drawn_length in auto)
  then obtain s1 ov where s1: "pre = Some s1" "drawn ov s s1" unfolding drew_def draws_def by blast
  have "length (vga_mem (upd s1)) = 2000" using s1(2) by (simp add: upd_def drawn_def)
  then obtain s2 where s2: "for_loop 0 (min 4 10) process_row (upd s1) = Some s2" "length (vga_mem s2) = 2000"
    "s2 = (upd s1)\<lparr>vga_mem := vga_mem s2\<rparr>" "rows_shown 4 s2"
    using process_rows by blast
  have e: "draw_process_table s = pre \<bind> (\<lambda>s. for_loop 0 (min 4 10) process_row (upd s))"
    by (simp add: draw_process_table_def pre_def upd_def Let_def bind_assoc)
  have "dash_frame s (upd s1)"
    unfolding upd_def by (rule dash_frame_processes[OF dash_frame_drawn[OF dash_frame_refl s1(2)]])
  then have "dash_frame s s2" using dash_frame_mem[of s "upd s1" "vga_mem s2"] s2(3) by simp
  with e s1(1) s2 show ?thesis by simp
qed

lemma rows_shown_footer:
  assumes "rows_shown n s" and "drawn ov s s'" and "row_ov 24 ov" and "n \<le> 4"
  shows "rows_shown n s'"
  unfolding rows_shown_def
proof (intro allI impI)
  fix i k assume i: "i < n" and k: "k < length process_format"
  then have "on_screen (2 + int k) (12 + int i)" using assms(4) by (simp add: on_screen_def length_process_format)
  moreover have "ov (2 + int k) (12 + int i) = None" using assms(3,4) i unfolding row_ov_def by simp
  ultimately show "cell s' (2 + int k) (12 + int i) = vga_entry (process_format ! k) (row_color i)"
    using assms(1,2) i k by (simp add: drawn_def rows_shown_def)
qed

lemma dashboard_render_rows:
  assumes "length (vga_mem s) = 2000"
  shows "\<exists>s'. dashboard_render s = Some s' \<and> length (vga_mem s') = 2000 \<and>
    dash_frame s s' \<and> rows_shown 4 s'"
proof -
  define pre where "pre = tui_draw_header '' AuraOS v0.3.1 '' (Some (c_string (format_uptime (uptime_ms (sysmon_get_stats s))))) s \<bind>
    (\<lambda>s. draw_cpu_box s \<bind> draw_memory_box)"
  have "drew pre s"
    unfolding pre_def using assms by (intro drew_bind drew_header drew_cpu_box drew_memory_box) (auto dest: drawn_length)
  then obtain s1 ov where s1: "pre = Some s1" "drawn ov s s1" unfolding drew_def draws_def by blast
  obtain s2 where s2: "draw_process_table s1 = Some s2" "length (vga_mem s2) = 2000"
    "dash_frame s1 s2" "rows_shown 4 s2"
    using draw_process_table_rows[OF drawn_length[OF s1(2)]] by blast
  obtain s3 ov' where s3: "tui_draw_footer '' [Q] menu   [R] redraw'' s2 = Some s3" "drawn ov' s2 s3" "row_ov 24 ov'"
    using draws_footer[OF s2(2)] unfolding draws_def by blast
  have "dashboard_render s = pre \<bind> (\<lambda>s. draw_process_table s \<bind> tui_draw_footer '' [Q] menu   [R] redraw'')"
    by (simp add: dashboard_render_def pre_def Let_def bind_assoc)
  then have "dashboard_render s = Some s3" using s1(1) s2(1) s3(1) by simp
  moreover have "dash_frame s s3"
    by (rule dash_frame_drawn[OF dash_frame_trans[OF dash_frame_drawn[OF dash_frame_refl s1(2)] s2(3)] s3(2)])
  ultimately show ?thesis using rows_shown_footer[OF s2(4) s3(2,3)] drawn_length[OF s3(2)] by blast
qed

definition two_digits :: "nat \<Rightarrow> string" where
  "two_digits n = [dec_digit (n div 10), dec_digit (n mod 10)]"

lemma digit_char_dec:
  assumes "unat n < 208"
  shows "digit_char n = char_of (48 + unat n)"
proof -
  have "unat (ucast n :: u8) = unat n" using assms by (simp add: unsigned_ucast_eq take_bit_nat_eq_self)
  then have "unat (48 + ucast n :: u8) = 48 + unat n" using assms by (simp add: unat_word_ariths)
  then show ?thesis by (simp add: digit_char_def)
qed

section \<open>Properties\<close>

text \<open>
  The uptime reads as hours, minutes and seconds of two digits each as long as it is less than
  100 hours; from then on, up to 1000 hours, its first character is no digit.
\<close>

theorem dashboard_uptime:
  "let t = unat ms div 1000; h = t div 3600; text = c_string (format_uptime ms) in
     (h < 100 \<longrightarrow> text = two_digits h @ '':'' @ two_digits (t mod 3600 div 60) @ '':'' @ two_digits (t mod 60)) \<and>
     (100 \<le> h \<and> h < 1000 \<longrightarrow> hd text \<notin> set ''0123456789'')"
proof -
  let ?t = "ms div 1000" and ?T = "unat ms div 1000"
  have T: "unat ?t = ?T" "unat (?t div 3600) = ?T div 3600" "unat (?t mod 3600 div 60) = ?T mod 3600 div 60" "unat (?t mod 60) = ?T mod 60"
    by (simp_all add: unat_div unat_mod)
  have lt: "?T mod 3600 div 60 < 60" "?T mod 60 < 60" by (simp_all add: less_mult_imp_div_less)
  have digits: "digit_char (x div 10) = dec_digit (unat x div 10) \<and> digit_char (x mod 10) = dec_digit (unat x mod 10)" if "unat x < 1000" for x :: u64
  proof -
    have "unat (x div 10) < 208" "unat (x mod 10) < 208" using that by (simp_all add: unat_div unat_mod less_mult_imp_div_less)
    then show ?thesis by (simp add: digit_char_dec dec_digit_def unat_div unat_mod)
  qed
  have code: "of_char (char_of n :: char) = n" if "n < 256" for n :: nat using that by (simp add: of_char_of)
  have nz: "dec_digit n \<noteq> CHR 0x00" if "n < 208" for n
  proof
    assume "dec_digit n = CHR 0x00"
    then have "of_char (dec_digit n) = (0 :: nat)" by simp
    then show False using code[of "48 + n"] that by (simp add: dec_digit_def)
  qed
  have form: "c_string (format_uptime ms) = two_digits (?T div 3600) @ '':'' @ two_digits (?T mod 3600 div 60) @ '':'' @ two_digits (?T mod 60)"
    if h: "?T div 3600 < 1000"
  proof -
    have "?T div 3600 div 10 < 208" "?T div 3600 mod 10 < 208" "?T mod 3600 div 60 div 10 < 208" "?T mod 3600 div 60 mod 10 < 208"
      "?T mod 60 div 10 < 208" "?T mod 60 mod 10 < 208"
      using h lt by (auto intro: less_mult_imp_div_less le_less_trans[OF mod_le_divisor])
    note n = this[THEN nz]
    have "unat (?t div 3600) < 1000" "unat (?t mod 3600 div 60) < 1000" "unat (?t mod 60) < 1000"
      unfolding T using h lt by simp_all
    note d = this[THEN digits, unfolded T]
    show ?thesis using n d by (simp add: c_string_def format_uptime_def two_digits_def Let_def)
  qed
  have "dec_digit (h div 10) \<notin> set ''0123456789''" if "100 \<le> h" "h < 1000" for h
  proof
    assume "dec_digit (h div 10) \<in> set ''0123456789''"
    moreover have "of_char (dec_digit (h div 10)) = 48 + h div 10"
      using that code[of "48 + h div 10"] by (simp add: dec_digit_def less_mult_imp_div_less)
    moreover have "10 \<le> h div 10" using that by (simp add: less_eq_div_iff_mult_less_eq)
    ultimately show False by auto
  qed
  then show ?thesis using form by (simp add: two_digits_def Let_def)
qed

theorem dashboard_uptime_witness:
  "c_string (format_uptime 3723004) = ''01:02:03''"
  using dashboard_uptime[of 3723004] by (simp add: two_digits_def dec_digit_hex hex_digits_def)

text \<open>
  The dashboard always returns, draws on the screen only, and updates only its table of tasks.
  Its task rows do not show the tasks: since the formatter knows no width, each row reads
  \<open>%-4d %-16s %-6s %-6u %-7u %-3d\<close>, whatever the task.
\<close>

theorem dashboard_task_rows:
  assumes "length (vga_mem s) = 2000"
  shows "\<exists>s'. dashboard_render s = Some s' \<and> length (vga_mem s') = 2000 \<and> (\<exists>m ps. s' = s\<lparr>vga_mem := m, processes := ps\<rparr>) \<and>
    (\<forall>i < 4. \<forall>k < length ''%-4d %-16s %-6s %-6u %-7u %-3d''. cell s' (2 + int k) (12 + int i) =
       vga_entry (''%-4d %-16s %-6s %-6u %-7u %-3d'' ! k) (if i mod 2 = 0 then COLOR_TEXT else COLOR_PRIMARY))"
  using dashboard_render_rows[OF assms] unfolding rows_shown_def process_format_def dash_frame_def by blast

definition dash_static :: dash_state where
  "dash_static = sysmon_state.extend (pit_state.extend (kbd_state.extend kbd_static (pit_state.fields 0 None))
     (sysmon_state.fields 0 False 0 0 0 0 0 zram_static)) (dash_state.fields processes_static)"

theorem dashboard_task_rows_witness:
  "\<exists>s'. dashboard_render (dash_static\<lparr>vga_mem := replicate 2000 0\<rparr>) = Some s' \<and> cell s' 2 12 = vga_entry (CHR ''%'') COLOR_TEXT"
proof -
  obtain s' where s': "dashboard_render (dash_static\<lparr>vga_mem := replicate 2000 0\<rparr>) = Some s'"
    "\<forall>i < 4. \<forall>k < length ''%-4d %-16s %-6s %-6u %-7u %-3d''. cell s' (2 + int k) (12 + int i) =
       vga_entry (''%-4d %-16s %-6s %-6u %-7u %-3d'' ! k) (if i mod 2 = 0 then COLOR_TEXT else COLOR_PRIMARY)"
    using dashboard_task_rows[of "dash_static\<lparr>vga_mem := replicate 2000 0\<rparr>"] by auto
  from s'(2)[THEN spec[of _ 0]] have "cell s' 2 12 = vga_entry (CHR ''%'') COLOR_TEXT" by (auto dest: spec[of _ 0])
  with s'(1) show ?thesis by blast
qed

end
