(* ===== verification/Menu.thy ===== *)
theory Menu
  imports Dashboard
begin

text \<open>
  The command shell: kernel/core/menu.c. Keys edit a command line of 64 cells, a command appends to
  a log of eight lines of 80 cells, and the screen shows both. A store outside a buffer has no
  result.
\<close>

section \<open>State\<close>

abbreviation CMD_MAX :: nat where
  "CMD_MAX \<equiv> 64"

abbreviation LOG_LINES :: nat where
  "LOG_LINES \<equiv> 8"

record menu_state = dash_state +
  cmd_buf :: "char list"
  cmd_len :: nat
  log_history :: "char list list"
  log_count :: nat
  active_view :: nat

section \<open>The log\<close>

text \<open>\<open>while (msg[i] && i < 78) row[i] = msg[i++]; row[i] = NUL;\<close>\<close>

fun copy_line :: "nat \<Rightarrow> string \<Rightarrow> char list \<Rightarrow> char list" where
  "copy_line i [] row = row[i := CHR 0x00]"
| "copy_line i (c # cs) row = (if i < 78 then copy_line (Suc i) cs (row[i := c]) else row[i := CHR 0x00])"

definition log_print :: "string \<Rightarrow> 'a menu_state_scheme \<Rightarrow> 'a menu_state_scheme" where
  "log_print msg s =
     (if log_count s < LOG_LINES then
        s\<lparr>log_history := (log_history s)[log_count s := copy_line 0 msg (log_history s ! log_count s)], log_count := log_count s + 1\<rparr>
      else
        let h = fold (\<lambda>row h. h[row := h ! (row + 1)]) [0..<LOG_LINES - 1] (log_history s)
        in s\<lparr>log_history := h[LOG_LINES - 1 := copy_line 0 msg (h ! (LOG_LINES - 1))]\<rparr>)"

definition menu_log :: "string \<Rightarrow> 'a menu_state_scheme \<Rightarrow> 'a menu_state_scheme" where
  "menu_log msg s = log_print msg s"

section \<open>Commands\<close>

fun str_eq :: "string \<Rightarrow> string \<Rightarrow> bool" where
  "str_eq (a # as) (b # bs) = (if a \<noteq> b then False else str_eq as bs)"
| "str_eq [] [] = True"
| "str_eq [] (b # bs) = (CHR 0x00 = b)"
| "str_eq (a # as) [] = (a = CHR 0x00)"

text \<open>
  How a command ends: it returns, it stops the processor for good, or it raises an exception, an
  invalid opcode or a page fault at an address, from which the panic handler goes on.
\<close>

datatype exec_end = Returns | Halted | Invalid_opcode | Page_fault u64

text \<open>A line built character by character in \<open>char line[80]\<close>, with its NUL.\<close>

definition line_text :: "string \<Rightarrow> string option" where
  "line_text t = (if length t + 1 \<le> 80 then Some t else None)"

definition mem_ram_line :: "sysmon_stats \<Rightarrow> string option" where
  "mem_ram_line st = do {
     used \<leftarrow> dec_do_loop 16 (ram_used_kb st div 1024);
     total \<leftarrow> dec_do_loop 16 (ram_total_kb st div 1024);
     line_text (''  PMM RAM: '' @ rev used @ ''/'' @ rev total @ '' MB'') }"

definition mem_zram_line :: "zram_stats \<Rightarrow> string option" where
  "mem_zram_line z = (let ratio = compression_ratio_x100 z in do {
     whole \<leftarrow> dec_do_loop 16 (ratio div 100);
     line_text (''  zRAM: '' @ rev whole @ ''.'' @ [digit_char (ucast (ratio mod 100 div 10))] @ ''x ratio'') })"

definition execute_command :: "string \<Rightarrow> 'a menu_state_scheme \<Rightarrow> (exec_end \<times> 'a menu_state_scheme) option" where
  "execute_command cmd s =
     (if cmd = [] then Some (Returns, s)
      else if str_eq cmd ''help'' then
        Some (Returns, fold log_print
          [''Commands:'',
           ''  info      - system & hardware status'',
           ''  mem       - physical memory, heap & zram stats'',
           ''  clear     - clear output log'',
           ''  dashboard - switch to full btop TUI dashboard'',
           ''  panic     - test kernel panic handler'',
           ''  pf        - test page fault handler (write to 0xdead0000)'',
           ''  halt      - halt CPU safely''] s)
      else if str_eq cmd ''info'' then
        Some (Returns, fold log_print
          [''[AuraOS v0.2.3] x86_64 freestanding C kernel'', ''Console: VGA 80x25 @ 0xB8000 + COM1 UART 115200''] s)
      else if str_eq cmd ''mem'' then do {
        s \<leftarrow> tui_printf_at 0 0 0 [] [] s;
        ram \<leftarrow> mem_ram_line (sysmon_get_stats s);
        s \<leftarrow> Some (log_print ram s);
        s \<leftarrow> Some (log_print ''  Kernel Heap: 4 MB pool (free-list allocator)'' s);
        zram \<leftarrow> mem_zram_line (zram_get_stats (memory s));
        Some (Returns, log_print zram s) }
      else if str_eq cmd ''clear'' then Some (Returns, s\<lparr>log_count := 0\<rparr>)
      else if str_eq cmd ''dashboard'' then
        map_option (Pair Returns) (dashboard_render (s\<lparr>active_view := 1\<rparr>))
      else if str_eq cmd ''halt'' then Some (Halted, log_print ''System halted.'' s)
      else if str_eq cmd ''panic'' then Some (Invalid_opcode, s)
      else if str_eq cmd ''pf'' then
        Some (Page_fault 0xdead0000, log_print ''Triggering page fault (write to 0xdead0000)...'' s)
      else Some (Returns, log_print ''Unknown command. Type 'help' for list.'' s))"

section \<open>The screen\<close>

definition log_row :: "nat \<Rightarrow> 'a menu_state_scheme \<Rightarrow> 'a menu_state_scheme option" where
  "log_row i s =
     (if i < log_count s then
        let t = c_string (log_history s ! i) in do {
          s \<leftarrow> tui_puts_at 2 (8 + int i) t COLOR_TEXT s;
          clear_row (2 + int (length t)) 78 (8 + int i) COLOR_DIM s }
      else clear_row 2 78 (8 + int i) COLOR_DIM s)"

definition status_box :: "'a menu_state_scheme \<Rightarrow> 'a menu_state_scheme option" where
  "status_box s =
     (let stats = sysmon_get_stats s in do {
        s \<leftarrow> tui_draw_box 0 1 80 5 COLOR_PRIMARY COLOR_TEXT (Some '' System Status '') (COLOR_PRIMARY \<noteq> 0) s;
        s \<leftarrow> tui_printf_at 2 2 COLOR_TEXT ''CPU Load: '' [] s;
        s \<leftarrow> tui_printf_at 12 2 COLOR_SUCCESS ''%u%%'' [CInt (ucast (cpu_load_pct stats))] s;
        s \<leftarrow> tui_printf_at 20 2 COLOR_TEXT ''Uptime: '' [] s;
        s \<leftarrow> tui_printf_at 28 2 COLOR_PRIMARY ''%u s'' [CInt (ucast (uptime_ms stats div 1000))] s;
        s \<leftarrow> tui_printf_at 40 2 COLOR_TEXT ''Ticks: '' [] s;
        s \<leftarrow> tui_printf_at 47 2 COLOR_PRIMARY ''%u'' [CInt (ucast (pit_get_ticks s))] s;
        s \<leftarrow> tui_printf_at 60 2 COLOR_TEXT ''PIT: '' [] s;
        s \<leftarrow> tui_printf_at 65 2 COLOR_WARN ''1000 Hz'' [] s;
        s \<leftarrow> tui_printf_at 2 3 COLOR_TEXT ''RAM Free: '' [] s;
        s \<leftarrow> tui_printf_at 12 3 COLOR_MAGENTA ''%u/%u MB'' [CInt (ram_used_kb stats div 1024), CInt (ram_total_kb stats div 1024)] s;
        s \<leftarrow> tui_printf_at 30 3 COLOR_TEXT ''Heap: '' [] s;
        s \<leftarrow> tui_printf_at 36 3 COLOR_MAGENTA ''%u KB'' [CInt (of_nat (heap_get_used (memory s) div 1024))] s;
        s \<leftarrow> tui_printf_at 50 3 COLOR_TEXT ''zRAM: '' [] s;
        tui_printf_at 56 3 COLOR_MAGENTA ''Active (RLE)'' [] s
      })"

definition log_box :: "'a menu_state_scheme \<Rightarrow> 'a menu_state_scheme option" where
  "log_box s = do {
     s \<leftarrow> tui_draw_box 0 6 80 14 COLOR_BORDER COLOR_TEXT (Some '' Console Output '') (COLOR_WARN \<noteq> 0) s;
     for_loop 0 LOG_LINES log_row s }"

definition command_box :: "'a menu_state_scheme \<Rightarrow> 'a menu_state_scheme option" where
  "command_box s = do {
     s \<leftarrow> tui_draw_box 0 20 80 3 COLOR_SUCCESS COLOR_TEXT (Some '' Command '') (COLOR_SUCCESS \<noteq> 0) s;
     s \<leftarrow> tui_printf_at 2 21 COLOR_SUCCESS ''aura> %s'' [CStr (Some (c_string (cmd_buf s)))] s;
     s \<leftarrow> tui_putc_at (8 + int (cmd_len s)) 21 (CHR ''_'') COLOR_WARN s;
     clear_row (9 + int (cmd_len s)) 78 21 COLOR_DIM s }"

definition menu_render :: "'a menu_state_scheme \<Rightarrow> 'a menu_state_scheme option" where
  "menu_render s =
     (if active_view s = 1 then dashboard_render s
      else do {
        s \<leftarrow> tui_draw_header '' AuraOS Boot Menu & Shell '' (Some ''v0.3.1'') s;
        s \<leftarrow> status_box s;
        s \<leftarrow> log_box s;
        s \<leftarrow> command_box s;
        tui_draw_footer '' Type 'help' | Commands: info, mem, dashboard, panic, halt '' s
      })"

definition menu_update :: "'a menu_state_scheme \<Rightarrow> 'a menu_state_scheme option" where
  "menu_update s =
     (if active_view s = 0 then
        let stats = sysmon_get_stats s in do {
          s \<leftarrow> tui_printf_at 12 2 COLOR_SUCCESS ''%u%% '' [CInt (ucast (cpu_load_pct stats))] s;
          s \<leftarrow> tui_printf_at 28 2 COLOR_PRIMARY ''%u s  '' [CInt (ucast (uptime_ms stats div 1000))] s;
          tui_printf_at 47 2 COLOR_PRIMARY ''%u   '' [CInt (ucast (pit_get_ticks s))] s }
      else dashboard_render s)"

section \<open>Keys\<close>

definition cmd_store :: "nat \<Rightarrow> char \<Rightarrow> 'a menu_state_scheme \<Rightarrow> 'a menu_state_scheme option" where
  "cmd_store i c s = (if i < CMD_MAX then Some (s\<lparr>cmd_buf := (cmd_buf s)[i := c]\<rparr>) else None)"

definition menu_init :: "'a menu_state_scheme \<Rightarrow> 'a menu_state_scheme" where
  "menu_init s =
     fold log_print [''AuraOS Command Shell ready.'', ''Type 'help' for commands, or 'dashboard' for btop view.'']
       (s\<lparr>cmd_len := 0, cmd_buf := (cmd_buf s)[0 := CHR 0x00], log_count := 0, active_view := 0\<rparr>)"

text \<open>\<open>c >= ' ' && c <= '~'\<close>, where \<open>char\<close> is signed.\<close>

definition printable :: "char \<Rightarrow> bool" where
  "printable c \<longleftrightarrow> 32 \<le> (of_char c :: nat) \<and> (of_char c :: nat) \<le> 126"

text \<open>The body of the branch for the return key, up to the rendering.\<close>

definition enter_command :: "'a menu_state_scheme \<Rightarrow> (exec_end \<times> 'a menu_state_scheme) option" where
  "enter_command s = do {
     s \<leftarrow> cmd_store (cmd_len s) (CHR 0x00) s;
     echo \<leftarrow> line_text (''> '' @ take 70 (c_string (cmd_buf s)));
     s \<leftarrow> Some (log_print echo s);
     execute_command (c_string (cmd_buf s)) s }"

definition menu_handle_key :: "char \<Rightarrow> 'a menu_state_scheme \<Rightarrow> (exec_end \<times> 'a menu_state_scheme) option" where
  "menu_handle_key c s =
     (if active_view s = 1 then
        if c = CHR ''q'' \<or> c = CHR ''Q'' \<or> c = CHR 0x1B then map_option (Pair Returns) (menu_render (s\<lparr>active_view := 0\<rparr>))
        else if c = CHR ''r'' \<or> c = CHR ''R'' then map_option (Pair Returns) (dashboard_render s)
        else Some (Returns, s)
      else if c = CHR 0x0A \<or> c = CHR 0x0D then do {
        (e, s) \<leftarrow> enter_command s;
        if e = Returns then do {
          s \<leftarrow> cmd_store 0 (CHR 0x00) (s\<lparr>cmd_len := 0\<rparr>);
          map_option (Pair Returns) (menu_render s) }
        else Some (e, s) }
      else if c = CHR 0x08 then
        if 0 < cmd_len s then do {
          s \<leftarrow> cmd_store (cmd_len s - 1) (CHR 0x00) (s\<lparr>cmd_len := cmd_len s - 1\<rparr>);
          map_option (Pair Returns) (menu_render s) }
        else Some (Returns, s)
      else if printable c then
        if cmd_len s < CMD_MAX - 1 then do {
          s \<leftarrow> cmd_store (cmd_len s) c s;
          s \<leftarrow> cmd_store (cmd_len s + 1) (CHR 0x00) (s\<lparr>cmd_len := cmd_len s + 1\<rparr>);
          map_option (Pair Returns) (menu_render s) }
        else Some (Returns, s)
      else Some (Returns, s))"

section \<open>The log as lines\<close>

definition log_ok :: "'a menu_state_scheme \<Rightarrow> bool" where
  "log_ok s \<longleftrightarrow> length (log_history s) = LOG_LINES \<and> (\<forall>r \<in> set (log_history s). length r = 80) \<and> log_count s \<le> LOG_LINES \<and>
     (\<forall>i < log_count s. length (c_string (log_history s ! i)) \<le> 78)"

definition log_lines :: "'a menu_state_scheme \<Rightarrow> string list" where
  "log_lines s = map c_string (take (log_count s) (log_history s))"

text \<open>The specification: the last eight lines, each cut off after 78 characters.\<close>

definition last_lines :: "string list \<Rightarrow> string list" where
  "last_lines ls = drop (length ls - LOG_LINES) ls"

lemma copy_line_eq:
  "i \<le> 78 \<Longrightarrow> length row = 80 \<Longrightarrow>
    copy_line i msg row = take i row @ take (78 - i) msg @ CHR 0x00 # drop (Suc (i + min (length msg) (78 - i))) row"
proof (induction i msg row rule: copy_line.induct)
  case (1 i row)
  then show ?case by (simp add: upd_conv_take_nth_drop)
next
  case (2 i c cs row)
  show ?case
  proof (cases "i < 78")
    case True
    then have "copy_line (Suc i) cs (row[i := c]) = take (Suc i) (row[i := c]) @ take (78 - Suc i) cs @
        CHR 0x00 # drop (Suc (Suc i + min (length cs) (78 - Suc i))) (row[i := c])"
      using 2 by simp
    moreover have "take (Suc i) (row[i := c]) = take i row @ [c]" using True 2(3) by (simp add: take_Suc_conv_app_nth)
    moreover have "Suc i + min (length cs) (78 - Suc i) = i + min (length (c # cs)) (78 - i)" using True by auto
    moreover have "78 - i = Suc (78 - Suc i)" using True by simp
    ultimately show ?thesis using True by simp
  next
    case False
    then show ?thesis using 2(2,3) by (simp add: upd_conv_take_nth_drop)
  qed
qed

lemma c_string_append: "CHR 0x00 \<notin> set t \<Longrightarrow> c_string (t @ CHR 0x00 # r) = t"
  by (induction t) (auto simp: c_string_def)

lemma copy_line_string:
  assumes "length row = 80" and "CHR 0x00 \<notin> set msg"
  shows "length (copy_line 0 msg row) = 80" and "c_string (copy_line 0 msg row) = take 78 msg"
proof -
  note e = copy_line_eq[of 0 row msg, simplified, OF assms(1)]
  show "length (copy_line 0 msg row) = 80" unfolding e using assms(1) by (simp add: min_def)
  have "CHR 0x00 \<notin> set (take 78 msg)" using assms(2) by (auto dest: in_set_takeD)
  then show "c_string (copy_line 0 msg row) = take 78 msg" unfolding e by (rule c_string_append)
qed

lemma shift_rows:
  assumes "length h = 8"
  shows "fold (\<lambda>row h. h[row := h ! (row + 1)]) [0..<8 - 1] h = tl h @ [h ! 7]"
proof -
  obtain a0 a1 a2 a3 a4 a5 a6 a7 where "h = [a0, a1, a2, a3, a4, a5, a6, a7]"
    using assms by (auto simp: length_Suc_conv eval_nat_numeral)
  then show ?thesis by (simp add: upt_conv_Cons)
qed

lemma log_print_lines:
  assumes "log_ok s" and "CHR 0x00 \<notin> set msg"
  shows "log_ok (log_print msg s)" and "log_lines (log_print msg s) = last_lines (log_lines s @ [take 78 msg])"
proof -
  have ok: "length (log_history s) = 8" "\<And>r. r \<in> set (log_history s) \<Longrightarrow> length r = 80" "log_count s \<le> 8"
    "\<And>i. i < log_count s \<Longrightarrow> length (c_string (log_history s ! i)) \<le> 78"
    using assms(1) by (simp_all add: log_ok_def)
  have "log_ok (log_print msg s) \<and> log_lines (log_print msg s) = last_lines (log_lines s @ [take 78 msg])"
  proof (cases "log_count s < 8")
    case True
    let ?n = "log_count s"
    let ?row = "copy_line 0 msg (log_history s ! ?n)"
    have row: "length ?row = 80" "c_string ?row = take 78 msg"
      using copy_line_string[OF _ assms(2)] ok(1,2) True by simp_all
    have lp: "log_print msg s = s\<lparr>log_history := (log_history s)[?n := ?row], log_count := ?n + 1\<rparr>"
      using True by (simp add: log_print_def)
    have "log_ok (log_print msg s)"
      unfolding log_ok_def lp using ok row True
      by (auto simp: nth_list_update less_Suc_eq dest!: set_update_subset_insert[THEN subsetD])
    moreover have "log_lines (log_print msg s) = log_lines s @ [take 78 msg]"
      unfolding log_lines_def lp using row ok(1) True by (simp add: take_Suc_conv_app_nth)
    ultimately show ?thesis using ok(1) True by (simp add: last_lines_def log_lines_def)
  next
    case False
    then have n: "log_count s = 8" using ok(3) by simp
    let ?h = "tl (log_history s) @ [log_history s ! 7]"
    let ?row = "copy_line 0 msg (?h ! 7)"
    have h7: "?h ! 7 = log_history s ! 7" using ok(1) by (simp add: nth_append)
    have row: "length ?row = 80" "c_string ?row = take 78 msg"
      unfolding h7 using copy_line_string[OF _ assms(2)] ok(1,2) by simp_all
    have upd: "?h[7 := ?row] = tl (log_history s) @ [?row]" using ok(1) by (simp add: list_update_append)
    have lp: "log_print msg s = s\<lparr>log_history := tl (log_history s) @ [?row]\<rparr>"
      using n shift_rows[OF ok(1)] upd by (simp add: log_print_def Let_def)
    have "log_ok (log_print msg s)"
      unfolding log_ok_def lp using ok row n
      by (auto simp: nth_append nth_tl less_Suc_eq dest!: list.set_sel(2)[rotated])
    moreover have "log_lines (log_print msg s) = tl (log_lines s) @ [take 78 msg]"
      unfolding log_lines_def lp using row ok(1) n by (simp add: map_tl)
    ultimately show ?thesis using ok(1) n by (simp add: last_lines_def log_lines_def drop_Suc)
  qed
  then show "log_ok (log_print msg s)" "log_lines (log_print msg s) = last_lines (log_lines s @ [take 78 msg])" by simp_all
qed

section \<open>The screen always renders\<close>

lemma drew_for:
  assumes "\<And>i s. length (vga_mem s) = 2000 \<Longrightarrow> drew (f i s) s" and "length (vga_mem s) = 2000" and "a \<le> b"
  shows "drew (for_loop a b f s) s"
proof -
  have "\<exists>s'. for_loop a b f s = Some s' \<and> (\<exists>ov. drawn ov s s')"
  proof (rule for_loop_rule[where P = "\<lambda>i s'. \<exists>ov. drawn ov s s'"])
    show "\<exists>ov. drawn ov s s" using draws_skip[OF assms(2)] by (auto simp: draws_def)
  next
    fix i t assume "\<exists>ov. drawn ov s t"
    then obtain ov where t: "drawn ov s t" by blast
    then obtain t' ov' where t': "f i t = Some t'" "drawn ov' t t'"
      using assms(1)[OF drawn_length[OF t], of i] unfolding drew_def draws_def by blast
    then show "\<exists>s'. f i t = Some s' \<and> (\<exists>ov. drawn ov s s')" using drawn_trans[OF t t'(2)] by blast
  qed (rule assms(3))
  then show ?thesis by (auto simp: drew_def draws_def)
qed

lemma drew_log_row: "length (vga_mem s) = 2000 \<Longrightarrow> drew (log_row i s) s"
  unfolding log_row_def Let_def
  by (cases "i < log_count s") (simp_all add: drew_bind drew_calls drawn_length)

lemma drew_status_box: "length (vga_mem s) = 2000 \<Longrightarrow> drew (status_box s) s"
  unfolding status_box_def Let_def
  by (intro drew_bind drew_printf drew_bar draws_box[THEN drewI]; (erule drawn_length)?; simp)

lemma drew_log_box: "length (vga_mem s) = 2000 \<Longrightarrow> drew (log_box s) s"
  unfolding log_box_def by (intro drew_bind drew_for drew_log_row draws_box[THEN drewI]) (auto dest: drawn_length)

lemma drew_command_box: "length (vga_mem s) = 2000 \<Longrightarrow> drew (command_box s) s"
  unfolding command_box_def
  by (intro drew_bind drew_printf drew_calls draws_box[THEN drewI]; (erule drawn_length)?; simp)

text \<open>What drawing leaves alone, as seen by the shell.\<close>

definition menu_frame :: "'a menu_state_scheme \<Rightarrow> 'a menu_state_scheme \<Rightarrow> bool" where
  "menu_frame s s' \<longleftrightarrow> dash_frame s s' \<and> length (vga_mem s') = 2000"

lemma menu_frame_fields:
  assumes "menu_frame s s'"
  shows "cmd_buf s' = cmd_buf s" "cmd_len s' = cmd_len s" "log_history s' = log_history s" "log_count s' = log_count s"
    "active_view s' = active_view s" "length (vga_mem s') = 2000"
  using assms by (auto simp: menu_frame_def dash_frame_def)

lemma drew_frame: "drew r s \<Longrightarrow> \<exists>s'. r = Some s' \<and> menu_frame s s'"
  using dash_frame_drawn[OF dash_frame_refl] drawn_length unfolding drew_def draws_def menu_frame_def by blast

lemma dashboard_frame: "length (vga_mem s) = 2000 \<Longrightarrow> \<exists>s'. dashboard_render s = Some s' \<and> menu_frame s s'"
  using dashboard_render_rows[of s] by (auto simp: menu_frame_def)

lemma menu_render_frame: "length (vga_mem s) = 2000 \<Longrightarrow> \<exists>s'. menu_render s = Some s' \<and> menu_frame s s'"
proof (cases "active_view s = 1")
  case False
  assume "length (vga_mem s) = 2000"
  then have "drew (menu_render s) s"
    unfolding menu_render_def using False
    by (simp add: drew_bind drew_header drew_status_box drew_log_box drew_command_box drew_footer drawn_length)
  then show ?thesis by (rule drew_frame)
qed (simp add: menu_render_def dashboard_frame)

lemma menu_update_frame: "length (vga_mem s) = 2000 \<Longrightarrow> \<exists>s'. menu_update s = Some s' \<and> menu_frame s s'"
proof (cases "active_view s = 0")
  case True
  assume l: "length (vga_mem s) = 2000"
  have "drew (menu_update s) s"
    unfolding menu_update_def if_P[OF True] Let_def
    by (intro drew_bind drew_printf) (use l in \<open>auto dest: drawn_length\<close>)
  then show ?thesis by (rule drew_frame)
qed (simp add: menu_update_def dashboard_frame)

section \<open>Commands always end\<close>

lemma str_eq_iff: "CHR 0x00 \<notin> set a \<Longrightarrow> CHR 0x00 \<notin> set b \<Longrightarrow> str_eq a b \<longleftrightarrow> a = b"
  by (induction a b rule: str_eq.induct) auto

lemma numeral_of_chars: "b \<le> 16 \<Longrightarrow> set (numeral_of b n) \<subseteq> set hex_digits"
proof (induction b n rule: numeral_of.induct)
  case (1 b n)
  show ?case
  proof (cases "n = 0 \<or> b < 2")
    case False
    then have "n mod b < b" by simp
    then have "n mod b < 16" using 1(2) by linarith
    then have "hex_digits ! (n mod b) \<in> set hex_digits" by simp
    then show ?thesis using 1 False by (subst numeral_of.simps) auto
  qed (subst numeral_of.simps, auto)
qed

lemma number_text_no_NUL: "CHR 0x00 \<notin> set (number_text 10 n)"
proof -
  have "CHR 0x00 \<notin> set hex_digits" "CHR 0x00 \<noteq> CHR ''0''" by (simp_all add: hex_digits_def)
  then show ?thesis using numeral_of_chars[of 10 n] by (auto simp: number_text_def)
qed

lemma length_number_text: "length (number_text 10 (unat v)) \<le> 10" for v :: u32
  using length_dec_u32[of v] by (simp add: number_text_def)

lemma mem_ram_line_ok: "\<exists>t. mem_ram_line st = Some t \<and> CHR 0x00 \<notin> set t"
proof -
  let ?a = "number_text 10 (unat (ram_used_kb st div 1024))" and ?b = "number_text 10 (unat (ram_total_kb st div 1024))"
  have "mem_ram_line st = Some (''  PMM RAM: '' @ ?a @ ''/'' @ ?b @ '' MB'')"
    using length_number_text[of "ram_used_kb st div 1024"] length_number_text[of "ram_total_kb st div 1024"]
    by (simp add: mem_ram_line_def dec_do_loop_text line_text_def)
  then show ?thesis using number_text_no_NUL by auto
qed

lemma mem_zram_line_ok: "\<exists>t. mem_zram_line z = Some t \<and> CHR 0x00 \<notin> set t"
proof -
  let ?r = "compression_ratio_x100 z"
  let ?a = "number_text 10 (unat (?r div 100))" and ?d = "digit_char (ucast (?r mod 100 div 10))"
  have "mem_zram_line z = Some (''  zRAM: '' @ ?a @ ''.'' @ [?d] @ ''x ratio'')"
    using length_number_text[of "?r div 100"] by (simp add: mem_zram_line_def dec_do_loop_text line_text_def Let_def)
  moreover have "?d \<noteq> CHR 0x00"
  proof
    assume "?d = CHR 0x00"
    have "unat (?r mod 100 div 10) < 10" by (simp add: unat_div unat_mod less_mult_imp_div_less)
    then have "unat (ucast (?r mod 100 div 10) :: u64) < 10" by (simp add: unsigned_ucast_eq take_bit_nat_eq_self)
    then have "?d = char_of (48 + unat (ucast (?r mod 100 div 10) :: u64))" "48 + unat (ucast (?r mod 100 div 10) :: u64) < 256"
      by (simp_all add: digit_char_dec)
    then have "of_char ?d = 48 + unat (ucast (?r mod 100 div 10) :: u64)" by (simp add: of_char_of)
    then show False unfolding \<open>?d = CHR 0x00\<close> by simp
  qed
  ultimately show ?thesis using number_text_no_NUL by auto
qed

section \<open>The command line\<close>

definition cmd_ok :: "'a menu_state_scheme \<Rightarrow> bool" where
  "cmd_ok s \<longleftrightarrow> length (cmd_buf s) = CMD_MAX \<and> cmd_len s < CMD_MAX \<and> cmd_buf s ! cmd_len s = CHR 0x00 \<and>
     (\<forall>i < cmd_len s. cmd_buf s ! i \<noteq> CHR 0x00)"

definition cmd_line :: "'a menu_state_scheme \<Rightarrow> string" where
  "cmd_line s = c_string (cmd_buf s)"

definition menu_ok :: "'a menu_state_scheme \<Rightarrow> bool" where
  "menu_ok s \<longleftrightarrow> length (vga_mem s) = 2000 \<and> cmd_ok s \<and> log_ok s"

lemma cmd_line_take:
  assumes "cmd_ok s"
  shows "cmd_line s = take (cmd_len s) (cmd_buf s)" and "length (cmd_line s) = cmd_len s" and "CHR 0x00 \<notin> set (cmd_line s)"
proof -
  have ok: "length (cmd_buf s) = 64" "cmd_len s < 64" "cmd_buf s ! cmd_len s = CHR 0x00" "\<forall>i < cmd_len s. cmd_buf s ! i \<noteq> CHR 0x00"
    using assms by (simp_all add: cmd_ok_def)
  have n: "CHR 0x00 \<notin> set (take (cmd_len s) (cmd_buf s))" using ok by (auto simp: in_set_conv_nth)
  have "cmd_buf s = take (cmd_len s) (cmd_buf s) @ CHR 0x00 # drop (Suc (cmd_len s)) (cmd_buf s)"
    using ok(1,2,3) id_take_nth_drop[of "cmd_len s" "cmd_buf s"] by simp
  then show e: "cmd_line s = take (cmd_len s) (cmd_buf s)" unfolding cmd_line_def by (metis c_string_append[OF n])
  show "length (cmd_line s) = cmd_len s" "CHR 0x00 \<notin> set (cmd_line s)" using e n ok by simp_all
qed

lemma cmd_ok_frame: "menu_frame s s' \<Longrightarrow> cmd_ok s' = cmd_ok s" "menu_frame s s' \<Longrightarrow> log_ok s' = log_ok s"
  "menu_frame s s' \<Longrightarrow> cmd_line s' = cmd_line s" "menu_frame s s' \<Longrightarrow> log_lines s' = log_lines s"
  by (simp_all add: cmd_ok_def log_ok_def cmd_line_def log_lines_def menu_frame_fields)

lemma log_print_other [simp]:
  "cmd_buf (log_print m s) = cmd_buf s" "cmd_len (log_print m s) = cmd_len s" "active_view (log_print m s) = active_view s"
  "vga_mem (log_print m s) = vga_mem s"
  by (simp_all add: log_print_def Let_def)

lemma log_prints:
  assumes "log_ok s" and "\<forall>m \<in> set ms. CHR 0x00 \<notin> set m"
  shows "log_ok (fold log_print ms s) \<and> cmd_buf (fold log_print ms s) = cmd_buf s \<and> cmd_len (fold log_print ms s) = cmd_len s \<and>
    active_view (fold log_print ms s) = active_view s \<and> vga_mem (fold log_print ms s) = vga_mem s"
  using assms by (induction ms arbitrary: s) (simp_all add: log_print_lines)

text \<open>How each command ends.\<close>

definition command_end :: "string \<Rightarrow> exec_end" where
  "command_end cmd = (if cmd = ''halt'' then Halted else if cmd = ''panic'' then Invalid_opcode
     else if cmd = ''pf'' then Page_fault 0xdead0000 else Returns)"

definition same_line :: "'a menu_state_scheme \<Rightarrow> 'a menu_state_scheme \<Rightarrow> bool" where
  "same_line s s' \<longleftrightarrow> cmd_buf s' = cmd_buf s \<and> cmd_len s' = cmd_len s \<and> length (vga_mem s') = 2000 \<and> log_ok s'"

lemma execute_command_ends:
  assumes "length (vga_mem s) = 2000" and "log_ok s" and "CHR 0x00 \<notin> set cmd"
  shows "\<exists>s'. execute_command cmd s = Some (command_end cmd, s') \<and> same_line s s' \<and>
    active_view s' = (if cmd = ''dashboard'' then 1 else active_view s)"
proof -
  have eq: "str_eq cmd k \<longleftrightarrow> cmd = k" if "CHR 0x00 \<notin> set k" for k by (rule str_eq_iff[OF assms(3) that])
  note logs = log_prints[OF assms(2)] log_print_lines(1)[OF assms(2)]
  consider "cmd = []" | "cmd = ''help''" | "cmd = ''info''" | "cmd = ''mem''" | "cmd = ''clear''" | "cmd = ''dashboard''"
    | "cmd = ''halt''" | "cmd = ''panic''" | "cmd = ''pf''"
    | "cmd \<noteq> []" "cmd \<noteq> ''help''" "cmd \<noteq> ''info''" "cmd \<noteq> ''mem''" "cmd \<noteq> ''clear''" "cmd \<noteq> ''dashboard''"
      "cmd \<noteq> ''halt''" "cmd \<noteq> ''panic''" "cmd \<noteq> ''pf''"
    by satx
  then show ?thesis
  proof cases
    case 4
    have "tui_text [] [] = Some []" by (simp add: tui_text_def buf_push_def)
    from draws_printf_text[OF this assms(1)] drewI obtain s1 where s1: "tui_printf_at 0 0 0 [] [] s = Some s1" "menu_frame s s1"
      using drew_frame by blast
    have l1: "log_ok s1" using cmd_ok_frame(2)[OF s1(2)] assms(2) by simp
    obtain r where r: "mem_ram_line (sysmon_get_stats s1) = Some r" "CHR 0x00 \<notin> set r" using mem_ram_line_ok by blast
    define s2 where "s2 = fold log_print [r, ''  Kernel Heap: 4 MB pool (free-list allocator)''] s1"
    obtain z where z: "mem_zram_line (zram_get_stats (memory s2)) = Some z" "CHR 0x00 \<notin> set z" using mem_zram_line_ok by blast
    have l2: "log_ok s2 \<and> cmd_buf s2 = cmd_buf s1 \<and> cmd_len s2 = cmd_len s1 \<and> active_view s2 = active_view s1 \<and> vga_mem s2 = vga_mem s1"
      unfolding s2_def by (rule log_prints[OF l1]) (use r in simp)
    have "execute_command cmd s = Some (Returns, log_print z s2)"
      using s1(1) r(1) z(1) by (simp add: execute_command_def 4 s2_def)
    then show ?thesis
      using l2 z(2) log_print_lines(1)[of s2 z] menu_frame_fields[OF s1(2)] by (simp add: 4 command_end_def same_line_def)
  next
    case 6
    have ok: "log_ok (s\<lparr>active_view := 1\<rparr>)" using assms(2) by (simp add: log_ok_def)
    obtain s' where s': "dashboard_render (s\<lparr>active_view := 1\<rparr>) = Some s'" "menu_frame (s\<lparr>active_view := 1\<rparr>) s'"
      using dashboard_frame[of "s\<lparr>active_view := 1\<rparr>"] assms(1) by auto
    have "execute_command cmd s = Some (Returns, s')" using s'(1) by (simp add: execute_command_def 6)
    then show ?thesis
      using menu_frame_fields[OF s'(2)] cmd_ok_frame(2)[OF s'(2)] ok by (simp add: 6 command_end_def same_line_def)
  next
    case 5
    have "log_ok (s\<lparr>log_count := 0\<rparr>)" using assms(2) by (simp add: log_ok_def)
    then show ?thesis using assms(1) by (simp add: execute_command_def 5 command_end_def same_line_def)
  next
    case 10
    then show ?thesis
      using assms(1) logs(2)[of "''Unknown command. Type 'help' for list.''"]
      by (simp add: execute_command_def eq command_end_def same_line_def)
  qed (use assms(1,2) in \<open>simp_all add: execute_command_def command_end_def same_line_def log_print_lines(1)\<close>)
qed

section \<open>One key\<close>

lemma render_keeps:
  assumes "menu_ok s"
  shows "\<exists>s'. menu_render s = Some s' \<and> menu_ok s' \<and> cmd_line s' = cmd_line s \<and> log_lines s' = log_lines s \<and> active_view s' = active_view s"
proof -
  obtain s' where s': "menu_render s = Some s'" "menu_frame s s'"
    using menu_render_frame[of s] assms by (auto simp: menu_ok_def)
  then show ?thesis
    using assms cmd_ok_frame[OF s'(2)] menu_frame_fields[OF s'(2)] by (simp add: menu_ok_def)
qed

lemma dashboard_keeps:
  assumes "menu_ok s"
  shows "\<exists>s'. dashboard_render s = Some s' \<and> menu_ok s' \<and> cmd_line s' = cmd_line s \<and> log_lines s' = log_lines s \<and> active_view s' = active_view s"
proof -
  obtain s' where s': "dashboard_render s = Some s'" "menu_frame s s'"
    using dashboard_frame[of s] assms by (auto simp: menu_ok_def)
  then show ?thesis
    using assms cmd_ok_frame[OF s'(2)] menu_frame_fields[OF s'(2)] by (simp add: menu_ok_def)
qed

lemma view_keeps: "menu_ok (s\<lparr>active_view := v\<rparr>) = menu_ok s" "cmd_line (s\<lparr>active_view := v\<rparr>) = cmd_line s"
  "log_lines (s\<lparr>active_view := v\<rparr>) = log_lines s"
  by (simp_all add: menu_ok_def cmd_ok_def log_ok_def cmd_line_def log_lines_def)

lemma type_char:
  assumes "menu_ok s" and "cmd_len s < 63" and "c \<noteq> CHR 0x00"
  defines "s' \<equiv> s\<lparr>cmd_len := cmd_len s + 1, cmd_buf := (cmd_buf s)[cmd_len s := c, cmd_len s + 1 := CHR 0x00]\<rparr>"
  shows "menu_ok s'" "cmd_line s' = cmd_line s @ [c]" "log_lines s' = log_lines s"
proof -
  have ok: "cmd_ok s" using assms(1) by (simp add: menu_ok_def)
  then have ok': "cmd_ok s'" using assms(2,3) by (auto simp: cmd_ok_def s'_def nth_list_update less_Suc_eq)
  show "cmd_line s' = cmd_line s @ [c]"
    unfolding cmd_line_take(1)[OF ok] cmd_line_take(1)[OF ok'] using ok assms(2)
    by (simp add: s'_def cmd_ok_def take_Suc_conv_app_nth)
  show "menu_ok s'" "log_lines s' = log_lines s"
    using assms(1) ok' by (simp_all add: menu_ok_def s'_def log_ok_def log_lines_def)
qed

lemma erase_char:
  assumes "menu_ok s" and "0 < cmd_len s"
  defines "s' \<equiv> s\<lparr>cmd_len := cmd_len s - 1, cmd_buf := (cmd_buf s)[cmd_len s - 1 := CHR 0x00]\<rparr>"
  shows "menu_ok s'" "cmd_line s' = butlast (cmd_line s)" "log_lines s' = log_lines s"
proof -
  have ok: "cmd_ok s" using assms(1) by (simp add: menu_ok_def)
  then have ok': "cmd_ok s'" using assms(2) by (auto simp: cmd_ok_def s'_def nth_list_update)
  show "cmd_line s' = butlast (cmd_line s)"
    unfolding cmd_line_take(1)[OF ok] cmd_line_take(1)[OF ok'] using ok assms(2)
    by (simp add: s'_def cmd_ok_def butlast_take)
  show "menu_ok s'" "log_lines s' = log_lines s"
    using assms(1) ok' by (simp_all add: menu_ok_def s'_def log_ok_def log_lines_def)
qed

text \<open>The line editor as it should be: a character is appended while there is room, backspace takes the last one.\<close>

definition edit_line :: "char \<Rightarrow> string \<Rightarrow> string" where
  "edit_line c l = (if c = CHR 0x08 then butlast l else if printable c \<and> length l < CMD_MAX - 1 then l @ [c] else l)"

lemma edit_key:
  assumes "menu_ok s" and "active_view s \<noteq> 1" and "c \<noteq> CHR 0x0A" and "c \<noteq> CHR 0x0D"
  shows "\<exists>s'. menu_handle_key c s = Some (Returns, s') \<and> menu_ok s' \<and> cmd_line s' = edit_line c (cmd_line s) \<and>
    log_lines s' = log_lines s \<and> active_view s' = active_view s"
proof -
  have ok: "cmd_ok s" using assms(1) by (simp add: menu_ok_def)
  note l = cmd_line_take(2)[OF ok]
  have stay: "edit_line c (cmd_line s) = cmd_line s \<Longrightarrow> menu_handle_key c s = Some (Returns, s) \<Longrightarrow> ?thesis"
    using assms(1) by simp
  consider (erase) "c = CHR 0x08" "0 < cmd_len s" | (empty) "c = CHR 0x08" "cmd_len s = 0"
    | (type) "c \<noteq> CHR 0x08" "printable c" "cmd_len s < 63" | (ignore) "c \<noteq> CHR 0x08" "\<not> (printable c \<and> cmd_len s < 63)"
    by auto
  then show ?thesis
  proof cases
    case erase
    note e = erase_char[OF assms(1) erase(2)]
    obtain s' where s': "menu_render (s\<lparr>cmd_len := cmd_len s - 1, cmd_buf := (cmd_buf s)[cmd_len s - 1 := CHR 0x00]\<rparr>) = Some s'" "menu_ok s'"
      "cmd_line s' = butlast (cmd_line s)" "log_lines s' = log_lines s" "active_view s' = active_view s"
      using render_keeps[OF e(1)] e(2,3) by auto
    have "cmd_len s < 64" using ok by (simp add: cmd_ok_def)
    then have "cmd_len s - 1 < 64" by simp
    then have "menu_handle_key c s = Some (Returns, s')"
      using s'(1) erase assms(2) by (simp add: menu_handle_key_def cmd_store_def)
    with s' erase show ?thesis by (simp add: edit_line_def)
  next
    case type
    have "c \<noteq> CHR 0x00" using type(2) by (auto simp: printable_def)
    note e = type_char[OF assms(1) type(3) this]
    obtain s' where s': "menu_render (s\<lparr>cmd_len := cmd_len s + 1, cmd_buf := (cmd_buf s)[cmd_len s := c, cmd_len s + 1 := CHR 0x00]\<rparr>) = Some s'" "menu_ok s'"
      "cmd_line s' = cmd_line s @ [c]" "log_lines s' = log_lines s" "active_view s' = active_view s"
      using render_keeps[OF e(1)] e(2,3) by auto
    have r: "s\<lparr>cmd_buf := b1, cmd_len := n, cmd_buf := b2\<rparr> = s\<lparr>cmd_len := n, cmd_buf := b2\<rparr>" for b1 b2 n by simp
    have "menu_handle_key c s = Some (Returns, s')"
      using s'(1) type assms(2-4) r by (simp add: menu_handle_key_def cmd_store_def)
    with s' type l show ?thesis by (simp add: edit_line_def)
  qed (use assms l in \<open>auto simp: menu_handle_key_def edit_line_def\<close>)
qed

lemma cmd_line_log: "cmd_line (log_print m s) = cmd_line s"
  by (simp add: cmd_line_def)

lemma enter_key:
  assumes "menu_ok s" and "active_view s \<noteq> 1" and "c = CHR 0x0A \<or> c = CHR 0x0D"
  shows "\<exists>s'. menu_handle_key c s = Some (command_end (cmd_line s), s') \<and> menu_ok s' \<and>
    cmd_line s' = (if command_end (cmd_line s) = Returns then [] else cmd_line s) \<and>
    active_view s' = (if cmd_line s = ''dashboard'' then 1 else active_view s)"
proof -
  have ok: "cmd_ok s" "log_ok s" "length (vga_mem s) = 2000" using assms(1) by (simp_all add: menu_ok_def)
  note l = cmd_line_take[OF ok(1)]
  have b: "cmd_len s < 64" "length (cmd_buf s) = 64" "(cmd_buf s)[cmd_len s := CHR 0x00] = cmd_buf s"
    using ok(1) by (simp_all add: cmd_ok_def list_update_same_conv)
  have len: "length (cmd_line s) \<le> 70" using l(2) b(1) by simp
  define s1 where "s1 = log_print (''> '' @ cmd_line s) s"
  have NUL: "CHR 0x00 \<notin> set (''> '' @ cmd_line s)" using l(3) by simp
  have s1: "log_ok s1" "length (vga_mem s1) = 2000" "cmd_buf s1 = cmd_buf s" "cmd_len s1 = cmd_len s" "active_view s1 = active_view s"
    using log_print_lines(1)[OF ok(2) NUL] ok(3) by (simp_all add: s1_def)
  obtain s2 where s2: "execute_command (cmd_line s) s1 = Some (command_end (cmd_line s), s2)" "same_line s1 s2"
    "active_view s2 = (if cmd_line s = ''dashboard'' then 1 else active_view s)"
    using execute_command_ends[OF s1(2,1) l(3)] s1(5) by auto
  have en: "enter_command s = Some (command_end (cmd_line s), s2)"
    using b len s2(1) by (simp add: enter_command_def cmd_store_def line_text_def cmd_line_def[symmetric] cmd_line_log s1_def)
  have ok2: "menu_ok s2" "cmd_line s2 = cmd_line s"
    using s2(2) s1 ok(1) by (simp_all add: same_line_def menu_ok_def cmd_ok_def cmd_line_def)
  show ?thesis
  proof (cases "command_end (cmd_line s) = Returns")
    case False
    then show ?thesis using en ok2 s2(3) assms(2,3) by (auto simp: menu_handle_key_def)
  next
    case True
    define s3 where "s3 = s2\<lparr>cmd_len := 0, cmd_buf := (cmd_buf s2)[0 := CHR 0x00]\<rparr>"
    have ok3: "menu_ok s3" "cmd_line s3 = []" "active_view s3 = active_view s2"
    proof -
      show "menu_ok s3" using ok2(1) by (simp add: menu_ok_def s3_def cmd_ok_def log_ok_def)
      then have "cmd_ok s3" by (simp add: menu_ok_def)
      from cmd_line_take(1)[OF this] show "cmd_line s3 = []" by (simp add: s3_def)
    qed (simp add: s3_def)
    obtain s' where s': "menu_render s3 = Some s'" "menu_ok s'" "cmd_line s' = []" "active_view s' = active_view s2"
      using render_keeps[OF ok3(1)] ok3(2,3) by auto
    have "menu_handle_key c s = Some (Returns, s')"
      using en True s'(1) assms(2,3) by (auto simp: menu_handle_key_def cmd_store_def s3_def)
    with s' True s2(3) show ?thesis by simp
  qed
qed

lemma dashboard_key:
  assumes "menu_ok s" and "active_view s = 1"
  shows "\<exists>s'. menu_handle_key c s = Some (Returns, s') \<and> menu_ok s' \<and> cmd_line s' = cmd_line s \<and> log_lines s' = log_lines s \<and>
    active_view s' = (if c \<in> {CHR ''q'', CHR ''Q'', CHR 0x1B} then 0 else 1)"
proof -
  have ok0: "menu_ok (s\<lparr>active_view := 0\<rparr>)" using assms(1) by (simp add: view_keeps)
  from render_keeps[OF this] dashboard_keeps[OF assms(1)] assms show ?thesis
    by (auto simp: menu_handle_key_def view_keeps)
qed

lemma menu_handle_key_total:
  assumes "menu_ok s"
  shows "\<exists>e s'. menu_handle_key c s = Some (e, s') \<and> menu_ok s'"
  using edit_key[OF assms, of c] enter_key[OF assms, of c] dashboard_key[OF assms, of c] by blast

text \<open>A sequence of keys, up to a command that does not return.\<close>

fun menu_keys :: "char list \<Rightarrow> 'a menu_state_scheme \<Rightarrow> (exec_end \<times> 'a menu_state_scheme) option" where
  "menu_keys [] s = Some (Returns, s)"
| "menu_keys (c # cs) s = do { (e, s') \<leftarrow> menu_handle_key c s; if e = Returns then menu_keys cs s' else Some (e, s') }"

lemma menu_keys_total: "menu_ok s \<Longrightarrow> \<exists>e s'. menu_keys cs s = Some (e, s') \<and> menu_ok s'"
proof (induction cs arbitrary: s)
  case (Cons c cs)
  obtain e s1 where s1: "menu_handle_key c s = Some (e, s1)" "menu_ok s1" using menu_handle_key_total[OF Cons.prems] by blast
  then show ?case using Cons.IH[OF s1(2)] by (cases "e = Returns") auto
qed simp

lemma menu_init_ok:
  assumes "length (vga_mem s) = 2000" and "length (cmd_buf s) = CMD_MAX" and "length (log_history s) = LOG_LINES"
    and "\<forall>r \<in> set (log_history s). length r = 80"
  shows "menu_ok (menu_init s)"
proof -
  let ?s = "s\<lparr>cmd_len := 0, cmd_buf := (cmd_buf s)[0 := CHR 0x00], log_count := 0, active_view := 0\<rparr>"
  let ?m = "[''AuraOS Command Shell ready.'', ''Type 'help' for commands, or 'dashboard' for btop view.'']"
  have ok: "log_ok ?s" using assms(3,4) by (simp add: log_ok_def)
  have "log_ok (fold log_print ?m ?s) \<and> cmd_buf (fold log_print ?m ?s) = cmd_buf ?s \<and> cmd_len (fold log_print ?m ?s) = cmd_len ?s \<and>
      active_view (fold log_print ?m ?s) = active_view ?s \<and> vga_mem (fold log_print ?m ?s) = vga_mem ?s"
    by (rule log_prints[OF ok]) simp
  then show ?thesis unfolding menu_init_def menu_ok_def cmd_ok_def using assms(1,2) by simp
qed

lemma last_lines_append: "last_lines (last_lines l @ xs) = last_lines (l @ xs)"
proof (cases "length l \<le> 8")
  case False
  let ?k = "length l - 8"
  have "drop ?k l @ xs = drop ?k (l @ xs)" by simp
  then have "last_lines (last_lines l @ xs) = drop (length xs) (drop ?k (l @ xs))"
    using False by (simp add: last_lines_def)
  also have "\<dots> = drop (length xs + ?k) (l @ xs)" by (simp only: drop_drop)
  also have "length xs + ?k = length (l @ xs) - 8" using False by simp
  finally show ?thesis by (simp only: last_lines_def)
qed (simp add: last_lines_def)

lemma log_print_run:
  "log_ok s \<Longrightarrow> \<forall>m \<in> set ms. CHR 0x00 \<notin> set m \<Longrightarrow>
    log_ok (fold log_print ms s) \<and> log_lines (fold log_print ms s) = last_lines (log_lines s @ map (take 78) ms)"
proof (induction ms arbitrary: s)
  case Nil
  then show ?case by (simp add: last_lines_def log_lines_def log_ok_def)
next
  case (Cons m ms)
  have "last_lines (last_lines (a @ [x]) @ xs) = last_lines (a @ x # xs)" for a xs :: "string list" and x
    using last_lines_append[of "a @ [x]" xs] by simp
  then show ?case using Cons log_print_lines[OF Cons.prems(1), of m] by simp
qed

section \<open>Properties\<close>

text \<open>
  C18: The shell is memory safe. Whatever keys arrive after \<open>menu_init\<close>, every call of
  \<open>menu_handle_key\<close> completes, or ends in one of the commands that stop or fault on purpose, with
  every store inside its buffer: the command line never exceeds 63 characters, the log never
  eight lines of 78.
\<close>

theorem menu_never_overflows:
  assumes "length (vga_mem s) = 2000" and "length (cmd_buf s) = CMD_MAX" and "length (log_history s) = LOG_LINES"
    and "\<forall>r \<in> set (log_history s). length r = 80"
  shows "\<exists>e s'. menu_keys keys (menu_init s) = Some (e, s') \<and> length (c_string (cmd_buf s')) = cmd_len s' \<and> cmd_len s' \<le> 63 \<and>
    log_count s' \<le> LOG_LINES \<and> (\<forall>i < log_count s'. length (c_string (log_history s' ! i)) \<le> 78)"
proof -
  obtain e s' where s': "menu_keys keys (menu_init s) = Some (e, s')" "menu_ok s'"
    using menu_keys_total[OF menu_init_ok[OF assms]] by blast
  then have "cmd_ok s'" "log_ok s'" by (simp_all add: menu_ok_def)
  then show ?thesis
    using s'(1) cmd_line_take(2)[of s'] by (auto simp: cmd_ok_def log_ok_def cmd_line_def)
qed

definition menu_static :: menu_state where
  "menu_static = dash_state.extend (dash_static\<lparr>vga_mem := replicate 2000 0\<rparr>)
     (menu_state.fields (replicate 64 (CHR 0x00)) 0 (replicate 8 (replicate 80 (CHR 0x00))) 0 0)"

lemma menu_static_sizes:
  "length (vga_mem menu_static) = 2000" "length (cmd_buf menu_static) = 64" "length (log_history menu_static) = 8"
  "\<forall>r \<in> set (log_history menu_static). length r = 80"
  by (simp_all add: menu_static_def dash_state.defs menu_state.defs)

lemma menu_start_line: "cmd_line (menu_init menu_static) = []"
proof -
  have "cmd_ok (menu_init menu_static)" using menu_init_ok[OF menu_static_sizes] by (simp add: menu_ok_def)
  moreover have "cmd_len (menu_init menu_static) = 0" by (simp add: menu_init_def)
  ultimately show ?thesis using cmd_line_take(1)[of "menu_init menu_static"] by simp
qed

theorem menu_never_overflows_witness:
  "\<exists>e s'. menu_keys (replicate 100 (CHR ''x'') @ [CHR 0x0A]) (menu_init menu_static) = Some (e, s') \<and> cmd_len s' \<le> 63"
  using menu_never_overflows[OF menu_static_sizes, of "replicate 100 (CHR ''x'') @ [CHR 0x0A]"] by blast

text \<open>
  C19: The command line is a line editor. Until return is pressed, the line is what the keys say:
  printable characters are appended as long as there is room, backspace takes the last one off,
  all other keys do nothing; and the log is left alone.
\<close>

theorem menu_line_editor:
  assumes "menu_ok s" and "active_view s = 0" and "CHR 0x0A \<notin> set keys" and "CHR 0x0D \<notin> set keys"
  shows "\<exists>s'. menu_keys keys s = Some (Returns, s') \<and> menu_ok s' \<and> cmd_line s' = fold edit_line keys (cmd_line s) \<and> log_lines s' = log_lines s"
proof -
  have "active_view s \<noteq> 1" using assms(2) by simp
  then show ?thesis
    using assms(1,3,4)
  proof (induction keys arbitrary: s)
    case (Cons c cs)
    obtain s1 where s1: "menu_handle_key c s = Some (Returns, s1)" "menu_ok s1" "cmd_line s1 = edit_line c (cmd_line s)"
      "log_lines s1 = log_lines s" "active_view s1 = active_view s"
      using edit_key[OF Cons.prems(2,1), of c] Cons.prems(3,4) by auto
    have "active_view s1 \<noteq> 1" using s1(5) Cons.prems(1) by simp
    from Cons.IH[OF this s1(2)] Cons.prems(3,4) s1 show ?case by auto
  qed simp
qed

theorem menu_line_editor_witness:
  "\<exists>s'. menu_keys ''menx'' (menu_init menu_static) = Some (Returns, s') \<and> cmd_line s' = ''menx''"
proof -
  have ok: "menu_ok (menu_init menu_static)" by (rule menu_init_ok[OF menu_static_sizes])
  have v: "active_view (menu_init menu_static) = 0" by (simp add: menu_init_def)
  have l: "cmd_line (menu_init menu_static) = []" by (rule menu_start_line)
  from menu_line_editor[OF ok v, of "''menx''"] show ?thesis by (auto simp: l edit_line_def printable_def)
qed

text \<open>
  The return key runs the command on the line and every command ends: \<open>halt\<close> stops the
  processor, \<open>panic\<close> and \<open>pf\<close> raise their exceptions, every other line, known or not, returns to an
  empty line. Only \<open>dashboard\<close> changes the view. A command that raises an exception leaves itself on
  the line, where it still is when the panic console restores the shell.
\<close>

theorem menu_enter_result:
  assumes "menu_ok s" and "active_view s = 0"
  shows "\<exists>s'. menu_handle_key (CHR 0x0A) s = Some (command_end (cmd_line s), s') \<and> menu_ok s' \<and>
    cmd_line s' = (if cmd_line s \<in> {''halt'', ''panic'', ''pf''} then cmd_line s else []) \<and>
    active_view s' = (if cmd_line s = ''dashboard'' then 1 else 0)"
proof -
  have "command_end (cmd_line s) = Returns \<longleftrightarrow> cmd_line s \<notin> {''halt'', ''panic'', ''pf''}" by (simp add: command_end_def)
  then show ?thesis using enter_key[OF assms(1), of "CHR 0x0A"] assms(2) by auto
qed

theorem menu_enter_result_witness:
  "\<exists>s'. menu_handle_key (CHR 0x0A) (menu_init menu_static) = Some (Returns, s') \<and> active_view s' = 0"
proof -
  have ok: "menu_ok (menu_init menu_static)" by (rule menu_init_ok[OF menu_static_sizes])
  have v: "active_view (menu_init menu_static) = 0" by (simp add: menu_init_def)
  have l: "cmd_line (menu_init menu_static) = []" by (rule menu_start_line)
  from menu_enter_result[OF ok v] show ?thesis by (auto simp: l command_end_def)
qed

text \<open>
  C20: The log keeps the last eight messages in order, each cut off after 78 characters, however
  many were printed.
\<close>

theorem menu_log_refinement:
  assumes "log_ok s" and "\<forall>m \<in> set msgs. CHR 0x00 \<notin> set m"
  shows "log_ok (fold menu_log msgs s) \<and> log_lines (fold menu_log msgs s) = last_lines (log_lines s @ map (take 78) msgs)"
proof -
  have "(menu_log :: string \<Rightarrow> 'a menu_state_scheme \<Rightarrow> 'a menu_state_scheme) = log_print" by (intro ext) (simp add: menu_log_def)
  then show ?thesis using log_print_run[OF assms] by simp
qed

theorem menu_log_refinement_witness:
  "log_lines (fold menu_log (replicate 9 ''a'' @ [''b'']) menu_static) = replicate 7 ''a'' @ [''b'']"
proof -
  have "log_ok menu_static" by (simp add: log_ok_def menu_static_def dash_state.defs menu_state.defs)
  moreover have "log_lines menu_static = []" by (simp add: log_lines_def menu_static_def dash_state.defs menu_state.defs)
  ultimately show ?thesis
    using menu_log_refinement[of menu_static "replicate 9 ''a'' @ [''b'']"] by (simp add: last_lines_def eval_nat_numeral)
qed

section \<open>What the shell shows\<close>

definition shown_at :: "int \<Rightarrow> int \<Rightarrow> string \<Rightarrow> u8 \<Rightarrow> 'a vga_state_scheme \<Rightarrow> bool" where
  "shown_at x y t color s \<longleftrightarrow> (\<forall>k < length t. cell s (x + int k) y = vga_entry (t ! k) color)"

lemma shown_at_keeps:
  assumes "shown_at x y t color s" and "drawn ov s s'" and "\<And>k. k < length t \<Longrightarrow> ov (x + int k) y = None"
    and "0 \<le> x" "x + int (length t) \<le> 80" "0 \<le> y" "y < 25"
  shows "shown_at x y t color s'"
  using assms by (auto simp: shown_at_def drawn_def on_screen_def)

lemma shown_at_row: "shown_at x y t color s \<Longrightarrow> drawn ov s s' \<Longrightarrow> row_ov y' ov \<Longrightarrow> y' \<noteq> y \<Longrightarrow>
    0 \<le> x \<Longrightarrow> x + int (length t) \<le> 80 \<Longrightarrow> 0 \<le> y \<Longrightarrow> y < 25 \<Longrightarrow> shown_at x y t color s'"
  by (rule shown_at_keeps[of x y t color s ov s']) (auto simp: row_ov_def)

lemma shown_at_puts:
  assumes "drawn (puts_ov x y t color) s s'" and "0 \<le> x" "x + int (length t) \<le> 80" "0 \<le> y" "y < 25"
  shows "shown_at x y t color s'"
  using assms by (auto simp: shown_at_def drawn_def on_screen_def puts_ov_def)

lemma log_row_shows:
  assumes "length (vga_mem s) = 2000" and "log_ok s" and "i < 8"
  shows "\<exists>s' ov. log_row i s = Some s' \<and> drawn ov s s' \<and> row_ov (8 + int i) ov \<and>
    (i < log_count s \<longrightarrow> shown_at 2 (8 + int i) (c_string (log_history s ! i)) COLOR_TEXT s')"
proof (cases "i < log_count s")
  case True
  let ?t = "c_string (log_history s ! i)" and ?y = "8 + int i"
  obtain s1 where s1: "tui_puts_at 2 ?y ?t COLOR_TEXT s = Some s1" "drawn (puts_ov 2 ?y ?t COLOR_TEXT) s s1"
    using draws_puts[OF assms(1)] by (rule drawsE)
  obtain s2 where s2: "clear_row (2 + int (length ?t)) 78 ?y COLOR_DIM s1 = Some s2"
    "drawn (clear_ov (2 + int (length ?t)) 78 ?y COLOR_DIM) s1 s2"
    using draws_clear_row[OF drawn_length[OF s1(2)]] by (rule drawsE)
  have t: "2 + int (length ?t) \<le> 80" using assms(2) True by (auto simp: log_ok_def)
  have "shown_at 2 ?y ?t COLOR_TEXT s1" using shown_at_puts[OF s1(2)] t assms(3) by simp
  then have "shown_at 2 ?y ?t COLOR_TEXT s2"
    by (rule shown_at_keeps[OF _ s2(2)]) (use t assms(3) in \<open>simp_all add: clear_ov_def\<close>)
  moreover have "log_row i s = Some s2" using True s1(1) s2(1) by (simp add: log_row_def Let_def)
  moreover have "row_ov ?y (over (clear_ov (2 + int (length ?t)) 78 ?y COLOR_DIM) (puts_ov 2 ?y ?t COLOR_TEXT))"
    by (intro row_ov_over row_ov_simps)
  ultimately show ?thesis using drawn_trans[OF s1(2) s2(2)] by blast
next
  case False
  obtain s1 where s1: "clear_row 2 78 (8 + int i) COLOR_DIM s = Some s1" "drawn (clear_ov 2 78 (8 + int i) COLOR_DIM) s s1"
    using draws_clear_row[OF assms(1)] by (rule drawsE)
  with False row_ov_simps(2) show ?thesis by (auto simp: log_row_def)
qed

lemma log_box_shows:
  assumes "length (vga_mem s) = 2000" and "log_ok s"
  shows "\<exists>s' ov. log_box s = Some s' \<and> drawn ov s s' \<and>
    (\<forall>i < log_count s. shown_at 2 (8 + int i) (c_string (log_history s ! i)) COLOR_TEXT s')"
proof -
  let ?P = "\<lambda>n t. (\<exists>ov. drawn ov s t) \<and> (\<forall>i < n. i < log_count s \<longrightarrow> shown_at 2 (8 + int i) (c_string (log_history s ! i)) COLOR_TEXT t)"
  have "draws (tui_draw_box 0 6 80 14 COLOR_BORDER COLOR_TEXT (Some '' Console Output '') (COLOR_WARN \<noteq> 0) s) (box_ov 0 6 80 14 COLOR_BORDER COLOR_TEXT (Some '' Console Output '') (COLOR_WARN \<noteq> 0)) s"
    by (rule draws_box) (simp_all add: assms(1))
  then obtain s1 where s1: "tui_draw_box 0 6 80 14 COLOR_BORDER COLOR_TEXT (Some '' Console Output '') (COLOR_WARN \<noteq> 0) s = Some s1"
    "drawn (box_ov 0 6 80 14 COLOR_BORDER COLOR_TEXT (Some '' Console Output '') (COLOR_WARN \<noteq> 0)) s s1"
    by (rule drawsE)
  have "\<exists>s'. for_loop 0 8 log_row s1 = Some s' \<and> ?P 8 s'"
  proof (rule for_loop_rule)
    show "?P 0 s1" using s1(2) by blast
  next
    fix n t assume n: "n < 8" and P: "?P n t"
    then obtain ov where t: "drawn ov s t" by blast
    have same: "log_history t = log_history s" "log_count t = log_count s" "log_ok t"
    proof -
      have "t = s\<lparr>vga_mem := vga_mem t\<rparr>" using t by (simp add: drawn_def)
      then have "log_history t = log_history (s\<lparr>vga_mem := vga_mem t\<rparr>)" "log_count t = log_count (s\<lparr>vga_mem := vga_mem t\<rparr>)" by simp_all
      then show "log_history t = log_history s" "log_count t = log_count s" by simp_all
      then show "log_ok t" using assms(2) by (simp add: log_ok_def)
    qed
    obtain t' ov' where t': "log_row n t = Some t'" "drawn ov' t t'" "row_ov (8 + int n) ov'"
      "n < log_count s \<longrightarrow> shown_at 2 (8 + int n) (c_string (log_history s ! n)) COLOR_TEXT t'"
      using log_row_shows[OF drawn_length[OF t] same(3) n] same by auto
    have "shown_at 2 (8 + int i) (c_string (log_history s ! i)) COLOR_TEXT t'" if "i < Suc n" "i < log_count s" for i
    proof (cases "i = n")
      case False
      then have "shown_at 2 (8 + int i) (c_string (log_history s ! i)) COLOR_TEXT t" using P that by simp
      then show ?thesis
        by (rule shown_at_row[OF _ t'(2,3)]) (use False that n assms(2) in \<open>auto simp: log_ok_def\<close>)
    qed (use t'(4) that in simp)
    then show "\<exists>s'. log_row n t = Some s' \<and> ?P (Suc n) s'" using t'(1) drawn_trans[OF t t'(2)] by blast
  qed simp
  then obtain s2 ov where s2: "for_loop 0 8 log_row s1 = Some s2" "drawn ov s s2"
    "\<forall>i < 8. i < log_count s \<longrightarrow> shown_at 2 (8 + int i) (c_string (log_history s ! i)) COLOR_TEXT s2" by blast
  have "log_count s \<le> 8" using assms(2) by (simp add: log_ok_def)
  then show ?thesis using s1(1) s2 by (intro exI[of _ s2] exI[of _ ov]) (simp add: log_box_def)
qed

lemma command_box_shows:
  assumes "length (vga_mem s) = 2000" and "cmd_ok s"
  shows "\<exists>s' ov. command_box s = Some s' \<and> drawn ov s s' \<and> (\<forall>x y. \<not> (20 \<le> y \<and> y < 23) \<longrightarrow> ov x y = None) \<and>
    shown_at 2 21 (''aura> '' @ cmd_line s) COLOR_SUCCESS s' \<and> shown_at (8 + int (cmd_len s)) 21 ''_'' COLOR_WARN s'"
proof -
  let ?l = "cmd_line s" and ?n = "cmd_len s"
  let ?box = "box_ov 0 20 80 3 COLOR_SUCCESS COLOR_TEXT (Some '' Command '') (COLOR_SUCCESS \<noteq> 0)"
  let ?text = "''aura> '' @ ?l"
  have n: "length ?l = ?n" "?n < 64" using cmd_line_take(2)[OF assms(2)] assms(2) by (simp_all add: cmd_ok_def)
  have keep: "cmd_buf t = cmd_buf s \<and> cmd_len t = ?n" if "drawn ov s t" for ov and t :: "'a menu_state_scheme"
  proof -
    have "t = s\<lparr>vga_mem := vga_mem t\<rparr>" using that by (simp add: drawn_def)
    then have "cmd_buf t = cmd_buf (s\<lparr>vga_mem := vga_mem t\<rparr>)" "cmd_len t = cmd_len (s\<lparr>vga_mem := vga_mem t\<rparr>)" by simp_all
    then show ?thesis by simp
  qed
  have "draws (tui_draw_box 0 20 80 3 COLOR_SUCCESS COLOR_TEXT (Some '' Command '') (COLOR_SUCCESS \<noteq> 0) s) (box_ov 0 20 80 3 COLOR_SUCCESS COLOR_TEXT (Some '' Command '') (COLOR_SUCCESS \<noteq> 0)) s"
    by (rule draws_box) (simp_all add: assms(1))
  then obtain s1 where s1: "tui_draw_box 0 20 80 3 COLOR_SUCCESS COLOR_TEXT (Some '' Command '') (COLOR_SUCCESS \<noteq> 0) s = Some s1" "drawn ?box s s1"
    by (rule drawsE)
  have tt: "tui_text ''aura> %s'' [CStr (Some ?l)] = Some ?text"
    using tui_text_take[of "''aura> %s''" "[CStr (Some ?l)]" "?text"] n by simp
  obtain s2 where s2: "tui_printf_at 2 21 COLOR_SUCCESS ''aura> %s'' [CStr (Some ?l)] s1 = Some s2"
    "drawn (puts_ov 2 21 ?text COLOR_SUCCESS) s1 s2"
    using draws_printf_text[OF tt drawn_length[OF s1(2)]] by (rule drawsE)
  obtain s3 where s3: "tui_putc_at (8 + int ?n) 21 (CHR ''_'') COLOR_WARN s2 = Some s3" "drawn (puts_ov (8 + int ?n) 21 ''_'' COLOR_WARN) s2 s3"
    using draws_putc[OF drawn_length[OF s2(2)]] by (rule drawsE)
  obtain s4 where s4: "clear_row (9 + int ?n) 78 21 COLOR_DIM s3 = Some s4" "drawn (clear_ov (9 + int ?n) 78 21 COLOR_DIM) s3 s4"
    using draws_clear_row[OF drawn_length[OF s3(2)]] by (rule drawsE)
  note d12 = drawn_trans[OF s1(2) s2(2)]
  note d13 = drawn_trans[OF d12 s3(2)]
  note d14 = drawn_trans[OF d13 s4(2)]
  have "command_box s = Some s4"
    using s1(1) s2(1) s3(1) s4(1) keep[OF s1(2)] keep[OF d12] keep[OF d13] by (simp add: command_box_def cmd_line_def)
  moreover have "shown_at 2 21 ?text COLOR_SUCCESS s4"
    by (rule shown_at_keeps[OF shown_at_keeps[OF shown_at_puts[OF s2(2)] s3(2)] s4(2)])
      (use n in \<open>auto simp: puts_ov_def clear_ov_def\<close>)
  moreover have "shown_at (8 + int ?n) 21 ''_'' COLOR_WARN s4"
    by (rule shown_at_keeps[OF shown_at_puts[OF s3(2)] s4(2)]) (use n in \<open>auto simp: clear_ov_def\<close>)
  moreover have "over (clear_ov (9 + int ?n) 78 21 COLOR_DIM) (over (puts_ov (8 + int ?n) 21 ''_'' COLOR_WARN)
      (over (puts_ov 2 21 ?text COLOR_SUCCESS) ?box)) x y = None" if "\<not> (20 \<le> y \<and> y < 23)" for x y
    using that box_ov_outside[of 80 3 0 x 20 y] by (auto simp: over_def clear_ov_def puts_ov_def)
  ultimately show ?thesis using d14 by blast
qed

lemma drawn_menu_fields:
  fixes t :: "'a menu_state_scheme"
  assumes "drawn ov s t"
  shows "cmd_buf t = cmd_buf s \<and> cmd_len t = cmd_len s \<and> log_history t = log_history s \<and> log_count t = log_count s"
proof -
  have "menu_frame s t" using dash_frame_drawn[OF dash_frame_refl assms] drawn_length[OF assms] by (simp add: menu_frame_def)
  from menu_frame_fields[OF this] show ?thesis by simp
qed

text \<open>
  C21: The shell shows its state. In the menu view \<open>menu_render\<close> draws on the screen and changes
  nothing else; afterwards the rows of the log window hold the lines of the log in order, and the
  prompt row the prompt, the command line and the cursor behind it.
\<close>

theorem menu_render_shows:
  assumes "menu_ok s" and "active_view s = 0"
  shows "\<exists>m. menu_render s = Some (s\<lparr>vga_mem := m\<rparr>) \<and> length m = 2000 \<and>
    (\<forall>i < length (log_lines s). shown_at 2 (8 + int i) (log_lines s ! i) COLOR_TEXT (s\<lparr>vga_mem := m\<rparr>)) \<and>
    shown_at 2 21 (''aura> '' @ cmd_line s) COLOR_SUCCESS (s\<lparr>vga_mem := m\<rparr>) \<and>
    shown_at (8 + int (length (cmd_line s))) 21 ''_'' COLOR_WARN (s\<lparr>vga_mem := m\<rparr>)"
proof -
  have ok: "length (vga_mem s) = 2000" "cmd_ok s" "log_ok s" using assms(1) by (simp_all add: menu_ok_def)
  note keep = drawn_menu_fields
  let ?head = "tui_draw_header '' AuraOS Boot Menu & Shell '' (Some ''v0.3.1'') s \<bind> status_box"
  have "drew ?head s" using ok(1) by (intro drew_bind drew_header drew_status_box) (auto dest: drawn_length)
  then obtain s1 ov1 where s1: "?head = Some s1" "drawn ov1 s s1" unfolding drew_def draws_def by blast
  note k1 = keep[OF s1(2)]
  have "log_ok s1" using ok(3) k1 by (simp add: log_ok_def)
  then obtain s2 ov2 where s2: "log_box s1 = Some s2" "drawn ov2 s1 s2"
    "\<forall>i < log_count s. shown_at 2 (8 + int i) (c_string (log_history s ! i)) COLOR_TEXT s2"
    using log_box_shows[OF drawn_length[OF s1(2)]] k1 by auto
  note k2 = keep[OF drawn_trans[OF s1(2) s2(2)]]
  have "cmd_ok s2" "cmd_line s2 = cmd_line s" using ok(2) k2 by (simp_all add: cmd_ok_def cmd_line_def)
  then obtain s3 ov3 where s3: "command_box s2 = Some s3" "drawn ov3 s2 s3" "\<And>x y. \<not> (20 \<le> y \<and> y < 23) \<Longrightarrow> ov3 x y = None"
    "shown_at 2 21 (''aura> '' @ cmd_line s) COLOR_SUCCESS s3" "shown_at (8 + int (cmd_len s)) 21 ''_'' COLOR_WARN s3"
    using command_box_shows[OF drawn_length[OF s2(2)]] k2 by metis
  obtain s4 ov4 where s4: "tui_draw_footer '' Type 'help' | Commands: info, mem, dashboard, panic, halt '' s3 = Some s4"
    "drawn ov4 s3 s4" "row_ov 24 ov4"
    using draws_footer[OF drawn_length[OF s3(2)]] by (blast elim: drawsE)
  note d = drawn_trans[OF drawn_trans[OF drawn_trans[OF s1(2) s2(2)] s3(2)] s4(2)]
  have e: "menu_render s = ?head \<bind> (\<lambda>s. log_box s \<bind> (\<lambda>s. command_box s \<bind>
      tui_draw_footer '' Type 'help' | Commands: info, mem, dashboard, panic, halt ''))"
    using assms(2) by (simp add: menu_render_def bind_assoc)
  have r: "menu_render s = Some s4" unfolding e using s1(1) s2(1) s3(1) s4(1) by simp
  have s4e: "s4 = s\<lparr>vga_mem := vga_mem s4\<rparr>" "length (vga_mem s4) = 2000" using d by (simp_all add: drawn_def)
  have n: "length (cmd_line s) = cmd_len s" "cmd_len s < 64" using cmd_line_take(2)[OF ok(2)] ok(2) by (simp_all add: cmd_ok_def)
  have log: "shown_at 2 (8 + int i) (c_string (log_history s ! i)) COLOR_TEXT s4" if i: "i < log_count s" for i
  proof -
    have i8: "i < 8" "length (c_string (log_history s ! i)) \<le> 78" using ok(3) i by (auto simp: log_ok_def)
    have "shown_at 2 (8 + int i) (c_string (log_history s ! i)) COLOR_TEXT s3"
      by (rule shown_at_keeps[OF s2(3)[rule_format, OF i] s3(2)]) (use s3(3) i8 in auto)
    then show ?thesis by (rule shown_at_row[OF _ s4(2,3)]) (use i8 in auto)
  qed
  have prompt: "shown_at 2 21 (''aura> '' @ cmd_line s) COLOR_SUCCESS s4" "shown_at (8 + int (cmd_len s)) 21 ''_'' COLOR_WARN s4"
    by (rule shown_at_row[OF s3(4) s4(2,3)]; use n in simp) (rule shown_at_row[OF s3(5) s4(2,3)]; use n in simp)
  show ?thesis
    using r s4e log prompt n ok(3) by (intro exI[of _ "vga_mem s4"]) (auto simp: log_lines_def log_ok_def)
qed

theorem menu_render_shows_witness:
  "\<exists>m. menu_render (menu_init menu_static) = Some ((menu_init menu_static)\<lparr>vga_mem := m\<rparr>) \<and>
    shown_at 2 21 ''aura> '' COLOR_SUCCESS ((menu_init menu_static)\<lparr>vga_mem := m\<rparr>)"
proof -
  have v: "active_view (menu_init menu_static) = 0" by (simp add: menu_init_def)
  from menu_render_shows[OF menu_init_ok[OF menu_static_sizes] v] menu_start_line show ?thesis by auto
qed

end
