(* ===== verification/Panic.thy ===== *)
theory Panic
  imports Menu
begin

text \<open>
  The panic console: kernel/core/panic.c, and the page fault handler that ends in it:
  kernel/core/pagefault.c. The console reports on the serial port and on the screen and then waits
  for a key that restores the shell, reboots or powers off. Its loops may not end; a result is what
  ends them.
\<close>

section \<open>State\<close>

text \<open>\<open>outw\<close> writes a word to a port; the number is that of the bytes written to ports before it.\<close>

record panic_state = menu_state +
  io_words :: "(nat \<times> u16 \<times> u16) list"
  recovery_rsp :: u64
  recovery_rbp :: u64
  recovery_rip :: u64
  recovery_valid :: bool

definition outw :: "u16 \<Rightarrow> u16 \<Rightarrow> 'a panic_state_scheme \<Rightarrow> 'a panic_state_scheme" where
  "outw port val s = s\<lparr>io_words := io_words s @ [(length (io_out s), port, val)]\<rparr>"

text \<open>The parameters are the registers inside the function and its return address.\<close>

definition panic_set_recovery_point :: "u64 \<Rightarrow> u64 \<Rightarrow> u64 \<Rightarrow> 'a panic_state_scheme \<Rightarrow> int \<times> 'a panic_state_scheme" where
  "panic_set_recovery_point rsp rbp ret s =
     (0, s\<lparr>recovery_rsp := rsp, recovery_rbp := rbp, recovery_rip := ret, recovery_valid := True\<rparr>)"

section \<open>The actions\<close>

abbreviation PS2_STATUS_PORT :: u16 where "PS2_STATUS_PORT \<equiv> 0x64"

partial_function (option) panic_poll_key :: "device \<Rightarrow> 'a io_state_scheme \<Rightarrow> (char \<times> 'a io_state_scheme) option" where
  "panic_poll_key dev s =
     (case inb dev PS2_STATUS_PORT s of (status, s1) \<Rightarrow>
        if status AND 0x01 \<noteq> 0 then
          (case inb dev PS2_DATA_PORT s1 of (scancode, s2) \<Rightarrow>
             if scancode AND 0x80 = 0 \<and> scancode_ascii ! unat scancode \<noteq> CHR 0x00
             then Some (scancode_ascii ! unat scancode, s2)
             else panic_poll_key dev s2)
        else panic_poll_key dev s1)"

partial_function (option) wait_controller :: "device \<Rightarrow> 'a io_state_scheme \<Rightarrow> 'a io_state_scheme option" where
  "wait_controller dev s =
     (case inb dev PS2_STATUS_PORT s of (good, s1) \<Rightarrow> if good AND 0x02 \<noteq> 0 then wait_controller dev s1 else Some s1)"

datatype panic_end = Restored | Rebooting | Powered_off

definition panic_do_reboot :: "device \<Rightarrow> 'a panic_state_scheme \<Rightarrow> (panic_end \<times> 'a panic_state_scheme) option" where
  "panic_do_reboot dev s = do {
     s \<leftarrow> serial_puts dev COM1 (''[PANIC] Rebooting system...'' @ [CHR 0x0D, CHR 0x0A]) s;
     s \<leftarrow> wait_controller dev s;
     Some (Rebooting, outb PS2_STATUS_PORT 0xFE s) }"

definition panic_do_poweroff :: "device \<Rightarrow> 'a panic_state_scheme \<Rightarrow> (panic_end \<times> 'a panic_state_scheme) option" where
  "panic_do_poweroff dev s = do {
     s \<leftarrow> serial_puts dev COM1 (''[PANIC] Powering off system...'' @ [CHR 0x0D, CHR 0x0A]) s;
     s \<leftarrow> Some (outw 0x604 0x2000 s);
     s \<leftarrow> Some (outb 0xF4 0x00 (outb 0x501 0x00 s));
     s \<leftarrow> Some (outw 0x4004 0x2000 (outw 0x4004 0x3400 (outw 0xB004 0x2000 s)));
     s \<leftarrow> tui_printf_at 2 23 0x4F ''Power off not supported by hardware. You may close the VM.'' [] s;
     Some (Powered_off, s) }"

text \<open>None as the first component: the function returns, and the key loop goes on.\<close>

definition panic_do_restore :: "device \<Rightarrow> 'a panic_state_scheme \<Rightarrow> (panic_end option \<times> 'a panic_state_scheme) option" where
  "panic_do_restore dev s =
     (if \<not> recovery_valid s then
        map_option (Pair None) (tui_printf_at 2 23 0x4E ''No valid restore point available! Use Reboot or Poweroff. '' [] s)
      else do {
        s \<leftarrow> serial_puts dev COM1 (''[PANIC] Restoring system state from recovery checkpoint...'' @ [CHR 0x0D, CHR 0x0A]) s;
        s \<leftarrow> vga_init s;
        s \<leftarrow> Some (menu_log ''[RECOVERED] System state successfully restored after panic'' s);
        s \<leftarrow> menu_render s;
        Some (Some Restored, s) })"

partial_function (option) panic_loop :: "device \<Rightarrow> 'a panic_state_scheme \<Rightarrow> (panic_end \<times> 'a panic_state_scheme) option" where
  "panic_loop dev s = do {
     (key, s) \<leftarrow> panic_poll_key dev s;
     if key = CHR ''r'' \<or> key = CHR ''R'' then do {
       (e, s) \<leftarrow> panic_do_restore dev s;
       case e of Some x \<Rightarrow> Some (x, s) | None \<Rightarrow> panic_loop dev s }
     else if key = CHR ''b'' \<or> key = CHR ''B'' then panic_do_reboot dev s
     else if key \<in> {CHR ''o'', CHR ''O'', CHR ''p'', CHR ''P''} then panic_do_poweroff dev s
     else panic_loop dev s }"

section \<open>The report\<close>

abbreviation CRLF :: string where
  "CRLF \<equiv> [CHR 0x0D, CHR 0x0A]"

text \<open>\<open>%x\<close> takes 32 bits of the 64-bit registers.\<close>

definition reg32 :: "u64 \<Rightarrow> c_arg" where
  "reg32 r = CInt (ucast r)"

definition panic_report :: "device \<Rightarrow> string option \<Rightarrow> string option \<Rightarrow> u32 \<Rightarrow> registers option \<Rightarrow> 'a io_state_scheme \<Rightarrow>
    'a io_state_scheme option" where
  "panic_report dev msg file line regs s = do {
     s \<leftarrow> serial_puts dev COM1 (CRLF @ ''========================================'' @ CRLF) s;
     s \<leftarrow> serial_puts dev COM1 (''           *** KERNEL PANIC ***         '' @ CRLF) s;
     s \<leftarrow> serial_puts dev COM1 (''========================================'' @ CRLF) s;
     s \<leftarrow> serial_puts dev COM1 ''Reason: '' s;
     s \<leftarrow> serial_puts dev COM1 (case msg of Some m \<Rightarrow> m | None \<Rightarrow> ''Unknown fatal error'') s;
     s \<leftarrow> serial_puts dev COM1 CRLF s;
     s \<leftarrow> (case file of None \<Rightarrow> Some s
        | Some f \<Rightarrow> do {
            s \<leftarrow> serial_puts dev COM1 ''Location: '' s;
            s \<leftarrow> serial_puts dev COM1 f s;
            s \<leftarrow> serial_putc dev COM1 (CHR '':'') s;
            s \<leftarrow> serial_printf dev COM1 (Some ''%u'') [CInt line] s;
            serial_puts dev COM1 CRLF s });
     s \<leftarrow> (case regs of None \<Rightarrow> Some s
        | Some r \<Rightarrow> do {
            s \<leftarrow> serial_printf dev COM1 (Some (''Trap: %u  Err: 0x%x  RIP: 0x%x  CS: 0x%x'' @ CRLF))
                  [reg32 (int_no r), reg32 (err_code r), reg32 (reg_rip r), reg32 (reg_cs r)] s;
            s \<leftarrow> serial_printf dev COM1 (Some (''RAX: 0x%x  RBX: 0x%x  RCX: 0x%x  RDX: 0x%x'' @ CRLF))
                  [reg32 (reg_rax r), reg32 (reg_rbx r), reg32 (reg_rcx r), reg32 (reg_rdx r)] s;
            serial_printf dev COM1 (Some (''RSP: 0x%x  RBP: 0x%x  RFLAGS: 0x%x'' @ CRLF))
                  [reg32 (reg_rsp r), reg32 (reg_rbp r), reg32 (reg_rflags r)] s });
     serial_puts dev COM1 (''Interactive panic screen displayed on VGA.'' @ CRLF) s }"

definition register_rows :: "registers option \<Rightarrow> 'a vga_state_scheme \<Rightarrow> 'a vga_state_scheme option" where
  "register_rows regs s =
     (case regs of
        Some r \<Rightarrow> do {
          s \<leftarrow> tui_printf_at 4 12 0x4F ''RIP: 0x%-16x  CS:     0x%-8x  RFLAGS: 0x%-8x'' [CPtr (reg_rip r), reg32 (reg_cs r), reg32 (reg_rflags r)] s;
          s \<leftarrow> tui_printf_at 4 13 0x4F ''RAX: 0x%-16x  RBX:    0x%-16x'' [CPtr (reg_rax r), CPtr (reg_rbx r)] s;
          s \<leftarrow> tui_printf_at 4 14 0x4F ''RCX: 0x%-16x  RDX:    0x%-16x'' [CPtr (reg_rcx r), CPtr (reg_rdx r)] s;
          s \<leftarrow> tui_printf_at 4 15 0x4F ''RSP: 0x%-16x  RBP:    0x%-16x'' [CPtr (reg_rsp r), CPtr (reg_rbp r)] s;
          tui_printf_at 4 16 0x4F ''TRAP: %-2u (code: 0x%x)'' [reg32 (int_no r), reg32 (err_code r)] s }
      | None \<Rightarrow> do {
          s \<leftarrow> tui_printf_at 4 13 0x4F ''Manual AURA_PANIC assertion triggered from kernel subsystem.'' [] s;
          tui_printf_at 4 14 0x4F ''Pre-panic register snapshot saved in recovery checkpoint.'' [] s })"

definition panic_screen :: "string option \<Rightarrow> string option \<Rightarrow> u32 \<Rightarrow> registers option \<Rightarrow> 'a vga_state_scheme \<Rightarrow> 'a vga_state_scheme option" where
  "panic_screen msg file line regs s = do {
     s \<leftarrow> clear_row 0 80 0 0x4E s;
     s \<leftarrow> tui_puts_at 2 0 ''*** KERNEL PANIC - RECOVERY CONSOLE ***'' 0x4E s;
     s \<leftarrow> tui_puts_at 62 0 ''AuraOS v0.2.3'' 0x4F s;
     s \<leftarrow> for_loop 1 24 (\<lambda>y. clear_row 0 80 (int y) 0x4F) s;
     s \<leftarrow> tui_draw_box 2 2 76 7 0x4F 0x4E (Some '' Diagnostic Information '') True s;
     s \<leftarrow> tui_printf_at 4 4 0x4E ''Reason:   '' [] s;
     s \<leftarrow> tui_printf_at 14 4 0x4F ''%s'' [CStr (Some (case msg of Some m \<Rightarrow> m | None \<Rightarrow> ''General Kernel Protection Fault''))] s;
     s \<leftarrow> (case file of None \<Rightarrow> Some s
        | Some f \<Rightarrow> do {
            s \<leftarrow> tui_printf_at 4 5 0x4E ''Source:   '' [] s;
            tui_printf_at 14 5 0x4F ''%s:%u'' [CStr (Some f), CInt line] s });
     s \<leftarrow> tui_printf_at 4 6 0x4E ''Status:   '' [] s;
     s \<leftarrow> tui_printf_at 14 6 0x4A ''Kernel halted. Hardware state frozen.'' [] s;
     s \<leftarrow> tui_draw_box 2 10 76 8 0x4F 0x4E (Some '' CPU Hardware Register State '') False s;
     s \<leftarrow> register_rows regs s;
     s \<leftarrow> tui_draw_box 2 19 76 4 0x4A 0x4E (Some '' Available Recovery Actions '') False s;
     s \<leftarrow> tui_printf_at 4 20 0x4A ''[R] Restore'' [] s;
     s \<leftarrow> tui_printf_at 16 20 0x4F ''- Roll back execution to shell & clear fault'' [] s;
     s \<leftarrow> tui_printf_at 4 21 0x4E ''[B] Reboot'' [] s;
     s \<leftarrow> tui_printf_at 16 21 0x4F ''- Reset processor and restart system'' [] s;
     s \<leftarrow> tui_printf_at 40 21 0x4C ''[O] Power Off'' [] s;
     s \<leftarrow> tui_printf_at 54 21 0x4F ''- ACPI shut down'' [] s;
     s \<leftarrow> clear_row 0 80 24 0x1F s;
     tui_puts_at 2 24 ''Select action: [R] Restore   [B] Reboot   [O] Power Off'' 0x1E s }"

definition aura_panic_interactive :: "device \<Rightarrow> string option \<Rightarrow> string option \<Rightarrow> u32 \<Rightarrow> registers option \<Rightarrow> 'a panic_state_scheme \<Rightarrow>
    (panic_end \<times> 'a panic_state_scheme) option" where
  "aura_panic_interactive dev msg file line regs s = do {
     s \<leftarrow> panic_report dev msg file line regs s;
     s \<leftarrow> panic_screen msg file line regs s;
     panic_loop dev s }"

definition aura_panic :: "device \<Rightarrow> string option \<Rightarrow> string option \<Rightarrow> u32 \<Rightarrow> 'a panic_state_scheme \<Rightarrow> (panic_end \<times> 'a panic_state_scheme) option" where
  "aura_panic dev msg file line s = aura_panic_interactive dev msg file line None s"

section \<open>The page fault handler\<close>

definition hex_to_str :: "u64 \<Rightarrow> char list" where
  "hex_to_str v = [CHR ''0'', CHR ''x''] @ map (\<lambda>k. hex_digits ! unat (drop_bit (4 * (15 - k)) v AND 0x0F)) [0..<16] @ [CHR 0x00]"

text \<open>The bits of the error code.\<close>

abbreviation PF_PRESENT :: u32 where "PF_PRESENT \<equiv> 1"
abbreviation PF_WRITE :: u32 where "PF_WRITE \<equiv> 2"
abbreviation PF_USER :: u32 where "PF_USER \<equiv> 4"
abbreviation PF_RESERVED :: u32 where "PF_RESERVED \<equiv> 8"
abbreviation PF_INSTR_FETCH :: u32 where "PF_INSTR_FETCH \<equiv> 16"

definition page_fault_desc :: "u64 \<Rightarrow> string" where
  "page_fault_desc ec =
     (let err = ucast ec :: u32; present = err AND PF_PRESENT \<noteq> 0; wr = err AND PF_WRITE \<noteq> 0; user = err AND PF_USER \<noteq> 0;
          reserved = err AND PF_RESERVED \<noteq> 0; instr_fetch = err AND PF_INSTR_FETCH \<noteq> 0 in
      if reserved then ''page fault: reserved bit set in page tables''
      else if instr_fetch then
        if present then ''page fault: exec on NX present page'' else ''page fault: exec on non-present page''
      else if user then
        if wr then if present then ''page fault: user write protection violation'' else ''page fault: user write to non-present page''
        else if present then ''page fault: user read protection violation'' else ''page fault: user read from non-present page''
      else
        if wr then if present then ''page fault: kernel write protection violation'' else ''page fault: kernel write to non-present page''
        else if present then ''page fault: kernel read protection violation'' else ''page fault: kernel read from non-present page'')"

text \<open>The message is built in \<open>char msg[128]\<close>; a store past its end is None.\<close>

definition msg_push :: "string \<Rightarrow> string \<Rightarrow> string option" where
  "msg_push t msg = (if length msg + length t \<le> 128 then Some (msg @ t) else None)"

definition page_fault_msg :: "u64 \<Rightarrow> u64 \<Rightarrow> string option" where
  "page_fault_msg cr2 err = do {
     m \<leftarrow> msg_push (take 80 (page_fault_desc err)) [];
     m \<leftarrow> msg_push '' at '' m;
     m \<leftarrow> msg_push (c_string (hex_to_str cr2)) m;
     b \<leftarrow> msg_push [CHR 0x00] m;
     Some m }"

definition page_fault :: "device \<Rightarrow> string \<Rightarrow> u64 \<Rightarrow> registers \<Rightarrow> 'a panic_state_scheme \<Rightarrow> (panic_end \<times> 'a panic_state_scheme) option" where
  "page_fault dev file cr2 regs s = do {
     msg \<leftarrow> page_fault_msg cr2 (err_code regs);
     aura_panic_interactive dev (Some msg) (Some file) 99 (Some regs) s }"

definition pagefault_init :: "'a idt_state_scheme \<Rightarrow> 'a idt_state_scheme" where
  "pagefault_init s = isr_register_handler 14 page_fault_handler s"

section \<open>Calls that draw on some rows only\<close>

definition drew_rows :: "int \<Rightarrow> int \<Rightarrow> 'a vga_state_scheme option \<Rightarrow> 'a vga_state_scheme \<Rightarrow> bool" where
  "drew_rows a b r s \<longleftrightarrow> (\<exists>ov. draws r ov s \<and> (\<forall>x y. \<not> (a \<le> y \<and> y < b) \<longrightarrow> ov x y = None))"

lemma drew_rowsI: "draws r ov s \<Longrightarrow> (\<And>x y. \<not> (a \<le> y \<and> y < b) \<Longrightarrow> ov x y = None) \<Longrightarrow> drew_rows a b r s"
  by (auto simp: drew_rows_def)

lemma drew_rows_bind:
  assumes "drew_rows a b r s" and "\<And>s1 ov. drawn ov s s1 \<Longrightarrow> drew_rows a b (q s1) s1"
  shows "drew_rows a b (r \<bind> q) s"
proof -
  obtain ov s1 where 1: "r = Some s1" "drawn ov s s1" "\<forall>x y. \<not> (a \<le> y \<and> y < b) \<longrightarrow> ov x y = None"
    using assms(1) by (auto simp: drew_rows_def draws_def)
  obtain ov' s2 where 2: "q s1 = Some s2" "drawn ov' s1 s2" "\<forall>x y. \<not> (a \<le> y \<and> y < b) \<longrightarrow> ov' x y = None"
    using assms(2)[OF 1(2)] by (auto simp: drew_rows_def draws_def)
  have "draws (r \<bind> q) (over ov' ov) s" using 1(1) 2(1) drawn_trans[OF 1(2) 2(2)] by (simp add: draws_def)
  then show ?thesis by (rule drew_rowsI) (use 1(3) 2(3) in \<open>simp add: over_def\<close>)
qed

lemma drew_rows_then:
  "length (vga_mem s) = 2000 \<Longrightarrow> drew_rows a b r s \<Longrightarrow> (\<And>s1. length (vga_mem s1) = 2000 \<Longrightarrow> drew_rows a b (q s1) s1) \<Longrightarrow> drew_rows a b (r \<bind> q) s"
  by (rule drew_rows_bind) (auto intro: drawn_length)

lemma drew_rows_calls:
  assumes "length (vga_mem s) = 2000"
  shows "a \<le> y \<Longrightarrow> y < b \<Longrightarrow> drew_rows a b (tui_puts_at x y t c s) s"
    and "a \<le> y \<Longrightarrow> y < b \<Longrightarrow> drew_rows a b (clear_row l r y c s) s"
    and "a \<le> y \<Longrightarrow> y < b \<Longrightarrow> tui_text fmt args \<noteq> None \<Longrightarrow> drew_rows a b (tui_printf_at x y c fmt args s) s"
    and "a \<le> y \<Longrightarrow> y + h \<le> b \<Longrightarrow> 5 \<le> w \<Longrightarrow> 2 \<le> h \<Longrightarrow> drew_rows a b (tui_draw_box x y w h bc tc title dbl s) s"
    and "drew_rows a b (Some s) s"
proof -
  show "a \<le> y \<Longrightarrow> y < b \<Longrightarrow> drew_rows a b (tui_puts_at x y t c s) s"
    by (rule drew_rowsI[OF draws_puts[OF assms]]) (auto simp: puts_ov_def)
  show "a \<le> y \<Longrightarrow> y < b \<Longrightarrow> drew_rows a b (clear_row l r y c s) s"
    by (rule drew_rowsI[OF draws_clear_row[OF assms]]) (auto simp: clear_ov_def)
  show "a \<le> y \<Longrightarrow> y < b \<Longrightarrow> tui_text fmt args \<noteq> None \<Longrightarrow> drew_rows a b (tui_printf_at x y c fmt args s) s"
  proof -
    assume y: "a \<le> y" "y < b" and "tui_text fmt args \<noteq> None"
    then obtain t where t: "tui_text fmt args = Some t" by blast
    show ?thesis by (rule drew_rowsI[OF draws_printf_text[OF t assms]]) (use y in \<open>auto simp: puts_ov_def\<close>)
  qed
  show "a \<le> y \<Longrightarrow> y + h \<le> b \<Longrightarrow> 5 \<le> w \<Longrightarrow> 2 \<le> h \<Longrightarrow> drew_rows a b (tui_draw_box x y w h bc tc title dbl s) s"
    by (rule drew_rowsI[OF draws_box[OF _ _ assms]]) (auto intro!: box_ov_outside)
  show "drew_rows a b (Some s) s" by (rule drew_rowsI[OF draws_skip[OF assms]]) (simp add: blank_overlay_def)
qed

lemma drew_rows_for:
  assumes "\<And>i s. m \<le> i \<Longrightarrow> i < n \<Longrightarrow> length (vga_mem s) = 2000 \<Longrightarrow> drew_rows a b (f i s) s" and "length (vga_mem s) = 2000" and "m \<le> n"
  shows "drew_rows a b (for_loop m n f s) s"
proof -
  have "\<exists>s'. for_loop m n f s = Some s' \<and> (\<exists>ov. drawn ov s s' \<and> (\<forall>x y. \<not> (a \<le> y \<and> y < b) \<longrightarrow> ov x y = None))"
  proof (rule for_loop_rule[where P = "\<lambda>i s'. \<exists>ov. drawn ov s s' \<and> (\<forall>x y. \<not> (a \<le> y \<and> y < b) \<longrightarrow> ov x y = None)"])
    show "\<exists>ov. drawn ov s s \<and> (\<forall>x y. \<not> (a \<le> y \<and> y < b) \<longrightarrow> ov x y = None)"
      using drew_rows_calls(5)[OF assms(2)] by (auto simp: drew_rows_def draws_def)
  next
    fix i t assume i: "m \<le> i" "i < n" and "\<exists>ov. drawn ov s t \<and> (\<forall>x y. \<not> (a \<le> y \<and> y < b) \<longrightarrow> ov x y = None)"
    then obtain ov where t: "drawn ov s t" "\<forall>x y. \<not> (a \<le> y \<and> y < b) \<longrightarrow> ov x y = None" by blast
    then obtain t' ov' where t': "f i t = Some t'" "drawn ov' t t'" "\<forall>x y. \<not> (a \<le> y \<and> y < b) \<longrightarrow> ov' x y = None"
      using assms(1)[OF i drawn_length[OF t(1)]] unfolding drew_rows_def draws_def by blast
    have "\<forall>x y. \<not> (a \<le> y \<and> y < b) \<longrightarrow> over ov' ov x y = None" using t(2) t'(3) by (simp add: over_def)
    then show "\<exists>s'. f i t = Some s' \<and> (\<exists>ov. drawn ov s s' \<and> (\<forall>x y. \<not> (a \<le> y \<and> y < b) \<longrightarrow> ov x y = None))"
      using t'(1) drawn_trans[OF t(1) t'(2)] by blast
  qed (rule assms(3))
  then show ?thesis by (auto simp: drew_rows_def draws_def)
qed

lemma shown_at_drew:
  assumes "shown_at x y t c s" and "drew_rows a b r s" and "\<not> (a \<le> y \<and> y < b)"
    and "0 \<le> x" "x + int (length t) \<le> 80" "0 \<le> y" "y < 25"
  shows "\<exists>s' ov. r = Some s' \<and> drawn ov s s' \<and> shown_at x y t c s'"
proof -
  obtain ov s' where s': "r = Some s'" "drawn ov s s'" "\<forall>x y. \<not> (a \<le> y \<and> y < b) \<longrightarrow> ov x y = None"
    using assms(2) by (auto simp: drew_rows_def draws_def)
  then show ?thesis using shown_at_keeps[OF assms(1) s'(2)] assms(3-) by blast
qed

section \<open>The panic screen\<close>

text \<open>None of the conversions with a width is one the formatter knows, so each format is shown as it is.\<close>

abbreviation rip_format :: string where
  "rip_format \<equiv> ''RIP: 0x%-16x  CS:     0x%-8x  RFLAGS: 0x%-8x''"

abbreviation rax_format :: string where
  "rax_format \<equiv> ''RAX: 0x%-16x  RBX:    0x%-16x''"

abbreviation rcx_format :: string where
  "rcx_format \<equiv> ''RCX: 0x%-16x  RDX:    0x%-16x''"

abbreviation rsp_format :: string where
  "rsp_format \<equiv> ''RSP: 0x%-16x  RBP:    0x%-16x''"

abbreviation trap_format :: string where
  "trap_format \<equiv> ''TRAP: %-2u (code: 0x%x)''"

lemma register_texts:
  "tui_text rip_format args = Some rip_format" "tui_text rax_format args = Some rax_format"
  "tui_text rcx_format args = Some rcx_format" "tui_text rsp_format args = Some rsp_format"
  "tui_text trap_format args = Some trap_format"
  by (simp_all add: tui_text_def tui_directive_def buf_push_def)

definition registers_literal :: "'a vga_state_scheme \<Rightarrow> bool" where
  "registers_literal s \<longleftrightarrow> shown_at 4 12 rip_format 0x4F s \<and> shown_at 4 13 rax_format 0x4F s \<and> shown_at 4 14 rcx_format 0x4F s \<and>
     shown_at 4 15 rsp_format 0x4F s \<and> shown_at 4 16 trap_format 0x4F s"

lemma registers_literal_keeps:
  assumes "registers_literal s" and "drew_rows 19 25 r s"
  shows "\<exists>s' ov. r = Some s' \<and> drawn ov s s' \<and> registers_literal s'"
proof -
  obtain ov s' where s': "r = Some s'" "drawn ov s s'" "\<forall>x y. \<not> (19 \<le> y \<and> y < 25) \<longrightarrow> ov x y = None"
    using assms(2) by (auto simp: drew_rows_def draws_def)
  have k: "shown_at 4 y t c s \<Longrightarrow> y \<in> {12, 13, 14, 15, 16} \<Longrightarrow> length t \<le> 76 \<Longrightarrow> shown_at 4 y t c s'" for y t c
    by (rule shown_at_keeps[OF _ s'(2)]) (use s'(3) in auto)
  have "registers_literal s'" using assms(1) k unfolding registers_literal_def by simp
  with s' show ?thesis by blast
qed

lemma register_rows_literal:
  assumes "length (vga_mem s) = 2000"
  shows "\<exists>s' ov. register_rows (Some r) s = Some s' \<and> drawn ov s s' \<and> registers_literal s' \<and> (\<forall>x y. \<not> (12 \<le> y \<and> y < 17) \<longrightarrow> ov x y = None)"
proof -
  note one = draws_printf_text[OF register_texts(1)] draws_printf_text[OF register_texts(2)] draws_printf_text[OF register_texts(3)]
    draws_printf_text[OF register_texts(4)] draws_printf_text[OF register_texts(5)]
  let ?a1 = "[CPtr (reg_rip r), reg32 (reg_cs r), reg32 (reg_rflags r)]"
  obtain s1 where s1: "tui_printf_at 4 12 0x4F rip_format ?a1 s = Some s1" "drawn (puts_ov 4 12 rip_format 0x4F) s s1"
    using one(1)[OF assms] by (rule drawsE)
  obtain s2 where s2: "tui_printf_at 4 13 0x4F rax_format [CPtr (reg_rax r), CPtr (reg_rbx r)] s1 = Some s2" "drawn (puts_ov 4 13 rax_format 0x4F) s1 s2"
    using one(2)[OF drawn_length[OF s1(2)]] by (rule drawsE)
  obtain s3 where s3: "tui_printf_at 4 14 0x4F rcx_format [CPtr (reg_rcx r), CPtr (reg_rdx r)] s2 = Some s3" "drawn (puts_ov 4 14 rcx_format 0x4F) s2 s3"
    using one(3)[OF drawn_length[OF s2(2)]] by (rule drawsE)
  obtain s4 where s4: "tui_printf_at 4 15 0x4F rsp_format [CPtr (reg_rsp r), CPtr (reg_rbp r)] s3 = Some s4" "drawn (puts_ov 4 15 rsp_format 0x4F) s3 s4"
    using one(4)[OF drawn_length[OF s3(2)]] by (rule drawsE)
  obtain s5 where s5: "tui_printf_at 4 16 0x4F trap_format [reg32 (int_no r), reg32 (err_code r)] s4 = Some s5" "drawn (puts_ov 4 16 trap_format 0x4F) s4 s5"
    using one(5)[OF drawn_length[OF s4(2)]] by (rule drawsE)
  have k: "shown_at 4 y t c u" if "shown_at 4 y t c u0" "drawn (puts_ov 4 y' t' c') u0 u" "y \<noteq> y'" "0 \<le> y" "y < 25" "length t \<le> 76"
    for y y' t t' c c' and u0 u :: "'a vga_state_scheme"
    by (rule shown_at_row[OF that(1,2) row_ov_simps(1)]) (use that in auto)
  have p: "shown_at 4 12 rip_format 0x4F s1" "shown_at 4 13 rax_format 0x4F s2" "shown_at 4 14 rcx_format 0x4F s3" "shown_at 4 15 rsp_format 0x4F s4"
    "shown_at 4 16 trap_format 0x4F s5"
    by (rule shown_at_puts[OF s1(2)] shown_at_puts[OF s2(2)] shown_at_puts[OF s3(2)] shown_at_puts[OF s4(2)] shown_at_puts[OF s5(2)]; simp)+
  have "registers_literal s5"
    unfolding registers_literal_def
    using k[OF k[OF k[OF k[OF p(1) s2(2)] s3(2)] s4(2)] s5(2)] k[OF k[OF k[OF p(2) s3(2)] s4(2)] s5(2)] k[OF k[OF p(3) s4(2)] s5(2)]
      k[OF p(4) s5(2)] p(5) by simp
  moreover have "register_rows (Some r) s = Some s5"
    using s1(1) s2(1) s3(1) s4(1) s5(1) by (simp add: register_rows_def)
  moreover note drawn_trans[OF drawn_trans[OF drawn_trans[OF drawn_trans[OF s1(2) s2(2)] s3(2)] s4(2)] s5(2)]
  moreover have "over (puts_ov 4 16 trap_format 0x4F) (over (puts_ov 4 15 rsp_format 0x4F) (over (puts_ov 4 14 rcx_format 0x4F)
      (over (puts_ov 4 13 rax_format 0x4F) (puts_ov 4 12 rip_format 0x4F)))) x y = None" if "\<not> (12 \<le> y \<and> y < 17)" for x y
    using that by (auto simp: over_def puts_ov_def)
  ultimately show ?thesis by blast
qed

text \<open>The screen in four parts: up to the reason, up to the box of the registers, the registers, the rest.\<close>

definition screen_reason :: "'a vga_state_scheme \<Rightarrow> 'a vga_state_scheme option" where
  "screen_reason s = do {
     s \<leftarrow> clear_row 0 80 0 0x4E s;
     s \<leftarrow> tui_puts_at 2 0 ''*** KERNEL PANIC - RECOVERY CONSOLE ***'' 0x4E s;
     s \<leftarrow> tui_puts_at 62 0 ''AuraOS v0.2.3'' 0x4F s;
     s \<leftarrow> for_loop 1 24 (\<lambda>y. clear_row 0 80 (int y) 0x4F) s;
     s \<leftarrow> tui_draw_box 2 2 76 7 0x4F 0x4E (Some '' Diagnostic Information '') True s;
     tui_printf_at 4 4 0x4E ''Reason:   '' [] s }"

definition screen_status :: "string option \<Rightarrow> u32 \<Rightarrow> 'a vga_state_scheme \<Rightarrow> 'a vga_state_scheme option" where
  "screen_status fl line s = do {
     s \<leftarrow> (case fl of None \<Rightarrow> Some s
        | Some f \<Rightarrow> do {
            s \<leftarrow> tui_printf_at 4 5 0x4E ''Source:   '' [] s;
            tui_printf_at 14 5 0x4F ''%s:%u'' [CStr (Some f), CInt line] s });
     s \<leftarrow> tui_printf_at 4 6 0x4E ''Status:   '' [] s;
     s \<leftarrow> tui_printf_at 14 6 0x4A ''Kernel halted. Hardware state frozen.'' [] s;
     tui_draw_box 2 10 76 8 0x4F 0x4E (Some '' CPU Hardware Register State '') False s }"

definition screen_actions :: "'a vga_state_scheme \<Rightarrow> 'a vga_state_scheme option" where
  "screen_actions s = do {
     s \<leftarrow> tui_draw_box 2 19 76 4 0x4A 0x4E (Some '' Available Recovery Actions '') False s;
     s \<leftarrow> tui_printf_at 4 20 0x4A ''[R] Restore'' [] s;
     s \<leftarrow> tui_printf_at 16 20 0x4F ''- Roll back execution to shell & clear fault'' [] s;
     s \<leftarrow> tui_printf_at 4 21 0x4E ''[B] Reboot'' [] s;
     s \<leftarrow> tui_printf_at 16 21 0x4F ''- Reset processor and restart system'' [] s;
     s \<leftarrow> tui_printf_at 40 21 0x4C ''[O] Power Off'' [] s;
     s \<leftarrow> tui_printf_at 54 21 0x4F ''- ACPI shut down'' [] s;
     s \<leftarrow> clear_row 0 80 24 0x1F s;
     tui_puts_at 2 24 ''Select action: [R] Restore   [B] Reboot   [O] Power Off'' 0x1E s }"

lemma panic_screen_parts:
  "panic_screen msg fl line regs s =
     screen_reason s \<bind> (\<lambda>s. tui_printf_at 14 4 0x4F ''%s'' [CStr (Some (case msg of Some m \<Rightarrow> m | None \<Rightarrow> ''General Kernel Protection Fault''))] s \<bind>
       (\<lambda>s. screen_status fl line s \<bind> (\<lambda>s. register_rows regs s \<bind> screen_actions)))"
  by (simp only: panic_screen_def screen_reason_def screen_status_def screen_actions_def[abs_def] bind_assoc)

lemma tui_text_some: "format_text tui_conv None fmt args \<noteq> None \<Longrightarrow> tui_text fmt args \<noteq> None"
  using tui_text_take by blast

lemmas drew_rows_steps = drew_rows_then drew_rows_for drew_rows_calls tui_text_some

lemma drew_screen_reason:
  assumes "length (vga_mem s) = 2000"
  shows "drew_rows 0 25 (screen_reason s) s"
  unfolding screen_reason_def
  by (intro drew_rows_steps assms) simp_all

lemma drew_screen_status:
  assumes "length (vga_mem s) = 2000"
  shows "drew_rows 5 18 (screen_status fl line s) s"
proof -
  have f: "drew_rows 5 18 (case fl of None \<Rightarrow> Some s
        | Some f \<Rightarrow> do {
            s \<leftarrow> tui_printf_at 4 5 0x4E ''Source:   '' [] s;
            tui_printf_at 14 5 0x4F ''%s:%u'' [CStr (Some f), CInt line] s }) s"
    using drew_rows_calls(5)[OF assms]
    by (cases fl) (simp, simp only: option.case, intro drew_rows_steps assms, simp_all)
  show ?thesis
    unfolding screen_status_def
    by (rule drew_rows_then[OF assms f], intro drew_rows_steps) simp_all
qed

lemma drew_screen_actions:
  assumes "length (vga_mem s) = 2000"
  shows "drew_rows 19 25 (screen_actions s) s"
  unfolding screen_actions_def
  by (intro drew_rows_steps assms) simp_all

lemma panic_screen_shows:
  assumes "length (vga_mem s) = 2000" and "length m \<le> 80"
  shows "\<exists>s'. panic_screen (Some m) fl line (Some r) s = Some s' \<and> (\<exists>ov. drawn ov s s') \<and>
    shown_at 14 4 (take 66 m) 0x4F s' \<and> registers_literal s'"
proof -
  obtain s1 ov1 where s1: "screen_reason s = Some s1" "drawn ov1 s s1"
    using drew_screen_reason[OF assms(1)] by (auto simp: drew_rows_def draws_def)
  have "tui_text ''%s'' [CStr (Some m)] = Some m"
    using tui_text_take[of "''%s''" "[CStr (Some m)]" m] assms(2) by simp
  then obtain s2 where s2: "tui_printf_at 14 4 0x4F ''%s'' [CStr (Some m)] s1 = Some s2" "drawn (puts_ov 14 4 m 0x4F) s1 s2"
    using draws_printf_text[OF _ drawn_length[OF s1(2)]] by (meson drawsE)
  have p2: "shown_at 14 4 (take 66 m) 0x4F s2"
    using s2(2) by (auto simp: shown_at_def drawn_def on_screen_def puts_ov_def)
  obtain s3 ov3 where s3: "screen_status fl line s2 = Some s3" "drawn ov3 s2 s3" "shown_at 14 4 (take 66 m) 0x4F s3"
    using shown_at_drew[OF p2 drew_screen_status[OF drawn_length[OF s2(2)], of fl line]] by auto
  obtain s4 ov4 where s4: "register_rows (Some r) s3 = Some s4" "drawn ov4 s3 s4" "registers_literal s4"
    "\<forall>x y. \<not> (12 \<le> y \<and> y < 17) \<longrightarrow> ov4 x y = None"
    using register_rows_literal[OF drawn_length[OF s3(2)]] by blast
  have p4: "shown_at 14 4 (take 66 m) 0x4F s4"
    by (rule shown_at_keeps[OF s3(3) s4(2)]) (use s4(4) in auto)
  note d = drew_screen_actions[OF drawn_length[OF s4(2)]]
  obtain s5 ov5 where s5: "screen_actions s4 = Some s5" "drawn ov5 s4 s5" "registers_literal s5"
    using registers_literal_keeps[OF s4(3) d] by blast
  have p5: "shown_at 14 4 (take 66 m) 0x4F s5"
    using shown_at_drew[OF p4 d] s5(1) by auto
  note d5 = drawn_trans[OF drawn_trans[OF drawn_trans[OF drawn_trans[OF s1(2) s2(2)] s3(2)] s4(2)] s5(2)]
  have "panic_screen (Some m) fl line (Some r) s = Some s5"
    using s1(1) s2(1) s3(1) s4(1) s5(1) by (simp add: panic_screen_parts)
  then show ?thesis using d5 p5 s5(3) by blast
qed

section \<open>The message of a page fault\<close>

lemma read_hex_digits:
  "read_numeral 16 (map (\<lambda>k. hex_digits ! (v div 16 ^ (n - 1 - k) mod 16)) [0..<n]) = v mod 16 ^ n"
proof (induction n arbitrary: v)
  case (Suc n)
  have "map (\<lambda>k. hex_digits ! (v div 16 ^ (Suc n - 1 - k) mod 16)) [0..<Suc n] =
      map (\<lambda>k. hex_digits ! ((v div 16) div 16 ^ (n - 1 - k) mod 16)) [0..<n] @ [hex_digits ! (v mod 16)]"
  proof -
    have "v div 16 ^ (n - k) = (v div 16) div 16 ^ (n - 1 - k)" if "k < n" for k
    proof -
      have "n - k = Suc (n - 1 - k)" using that by simp
      then show ?thesis by (simp add: div_mult2_eq)
    qed
    then show ?thesis by (simp del: map_eq_conv) (simp only: map_eq_conv, simp)
  qed
  from this[THEN arg_cong, of "read_numeral 16"] have "read_numeral 16 (map (\<lambda>k. hex_digits ! (v div 16 ^ (Suc n - 1 - k) mod 16)) [0..<Suc n]) =
      read_numeral 16 (map (\<lambda>k. hex_digits ! ((v div 16) div 16 ^ (n - 1 - k) mod 16)) [0..<n]) * 16 + v mod 16"
    by (rule trans) (simp add: read_numeral_def digit_value_hex)
  also have "\<dots> = v mod 16 ^ Suc n" using Suc.IH[of "v div 16"] by (simp add: mod_mult2_eq)
  finally show ?case .
qed (simp add: read_numeral_def)

definition hex16 :: "u64 \<Rightarrow> string" where
  "hex16 v = map (\<lambda>k. hex_digits ! unat (drop_bit (4 * (15 - k)) v AND 0x0F)) [0..<16]"

lemma nibble: "unat (drop_bit (4 * j) v AND 0x0F :: u64) = unat v div 16 ^ j mod 16"
proof -
  have "(0x0F :: u64) = mask 4" by (simp add: mask_eq_decr_exp)
  then have "drop_bit (4 * j) v AND 0x0F = take_bit 4 (drop_bit (4 * j) v)" by (simp add: take_bit_eq_mask)
  moreover have "take_bit 64 (unat v) = unat v" using unsigned_less[where 'a = nat and w = v] by (simp add: take_bit_nat_eq_self)
  ultimately have "unat (drop_bit (4 * j) v AND 0x0F) = take_bit 4 (drop_bit (4 * j) (unat v))"
    by (simp add: unsigned_take_bit_eq unsigned_drop_bit_eq)
  also have "\<dots> = unat v div 16 ^ j mod 16" by (simp add: take_bit_eq_mod drop_bit_eq_div power_mult)
  finally show ?thesis .
qed

lemma hex16_value: "read_numeral 16 (hex16 v) = unat v" "length (hex16 v) = 16" "CHR 0x00 \<notin> set (hex16 v)"
proof -
  have "hex16 v = map (\<lambda>k. hex_digits ! (unat v div 16 ^ (16 - 1 - k) mod 16)) [0..<16]"
    unfolding hex16_def by (simp only: nibble) simp
  moreover have "unat v < 16 ^ 16" using unsigned_less[of v] by simp
  ultimately show "read_numeral 16 (hex16 v) = unat v" by (simp only: read_hex_digits) simp
  show "length (hex16 v) = 16" by (simp add: hex16_def)
  have "hex_digits ! (i mod 16) \<noteq> CHR 0x00" for i :: nat
  proof -
    have "hex_digits ! (i mod 16) \<in> set hex_digits" by (rule nth_mem) simp
    moreover have "CHR 0x00 \<notin> set hex_digits" by (simp add: hex_digits_def)
    ultimately show ?thesis by metis
  qed
  then have "CHR 0x00 \<noteq> hex_digits ! (i mod 16)" for i :: nat by metis
  then show "CHR 0x00 \<notin> set (hex16 v)" by (simp add: hex16_def nibble image_iff)
qed

lemma page_fault_desc_length: "length (page_fault_desc ec) \<le> 45"
  by (simp add: page_fault_desc_def Let_def)

lemma page_fault_msg_eq: "page_fault_msg cr2 ec = Some (page_fault_desc ec @ '' at 0x'' @ hex16 cr2)"
proof -
  have "c_string (hex_to_str cr2) = ''0x'' @ hex16 cr2"
    using hex16_value(3)[of cr2] by (simp add: hex_to_str_def hex16_def[symmetric] c_string_def takeWhile_append)
  then show ?thesis
    using page_fault_desc_length[of ec] hex16_value(2)[of cr2] by (simp add: page_fault_msg_def msg_push_def)
qed

section \<open>What the report says\<close>

definition sends :: "('a io_state_scheme) option \<Rightarrow> 'a io_state_scheme \<Rightarrow> string \<Rightarrow> bool" where
  "sends r s t \<longleftrightarrow> (\<exists>s'. r = Some s' \<and> serial_shown COM1 s t s')"

lemma sends_bind: "sends r s a \<Longrightarrow> (\<And>s1. sends (q s1) s1 b) \<Longrightarrow> sends (r \<bind> q) s (a @ b)"
  unfolding sends_def using serial.shown_trans by (metis Option.bind.bind_lunit)

lemma sends_calls:
  assumes "uart_live dev COM1"
  shows "sends (serial_puts dev COM1 t s) s t" and "sends (serial_putc dev COM1 c s) s [c]"
    and "serial_text fmt args = Some t \<Longrightarrow> sends (serial_printf dev COM1 (Some fmt) args s) s t"
    and "sends (Some s) s []"
proof -
  have "\<exists>s'. serial_puts dev COM1 t s = Some s' \<and> uart_live dev COM1 \<and> serial_shown COM1 s t s'"
    using serial.send_shown[OF assms] by (simp add: serial_puts_def)
  then show "sends (serial_puts dev COM1 t s) s t" by (auto simp: sends_def)
  show "sends (serial_putc dev COM1 c s) s [c]" using serial_putc_live[OF assms] by (auto simp: sends_def)
  show "sends (Some s) s []" using serial.shown_refl[where port = COM1] by (auto simp: sends_def)
  show "sends (serial_printf dev COM1 (Some fmt) args s) s t" if "serial_text fmt args = Some t"
    using serial_printf_shown[OF assms, of fmt args s] that by (simp add: sends_def)
qed

definition trap_text :: "registers \<Rightarrow> string" where
  "trap_text r = ''Trap: '' @ number_text 10 (unat (ucast (int_no r) :: u32)) @ ''  Err: 0x'' @ number_text 16 (unat (ucast (err_code r) :: u32)) @
     ''  RIP: 0x'' @ number_text 16 (unat (ucast (reg_rip r) :: u32)) @ ''  CS: 0x'' @ number_text 16 (unat (ucast (reg_cs r) :: u32)) @ CRLF"

definition abcd_text :: "registers \<Rightarrow> string" where
  "abcd_text r = ''RAX: 0x'' @ number_text 16 (unat (ucast (reg_rax r) :: u32)) @ ''  RBX: 0x'' @ number_text 16 (unat (ucast (reg_rbx r) :: u32)) @
     ''  RCX: 0x'' @ number_text 16 (unat (ucast (reg_rcx r) :: u32)) @ ''  RDX: 0x'' @ number_text 16 (unat (ucast (reg_rdx r) :: u32)) @ CRLF"

definition stack_text :: "registers \<Rightarrow> string" where
  "stack_text r = ''RSP: 0x'' @ number_text 16 (unat (ucast (reg_rsp r) :: u32)) @ ''  RBP: 0x'' @ number_text 16 (unat (ucast (reg_rbp r) :: u32)) @
     ''  RFLAGS: 0x'' @ number_text 16 (unat (ucast (reg_rflags r) :: u32)) @ CRLF"

definition banner_text :: string where
  "banner_text = CRLF @ ''========================================'' @ CRLF @ ''           *** KERNEL PANIC ***         '' @ CRLF @
     ''========================================'' @ CRLF @ ''Reason: ''"

definition location_text :: "string option \<Rightarrow> u32 \<Rightarrow> string" where
  "location_text fl line = (case fl of None \<Rightarrow> [] | Some f \<Rightarrow> ''Location: '' @ f @ [CHR '':''] @ number_text 10 (unat line) @ CRLF)"

definition report_text :: "string \<Rightarrow> string option \<Rightarrow> u32 \<Rightarrow> registers \<Rightarrow> string" where
  "report_text m fl line r = banner_text @ m @ CRLF @ location_text fl line @ trap_text r @ abcd_text r @ stack_text r @
     ''Interactive panic screen displayed on VGA.'' @ CRLF"

lemma serial_texts:
  "serial_text ''%u'' [CInt line] = Some (number_text 10 (unat line))"
  "serial_text (''Trap: %u  Err: 0x%x  RIP: 0x%x  CS: 0x%x'' @ CRLF) [reg32 (int_no r), reg32 (err_code r), reg32 (reg_rip r), reg32 (reg_cs r)] =
     Some (trap_text r)"
  "serial_text (''RAX: 0x%x  RBX: 0x%x  RCX: 0x%x  RDX: 0x%x'' @ CRLF) [reg32 (reg_rax r), reg32 (reg_rbx r), reg32 (reg_rcx r), reg32 (reg_rdx r)] =
     Some (abcd_text r)"
  "serial_text (''RSP: 0x%x  RBP: 0x%x  RFLAGS: 0x%x'' @ CRLF) [reg32 (reg_rsp r), reg32 (reg_rbp r), reg32 (reg_rflags r)] = Some (stack_text r)"
  by (simp_all add: serial_text_def serial_conv_def reg32_def trap_text_def abcd_text_def stack_text_def)

lemma panic_report_sends:
  assumes "uart_live dev COM1"
  shows "sends (panic_report dev (Some m) fl line (Some r) s) s (report_text m fl line r)"
proof -
  note c = sends_calls(1,2)[OF assms] sends_calls(3)[OF assms serial_texts(1)] sends_calls(3)[OF assms serial_texts(2)]
    sends_calls(3)[OF assms serial_texts(3)] sends_calls(3)[OF assms serial_texts(4)]
  have loc: "sends (case fl of None \<Rightarrow> Some u
      | Some f \<Rightarrow> do {
          s \<leftarrow> serial_puts dev COM1 ''Location: '' u;
          s \<leftarrow> serial_puts dev COM1 f s;
          s \<leftarrow> serial_putc dev COM1 (CHR '':'') s;
          s \<leftarrow> serial_printf dev COM1 (Some ''%u'') [CInt line] s;
          serial_puts dev COM1 CRLF s }) u (location_text fl line)" for u :: "'a io_state_scheme"
    using sends_calls(4)[OF assms, of u]
    by (cases fl) (simp add: location_text_def, simp only: option.case location_text_def, intro sends_bind c)
  have "sends (panic_report dev (Some m) fl line (Some r) s) s ((CRLF @ ''========================================'' @ CRLF) @
      (''           *** KERNEL PANIC ***         '' @ CRLF) @ (''========================================'' @ CRLF) @ ''Reason: '' @ m @ CRLF @
      location_text fl line @ (trap_text r @ abcd_text r @ stack_text r) @
      (''Interactive panic screen displayed on VGA.'' @ CRLF))"
    unfolding panic_report_def option.case by (intro sends_bind c loc)
  then show ?thesis by (simp only: report_text_def banner_text_def append.assoc append_Cons append_Nil)
qed

section \<open>Properties\<close>

text \<open>
  The message of a page fault is built inside its buffer, for every error code: it is the
  description, \<open>at 0x\<close> and sixteen digits that denote the faulting address.
\<close>

theorem page_fault_message:
  "\<exists>digits. page_fault_msg cr2 ec = Some (page_fault_desc ec @ '' at 0x'' @ digits) \<and> length digits = 16 \<and>
     read_numeral 16 digits = unat cr2 \<and> length (page_fault_desc ec @ '' at 0x'' @ digits) < 80"
  using page_fault_msg_eq hex16_value page_fault_desc_length[of ec] by (intro exI[of _ "hex16 cr2"]) simp

text \<open>
  Whatever was on the screen, the panic screen shows the reason in row 4, cut off at the
  right edge after 66 characters, and in rows 12 to 16 the formats of the register lines as they
  are: the formatter knows no widths, so no register is shown.
\<close>

theorem panic_screen_registers:
  assumes "length (vga_mem s) = 2000" and "length m \<le> 80"
  shows "\<exists>s'. panic_screen (Some m) fl line (Some r) s = Some s' \<and> shown_at 14 4 (take 66 m) 0x4F s' \<and> registers_literal s'"
  using panic_screen_shows[OF assms] by blast

theorem panic_screen_registers_witness:
  "\<exists>s'. panic_screen (Some (page_fault_desc 3 @ '' at 0x'' @ hex16 0xdead0001)) (Some ''pagefault.c'') 99 (Some (regs_at 14)) menu_static = Some s' \<and>
     shown_at 14 4 ''page fault: kernel write protection violation at 0x00000000dead000'' 0x4F s'"
proof -
  have m: "page_fault_desc 3 @ '' at 0x'' @ hex16 0xdead0001 =
      ''page fault: kernel write protection violation at 0x00000000dead0001''" by code_simp
  have l: "length ''page fault: kernel write protection violation at 0x00000000dead0001'' \<le> 80" by simp
  have t: "take 66 ''page fault: kernel write protection violation at 0x00000000dead0001'' =
      ''page fault: kernel write protection violation at 0x00000000dead000''" by simp
  from panic_screen_registers[OF menu_static_sizes(1) l, of "Some ''pagefault.c''" 99 "regs_at 14"] show ?thesis
    unfolding m t by blast
qed

section \<open>The keys of the console\<close>

text \<open>The actions of R, B, O and P; the release of a key has none, nor has any other key.\<close>

definition panic_action :: "u8 \<Rightarrow> panic_end option" where
  "panic_action code = (if code = 0x13 then Some Restored else if code = 0x30 then Some Rebooting
     else if code = 0x18 \<or> code = 0x19 then Some Powered_off else None)"

text \<open>
  From the read with number \<open>n\<close> on, the first action key that the polled keyboard delivers is one for \<open>e\<close>: before it
  the status port may be empty and other keys and releases may come, any number of times.
\<close>

inductive first_action :: "device \<Rightarrow> nat \<Rightarrow> panic_end \<Rightarrow> bool" for dev where
  acts: "dev n 0x64 AND 1 \<noteq> 0 \<Longrightarrow> panic_action (dev (Suc n) 0x60) = Some e \<Longrightarrow> first_action dev n e"
| ignored: "dev n 0x64 AND 1 \<noteq> 0 \<Longrightarrow> panic_action (dev (Suc n) 0x60) = None \<Longrightarrow> first_action dev (Suc (Suc n)) e \<Longrightarrow> first_action dev n e"
| waits: "dev n 0x64 AND 1 = 0 \<Longrightarrow> first_action dev (Suc n) e \<Longrightarrow> first_action dev n e"

text \<open>The codes of the actions are those of the keys that the loop asks for.\<close>

lemma action_keys:
  assumes "code AND 0x80 = 0"
  shows "scancode_ascii ! unat code \<in> {CHR ''r'', CHR ''R''} \<longleftrightarrow> panic_action code = Some Restored"
    "scancode_ascii ! unat code \<in> {CHR ''b'', CHR ''B''} \<longleftrightarrow> panic_action code = Some Rebooting"
    "scancode_ascii ! unat code \<in> {CHR ''o'', CHR ''O'', CHR ''p'', CHR ''P''} \<longleftrightarrow> panic_action code = Some Powered_off"
proof -
  have n: "unat code < 128" using released_iff[of code] assms by (simp add: word_le_nat_alt)
  have all: "\<forall>i \<in> set [0..<128]. (scancode_ascii ! i \<in> {CHR ''r'', CHR ''R''} \<longleftrightarrow> i = 0x13) \<and>
      (scancode_ascii ! i \<in> {CHR ''b'', CHR ''B''} \<longleftrightarrow> i = 0x30) \<and>
      (scancode_ascii ! i \<in> {CHR ''o'', CHR ''O'', CHR ''p'', CHR ''P''} \<longleftrightarrow> i = 0x18 \<or> i = 0x19)"
    by code_simp
  have c: "code = of_nat (unat code)" by simp
  have "code = 0x13 \<longleftrightarrow> unat code = 0x13" "code = 0x30 \<longleftrightarrow> unat code = 0x30" "code = 0x18 \<longleftrightarrow> unat code = 0x18"
    "code = 0x19 \<longleftrightarrow> unat code = 0x19"
    by (simp_all add: word_unat_eq_iff)
  with bspec[OF all, of "unat code"] n show
    "scancode_ascii ! unat code \<in> {CHR ''r'', CHR ''R''} \<longleftrightarrow> panic_action code = Some Restored"
    "scancode_ascii ! unat code \<in> {CHR ''b'', CHR ''B''} \<longleftrightarrow> panic_action code = Some Rebooting"
    "scancode_ascii ! unat code \<in> {CHR ''o'', CHR ''O'', CHR ''p'', CHR ''P''} \<longleftrightarrow> panic_action code = Some Powered_off"
    by (auto simp: panic_action_def)
qed

lemma action_released: "panic_action code = Some e \<Longrightarrow> code AND 0x80 = 0"
  by (auto simp: panic_action_def split: if_split_asm)

text \<open>What the loop does with an action key.\<close>

definition panic_does :: "device \<Rightarrow> panic_end \<Rightarrow> 'a panic_state_scheme \<Rightarrow> (panic_end \<times> 'a panic_state_scheme) option" where
  "panic_does dev e s =
     (case e of
        Restored \<Rightarrow> do { (e, s) \<leftarrow> panic_do_restore dev s; case e of Some x \<Rightarrow> Some (x, s) | None \<Rightarrow> panic_loop dev s }
      | Rebooting \<Rightarrow> panic_do_reboot dev s
      | Powered_off \<Rightarrow> panic_do_poweroff dev s)"

lemma panic_loop_key:
  assumes "panic_poll_key dev s = Some (scancode_ascii ! unat code, t)" and "code AND 0x80 = 0"
  shows "panic_loop dev s = (case panic_action code of Some e \<Rightarrow> panic_does dev e t | None \<Rightarrow> panic_loop dev t)"
proof -
  note k = action_keys[OF assms(2)]
  show ?thesis
  proof (cases "panic_action code")
    case None
    then show ?thesis using k assms(1) by (subst panic_loop.simps) simp
  next
    case (Some e)
    then show ?thesis using k assms(1) by (cases e; subst panic_loop.simps) (auto simp: panic_does_def)
  qed
qed

lemma panic_loop_action:
  "first_action dev n e \<Longrightarrow> io_reads s = n \<Longrightarrow> \<exists>m. panic_loop dev s = panic_does dev e (s\<lparr>io_reads := m\<rparr>)"
proof (induction arbitrary: s rule: first_action.induct)
  case (acts n e)
  let ?code = "dev (Suc n) 0x60" and ?s = "s\<lparr>io_reads := Suc (Suc n)\<rparr>"
  have r: "?code AND 0x80 = 0" using acts(2) by (rule action_released)
  have "scancode_ascii ! unat ?code \<noteq> CHR 0x00" using action_keys[OF r] acts(2) by (cases e) auto
  then have "panic_poll_key dev s = Some (scancode_ascii ! unat ?code, ?s)"
    using acts r by (subst panic_poll_key.simps) (simp add: inb_def)
  from panic_loop_key[OF this r] acts(2) show ?case by auto
next
  case (ignored n e)
  let ?code = "dev (Suc n) 0x60" and ?s = "s\<lparr>io_reads := Suc (Suc n)\<rparr>"
  have l: "panic_loop dev s = panic_loop dev ?s"
  proof (cases "?code AND 0x80 = 0 \<and> scancode_ascii ! unat ?code \<noteq> CHR 0x00")
    case True
    then have "panic_poll_key dev s = Some (scancode_ascii ! unat ?code, ?s)"
      using ignored.hyps(1) ignored.prems by (subst panic_poll_key.simps) (simp add: inb_def)
    from panic_loop_key[OF this] True ignored.hyps(2) show ?thesis by simp
  next
    case False
    then have "panic_poll_key dev s = panic_poll_key dev ?s"
      using ignored.hyps(1) ignored.prems by (subst panic_poll_key.simps) (auto simp: inb_def)
    then show ?thesis by (subst (1 2) panic_loop.simps) simp
  qed
  show ?case using ignored.IH[of ?s] unfolding l by simp
next
  case (waits n e)
  let ?s = "s\<lparr>io_reads := Suc n\<rparr>"
  have "panic_poll_key dev s = panic_poll_key dev ?s"
    using waits.hyps(1) waits.prems by (subst panic_poll_key.simps) (simp add: inb_def)
  then have l: "panic_loop dev s = panic_loop dev ?s" by (subst (1 2) panic_loop.simps) simp
  show ?case using waits.IH[of ?s] unfolding l by simp
qed

definition recovered_message :: string where
  "recovered_message = ''[RECOVERED] System state successfully restored after panic''"

text \<open>What an action sends, and what it writes to ports of its own after that.\<close>

definition action_text :: "panic_end \<Rightarrow> string" where
  "action_text e =
     (case e of Restored \<Rightarrow> ''[PANIC] Restoring system state from recovery checkpoint...'' @ CRLF
      | Rebooting \<Rightarrow> ''[PANIC] Rebooting system...'' @ CRLF
      | Powered_off \<Rightarrow> ''[PANIC] Powering off system...'' @ CRLF)"

definition action_bytes :: "panic_end \<Rightarrow> (u16 \<times> u8) list" where
  "action_bytes e = (case e of Restored \<Rightarrow> [] | Rebooting \<Rightarrow> [(PS2_STATUS_PORT, 0xFE)] | Powered_off \<Rightarrow> [(0x501, 0), (0xF4, 0)])"

definition action_words :: "panic_end \<Rightarrow> nat \<Rightarrow> (nat \<times> u16 \<times> u16) list" where
  "action_words e n = (if e = Powered_off then [(n, 0x604, 0x2000), (n + 2, 0xB004, 0x2000), (n + 2, 0x4004, 0x3400), (n + 2, 0x4004, 0x2000)] else [])"

text \<open>The writes to the ports that send a text.\<close>

definition com1 :: "string \<Rightarrow> (u16 \<times> u8) list" where
  "com1 t = map (\<lambda>c. (COM1, of_char c)) t"

text \<open>What the panic console leaves alone: everything but ports, screen, shell and the tasks of the dashboard.\<close>

definition beside :: "'a panic_state_scheme \<Rightarrow> 'a panic_state_scheme" where
  "beside s = s\<lparr>io_reads := 0, io_out := [], vga_mem := [], vga_row := 0, vga_col := 0, vga_color := 0, processes := [],
     cmd_buf := [], cmd_len := 0, log_history := [], log_count := 0, active_view := 0\<rparr>"

lemma beside_upd [simp]:
  "beside (s\<lparr>vga_mem := m\<rparr>) = beside s" "beside (s\<lparr>vga_color := c\<rparr>) = beside s" "beside (s\<lparr>vga_row := r\<rparr>) = beside s"
  "beside (s\<lparr>vga_col := k\<rparr>) = beside s" "beside (s\<lparr>io_reads := n\<rparr>) = beside s" "beside (s\<lparr>io_out := out\<rparr>) = beside s"
  "beside (s\<lparr>processes := ps\<rparr>) = beside s" "beside (s\<lparr>cmd_buf := b\<rparr>) = beside s" "beside (s\<lparr>cmd_len := l\<rparr>) = beside s"
  "beside (s\<lparr>log_history := h\<rparr>) = beside s" "beside (s\<lparr>log_count := n'\<rparr>) = beside s" "beside (s\<lparr>active_view := v\<rparr>) = beside s"
  by (simp_all add: beside_def)

lemma beside_keeps:
  "serial_shown port s t s' \<Longrightarrow> beside s' = beside s" "drawn ov s s' \<Longrightarrow> beside s' = beside s" "menu_frame s s' \<Longrightarrow> beside s' = beside s"
proof -
  show "serial_shown port s t s' \<Longrightarrow> beside s' = beside s" by (auto simp: serial_shown_def)
  show "beside s' = beside s" if "drawn ov s s'"
  proof -
    have "s' = s\<lparr>vga_mem := vga_mem s'\<rparr>" using that by (simp add: drawn_def)
    moreover have "beside (s\<lparr>vga_mem := m\<rparr>) = beside s" for m by simp
    ultimately show ?thesis by metis
  qed
  show "menu_frame s s' \<Longrightarrow> beside s' = beside s" by (auto simp: menu_frame_def dash_frame_def)
qed

lemma log_print_beside [simp]: "beside (log_print m s) = beside s"
  by (simp add: log_print_def Let_def)

text \<open>The shell in \<open>s'\<close> is that of \<open>s\<close>, and so is everything the console leaves alone.\<close>

definition same_shell :: "'a panic_state_scheme \<Rightarrow> 'a panic_state_scheme \<Rightarrow> bool" where
  "same_shell s s' \<longleftrightarrow> menu_ok s' \<and> cmd_line s' = cmd_line s \<and> active_view s' = active_view s \<and> beside s' = beside s"

lemma panic_do_restore_valid:
  assumes "uart_live dev COM1" and "menu_ok s" and "recovery_valid s"
  shows "\<exists>s'. panic_do_restore dev s = Some (Some Restored, s') \<and> same_shell s s' \<and> io_out s' = io_out s @ com1 (action_text Restored) \<and>
    log_lines s' = last_lines (log_lines s @ [recovered_message])"
proof -
  obtain s1 where s1: "serial_puts dev COM1 (''[PANIC] Restoring system state from recovery checkpoint...'' @ CRLF) s = Some s1"
    "serial_shown COM1 s (''[PANIC] Restoring system state from recovery checkpoint...'' @ CRLF) s1"
    using serial.send_shown[OF assms(1), folded serial_puts_def] by blast
  have ok1: "menu_ok s1" "cmd_line s1 = cmd_line s" "log_lines s1 = log_lines s" "active_view s1 = active_view s"
    using s1(2) assms(2) by (auto simp: serial_shown_def menu_ok_def cmd_ok_def log_ok_def cmd_line_def log_lines_def)
  have l1: "length (vga_mem (vga_set_color 7 0 s1)) = 2000" using ok1(1) by (simp add: menu_ok_def vga_set_color_def)
  obtain m c where s2: "vga_init s1 = Some (s1\<lparr>vga_color := c, vga_mem := m, vga_row := 0, vga_col := 0\<rparr>)" "length m = 2000"
    using vga_clear_ok[OF l1] by (auto simp: vga_init_def vga_set_color_def)
  let ?s2 = "s1\<lparr>vga_color := c, vga_mem := m, vga_row := 0, vga_col := 0\<rparr>"
  have ok2: "menu_ok ?s2" "cmd_line ?s2 = cmd_line s" "log_lines ?s2 = log_lines s" "active_view ?s2 = active_view s"
    using ok1 s2(2) by (simp_all add: menu_ok_def cmd_ok_def log_ok_def cmd_line_def log_lines_def)
  have nul: "\<forall>m \<in> set [recovered_message]. CHR 0x00 \<notin> set m" by (simp add: recovered_message_def)
  have "log_ok ?s2" using ok2(1) by (simp add: menu_ok_def)
  note log = log_print_run[OF this nul]
  have t: "take 78 recovered_message = recovered_message" by (simp add: recovered_message_def)
  let ?s3 = "menu_log recovered_message ?s2"
  have ok3: "menu_ok ?s3" "cmd_line ?s3 = cmd_line s" "log_lines ?s3 = last_lines (log_lines s @ [recovered_message])" "active_view ?s3 = active_view s"
    using ok2 log t by (simp_all add: menu_ok_def menu_log_def cmd_ok_def cmd_line_def)
  obtain s4 where s4: "menu_render ?s3 = Some s4" "menu_frame ?s3 s4"
    using menu_render_frame[of ?s3] ok3(1) by (auto simp: menu_ok_def)
  have ok4: "menu_ok s4" "cmd_line s4 = cmd_line ?s3" "log_lines s4 = log_lines ?s3" "active_view s4 = active_view ?s3" "io_out s4 = io_out ?s3"
    using cmd_ok_frame[OF s4(2)] menu_frame_fields[OF s4(2)] ok3(1) s4(2) by (auto simp: menu_ok_def menu_frame_def dash_frame_def)
  have "io_out ?s3 = io_out s @ com1 (action_text Restored)"
    using s1(2) by (auto simp: menu_log_def log_print_def Let_def serial_shown_def com1_def action_text_def)
  moreover have "beside s4 = beside s"
    using beside_keeps(3)[OF s4(2)] beside_keeps(1)[OF s1(2)] by (simp add: menu_log_def)
  ultimately have "same_shell s s4" "io_out s4 = io_out s @ com1 (action_text Restored)" "log_lines s4 = last_lines (log_lines s @ [recovered_message])"
    using ok3 ok4 by (simp_all add: same_shell_def)
  moreover have "panic_do_restore dev s = Some (Some Restored, s4)"
    using s1(1) s2(1) s4(1) assms(3) by (simp add: panic_do_restore_def recovered_message_def)
  ultimately show ?thesis by blast
qed

text \<open>
  How the console ends: after the text \<open>t\<close> and what the action sends, with the shell of \<open>s\<close>, whose log gets a
  message if it is restored.
\<close>

definition ended :: "panic_end \<Rightarrow> string \<Rightarrow> 'a panic_state_scheme \<Rightarrow> 'a panic_state_scheme \<Rightarrow> bool" where
  "ended e t s s' \<longleftrightarrow> same_shell s (s'\<lparr>io_words := io_words s\<rparr>) \<and>
     io_out s' = io_out s @ com1 (t @ action_text e) @ action_bytes e \<and>
     io_words s' = io_words s @ action_words e (length (io_out s) + length (t @ action_text e)) \<and>
     log_lines s' = (if e = Restored then last_lines (log_lines s @ [recovered_message]) else log_lines s)"

text \<open>The input buffer of the keyboard controller becomes empty again and again.\<close>

definition controller_live :: "device \<Rightarrow> bool" where
  "controller_live dev \<longleftrightarrow> (\<forall>n. \<exists>k. dev (n + k) 0x64 AND 2 = 0)"

lemma wait_controller_ends:
  assumes "controller_live dev"
  shows "\<exists>n. wait_controller dev s = Some (s\<lparr>io_reads := n\<rparr>)"
proof -
  obtain k where "dev (io_reads s + k) 0x64 AND 2 = 0" using assms unfolding controller_live_def by blast
  then show ?thesis
  proof (induction k arbitrary: s)
    case 0
    then show ?case by (subst wait_controller.simps) (auto simp: inb_def)
  next
    case (Suc k)
    let ?s = "s\<lparr>io_reads := Suc (io_reads s)\<rparr>"
    have "\<exists>n. wait_controller dev ?s = Some (?s\<lparr>io_reads := n\<rparr>)" using Suc.prems by (intro Suc.IH) simp
    then show ?case by (subst wait_controller.simps) (auto simp: inb_def)
  qed
qed

lemma shell_upd_ports [simp]:
  "menu_ok (s\<lparr>io_reads := n\<rparr>) = menu_ok s" "menu_ok (s\<lparr>io_out := out\<rparr>) = menu_ok s" "menu_ok (s\<lparr>io_words := w\<rparr>) = menu_ok s"
  "cmd_line (s\<lparr>io_reads := n\<rparr>) = cmd_line s" "cmd_line (s\<lparr>io_out := out\<rparr>) = cmd_line s" "cmd_line (s\<lparr>io_words := w\<rparr>) = cmd_line s"
  "log_lines (s\<lparr>io_reads := n\<rparr>) = log_lines s" "log_lines (s\<lparr>io_out := out\<rparr>) = log_lines s" "log_lines (s\<lparr>io_words := w\<rparr>) = log_lines s"
  by (simp_all add: menu_ok_def cmd_ok_def log_ok_def cmd_line_def log_lines_def)

lemma beside_words:
  "beside (s\<lparr>io_words := w\<rparr>) = (beside s)\<lparr>io_words := w\<rparr>" "(beside s)\<lparr>io_words := io_words s\<rparr> = beside s"
  "beside s' = beside s \<Longrightarrow> io_words s' = io_words s"
proof -
  show "beside (s\<lparr>io_words := w\<rparr>) = (beside s)\<lparr>io_words := w\<rparr>" "(beside s)\<lparr>io_words := io_words s\<rparr> = beside s"
    by (simp_all add: beside_def)
  show "io_words s' = io_words s" if "beside s' = beside s" using arg_cong[OF that, of io_words] by (simp add: beside_def)
qed

text \<open>What is drawn or sent leaves the shell alone.\<close>

lemma same_shell_calls:
  "menu_ok s \<Longrightarrow> serial_shown COM1 s t s' \<Longrightarrow> same_shell s s' \<and> log_lines s' = log_lines s \<and> io_out s' = io_out s @ com1 t \<and> io_words s' = io_words s \<and> recovery_valid s' = recovery_valid s"
  "menu_ok s \<Longrightarrow> drawn ov s s' \<Longrightarrow> same_shell s s' \<and> log_lines s' = log_lines s \<and> io_out s' = io_out s \<and> io_words s' = io_words s \<and> recovery_valid s' = recovery_valid s"
proof -
  show "menu_ok s \<Longrightarrow> serial_shown COM1 s t s' \<Longrightarrow> same_shell s s' \<and> log_lines s' = log_lines s \<and> io_out s' = io_out s @ com1 t \<and> io_words s' = io_words s \<and> recovery_valid s' = recovery_valid s"
    by (auto simp: same_shell_def serial_shown_def com1_def)
  assume a: "menu_ok s" "drawn ov s s'"
  have e: "s' = s\<lparr>vga_mem := vga_mem s'\<rparr>" "length (vga_mem s') = 2000" using a(2) by (simp_all add: drawn_def)
  have "same_shell s (s\<lparr>vga_mem := m\<rparr>) \<and> log_lines (s\<lparr>vga_mem := m\<rparr>) = log_lines s \<and> io_out (s\<lparr>vga_mem := m\<rparr>) = io_out s \<and>
      io_words (s\<lparr>vga_mem := m\<rparr>) = io_words s \<and> recovery_valid (s\<lparr>vga_mem := m\<rparr>) = recovery_valid s" if "length m = 2000" for m
    using a(1) that by (simp add: same_shell_def menu_ok_def cmd_ok_def log_ok_def cmd_line_def log_lines_def)
  from this[OF e(2)] show "same_shell s s' \<and> log_lines s' = log_lines s \<and> io_out s' = io_out s \<and> io_words s' = io_words s \<and> recovery_valid s' = recovery_valid s"
    unfolding e(1)[symmetric] .
qed

lemma serial_puts_shell:
  assumes "uart_live dev COM1" and "menu_ok s"
  obtains s' where "serial_puts dev COM1 t s = Some s'" "same_shell s s'" "log_lines s' = log_lines s" "io_out s' = io_out s @ com1 t"
    "io_words s' = io_words s"
proof -
  obtain s' where s': "serial_puts dev COM1 t s = Some s'" "serial_shown COM1 s t s'"
    using sends_calls(1)[OF assms(1)] unfolding sends_def by blast
  with same_shell_calls(1)[OF assms(2) s'(2)] show thesis by (intro that[of s']) simp_all
qed

lemma panic_reboot_ends:
  assumes "uart_live dev COM1" and "controller_live dev" and "menu_ok s"
  shows "\<exists>s'. panic_do_reboot dev s = Some (Rebooting, s') \<and> ended Rebooting [] s s'"
proof -
  obtain s1 where s1: "serial_puts dev COM1 (action_text Rebooting) s = Some s1" "same_shell s s1" "log_lines s1 = log_lines s"
    "io_out s1 = io_out s @ com1 (action_text Rebooting)" "io_words s1 = io_words s"
    by (rule serial_puts_shell[OF assms(1,3)])
  obtain n where n: "wait_controller dev s1 = Some (s1\<lparr>io_reads := n\<rparr>)" using wait_controller_ends[OF assms(2)] by blast
  have "panic_do_reboot dev s = Some (Rebooting, outb PS2_STATUS_PORT 0xFE (s1\<lparr>io_reads := n\<rparr>))"
    using s1(1) n by (simp add: panic_do_reboot_def action_text_def)
  then show ?thesis
    using s1(2-5) by (intro exI[of _ "outb PS2_STATUS_PORT 0xFE (s1\<lparr>io_reads := n\<rparr>)"])
      (simp add: ended_def outb_def same_shell_def action_bytes_def action_words_def com1_def beside_words(1,2))
qed

lemma panic_poweroff_ends:
  assumes "uart_live dev COM1" and "menu_ok s"
  shows "\<exists>s'. panic_do_poweroff dev s = Some (Powered_off, s') \<and> ended Powered_off [] s s'"
proof -
  obtain s1 where s1: "serial_puts dev COM1 (action_text Powered_off) s = Some s1" "same_shell s s1" "log_lines s1 = log_lines s"
    "io_out s1 = io_out s @ com1 (action_text Powered_off)" "io_words s1 = io_words s"
    by (rule serial_puts_shell[OF assms])
  let ?s2 = "outw 0x4004 0x2000 (outw 0x4004 0x3400 (outw 0xB004 0x2000 (outb 0xF4 0x00 (outb 0x501 0x00 (outw 0x604 0x2000 s1)))))"
  let ?m = "''Power off not supported by hardware. You may close the VM.''"
  have t: "tui_text ?m [] = Some ?m" by (simp add: tui_text_def buf_push_def)
  have ok2: "menu_ok ?s2" using s1(2) by (simp add: same_shell_def outw_def outb_def)
  then have "length (vga_mem ?s2) = 2000" by (simp add: menu_ok_def)
  from draws_printf_text[OF t this] obtain s3 ov where s3: "tui_printf_at 2 23 0x4F ?m [] ?s2 = Some s3" "drawn ov ?s2 s3"
    unfolding draws_def by blast
  note c = same_shell_calls(2)[OF ok2 s3(2)]
  have "panic_do_poweroff dev s = Some (Powered_off, s3)"
    using s1(1) s3(1) by (simp add: panic_do_poweroff_def action_text_def)
  moreover have "ended Powered_off [] s s3"
    using c s1(2-5) by (simp add: ended_def same_shell_def action_bytes_def action_words_def com1_def outw_def outb_def beside_words(1,2))
  ultimately show ?thesis by blast
qed

lemma panic_loop_ends:
  assumes "uart_live dev COM1" and "controller_live dev" and "menu_ok s" and "recovery_valid s" and "first_action dev (io_reads s) e"
  shows "\<exists>s'. panic_loop dev s = Some (e, s') \<and> ended e [] s s'"
proof -
  obtain m where m: "panic_loop dev s = panic_does dev e (s\<lparr>io_reads := m\<rparr>)" using panic_loop_action[OF assms(5)] by blast
  have ok: "menu_ok (s\<lparr>io_reads := m\<rparr>)" "recovery_valid (s\<lparr>io_reads := m\<rparr>)" using assms(3,4) by simp_all
  have "\<exists>s'. panic_does dev e (s\<lparr>io_reads := m\<rparr>) = Some (e, s') \<and> ended e [] (s\<lparr>io_reads := m\<rparr>) s'"
  proof (cases e)
    case Restored
    obtain s' where s': "panic_do_restore dev (s\<lparr>io_reads := m\<rparr>) = Some (Some Restored, s')" "same_shell (s\<lparr>io_reads := m\<rparr>) s'"
      "io_out s' = io_out s @ com1 (action_text Restored)" "log_lines s' = last_lines (log_lines s @ [recovered_message])"
      using panic_do_restore_valid[OF assms(1) ok] by auto
    have w: "io_words s' = io_words s" using beside_words(3)[of s' s] s'(2) by (simp add: same_shell_def)
    have "s'\<lparr>io_words := io_words s'\<rparr> = s'" by simp
    then have "same_shell (s\<lparr>io_reads := m\<rparr>) (s'\<lparr>io_words := io_words s\<rparr>)" unfolding w using s'(2) by (rule ssubst)
    then show ?thesis using s'(1,3,4) w Restored by (simp add: panic_does_def ended_def action_bytes_def action_words_def)
  next
    case Rebooting
    then show ?thesis using panic_reboot_ends[OF assms(1,2) ok(1)] by (simp add: panic_does_def)
  next
    case Powered_off
    then show ?thesis using panic_poweroff_ends[OF assms(1) ok(1)] by (simp add: panic_does_def)
  qed
  then show ?thesis unfolding m by (auto simp: ended_def same_shell_def)
qed

text \<open>The console up to its key loop.\<close>

definition panic_shown :: "device \<Rightarrow> string option \<Rightarrow> string option \<Rightarrow> u32 \<Rightarrow> registers option \<Rightarrow> 'a panic_state_scheme \<Rightarrow>
    'a panic_state_scheme option" where
  "panic_shown dev msg file line regs s = do { s \<leftarrow> panic_report dev msg file line regs s; panic_screen msg file line regs s }"

lemma panic_interactive_eq: "aura_panic_interactive dev msg file line regs s = panic_shown dev msg file line regs s \<bind> panic_loop dev"
  by (simp add: aura_panic_interactive_def panic_shown_def)

lemma panic_ends:
  assumes "uart_live dev COM1" and "controller_live dev" and "menu_ok s" and "recovery_valid s" and "length m \<le> 80"
  obtains t where "panic_shown dev (Some m) fl line (Some regs) s = Some t"
    "\<And>e. first_action dev (io_reads t) e \<Longrightarrow> \<exists>s'. aura_panic_interactive dev (Some m) fl line (Some regs) s = Some (e, s') \<and>
       ended e (report_text m fl line regs) s s'"
proof -
  obtain s1 where s1: "panic_report dev (Some m) fl line (Some regs) s = Some s1" "serial_shown COM1 s (report_text m fl line regs) s1"
    using panic_report_sends[OF assms(1)] unfolding sends_def by blast
  note c1 = same_shell_calls(1)[OF assms(3) s1(2)]
  then have ok1: "menu_ok s1" by (simp add: same_shell_def)
  obtain s2 ov where s2: "panic_screen (Some m) fl line (Some regs) s1 = Some s2" "drawn ov s1 s2"
    using panic_screen_shows[OF _ assms(5), of s1 fl line regs] ok1 unfolding menu_ok_def by blast
  note c2 = same_shell_calls(2)[OF ok1 s2(2)]
  then have ok2: "menu_ok s2" "recovery_valid s2" using c1 assms(4) by (simp_all add: same_shell_def)
  have sh: "panic_shown dev (Some m) fl line (Some regs) s = Some s2" using s1(1) s2(1) by (simp add: panic_shown_def)
  show thesis
  proof (rule that[OF sh])
    fix e assume "first_action dev (io_reads s2) e"
    from panic_loop_ends[OF assms(1,2) ok2 this] obtain s' where s': "panic_loop dev s2 = Some (e, s')" "ended e [] s2 s'" by blast
    have "ended e (report_text m fl line regs) s s'"
      using s'(2) c1 c2 by (auto simp: ended_def same_shell_def com1_def add.assoc)
    then show "\<exists>s'. aura_panic_interactive dev (Some m) fl line (Some regs) s = Some (e, s') \<and> ended e (report_text m fl line regs) s s'"
      using s'(1) sh by (simp add: panic_interactive_eq)
  qed
qed

text \<open>
  C23: A page fault ends as the first action key says. With a recovery point recorded and hardware that becomes ready
  again and again, the console comes up; whatever the keyboard delivers before the first of R, B, O and P, that
  key decides: R restores the shell, with command line and view as they were and a message in its log, B resets and O and P
  power off. The serial port got the report of the fault and the message of the action and nothing else, other
  ports exactly the writes of the action, and nothing but ports, screen and shell has changed.
\<close>

theorem page_fault_recovers:
  assumes "uart_live dev COM1" and "controller_live dev" and "menu_ok s" and "recovery_valid s"
  shows "\<exists>m t. page_fault_msg cr2 (err_code regs) = Some m \<and> panic_shown dev (Some m) (Some fl) 99 (Some regs) s = Some t \<and>
    (\<forall>e. first_action dev (io_reads t) e \<longrightarrow>
      (\<exists>s'. page_fault dev fl cr2 regs s = Some (e, s') \<and> ended e (report_text m (Some fl) 99 regs) s s'))"
proof -
  obtain m where m: "page_fault_msg cr2 (err_code regs) = Some m" "length m \<le> 80"
    using page_fault_msg_eq[of cr2 "err_code regs"] page_fault_desc_length[of "err_code regs"] hex16_value(2)[of cr2] by simp
  from assms m(2) show ?thesis
    by (rule panic_ends[where fl = "Some fl" and line = 99 and regs = regs]) (use m(1) in \<open>auto simp: page_fault_def\<close>)
qed

text \<open>A keyboard on which return is let go and R pressed, with the port empty in between.\<close>

definition r_key_device :: device where
  "r_key_device t p = (if p = 0x60 then (if t mod 3 = 1 then 0x13 else 0x9C) else if p = 0x64 then (if t mod 3 = 2 then 0 else 1) else 0x61)"

lemma r_key_first: "first_action r_key_device n Restored"
proof -
  have 0: "first_action r_key_device m Restored" if "m mod 3 = 0" for m
  proof -
    have m: "Suc m mod 3 = 1" using that by presburger
    show ?thesis by (rule first_action.acts) (simp_all add: that m r_key_device_def panic_action_def)
  qed
  have 1: "first_action r_key_device m Restored" if "m mod 3 = 1" for m
  proof -
    have m: "Suc m mod 3 = 2" "Suc (Suc m) mod 3 = 0" using that by presburger+
    show ?thesis by (rule first_action.ignored[OF _ _ 0[OF m(2)]]) (simp_all add: that m(1) r_key_device_def panic_action_def)
  qed
  have 2: "first_action r_key_device m Restored" if "m mod 3 = 2" for m
  proof -
    have m: "Suc m mod 3 = 0" using that by presburger
    show ?thesis by (rule first_action.waits[OF _ 0[OF m]]) (simp add: that r_key_device_def)
  qed
  consider "n mod 3 = 0" | "n mod 3 = 1" | "n mod 3 = 2" by linarith
  then show ?thesis using 0 1 2 by cases
qed

lemma r_key_live: "uart_live r_key_device COM1" "controller_live r_key_device"
  by (auto simp: uart_live_def controller_live_def r_key_device_def LSR_ready_def)

definition panic_static :: panic_state where
  "panic_static = menu_state.extend (menu_state.truncate (menu_init menu_static)) (panic_state.fields [] 0 0 0 False)"

lemma panic_static_ok: "menu_ok panic_static"
  using menu_init_ok[OF menu_static_sizes]
  by (simp add: panic_static_def menu_ok_def cmd_ok_def log_ok_def menu_state.defs panic_state.defs)

theorem page_fault_recovers_witness:
  "\<exists>s'. page_fault r_key_device ''kernel/core/pagefault.c'' 0xdead0000 (regs_at 14)
       (snd (panic_set_recovery_point 0x9000 0x9010 0x100400 panic_static)) = Some (Restored, s') \<and>
     last (log_lines s') = recovered_message"
proof -
  let ?s = "snd (panic_set_recovery_point 0x9000 0x9010 0x100400 panic_static)"
  have m: "menu_ok ?s"
    using panic_static_ok by (simp add: panic_set_recovery_point_def menu_ok_def cmd_ok_def log_ok_def)
  have v: "recovery_valid ?s" by (simp add: panic_set_recovery_point_def)
  have "last (last_lines (ls @ [x])) = x" for ls :: "string list" and x by (simp add: last_lines_def last_drop)
  then show ?thesis using page_fault_recovers[OF r_key_live m v, of "0xdead0000" "regs_at 14" "''kernel/core/pagefault.c''"] r_key_first
    by (fastforce simp: ended_def)
qed

end
