(* ===== verification/Multiboot2.thy ===== *)
theory Multiboot2
  imports Aura_Prelude "HOL-Library.Monad_Syntax"
begin

text \<open>
  The boot information: kernel/core/multiboot2.c. The loader leaves a list of tags in memory, each
  with its type and size, the last one of type 0; the parser walks over it and collects the memory
  sizes and the frame buffer. Memory is a map from addresses to bytes.
\<close>

section \<open>State\<close>

record aura_boot_info =
  total_memory_bytes :: u64
  available_memory_bytes :: u64
  fb_addr :: u64
  fb_width :: u32
  fb_height :: u32
  fb_pitch :: u32
  fb_bpp :: u8
  has_framebuffer :: u8

type_synonym memory = "addr \<Rightarrow> u8"

section \<open>The parser\<close>

text \<open>Reading an n-byte member of a structure.\<close>

definition rd :: "memory \<Rightarrow> addr \<Rightarrow> nat \<Rightarrow> 'a::len word" where
  "rd mem a n = le_word (map (\<lambda>i. mem (add64 a i)) [0..<n])"

definition rd32 :: "memory \<Rightarrow> addr \<Rightarrow> u32" where
  "rd32 mem a = rd mem a 4"

definition rd64 :: "memory \<Rightarrow> addr \<Rightarrow> u64" where
  "rd64 mem a = rd mem a 8"

abbreviation tag_type :: "memory \<Rightarrow> addr \<Rightarrow> u32" where
  "tag_type mem tag \<equiv> rd32 mem tag"

abbreviation tag_size :: "memory \<Rightarrow> addr \<Rightarrow> u32" where
  "tag_size mem tag \<equiv> rd32 mem (add64 tag 4)"

text \<open>The magic number, the types of tags and of memory.\<close>

abbreviation MULTIBOOT2_BOOTLOADER_MAGIC :: u32 where "MULTIBOOT2_BOOTLOADER_MAGIC \<equiv> 0x36d76289"
abbreviation MULTIBOOT_TAG_TYPE_END :: u32 where "MULTIBOOT_TAG_TYPE_END \<equiv> 0"
abbreviation MULTIBOOT_TAG_TYPE_BASIC_MEMINFO :: u32 where "MULTIBOOT_TAG_TYPE_BASIC_MEMINFO \<equiv> 4"
abbreviation MULTIBOOT_TAG_TYPE_MMAP :: u32 where "MULTIBOOT_TAG_TYPE_MMAP \<equiv> 6"
abbreviation MULTIBOOT_TAG_TYPE_FRAMEBUFFER :: u32 where "MULTIBOOT_TAG_TYPE_FRAMEBUFFER \<equiv> 8"
abbreviation MULTIBOOT_MEMORY_AVAILABLE :: u32 where "MULTIBOOT_MEMORY_AVAILABLE \<equiv> 1"

text \<open>The members of the structures that the parser reads, and the size of the memory map's.\<close>

abbreviation mmap_entry_size :: "memory \<Rightarrow> addr \<Rightarrow> u32" where
  "mmap_entry_size mem tag \<equiv> rd32 mem (add64 tag 8)"

abbreviation sizeof_tag_mmap :: size_t where
  "sizeof_tag_mmap \<equiv> 16"

abbreviation entry_len :: "memory \<Rightarrow> addr \<Rightarrow> u64" where
  "entry_len mem entry \<equiv> rd64 mem (add64 entry 8)"

abbreviation entry_type :: "memory \<Rightarrow> addr \<Rightarrow> u32" where
  "entry_type mem entry \<equiv> rd32 mem (add64 entry 16)"

abbreviation framebuffer_addr :: "memory \<Rightarrow> addr \<Rightarrow> u64" where
  "framebuffer_addr mem fb \<equiv> rd64 mem (add64 fb 8)"

abbreviation framebuffer_pitch :: "memory \<Rightarrow> addr \<Rightarrow> u32" where
  "framebuffer_pitch mem fb \<equiv> rd32 mem (add64 fb 16)"

abbreviation framebuffer_width :: "memory \<Rightarrow> addr \<Rightarrow> u32" where
  "framebuffer_width mem fb \<equiv> rd32 mem (add64 fb 20)"

abbreviation framebuffer_height :: "memory \<Rightarrow> addr \<Rightarrow> u32" where
  "framebuffer_height mem fb \<equiv> rd32 mem (add64 fb 24)"

abbreviation framebuffer_bpp :: "memory \<Rightarrow> addr \<Rightarrow> u8" where
  "framebuffer_bpp mem fb \<equiv> rd mem (add64 fb 28) 1"

definition parse_meminfo :: "memory \<Rightarrow> addr \<Rightarrow> aura_boot_info \<Rightarrow> aura_boot_info" where
  "parse_meminfo mem tag info =
     (let meminfo = add64 tag 8
      in info\<lparr>total_memory_bytes := ucast (rd32 mem (add64 meminfo 4) + 1024) * 1024\<rparr>)"

text \<open>The division by the entry size is undefined for 0.\<close>

definition parse_mmap :: "memory \<Rightarrow> addr \<Rightarrow> aura_boot_info \<Rightarrow> aura_boot_info option" where
  "parse_mmap mem tag info =
     (let entry_size = mmap_entry_size mem tag; entry_ptr = add64 tag sizeof_tag_mmap in
      if entry_size = 0 then None
      else
        let entries = of_nat (sub64 (unat (tag_size mem tag)) sizeof_tag_mmap div unat entry_size) :: u32
        in Some (fold (\<lambda>i info.
             let entry = add64 entry_ptr (unat (of_nat i * entry_size))
             in if entry_type mem entry = MULTIBOOT_MEMORY_AVAILABLE
                then info\<lparr>available_memory_bytes := available_memory_bytes info + entry_len mem entry\<rparr>
                else info) [0..<unat entries] info))"

definition parse_framebuffer :: "memory \<Rightarrow> addr \<Rightarrow> aura_boot_info \<Rightarrow> aura_boot_info" where
  "parse_framebuffer mem tag info =
     info\<lparr>fb_addr := framebuffer_addr mem tag, fb_width := framebuffer_width mem tag, fb_height := framebuffer_height mem tag,
       fb_pitch := framebuffer_pitch mem tag, fb_bpp := framebuffer_bpp mem tag, has_framebuffer := 1\<rparr>"

definition parse_tag :: "memory \<Rightarrow> addr \<Rightarrow> aura_boot_info \<Rightarrow> aura_boot_info option" where
  "parse_tag mem tag info =
     (if tag_type mem tag = MULTIBOOT_TAG_TYPE_BASIC_MEMINFO then Some (parse_meminfo mem tag info)
      else if tag_type mem tag = MULTIBOOT_TAG_TYPE_MMAP then parse_mmap mem tag info
      else if tag_type mem tag = MULTIBOOT_TAG_TYPE_FRAMEBUFFER then Some (parse_framebuffer mem tag info)
      else Some info)"

definition next_tag :: "memory \<Rightarrow> addr \<Rightarrow> addr" where
  "next_tag mem tag = add64 tag (unat ((ucast (tag_size mem tag + 7) :: u64) AND NOT 7))"

partial_function (option) parse_tags :: "memory \<Rightarrow> addr \<Rightarrow> aura_boot_info \<Rightarrow> aura_boot_info option" where
  "parse_tags mem tag info =
     (if tag_type mem tag = MULTIBOOT_TAG_TYPE_END then Some info
      else do { info' \<leftarrow> parse_tag mem tag info; parse_tags mem (next_tag mem tag) info' })"

definition boot_info_zero :: aura_boot_info where
  "boot_info_zero = \<lparr>total_memory_bytes = 0, available_memory_bytes = 0, fb_addr = 0, fb_width = 0, fb_height = 0,
     fb_pitch = 0, fb_bpp = 0, has_framebuffer = 0\<rparr>"

definition multiboot2_parse :: "memory \<Rightarrow> u32 \<Rightarrow> addr \<Rightarrow> aura_boot_info option \<Rightarrow> (int \<times> aura_boot_info option) option" where
  "multiboot2_parse mem magic mbi_addr out_info =
     (if magic \<noteq> MULTIBOOT2_BOOTLOADER_MAGIC \<or> out_info = None then Some (- 1, out_info)
      else map_option (\<lambda>info. (0, Some info)) (parse_tags mem (add64 mbi_addr 8) boot_info_zero))"

section \<open>The format\<close>

text \<open>
  The tags of the Multiboot2 specification that the kernel reads, any other tag, and their bytes:
  entries of the memory map are at least 24 bytes, a multiple of 8, and tags are padded to 8 bytes.
\<close>

datatype mb_tag =
  Basic_meminfo u32 u32
| Memory_map nat "(u64 \<times> u64 \<times> u32) list"
| Framebuffer u64 u32 u32 u32 u8
| Other_tag u32 "u8 list"

definition enc :: "nat \<Rightarrow> 'a::len word \<Rightarrow> u8 list" where
  "enc n v = map (\<lambda>i. ucast (drop_bit (8 * i) v)) [0..<n]"

fun entry_bytes :: "nat \<Rightarrow> u64 \<times> u64 \<times> u32 \<Rightarrow> u8 list" where
  "entry_bytes es (a, l, t) = enc 8 a @ enc 8 l @ enc 4 t @ replicate (es - 20) 0"

fun tag_code :: "mb_tag \<Rightarrow> u32" where
  "tag_code (Basic_meminfo lo up) = 4"
| "tag_code (Memory_map es entries) = 6"
| "tag_code (Framebuffer a p w h b) = 8"
| "tag_code (Other_tag t bs) = t"

fun tag_body :: "mb_tag \<Rightarrow> u8 list" where
  "tag_body (Basic_meminfo lo up) = enc 4 lo @ enc 4 up"
| "tag_body (Memory_map es entries) = enc 4 (of_nat es :: u32) @ enc 4 (0 :: u32) @ concat (map (entry_bytes es) entries)"
| "tag_body (Framebuffer a p w h b) = enc 8 a @ enc 4 p @ enc 4 w @ enc 4 h @ enc 1 b @ [1, 0, 0]"
| "tag_body (Other_tag t bs) = bs"

definition tag_bytes :: "mb_tag \<Rightarrow> u8 list" where
  "tag_bytes t = (let n = 8 + length (tag_body t)
     in enc 4 (tag_code t) @ enc 4 (of_nat n :: u32) @ tag_body t @ replicate ((8 - n mod 8) mod 8) 0)"

definition tag_stream :: "mb_tag list \<Rightarrow> u8 list" where
  "tag_stream ts = concat (map tag_bytes ts) @ enc 4 (0 :: u32) @ enc 4 (8 :: u32)"

fun tag_wf :: "mb_tag \<Rightarrow> bool" where
  "tag_wf (Basic_meminfo lo up) \<longleftrightarrow> True"
| "tag_wf (Memory_map es entries) \<longleftrightarrow> 24 \<le> es \<and> es mod 8 = 0 \<and> es < 2 ^ 32 \<and> es * length entries < 2 ^ 32 - 32"
| "tag_wf (Framebuffer a p w h b) \<longleftrightarrow> True"
| "tag_wf (Other_tag t bs) \<longleftrightarrow> t \<notin> {0, 4, 6, 8} \<and> length bs < 2 ^ 32 - 16"

text \<open>What a tag says.\<close>

fun tag_info :: "mb_tag \<Rightarrow> aura_boot_info \<Rightarrow> aura_boot_info" where
  "tag_info (Basic_meminfo lo up) info = info\<lparr>total_memory_bytes := ucast (up + 1024) * 1024\<rparr>"
| "tag_info (Memory_map es entries) info =
     info\<lparr>available_memory_bytes := available_memory_bytes info + sum_list [l. (a, l, t) \<leftarrow> entries, t = 1]\<rparr>"
| "tag_info (Framebuffer a p w h b) info =
     info\<lparr>fb_addr := a, fb_width := w, fb_height := h, fb_pitch := p, fb_bpp := b, has_framebuffer := 1\<rparr>"
| "tag_info (Other_tag t bs) info = info"

section \<open>Reading what was written\<close>

definition holds :: "memory \<Rightarrow> addr \<Rightarrow> u8 list \<Rightarrow> bool" where
  "holds mem a bs \<longleftrightarrow> a + length bs \<le> two64 \<and> (\<forall>i < length bs. mem (a + i) = bs ! i)"

lemma holds_append: "holds mem a (xs @ ys) \<longleftrightarrow> holds mem a xs \<and> holds mem (a + length xs) ys"
proof
  assume "holds mem a (xs @ ys)"
  then have h: "a + length xs + length ys \<le> two64" "\<And>i. i < length xs + length ys \<Longrightarrow> mem (a + i) = (xs @ ys) ! i"
    by (auto simp: holds_def)
  have "mem (a + i) = xs ! i" if "i < length xs" for i using h(2)[of i] that by (simp add: nth_append)
  moreover have "mem (a + length xs + i) = ys ! i" if "i < length ys" for i
    using h(2)[of "length xs + i"] that by (simp add: nth_append add.assoc)
  ultimately show "holds mem a xs \<and> holds mem (a + length xs) ys" using h(1) by (simp add: holds_def)
next
  assume h: "holds mem a xs \<and> holds mem (a + length xs) ys"
  show "holds mem a (xs @ ys)"
    unfolding holds_def
  proof (intro conjI allI impI)
    fix i assume "i < length (xs @ ys)"
    with h show "mem (a + i) = (xs @ ys) ! i"
      by (cases "i < length xs") (auto simp: holds_def nth_append dest!: spec[of _ "i - length xs"])
  qed (use h in \<open>simp add: holds_def\<close>)
qed

lemma length_enc [simp]: "length (enc n v) = n"
  by (simp add: enc_def)

lemma rd_enc:
  assumes "holds mem a (enc n (v :: 'a::len word))" and "8 * n = LENGTH('a)"
  shows "rd mem a n = v"
proof -
  have "map (\<lambda>i. mem (add64 a i)) [0..<n] = enc n v"
  proof (rule nth_equalityI)
    fix i assume "i < length (map (\<lambda>i. mem (add64 a i)) [0..<n])"
    then show "map (\<lambda>i. mem (add64 a i)) [0..<n] ! i = enc n v ! i"
      using assms(1) by (simp add: holds_def wrap)
  qed simp
  moreover have "le_word (enc n v) = v"
  proof (rule bit_word_eqI)
    fix k assume k: "k < LENGTH('a)"
    then have "k div 8 < n" using assms(2) by linarith
    then show "bit (le_word (enc n v) :: 'a word) k = bit v k"
      using k by (auto simp: bit_le_word enc_def bit_simps)
  qed
  ultimately show ?thesis by (simp add: rd_def)
qed

lemma rd32_enc: "holds mem a (enc 4 v) \<Longrightarrow> rd32 mem a = v"
  by (simp add: rd32_def rd_enc)

lemma rd64_enc: "holds mem a (enc 8 v) \<Longrightarrow> rd64 mem a = v"
  by (simp add: rd64_def rd_enc)

lemma holds_bound: "holds mem a bs \<Longrightarrow> a + length bs \<le> two64"
  by (simp add: holds_def)

lemma holds_concat:
  assumes "holds mem a (concat bss)" and "\<And>b. b \<in> set bss \<Longrightarrow> length b = n" and "i < length bss"
  shows "holds mem (a + n * i) (bss ! i)"
  using assms
proof (induction bss arbitrary: a i)
  case (Cons b bss)
  then have h: "holds mem a b" "holds mem (a + n) (concat bss)" by (auto simp: holds_append)
  show ?case
  proof (cases i)
    case (Suc j)
    with Cons.IH[OF h(2), of j] Cons.prems show ?thesis by (simp add: add.assoc)
  qed (use h in simp)
qed simp

lemma unat_align8: "unat (x AND NOT 7) = unat x div 8 * 8" for x :: u64
proof -
  have "(7 :: u64) = mask 3" by (simp add: mask_eq_exp_minus_1)
  then have "unat (x AND NOT 7) = unat x div 2 ^ 3 * 2 ^ 3" by (simp only: and_not_mask_word unat_push_drop)
  then show ?thesis by simp
qed

lemma next_tag_at:
  assumes "tag_size mem tag = of_nat n" and "n + 7 < 2 ^ 32" and "tag + (n + 7) < two64"
  shows "next_tag mem tag = tag + (n + 7) div 8 * 8"
proof -
  have "of_nat n + 7 = (of_nat (n + 7) :: u32)" by simp
  then have u: "unat (tag_size mem tag + 7) = n + 7"
    using unat_of_nat_small[of "n + 7", where 'a = 32] assms(1,2) by simp
  have uc: "unat (ucast v :: u64) = unat v" for v :: u32
    using unat_u32_lt[of v] by (simp add: unsigned_ucast_eq take_bit_nat_eq_self)
  have "tag + (n + 7) div 8 * 8 < two64"
    using assms(3) div_times_less_eq_dividend[of "n + 7" 8] by linarith
  then show ?thesis unfolding next_tag_def unat_align8 uc u by (rule add64_id)
qed

section \<open>One tag\<close>

lemma tag_head:
  assumes "holds mem tag (tag_bytes t)"
  shows "tag_type mem tag = tag_code t" "tag_size mem tag = of_nat (8 + length (tag_body t))" "holds mem (tag + 8) (tag_body t)"
    "tag + 8 + length (tag_body t) \<le> two64"
proof -
  have h: "holds mem tag (enc 4 (tag_code t))" "holds mem (tag + 4) (enc 4 (of_nat (8 + length (tag_body t)) :: u32))"
    "holds mem (tag + 8) (tag_body t)"
    using assms by (simp_all add: tag_bytes_def holds_append Let_def add.assoc)
  show "tag_type mem tag = tag_code t" by (rule rd32_enc[OF h(1)])
  have "add64 tag 4 = tag + 4" using holds_bound[OF h(2)] by (simp add: wrap)
  then show "tag_size mem tag = of_nat (8 + length (tag_body t))" using rd32_enc[OF h(2)] by simp
  show "holds mem (tag + 8) (tag_body t)" by (rule h(3))
  show "tag + 8 + length (tag_body t) \<le> two64" using holds_bound[OF h(3)] .
qed

lemma length_entry_bytes: "20 \<le> es \<Longrightarrow> length (entry_bytes es e) = es"
  by (cases e) simp

lemma length_entries: "20 \<le> es \<Longrightarrow> length (concat (map (entry_bytes es) entries)) = es * length entries"
  by (induction entries) (simp_all add: length_entry_bytes)

lemma length_body_bound: "tag_wf t \<Longrightarrow> length (tag_body t) + 15 < 2 ^ 32"
  by (cases t) (auto simp: length_entries)

lemma parse_meminfo_enc:
  assumes "holds mem tag (tag_bytes (Basic_meminfo lo up))"
  shows "parse_meminfo mem tag info = tag_info (Basic_meminfo lo up) info"
proof -
  have h: "holds mem (tag + 8) (enc 4 lo)" "holds mem (tag + 12) (enc 4 up)"
    using tag_head(3)[OF assms] by (simp_all add: holds_append add.assoc)
  then have "add64 (add64 tag 8) 4 = tag + 12" using holds_bound[OF h(2)] by (simp add: wrap)
  then show ?thesis using rd32_enc[OF h(2)] by (simp add: parse_meminfo_def)
qed

lemma parse_framebuffer_enc:
  assumes "holds mem tag (tag_bytes (Framebuffer a p w h b))"
  shows "parse_framebuffer mem tag info = tag_info (Framebuffer a p w h b) info"
proof -
  have m: "holds mem (tag + 8) (enc 8 a)" "holds mem (tag + 16) (enc 4 p)" "holds mem (tag + 20) (enc 4 w)"
    "holds mem (tag + 24) (enc 4 h)" "holds mem (tag + 28) (enc 1 b)"
    using tag_head(3)[OF assms] by (simp_all add: holds_append add.assoc)
  have r: "rd mem (tag + 28) 1 = b" by (rule rd_enc[OF m(5)]) simp
  have "tag + 29 \<le> two64" using holds_bound[OF m(5)] by simp
  then show ?thesis
    using rd64_enc[OF m(1)] rd32_enc[OF m(2)] rd32_enc[OF m(3)] rd32_enc[OF m(4)] r by (simp add: parse_framebuffer_def wrap)
qed

lemma parse_entries:
  assumes "\<And>i. i < length entries \<Longrightarrow> holds mem (base + es * i) (entry_bytes es (entries ! i))"
    and "es * length entries < 2 ^ 32" "24 \<le> es" "n \<le> length entries"
  shows "fold (\<lambda>i info. let entry = add64 base (unat (of_nat i * (of_nat es :: u32)))
        in if rd32 mem (add64 entry 16) = 1
           then info\<lparr>available_memory_bytes := available_memory_bytes info + rd64 mem (add64 entry 8)\<rparr> else info) [0..<n] info =
      info\<lparr>available_memory_bytes := available_memory_bytes info + sum_list [l. (a, l, t) \<leftarrow> take n entries, t = 1]\<rparr>"
  using assms(4)
proof (induction n)
  case (Suc n)
  obtain a l t where e: "entries ! n = (a, l, t)" by (cases "entries ! n")
  have n: "n < length entries" using Suc.prems by simp
  have m: "holds mem (base + es * n + 8) (enc 8 l)" "holds mem (base + es * n + 16) (enc 4 t)"
    using assms(1)[OF n] by (simp_all add: e holds_append add.assoc)
  have "es * n < 2 ^ 32" using n assms(2,3) by (meson less_imp_le_nat le_less_trans mult_le_mono2)
  then have u: "unat (of_nat n * (of_nat es :: u32)) = es * n"
    using unat_of_nat_small[of "es * n", where 'a = 32] by (simp add: mult.commute)
  have "base + es * n + 20 \<le> two64" using holds_bound[OF m(2)] by simp
  then have a: "add64 (add64 base (unat (of_nat n * (of_nat es :: u32)))) 8 = base + es * n + 8"
    "add64 (add64 base (unat (of_nat n * (of_nat es :: u32)))) 16 = base + es * n + 16"
    unfolding u by (simp_all add: wrap)
  show ?case
    using Suc rd64_enc[OF m(1)] rd32_enc[OF m(2)] a
    by (simp add: e take_Suc_conv_app_nth[OF n] Let_def add.assoc)
qed simp

lemma parse_mmap_enc:
  assumes "holds mem tag (tag_bytes (Memory_map es entries))" and "tag_wf (Memory_map es entries)"
  shows "parse_mmap mem tag info = Some (tag_info (Memory_map es entries) info)"
proof -
  have w: "24 \<le> es" "es < 2 ^ 32" "es * length entries < 2 ^ 32 - 32" using assms(2) by simp_all
  have h: "holds mem (tag + 8) (enc 4 (of_nat es :: u32))" "holds mem (tag + 16) (concat (map (entry_bytes es) entries))"
    using tag_head(3)[OF assms(1)] by (simp_all add: holds_append add.assoc)
  have len: "length (concat (map (entry_bytes es) entries)) = es * length entries" using length_entries w(1) by simp
  have b: "tag + 16 \<le> two64" "tag + 8 < two64" using holds_bound[OF h(2)] by simp_all
  have es: "rd32 mem (add64 tag 8) = of_nat es" using rd32_enc[OF h(1)] b by (simp add: wrap)
  have ues: "unat (of_nat es :: u32) = es" using unat_of_nat_small[of es, where 'a = 32] w(2) by simp
  then have nz: "(of_nat es :: u32) \<noteq> 0" using w(1) by (metis not_numeral_le_zero unat_0)
  have sz: "unat (tag_size mem tag) = 16 + es * length entries"
    using tag_head(2)[OF assms(1)] unat_of_nat_small[of "16 + es * length entries", where 'a = 32] w(3) len by simp
  have count: "unat (of_nat (sub64 (unat (tag_size mem tag)) 16 div unat (of_nat es :: u32)) :: u32) = length entries"
  proof -
    have "sub64 (16 + es * length entries) 16 = es * length entries" using w(3) by (simp add: wrap)
    moreover have "length entries < 2 ^ 32"
    proof -
      have "length entries \<le> es * length entries" using w(1) by simp
      with w(3) show ?thesis by linarith
    qed
    ultimately show ?thesis
      using w(1) unat_of_nat_small[of "length entries", where 'a = 32] by (simp add: sz ues)
  qed
  show ?thesis
  proof (cases "entries = []")
    case True
    then show ?thesis using nz count by (simp add: parse_mmap_def es Let_def)
  next
    case False
    then have "tag + 16 < two64" using holds_bound[OF h(2)] len w(1) by (cases entries) auto
    then have base: "add64 tag 16 = tag + 16" by (simp add: wrap)
    have "holds mem (tag + 16 + es * i) (entry_bytes es (entries ! i))" if "i < length entries" for i
    proof -
      have "length b = es" if "b \<in> set (map (entry_bytes es) entries)" for b
        using that w(1) by (auto simp: length_entry_bytes)
      from holds_concat[OF h(2) this, of i] that show ?thesis by simp
    qed
    from parse_entries[OF this, where n = "length entries" and info = info] w
    show ?thesis using nz by (simp add: parse_mmap_def es count base Let_def)
  qed
qed

lemma parse_tag_enc:
  assumes "holds mem tag (tag_bytes t)" and "tag_wf t"
  shows "parse_tag mem tag info = Some (tag_info t info)"
proof (cases t)
  case (Basic_meminfo lo up)
  with parse_meminfo_enc tag_head(1)[OF assms(1)] assms show ?thesis by (simp add: parse_tag_def)
next
  case (Memory_map es entries)
  with parse_mmap_enc tag_head(1)[OF assms(1)] assms show ?thesis by (simp add: parse_tag_def)
next
  case (Framebuffer a p w h b)
  with parse_framebuffer_enc tag_head(1)[OF assms(1)] assms show ?thesis by (simp add: parse_tag_def)
next
  case (Other_tag c bs)
  with tag_head(1)[OF assms(1)] assms(2) show ?thesis by (simp add: parse_tag_def)
qed

lemma tag_code_nonzero: "tag_wf t \<Longrightarrow> tag_code t \<noteq> 0"
  by (cases t) auto

lemma length_tag_bytes: "length (tag_bytes t) = (8 + length (tag_body t) + 7) div 8 * 8"
proof -
  have "n + (8 - n mod 8) mod 8 = (n + 7) div 8 * 8" for n :: nat
  proof -
    define q r where "q = n div 8" and "r = n mod 8"
    have n: "n = 8 * q + r" "r < 8" by (simp_all add: q_def r_def)
    have "(8 * q + r + 7) div 8 = q + (r + 7) div 8" by (simp add: add.assoc)
    moreover have "(r + 7) div 8 = (if r = 0 then 0 else 1)" using n(2) by (simp add: div_nat_eqI)
    moreover have "(8 * q + r) mod 8 = r" using n(2) by simp
    ultimately show ?thesis using n by simp
  qed
  from this[of "8 + length (tag_body t)"] show ?thesis by (simp add: tag_bytes_def Let_def)
qed

lemma parse_tags_enc:
  assumes "holds mem tag (tag_stream ts)" and "\<forall>t \<in> set ts. tag_wf t"
  shows "parse_tags mem tag info = Some (fold tag_info ts info)"
  using assms
proof (induction ts arbitrary: tag info)
  case Nil
  then have "tag_type mem tag = 0" by (intro rd32_enc) (simp add: tag_stream_def holds_append)
  then show ?case by (subst parse_tags.simps) simp
next
  case (Cons t ts)
  have h: "holds mem tag (tag_bytes t)" "holds mem (tag + length (tag_bytes t)) (tag_stream ts)"
    using Cons.prems(1) by (simp_all add: tag_stream_def holds_append add.assoc)
  have t: "tag_wf t" using Cons.prems(2) by simp
  have "tag + length (tag_bytes t) + 8 \<le> two64" using holds_bound[OF h(2)] by (simp add: tag_stream_def)
  then have "tag + (8 + length (tag_body t) + 7) < two64 "
    using length_tag_bytes[of t] dividend_less_times_div[of 8 "8 + length (tag_body t) + 7"] by simp
  then have "next_tag mem tag = tag + length (tag_bytes t)"
    using next_tag_at[OF tag_head(2)[OF h(1)]] length_body_bound[OF t] length_tag_bytes[of t] by simp
  moreover have "tag_type mem tag \<noteq> 0" using tag_head(1)[OF h(1)] tag_code_nonzero[OF t] by simp
  ultimately show ?case
    using Cons.IH[OF h(2)] Cons.prems(2) parse_tag_enc[OF h(1) t] by (subst parse_tags.simps) simp
qed

section \<open>Properties\<close>

text \<open>
  C16: The parser reads what the loader wrote. Where memory holds the bytes of a list of well-formed
  tags, of any number and in any order, and the end tag behind them, \<open>multiboot2_parse\<close> returns 0 with the
  information of exactly these tags: the RAM size of the last size tag, the sum of the available
  ranges of all memory maps, the last frame buffer. It returns -1 and changes nothing for a wrong
  magic number or a NULL pointer.
\<close>

theorem multiboot2_parse_roundtrip:
  assumes "holds mem (mbi_addr + 8) (tag_stream ts)" and "\<forall>t \<in> set ts. tag_wf t"
  shows "multiboot2_parse mem magic mbi_addr out_info =
    (if magic = 0x36d76289 \<and> out_info \<noteq> None then Some (0, Some (fold tag_info ts boot_info_zero)) else Some (- 1, out_info))"
proof -
  have "mbi_addr + 8 < two64" using holds_bound[OF assms(1)] by (simp add: tag_stream_def)
  then have "add64 mbi_addr 8 = mbi_addr + 8" by (simp add: wrap)
  then show ?thesis using parse_tags_enc[OF assms] by (simp add: multiboot2_parse_def)
qed

definition tags_example :: "mb_tag list" where
  "tags_example = [Other_tag 1 [0], Basic_meminfo 640 64512, Memory_map 24 [(0, 0x9FC00, 1), (0x100000, 0x3F00000, 1), (0xFFFC0000, 0x40000, 2)]]"

theorem multiboot2_parse_roundtrip_witness:
  "\<exists>mem info. multiboot2_parse mem 0x36d76289 0x10000 (Some boot_info_zero) = Some (0, Some info) \<and>
     total_memory_bytes info = 0x4000000 \<and> available_memory_bytes info = 0x3F9FC00"
proof -
  define mem :: memory where "mem = (\<lambda>a. tag_stream tags_example ! (a - 0x10008))"
  have len: "length (tag_stream tags_example) < 1000"
    by (simp add: tags_example_def tag_stream_def tag_bytes_def Let_def)
  then have h: "holds mem (0x10000 + 8) (tag_stream tags_example)"
    by (simp add: holds_def mem_def)
  have wf: "\<forall>t \<in> set tags_example. tag_wf t" by (simp add: tags_example_def)
  show ?thesis
    by (intro exI[of _ mem] exI[of _ "fold tag_info tags_example boot_info_zero"])
      (simp add: multiboot2_parse_roundtrip[OF h wf], simp add: tags_example_def boot_info_zero_def)
qed

lemma parse_stuck_aux:
  "parse_tags mem tag info = Some r \<Longrightarrow> \<not> (next_tag mem tag = tag \<and> tag_type mem tag \<notin> {0, 4, 6, 8})"
proof (induction rule: parse_tags.raw_induct[rotated, consumes 1])
  case (1 parse mem tag info r)
  then show ?case by (auto simp: parse_tag_def split: if_splits) metis
qed

lemma parse_stuck:
  assumes "next_tag mem tag = tag" and "tag_type mem tag \<notin> {0, 4, 6, 8}"
  shows "parse_tags mem tag info = None"
  using parse_stuck_aux[of mem tag info] assms by (cases "parse_tags mem tag info") auto

text \<open>
  C39: The parser trusts the sizes it reads. It does not return when the first tag is of a type it ignores and
  has size 0, nor, because the size is rounded up in 32 bits, one above 2 to the 32 minus 8; and a
  memory map there whose entry size is 0 is a division by zero.
\<close>

theorem multiboot2_parse_stuck:
  assumes "mbi_addr + 24 < two64"
  shows "(tag_type mem (mbi_addr + 8) \<notin> {0, 4, 6, 8} \<and> (tag_size mem (mbi_addr + 8) = 0 \<or> 0xFFFFFFF8 < tag_size mem (mbi_addr + 8)) \<longrightarrow>
      multiboot2_parse mem 0x36d76289 mbi_addr (Some info) = None) \<and>
    (tag_type mem (mbi_addr + 8) = 6 \<and> rd32 mem (mbi_addr + 16) = 0 \<longrightarrow>
      multiboot2_parse mem 0x36d76289 mbi_addr (Some info) = None)"
proof (intro conjI impI)
  let ?tag = "mbi_addr + 8"
  have a: "add64 mbi_addr 8 = ?tag" "add64 ?tag 8 = mbi_addr + 16" using assms by (simp_all add: wrap)
  {
    assume h: "tag_type mem ?tag \<notin> {0, 4, 6, 8} \<and> (tag_size mem ?tag = 0 \<or> 0xFFFFFFF8 < tag_size mem ?tag)"
    have "unat (tag_size mem ?tag + 7) < 8"
      using h unat_u32_lt[of "tag_size mem ?tag"] by (auto simp: word_less_nat_alt unat_word_ariths le_mod_geq)
    then have "unat (ucast (tag_size mem ?tag + 7) :: u64) div 8 = 0"
      by (simp add: unsigned_ucast_eq take_bit_nat_eq_self)
    then have "next_tag mem ?tag = ?tag"
      unfolding next_tag_def unat_align8 using assms by (simp add: wrap)
    from parse_stuck[OF this] h show "multiboot2_parse mem 0x36d76289 mbi_addr (Some info) = None"
      by (simp add: multiboot2_parse_def a)
  }
  assume "tag_type mem ?tag = 6 \<and> rd32 mem (mbi_addr + 16) = 0"
  then have "parse_tags mem ?tag boot_info_zero = None"
    by (subst parse_tags.simps) (simp add: parse_tag_def parse_mmap_def a)
  then show "multiboot2_parse mem 0x36d76289 mbi_addr (Some info) = None"
    by (simp add: multiboot2_parse_def a)
qed

theorem multiboot2_parse_stuck_witness:
  "multiboot2_parse (\<lambda>a. if a = 0x1008 then 1 else 0) 0x36d76289 0x1000 (Some boot_info_zero) = None"
  using multiboot2_parse_stuck[of "0x1000" "\<lambda>a. if a = 0x1008 then 1 else 0" boot_info_zero]
  by (simp add: rd32_def rd_def upt_conv_Cons wrap)

end
