(* ===== verification/Kernel.thy ===== *)
theory Kernel
  imports Panic Multiboot2
begin

text \<open>
  The kernel's main program: kernel/main.c. \<open>kernel_main\<close> brings up the console, reads the boot
  information, sets up the processor tables, the memory managers and the drivers, waits for the
  timer and then serves keys for ever. Here the components act on one state: interrupts go through
  the handler table that \<open>isr_install\<close> and the drivers filled, exceptions of shell commands
  through it to the panic console and back.

  Parameters are what the hardware and the linker decide: the device, memory at boot, the addresses of
  tables, stubs and of the end of the kernel, the registers at an interrupt, and the name the
  compiler gives the file of the page fault handler. The interrupts that arrive in a wait
  are given as a list: a wait that outlasts it has no result.
\<close>

section \<open>State\<close>

text \<open>
  \<open>panic_ended\<close> says how the panic console ended when an exception has led to it, \<open>cr2\<close> is the
  register with the address of the last page fault.
\<close>

record kernel_state = panic_state +
  boot_info :: aura_boot_info
  last_refresh :: u64
  cr2 :: u64
  panic_ended :: "panic_end option"

section \<open>Interrupts and exceptions\<close>

definition call_handler :: "device \<Rightarrow> string \<Rightarrow> isr_handler_t \<Rightarrow> registers \<Rightarrow> kernel_state \<Rightarrow> kernel_state option" where
  "call_handler dev fl h regs s =
     (case h of
        pit_irq_handler \<Rightarrow> Some (timer_interrupt s)
      | keyboard_handler \<Rightarrow> Some (keyboard_interrupt dev s)
      | page_fault_handler \<Rightarrow> do {
          (e, s) \<leftarrow> page_fault dev fl (cr2 s) regs s;
          Some (s\<lparr>panic_ended := Some e\<rparr>) })"

definition interrupt :: "device \<Rightarrow> string \<Rightarrow> registers \<Rightarrow> kernel_state \<Rightarrow> kernel_state option" where
  "interrupt dev fl regs s = irq_handler (call_handler dev fl) regs s"

definition exception :: "device \<Rightarrow> string \<Rightarrow> registers \<Rightarrow> kernel_state \<Rightarrow> kernel_state option" where
  "exception dev fl regs s =
     isr_handler (call_handler dev fl)
       (\<lambda>reason regs s. do {
          (e, s) \<leftarrow> aura_panic_interactive dev (Some reason) None 0 (Some regs) s;
          Some (s\<lparr>panic_ended := Some e\<rparr>) })
       regs s"

section \<open>Bringing up the kernel\<close>

definition boot_console :: "device \<Rightarrow> kernel_state \<Rightarrow> kernel_state option" where
  "boot_console dev s = do {
     s \<leftarrow> vga_init s;
     s \<leftarrow> Some (vga_set_color COLOR_PRIMARY COLOR_BG s);
     s \<leftarrow> vga_printf ''========================================\<newline>'' [] s;
     s \<leftarrow> vga_printf ''    AuraOS Kernel v0.3.1\<newline>'' [] s;
     s \<leftarrow> vga_printf ''  Clean. Simple. Small. Fast. Direct.\<newline>'' [] s;
     s \<leftarrow> vga_printf ''========================================\<newline>\<newline>'' [] s;
     s \<leftarrow> Some (vga_set_color COLOR_TEXT COLOR_BG s);
     s \<leftarrow> Some (serial_init COM1 115200 s);
     s \<leftarrow> serial_printf dev COM1 (Some ''\<newline>\<newline>========================================\<newline>'') [] s;
     s \<leftarrow> serial_printf dev COM1 (Some ''    AuraOS Kernel v0.3.1\<newline>'') [] s;
     s \<leftarrow> serial_printf dev COM1 (Some ''  Clean. Simple. Small. Fast. Direct.\<newline>'') [] s;
     serial_printf dev COM1 (Some ''========================================\<newline>\<newline>'') [] s }"

definition megabytes :: "u64 \<Rightarrow> c_arg" where
  "megabytes n = CInt (ucast (n div (1024 * 1024)))"

definition report_info :: "device \<Rightarrow> aura_boot_info \<Rightarrow> kernel_state \<Rightarrow> kernel_state option" where
  "report_info dev info s = do {
     s \<leftarrow> serial_printf dev COM1 (Some ''[OK] Multiboot2 tags parsed successfully\<newline>'') [] s;
     s \<leftarrow> vga_printf ''[OK] Multiboot2 tags parsed successfully\<newline>'' [] s;
     s \<leftarrow> (if 0 < total_memory_bytes info then
             serial_printf dev COM1 (Some ''     Total RAM: %u MB (Available: %u MB)\<newline>'')
                 [megabytes (total_memory_bytes info), megabytes (available_memory_bytes info)] s \<bind>
               vga_printf ''     Total RAM: %u MB (Available: %u MB)\<newline>''
                 [megabytes (total_memory_bytes info), megabytes (available_memory_bytes info)]
           else Some s);
     (if has_framebuffer info \<noteq> 0 then
        serial_printf dev COM1 (Some ''     Linear FB: %ux%u @ %u bpp (Base: %p)\<newline>'')
            [CInt (fb_width info), CInt (fb_height info), CInt (ucast (fb_bpp info)), CPtr (fb_addr info)] s \<bind>
          vga_printf ''     Linear FB: %ux%u @ %u bpp\<newline>'' [CInt (fb_width info), CInt (fb_height info), CInt (ucast (fb_bpp info))]
      else Some s) }"

text \<open>The static \<open>boot_info\<close> is zero before the parser fills it.\<close>

definition boot_multiboot :: "device \<Rightarrow> memory \<Rightarrow> u64 \<Rightarrow> addr \<Rightarrow> kernel_state \<Rightarrow> kernel_state option" where
  "boot_multiboot dev mem magic mbi_addr s = do {
     (r, info) \<leftarrow> multiboot2_parse mem (ucast magic) mbi_addr (Some (boot_info s));
     s \<leftarrow> Some (s\<lparr>boot_info := the info\<rparr>);
     if r = 0 then report_info dev (boot_info s) s
     else
       serial_printf dev COM1 (Some ''[WARN] Multiboot2 magic mismatch or tags missing\<newline>'') [] s \<bind>
         vga_printf ''[WARN] Multiboot2 tags missing\<newline>'' [] }"

definition boot_processor :: "device \<Rightarrow> u64 \<Rightarrow> u64 \<Rightarrow> u64 \<Rightarrow> (nat \<Rightarrow> u64) \<Rightarrow> (nat \<Rightarrow> u64) \<Rightarrow> kernel_state \<Rightarrow> kernel_state option" where
  "boot_processor dev gdt_addr tss_addr idt_addr isr irq s = do {
     s \<leftarrow> Some (gdt_init gdt_addr tss_addr s);
     s \<leftarrow> serial_printf dev COM1 (Some ''[OK] GDT loaded (kcode=0x08 kdata=0x10 ucode=0x18 udata=0x20 tss=0x28)\<newline>'') [] s;
     s \<leftarrow> vga_printf ''[OK] GDT loaded (Ring 0 & Ring 3 segments)\<newline>'' [] s;
     s \<leftarrow> Some (isr_install idt_addr isr irq s);
     s \<leftarrow> serial_printf dev COM1 (Some ''[OK] IDT loaded (256 gates, PIC remapped 0x20/0x28)\<newline>'') [] s;
     s \<leftarrow> vga_printf ''[OK] IDT loaded (256 gates, PIC remapped)\<newline>'' [] s;
     s \<leftarrow> Some (pagefault_init s);
     s \<leftarrow> serial_printf dev COM1 (Some ''[OK] Page fault handler installed (vector 14)\<newline>'') [] s;
     s \<leftarrow> vga_printf ''[OK] Page fault handler installed\<newline>'' [] s;
     s \<leftarrow> Some (pit_init s);
     s \<leftarrow> serial_printf dev COM1 (Some ''[OK] PIT channel 0 configured (1000 Hz heartbeat)\<newline>'') [] s;
     vga_printf ''[OK] PIT timer active (1000 Hz)\<newline>'' [] s }"

section \<open>Memory\<close>

text \<open>The bitmap starts at the first page after the end of the kernel.\<close>

definition bitmap_phys :: "addr \<Rightarrow> addr" where
  "bitmap_phys kernel_end = and_not64 (add64 kernel_end 4095) 4095"

definition boot_ram_size :: "aura_boot_info \<Rightarrow> u64" where
  "boot_ram_size info = (if total_memory_bytes info \<noteq> 0 then total_memory_bytes info else 64 * 1024 * 1024)"

definition reserved_frames :: "size_t \<Rightarrow> addr \<Rightarrow> nat" where
  "reserved_frames ram_size kernel_end =
     (let n_frames = ram_size div PAGE_SIZE; bitmap_size = add64 n_frames 7 div 8
      in add64 (add64 (bitmap_phys kernel_end) bitmap_size) 4095 div PAGE_SIZE)"

definition boot_frames :: "size_t \<Rightarrow> addr \<Rightarrow> 'a pmm_state_scheme \<Rightarrow> 'a pmm_state_scheme" where
  "boot_frames ram_size kernel_end m =
     fold (\<lambda>f. pmm_mark_used (mul64 f PAGE_SIZE)) [0..<reserved_frames ram_size kernel_end]
       (pmm_init ram_size (bitmap_phys kernel_end) m)"

definition in_units :: "nat \<Rightarrow> size_t \<Rightarrow> c_arg" where
  "in_units k n = CInt (of_nat (n div k))"

definition boot_memory :: "device \<Rightarrow> addr \<Rightarrow> kernel_state \<Rightarrow> kernel_state option" where
  "boot_memory dev kernel_end s = do {
     ram \<leftarrow> Some (unat (boot_ram_size (boot_info s)));
     s \<leftarrow> Some (s\<lparr>memory := boot_frames ram kernel_end (memory s)\<rparr>);
     s \<leftarrow> serial_printf dev COM1 (Some ''[OK] PMM ready: %u KB free / %u KB total\<newline>'')
            [in_units 1024 (pmm_get_free_memory (memory s)), in_units 1024 (pmm_get_total_memory (memory s))] s;
     s \<leftarrow> serial_printf dev COM1 (Some ''     Bitmap @ 0x%x (after kernel _end 0x%x), %u reserved frames\<newline>'')
            [CInt (of_nat (bitmap_phys kernel_end)), CInt (of_nat kernel_end), CInt (of_nat (reserved_frames ram kernel_end))] s;
     s \<leftarrow> vga_printf ''[OK] PMM ready: %u MB free / %u MB total\<newline>''
            [in_units (1024 * 1024) (pmm_get_free_memory (memory s)), in_units (1024 * 1024) (pmm_get_total_memory (memory s))] s;
     s \<leftarrow> Some (s\<lparr>memory := heap_init 0 (memory s)\<rparr>);
     s \<leftarrow> serial_printf dev COM1 (Some ''[OK] Heap initialized (identity mapped)\<newline>'') [] s;
     s \<leftarrow> vga_printf ''[OK] Heap initialized\<newline>'' [] s;
     s \<leftarrow> Some (s\<lparr>memory := snd (zram_init (memory s))\<rparr>);
     s \<leftarrow> serial_printf dev COM1 (Some ''[OK] zRAM in-memory compressor initialized\<newline>'') [] s;
     vga_printf ''[OK] zRAM compressor ready\<newline>'' [] s }"

definition boot_monitor :: "device \<Rightarrow> kernel_state \<Rightarrow> kernel_state option" where
  "boot_monitor dev s = do {
     s \<leftarrow> Some (sysmon_init s);
     s \<leftarrow> serial_printf dev COM1 (Some ''[OK] System monitor started\<newline>'') [] s;
     s \<leftarrow> vga_printf ''[OK] System monitor started\<newline>'' [] s;
     keyboard_init dev s }"

section \<open>Waiting\<close>

text \<open>\<open>while (pit_get_ticks() - start < n) pause;\<close> with the interrupts that arrive, in their order.\<close>

fun wait_ticks :: "device \<Rightarrow> string \<Rightarrow> u64 \<Rightarrow> u64 \<Rightarrow> registers list \<Rightarrow> kernel_state \<Rightarrow> (registers list \<times> kernel_state) option" where
  "wait_ticks dev fl start n irqs s =
     (if pit_get_ticks s - start < n then
        (case irqs of [] \<Rightarrow> None
         | regs # rest \<Rightarrow> do { s \<leftarrow> interrupt dev fl regs s; wait_ticks dev fl start n rest s })
      else Some (irqs, s))"

declare wait_ticks.simps [simp del]

definition boot_wait :: "device \<Rightarrow> string \<Rightarrow> registers list \<Rightarrow> kernel_state \<Rightarrow> (registers list \<times> kernel_state) option" where
  "boot_wait dev fl irqs s = do {
     start \<leftarrow> Some (pit_get_ticks s);
     (irqs, s) \<leftarrow> wait_ticks dev fl start 50 irqs s;
     s \<leftarrow> serial_printf dev COM1 (Some ''[OK] Timer heartbeat verified: %u ticks elapsed\<newline>'') [CInt (ucast (pit_get_ticks s - start))] s;
     s \<leftarrow> vga_printf ''[OK] Timer verified: 50 ticks elapsed\<newline>'' [] s;
     s \<leftarrow> serial_printf dev COM1 (Some ''\<newline>>>> AuraOS Stage 1 Boot Complete. System ready. <<<\<newline>\<newline>'') [] s;
     s \<leftarrow> Some (vga_set_color VGA_COLOR_LIGHT_GREEN VGA_COLOR_BLACK s);
     s \<leftarrow> vga_printf ''\<newline>>>> AuraOS Stage 1 Boot Complete. System Ready. <<<\<newline>'' [] s;
     wait_ticks dev fl (pit_get_ticks s) 1100 irqs s }"

text \<open>The shell, the recovery point and the start of the refresh timer; the parameters are the stack and the return address.\<close>

definition boot_shell :: "u64 \<Rightarrow> u64 \<Rightarrow> u64 \<Rightarrow> kernel_state \<Rightarrow> kernel_state option" where
  "boot_shell rsp rbp ret s = do {
     s \<leftarrow> Some (menu_init s);
     s \<leftarrow> menu_render s;
     s \<leftarrow> Some (snd (panic_set_recovery_point rsp rbp ret s));
     Some (s\<lparr>last_refresh := pit_get_ticks s\<rparr>) }"

section \<open>The main loop\<close>

text \<open>How a step of the main loop ends: it goes on, goes on at the recovery point, or the machine has stopped.\<close>

datatype outcome = Running | Resumed | Stopped

definition after_exception :: "kernel_state \<Rightarrow> outcome \<times> kernel_state" where
  "after_exception s = (if panic_ended s = Some Restored then (Resumed, s\<lparr>panic_ended := None\<rparr>) else (Stopped, s))"

text \<open>
  A key in the shell. An invalid opcode raises exception 6, the store of \<open>trigger_pf\<close>, which is not
  mapped, exception 14 with the error code of a write by the kernel.
\<close>

definition run_key :: "device \<Rightarrow> string \<Rightarrow> registers \<Rightarrow> char \<Rightarrow> kernel_state \<Rightarrow> (outcome \<times> kernel_state) option" where
  "run_key dev fl regs c s = do {
     (e, s) \<leftarrow> menu_handle_key c s;
     (case e of
        Returns \<Rightarrow> Some (Running, s)
      | Halted \<Rightarrow> Some (Stopped, s)
      | Invalid_opcode \<Rightarrow> map_option after_exception (exception dev fl (regs\<lparr>int_no := 6, err_code := 0\<rparr>) s)
      | Page_fault a \<Rightarrow> map_option after_exception (exception dev fl (regs\<lparr>int_no := 14, err_code := 2\<rparr>) (s\<lparr>cr2 := a\<rparr>))) }"

partial_function (option) drain_keys :: "device \<Rightarrow> string \<Rightarrow> registers \<Rightarrow> kernel_state \<Rightarrow> (outcome \<times> kernel_state) option" where
  "drain_keys dev fl regs s =
     (if keyboard_has_key s then
        (case keyboard_getchar s of (c, s) \<Rightarrow>
           if c \<noteq> CHR 0x00 then do {
             (out, s) \<leftarrow> run_key dev fl regs c s;
             if out = Running then drain_keys dev fl regs s else Some (out, s) }
           else drain_keys dev fl regs s)
      else Some (Running, s))"

definition poll_serial :: "device \<Rightarrow> string \<Rightarrow> registers \<Rightarrow> kernel_state \<Rightarrow> (outcome \<times> kernel_state) option" where
  "poll_serial dev fl regs s =
     (case serial_has_char dev COM1 s of (b, s) \<Rightarrow>
        if b then
          (case serial_getc dev COM1 s of (c, s) \<Rightarrow>
             if c \<noteq> CHR 0x00 then run_key dev fl regs (if c = CHR 0x0D then CHR 0x0A else c) s
             else Some (Running, s))
        else Some (Running, s))"

definition refresh :: "kernel_state \<Rightarrow> kernel_state option" where
  "refresh s = do {
     now \<leftarrow> Some (pit_get_ticks s);
     s \<leftarrow> Some (sysmon_set_idle s);
     (if 200 \<le> now - last_refresh s then do {
        s \<leftarrow> menu_update s;
        Some (s\<lparr>last_refresh := now\<rparr>) }
      else Some s) }"

text \<open>One round of the loop, up to the \<open>hlt\<close> that waits for the next interrupt; a resumed kernel starts over behind the recovery point.\<close>

definition loop_round :: "device \<Rightarrow> string \<Rightarrow> registers \<Rightarrow> kernel_state \<Rightarrow> (outcome \<times> kernel_state) option" where
  "loop_round dev fl regs s = do {
     (out, s) \<leftarrow> drain_keys dev fl regs s;
     (if out \<noteq> Running then Some (out, s)
      else do {
        (out, s) \<leftarrow> poll_serial dev fl regs s;
        if out \<noteq> Running then Some (out, s) else map_option (Pair Running) (refresh s) }) }"

definition resume :: "outcome \<times> kernel_state \<Rightarrow> outcome \<times> kernel_state" where
  "resume r = (case r of (out, s) \<Rightarrow> if out = Resumed then (Running, s\<lparr>last_refresh := pit_get_ticks s\<rparr>) else (out, s))"

section \<open>The whole program\<close>

definition kernel_boot :: "device \<Rightarrow> string \<Rightarrow> memory \<Rightarrow> u64 \<Rightarrow> addr \<Rightarrow> u64 \<times> u64 \<times> u64 \<Rightarrow> (nat \<Rightarrow> u64) \<Rightarrow> (nat \<Rightarrow> u64) \<Rightarrow> addr \<Rightarrow>
    u64 \<times> u64 \<times> u64 \<Rightarrow> registers list \<Rightarrow> kernel_state \<Rightarrow> (registers list \<times> kernel_state) option" where
  "kernel_boot dev fl mem magic mbi_addr tables isr irq kernel_end stack irqs s =
     (case tables of (gdt_addr, tss_addr, idt_addr) \<Rightarrow> case stack of (rsp, rbp, ret) \<Rightarrow> do {
        s \<leftarrow> boot_console dev s;
        s \<leftarrow> boot_multiboot dev mem magic mbi_addr s;
        s \<leftarrow> boot_processor dev gdt_addr tss_addr idt_addr isr irq s;
        s \<leftarrow> boot_memory dev kernel_end s;
        s \<leftarrow> boot_monitor dev s;
        (irqs, s) \<leftarrow> boot_wait dev fl irqs s;
        s \<leftarrow> boot_shell rsp rbp ret s;
        Some (irqs, s) })"

text \<open>What happens to the booted kernel: an interrupt, or a round of the loop.\<close>

datatype kernel_event = Interrupt registers | Round registers

definition kernel_step :: "device \<Rightarrow> string \<Rightarrow> kernel_event \<Rightarrow> kernel_state \<Rightarrow> (outcome \<times> kernel_state) option" where
  "kernel_step dev fl e s =
     (case e of
        Interrupt regs \<Rightarrow> map_option (Pair Running) (interrupt dev fl regs s)
      | Round regs \<Rightarrow> map_option resume (loop_round dev fl regs s))"

fun kernel_run :: "device \<Rightarrow> string \<Rightarrow> kernel_event list \<Rightarrow> kernel_state \<Rightarrow> (outcome \<times> kernel_state) option" where
  "kernel_run dev fl [] s = Some (Running, s)"
| "kernel_run dev fl (e # es) s = do {
     (out, s) \<leftarrow> kernel_step dev fl e s;
     if out = Running then kernel_run dev fl es s else Some (out, s) }"

end
