(* ===== verification/Kernel_Inv.thy ===== *)
theory Kernel_Inv
  imports Kernel
begin

text \<open>
  The running kernel of kernel/main.c: its invariant, what every interrupt and every round of the main
  loop keeps of it and changes, and how keys get from the keyboard to the shell.
\<close>

section \<open>Interrupts\<close>

text \<open>The handlers that are installed when the kernel has booted.\<close>

definition installed :: "isr_handler_t option list" where
  "installed = (replicate 256 None)[14 := Some page_fault_handler, 32 := Some pit_irq_handler, 33 := Some keyboard_handler]"

lemma installed_nth:
  "n < 256 \<Longrightarrow> installed ! n = (if n = 14 then Some page_fault_handler else if n = 32 then Some pit_irq_handler
     else if n = 33 then Some keyboard_handler else None)"
  by (simp add: installed_def nth_list_update)

text \<open>The registers the stub of request line \<open>i\<close> passes.\<close>

definition irq_line :: "nat \<Rightarrow> registers \<Rightarrow> bool" where
  "irq_line i regs \<longleftrightarrow> i < 16 \<and> unat (int_no regs) = 32 + i"

definition irq_effect :: "device \<Rightarrow> nat \<Rightarrow> kernel_state \<Rightarrow> kernel_state" where
  "irq_effect dev i s = (if i = 0 then timer_interrupt s else if i = 1 then keyboard_interrupt dev s else s)"

lemma interrupt_eq:
  assumes "interrupt_handlers s = installed" and "irq_line i regs"
  shows "interrupt dev fl regs s = Some (pic_send_eoi (of_nat i) (irq_effect dev i s))"
proof -
  have i: "i < 16" "unat (int_no regs) = 32 + i" using assms(2) by (simp_all add: irq_line_def)
  have "int_no regs = of_nat (32 + i)" using i(2) by (metis of_nat_unat ucast_id)
  then have "int_no regs - 32 = of_nat i" by simp
  moreover have "i < 2 ^ 64" using i(1) by simp
  ultimately have "(ucast (int_no regs - 32) :: u8) = of_nat i" by (simp add: unsigned_of_nat take_bit_nat_eq_self)
  then show ?thesis
    using i assms(1) by (auto simp: interrupt_def irq_handler_def Let_def installed_nth irq_effect_def call_handler_def)
qed

section \<open>The invariant\<close>

text \<open>
  A booted kernel: the screen has its size, the shell and the keyboard buffer are well formed, the
  handlers are installed, the monitor gets the ticks and a recovery point is recorded.
\<close>

definition kernel_ok :: "kernel_state \<Rightarrow> bool" where
  "kernel_ok s \<longleftrightarrow> menu_ok s \<and> kbd_ok s \<and> interrupt_handlers s = installed \<and> pit_callback s = Some sysmon_tick_callback \<and>
     recovery_valid s"

lemma beside_fields:
  assumes "beside s' = beside s"
  shows "kbd_buf s' = kbd_buf s"
    "kbd_head s' = kbd_head s"
    "kbd_tail s' = kbd_tail s"
    "interrupt_handlers s' = interrupt_handlers s"
    "pit_callback s' = pit_callback s"
    "pit_ticks s' = pit_ticks s"
    "recovery_valid s' = recovery_valid s"
    "memory s' = memory s"
    "idt s' = idt s"
  using arg_cong[OF assms, of kbd_buf] arg_cong[OF assms, of kbd_head] arg_cong[OF assms, of kbd_tail] arg_cong[OF assms, of interrupt_handlers] arg_cong[OF assms, of pit_callback] arg_cong[OF assms, of pit_ticks] arg_cong[OF assms, of recovery_valid] arg_cong[OF assms, of memory]
    arg_cong[OF assms, of idt]
  by (simp_all add: beside_def)

lemma beside_kernel_ok: "kernel_ok s \<Longrightarrow> beside s' = beside s \<Longrightarrow> menu_ok s' \<Longrightarrow> kernel_ok s'"
  using beside_fields[of s' s] by (simp add: kernel_ok_def kbd_ok_def kbd_queue_def kbd_count_def)

section \<open>Keys\<close>

lemma menu_render_beside:
  assumes "menu_render s = Some s'" and "length (vga_mem s) = 2000"
  shows "beside s' = beside s"
  using menu_render_frame[OF assms(2)] assms(1) beside_keeps(3) by fastforce

lemma dashboard_render_beside:
  assumes "dashboard_render s = Some s'" and "length (vga_mem s) = 2000"
  shows "beside s' = beside s"
  using dashboard_frame[OF assms(2)] assms(1) beside_keeps(3) by fastforce

lemma fold_log_beside [simp]: "beside (fold log_print ms s) = beside s"
  by (induction ms arbitrary: s) simp_all

lemma execute_command_beside:
  assumes "execute_command cmd s = Some (e, s')" and "length (vga_mem s) = 2000"
  shows "beside s' = beside s \<and> length (vga_mem s') = 2000"
proof -
  have t: "beside s1 = beside s \<and> length (vga_mem s1) = 2000" if "tui_printf_at 0 0 0 [] [] s = Some s1" for s1
  proof -
    have "tui_text [] [] = Some []" by (simp add: tui_text_def buf_push_def)
    from draws_printf_text[OF this assms(2), of 0 0 0] that obtain ov where "drawn ov s s1" unfolding draws_def by force
    then show ?thesis using beside_keeps(2) drawn_length by blast
  qed
  have d: "beside s1 = beside s \<and> length (vga_mem s1) = 2000" if "dashboard_render (s\<lparr>active_view := 1\<rparr>) = Some s1" for s1
  proof -
    have "menu_frame (s\<lparr>active_view := 1\<rparr>) s1" using dashboard_frame[of "s\<lparr>active_view := 1\<rparr>"] assms(2) that by auto
    from beside_keeps(3)[OF this] menu_frame_fields(6)[OF this] show ?thesis by simp
  qed
  show ?thesis
    using assms unfolding execute_command_def
    by (auto simp: bind_eq_Some_conv split: if_split_asm dest!: t d[unfolded One_nat_def])
qed

lemma cmd_store_beside: "cmd_store i c s = Some s' \<Longrightarrow> beside s' = beside s \<and> vga_mem s' = vga_mem s"
  by (auto simp: cmd_store_def split: if_split_asm)

lemma enter_command_beside:
  assumes "enter_command s = Some (e, s')" and "length (vga_mem s) = 2000"
  shows "beside s' = beside s \<and> length (vga_mem s') = 2000"
proof -
  obtain s1 echo where 1: "cmd_store (cmd_len s) (CHR 0x00) s = Some s1" "execute_command (c_string (cmd_buf (log_print echo s1))) (log_print echo s1) = Some (e, s')"
    using assms(1) by (auto simp: enter_command_def bind_eq_Some_conv)
  from execute_command_beside[OF 1(2)] cmd_store_beside[OF 1(1)] assms(2) show ?thesis by simp
qed

lemma menu_handle_key_beside:
  assumes "menu_handle_key c s = Some (e, s')" and "length (vga_mem s) = 2000"
  shows "beside s' = beside s"
proof -
  have r: "beside s2 = beside s1" if "menu_render s1 = Some s2" "length (vga_mem s1) = 2000" for s1 s2 :: "'a panic_state_scheme"
    by (rule menu_render_beside[OF that])
  have store: "beside s3 = beside s1" if "do { t \<leftarrow> cmd_store i ch s1; map_option (Pair Returns) (menu_render t) } = Some (x, s3)" "length (vga_mem s1) = 2000"
    for s1 s3 :: "'a panic_state_scheme" and i ch x
    using that cmd_store_beside[of i ch s1] r by (fastforce simp: bind_eq_Some_conv)
  consider (dashboard) "active_view s = 1" | (enter) "active_view s \<noteq> 1" "c = CHR 0x0A \<or> c = CHR 0x0D"
    | (erase) "active_view s \<noteq> 1" "c = CHR 0x08" | (other) "active_view s \<noteq> 1" "c \<notin> {CHR 0x0A, CHR 0x0D, CHR 0x08}" by blast
  then show ?thesis
  proof cases
    case dashboard
    then show ?thesis
      using assms r[of "s\<lparr>active_view := 0\<rparr>"] dashboard_render_beside[of s] by (auto simp: menu_handle_key_def split: if_split_asm)
  next
    case enter
    obtain x s1 where s1: "enter_command s = Some (x, s1)" using assms(1) enter by (auto simp: menu_handle_key_def bind_eq_Some_conv)
    note k = enter_command_beside[OF s1 assms(2)]
    show ?thesis
    proof (cases "x = Returns")
      case True
      have "do { t \<leftarrow> cmd_store 0 (CHR 0x00) (s1\<lparr>cmd_len := 0\<rparr>); map_option (Pair Returns) (menu_render t) } = Some (e, s')"
        using assms(1) enter s1 True by (auto simp: menu_handle_key_def)
      from store[OF this] k show ?thesis by simp
    next
      case False
      then show ?thesis using assms(1) enter s1 k by (auto simp: menu_handle_key_def)
    qed
  next
    case erase
    show ?thesis
    proof (cases "0 < cmd_len s")
      case True
      have "do { t \<leftarrow> cmd_store (cmd_len s - 1) (CHR 0x00) (s\<lparr>cmd_len := cmd_len s - 1\<rparr>); map_option (Pair Returns) (menu_render t) } = Some (e, s')"
        using assms(1) erase True by (simp add: menu_handle_key_def)
      from store[OF this] assms(2) show ?thesis by simp
    qed (use assms(1) erase in \<open>simp add: menu_handle_key_def\<close>)
  next
    case other
    show ?thesis
    proof (cases "printable c \<and> cmd_len s < 63")
      case True
      then obtain s1 where s1: "cmd_store (cmd_len s) c s = Some s1"
        "do { t \<leftarrow> cmd_store (cmd_len s1 + 1) (CHR 0x00) (s1\<lparr>cmd_len := cmd_len s1 + 1\<rparr>); map_option (Pair Returns) (menu_render t) } = Some (e, s')"
        using assms(1) other by (auto simp: menu_handle_key_def bind_eq_Some_conv split: if_split_asm)
      from store[OF s1(2)] cmd_store_beside[OF s1(1)] assms(2) show ?thesis by simp
    qed (use assms(1) other in \<open>auto simp: menu_handle_key_def split: if_split_asm\<close>)
  qed
qed

section \<open>One key\<close>

text \<open>
  A machine somebody sits at: transmitter and keyboard controller become ready again and again, and from any read of
  the polled keyboard on one of the action keys of the panic console comes sooner or later.
\<close>

definition attended :: "device \<Rightarrow> bool" where
  "attended dev \<longleftrightarrow> uart_live dev COM1 \<and> controller_live dev \<and> (\<forall>n. \<exists>e. first_action dev n e)"

text \<open>The kernel in \<open>s'\<close> is well formed and what the shell does not touch is as in \<open>s\<close>.\<close>

definition serves :: "kernel_state \<Rightarrow> kernel_state \<Rightarrow> bool" where
  "serves s s' \<longleftrightarrow> kernel_ok s' \<and> kbd_queue s' = kbd_queue s \<and> kbd_tail s' = kbd_tail s \<and> kbd_head s' = kbd_head s \<and>
     pit_ticks s' = pit_ticks s \<and> memory s' = memory s \<and> idt s' = idt s"

lemma beside_serves:
  assumes "kernel_ok s" and "beside s' = beside s" and "menu_ok s'"
  shows "serves s s'"
  using beside_kernel_ok[OF assms] beside_fields[OF assms(2)] by (simp add: serves_def kbd_queue_def kbd_count_def)

lemma serves_trans: "serves s s1 \<Longrightarrow> serves s1 s2 \<Longrightarrow> serves s s2"
  by (simp add: serves_def)

text \<open>The fields of the main program play no part in it.\<close>

lemma serves_upd [simp]:
  "serves s (s'\<lparr>cr2 := a\<rparr>) = serves s s'" "serves s (s'\<lparr>panic_ended := e\<rparr>) = serves s s'" "serves s (s'\<lparr>last_refresh := t\<rparr>) = serves s s'"
  "serves (s\<lparr>cr2 := a\<rparr>) s' = serves s s'" "serves s (s'\<lparr>io_words := w\<rparr>) = serves s s'"
  "kernel_ok (s\<lparr>cr2 := a\<rparr>) = kernel_ok s" "kernel_ok (s\<lparr>panic_ended := e\<rparr>) = kernel_ok s" "kernel_ok (s\<lparr>last_refresh := t\<rparr>) = kernel_ok s"
  by (simp_all add: serves_def kernel_ok_def menu_ok_def cmd_ok_def log_ok_def kbd_ok_def kbd_queue_def kbd_count_def)

lemma ended_serves:
  assumes "kernel_ok s" and "ended e t s s'"
  shows "serves s s'"
proof -
  have "same_shell s (s'\<lparr>io_words := io_words s\<rparr>)" using assms(2) by (simp add: ended_def)
  then have "serves s (s'\<lparr>io_words := io_words s\<rparr>)"
    using beside_serves[OF assms(1), of "s'\<lparr>io_words := io_words s\<rparr>"] by (auto simp: same_shell_def)
  then show ?thesis by simp
qed

text \<open>The console that an exception brings up, before its key loop.\<close>

definition console_opened :: "device \<Rightarrow> string \<Rightarrow> registers \<Rightarrow> kernel_state \<Rightarrow> kernel_state option" where
  "console_opened dev fl regs s =
     (if int_no regs = 14 then page_fault_msg (cr2 s) (err_code regs) \<bind> (\<lambda>m. panic_shown dev (Some m) (Some fl) 99 (Some regs) s)
      else panic_shown dev (Some (exception_messages ! unat (int_no regs))) None 0 (Some regs) s)"

lemma exception_ends:
  assumes "uart_live dev COM1" and "controller_live dev" and "kernel_ok s" and "int_no regs \<in> {6, 14}"
  obtains t where "console_opened dev fl regs s = Some t"
    "\<And>e. first_action dev (io_reads t) e \<Longrightarrow> \<exists>s' r. exception dev fl regs s = Some (s'\<lparr>panic_ended := Some e\<rparr>) \<and> ended e r s s'"
proof -
  have ok: "menu_ok s" "recovery_valid s" using assms(3) by (simp_all add: kernel_ok_def)
  show thesis
  proof (cases "int_no regs = 14")
    case True
    obtain m where m: "page_fault_msg (cr2 s) (err_code regs) = Some m" "length m \<le> 80"
      using page_fault_msg_eq[of "cr2 s" "err_code regs"] page_fault_desc_length[of "err_code regs"] hex16_value(2)[of "cr2 s"] by simp
    from assms(1,2) ok m(2) show thesis
    proof (rule panic_ends[where fl = "Some fl" and line = 99 and regs = regs])
      fix t assume t: "panic_shown dev (Some m) (Some fl) 99 (Some regs) s = Some t"
        "\<And>e. first_action dev (io_reads t) e \<Longrightarrow> \<exists>s'. aura_panic_interactive dev (Some m) (Some fl) 99 (Some regs) s = Some (e, s') \<and>
           ended e (report_text m (Some fl) 99 regs) s s'"
      have "console_opened dev fl regs s = Some t" using True m(1) t(1) by (simp add: console_opened_def)
      then show thesis
      proof (rule that)
        fix e assume "first_action dev (io_reads t) e"
        from t(2)[OF this] show "\<exists>s' r. exception dev fl regs s = Some (s'\<lparr>panic_ended := Some e\<rparr>) \<and> ended e r s s'"
          using True assms(3) m(1) by (auto simp: exception_def isr_handler_def kernel_ok_def installed_nth call_handler_def page_fault_def)
      qed
    qed
  next
    case False
    then have six: "int_no regs = 6" using assms(4) by simp
    have "length (exception_messages ! 6) \<le> 80" by (simp add: exception_messages_def)
    from assms(1,2) ok this show thesis
    proof (rule panic_ends[where fl = None and line = 0 and regs = regs])
      fix t assume t: "panic_shown dev (Some (exception_messages ! 6)) None 0 (Some regs) s = Some t"
        "\<And>e. first_action dev (io_reads t) e \<Longrightarrow> \<exists>s'. aura_panic_interactive dev (Some (exception_messages ! 6)) None 0 (Some regs) s = Some (e, s') \<and>
           ended e (report_text (exception_messages ! 6) None 0 regs) s s'"
      have "console_opened dev fl regs s = Some t" using six t(1) by (simp add: console_opened_def)
      then show thesis
      proof (rule that)
        fix e assume "first_action dev (io_reads t) e"
        from t(2)[OF this] show "\<exists>s' r. exception dev fl regs s = Some (s'\<lparr>panic_ended := Some e\<rparr>) \<and> ended e r s s'"
          using six assms(3) by (auto simp: exception_def isr_handler_def kernel_ok_def installed_nth)
      qed
    qed
  qed
qed

lemma run_key_serves:
  assumes "attended dev" and "kernel_ok s"
  shows "\<exists>out s'. run_key dev fl regs c s = Some (out, s') \<and> serves s s'"
proof -
  obtain e s1 where s1: "menu_handle_key c s = Some (e, s1)" "menu_ok s1"
    using menu_handle_key_total[of s c] assms(2) unfolding kernel_ok_def by blast
  have "length (vga_mem s) = 2000" using assms(2) by (simp add: kernel_ok_def menu_ok_def)
  from beside_serves[OF assms(2) menu_handle_key_beside[OF s1(1) this] s1(2)] have k: "serves s s1" .
  then have ok: "kernel_ok s1" by (simp add: serves_def)
  have live: "uart_live dev COM1" "controller_live dev" "\<exists>e. first_action dev n e" for n using assms(1) by (auto simp: attended_def)
  have exc: "\<exists>out s'. map_option after_exception (exception dev fl r t) = Some (out, s') \<and> serves s s'"
    if i: "int_no r \<in> {6, 14}" and t: "kernel_ok t" "serves s t" for r t
  proof -
    obtain u where u: "console_opened dev fl r t = Some u" "\<And>e. first_action dev (io_reads u) e \<Longrightarrow> \<exists>s' r'. exception dev fl r t = Some (s'\<lparr>panic_ended := Some e\<rparr>) \<and> ended e r' t s'"
      using exception_ends[OF live(1,2) t(1) i, of fl] by blast
    obtain e where "first_action dev (io_reads u) e" using live(3) by blast
    from u(2)[OF this] obtain s' r' where s': "exception dev fl r t = Some (s'\<lparr>panic_ended := Some e\<rparr>)" "ended e r' t s'" by blast
    from serves_trans[OF t(2) ended_serves[OF t(1) s'(2)]] show ?thesis unfolding s'(1) by (simp add: after_exception_def)
  qed
  show ?thesis
    using s1(1) k ok exc by (cases e) (auto simp: run_key_def)
qed

text \<open>
  The commands that raise an exception: the console they bring up, and the number of the read at which it starts to
  poll the keyboard.
\<close>

definition fault_polls :: "device \<Rightarrow> string \<Rightarrow> registers \<Rightarrow> char \<Rightarrow> kernel_state \<Rightarrow> nat option" where
  "fault_polls dev fl regs c s = do {
     (e, s) \<leftarrow> menu_handle_key c s;
     t \<leftarrow> (case e of
            Invalid_opcode \<Rightarrow> console_opened dev fl (regs\<lparr>int_no := 6, err_code := 0\<rparr>) s
          | Page_fault a \<Rightarrow> console_opened dev fl (regs\<lparr>int_no := 14, err_code := 2\<rparr>) (s\<lparr>cr2 := a\<rparr>)
          | _ \<Rightarrow> None);
     Some (io_reads t) }"

lemma shell_main_upd [simp]:
  "cmd_line (s\<lparr>cr2 := a\<rparr>) = cmd_line s" "cmd_line (s\<lparr>panic_ended := e\<rparr>) = cmd_line s"
  "log_lines (s\<lparr>cr2 := a\<rparr>) = log_lines s" "log_lines (s\<lparr>panic_ended := e\<rparr>) = log_lines s"
  by (simp_all add: cmd_line_def log_lines_def)

lemma map_option_ex: "\<exists>t. x = Some t \<and> Q (f t) \<Longrightarrow> \<exists>n. map_option f x = Some n \<and> Q n"
  by auto

lemma run_fault_key:
  assumes "uart_live dev COM1" and "controller_live dev" and "kernel_ok s" and "active_view s = 0" and "cmd_line s \<in> {''panic'', ''pf''}"
  shows "\<exists>n. fault_polls dev fl regs (CHR 0x0A) s = Some n \<and>
    (\<forall>e. first_action dev n e \<longrightarrow> (\<exists>s'. run_key dev fl regs (CHR 0x0A) s = Some (if e = Restored then Resumed else Stopped, s') \<and>
      serves s s' \<and> cmd_line s' = cmd_line s \<and> active_view s' = 0 \<and> panic_ended s' = (if e = Restored then None else Some e) \<and>
      (e = Restored \<longrightarrow> (\<exists>ls. log_lines s' = last_lines (ls @ [recovered_message])))))"
proof -
  have ok: "menu_ok s" "active_view s \<noteq> 1" using assms(3,4) by (simp_all add: kernel_ok_def)
  from enter_key[OF ok, of "CHR 0x0A"] assms(5) obtain s1 where s1:
    "menu_handle_key (CHR 0x0A) s = Some (command_end (cmd_line s), s1)" "menu_ok s1" "cmd_line s1 = cmd_line s" "active_view s1 = active_view s"
    by (auto simp: command_end_def)
  have "length (vga_mem s) = 2000" using ok by (simp add: menu_ok_def)
  from beside_serves[OF assms(3) menu_handle_key_beside[OF s1(1) this] s1(2)] have k: "serves s s1" .
  have exc: "\<exists>t. console_opened dev fl r u = Some t \<and> (\<forall>e. first_action dev (io_reads t) e \<longrightarrow>
      (\<exists>s'. map_option after_exception (exception dev fl r u) = Some (if e = Restored then Resumed else Stopped, s') \<and> serves s s' \<and>
        cmd_line s' = cmd_line s \<and> active_view s' = 0 \<and> panic_ended s' = (if e = Restored then None else Some e) \<and>
        (e = Restored \<longrightarrow> (\<exists>ls. log_lines s' = last_lines (ls @ [recovered_message])))))"
    if i: "int_no r \<in> {6, 14}" and u: "serves s u" "cmd_line u = cmd_line s" "active_view u = 0" for r u
  proof -
    have ku: "kernel_ok u" using u(1) by (simp add: serves_def)
    obtain t where t: "console_opened dev fl r u = Some t"
      "\<And>e. first_action dev (io_reads t) e \<Longrightarrow> \<exists>s' r'. exception dev fl r u = Some (s'\<lparr>panic_ended := Some e\<rparr>) \<and> ended e r' u s'"
      using exception_ends[OF assms(1,2) ku i] by blast
    show ?thesis
    proof (rule exI[of _ t], intro conjI allI impI t(1))
      fix e assume "first_action dev (io_reads t) e"
      from t(2)[OF this] obtain s' r' where s': "exception dev fl r u = Some (s'\<lparr>panic_ended := Some e\<rparr>)" "ended e r' u s'" by blast
      have "cmd_line s' = cmd_line s" "active_view s' = 0" "e = Restored \<Longrightarrow> log_lines s' = last_lines (log_lines u @ [recovered_message])"
        using s'(2) u(2,3) by (auto simp: ended_def same_shell_def)
      with serves_trans[OF u(1) ended_serves[OF ku s'(2)]] show "\<exists>s'. map_option after_exception (exception dev fl r u) =
          Some (if e = Restored then Resumed else Stopped, s') \<and> serves s s' \<and>
        cmd_line s' = cmd_line s \<and> active_view s' = 0 \<and> panic_ended s' = (if e = Restored then None else Some e) \<and>
        (e = Restored \<longrightarrow> (\<exists>ls. log_lines s' = last_lines (ls @ [recovered_message])))"
        unfolding s'(1) by (auto simp: after_exception_def)
    qed
  qed
  have s: "serves s s1" "serves s (s1\<lparr>cr2 := a\<rparr>)" for a using k by simp_all
  consider (panic) "cmd_line s = ''panic''" | (pf) "cmd_line s = ''pf''" using assms(5) by blast
  then show ?thesis
  proof cases
    case panic
    let ?r = "regs\<lparr>int_no := 6, err_code := 0\<rparr>"
    have e: "command_end (cmd_line s) = Invalid_opcode" using panic by (simp add: command_end_def)
    have "fault_polls dev fl regs (CHR 0x0A) s = map_option io_reads (console_opened dev fl ?r s1)"
      "run_key dev fl regs (CHR 0x0A) s = map_option after_exception (exception dev fl ?r s1)"
      unfolding fault_polls_def run_key_def s1(1) e by (simp_all add: map_conv_bind_option comp_def)
    then show ?thesis using s1(3,4) assms(4) by (simp only:) (intro map_option_ex exc s(1), simp_all)
  next
    case pf
    obtain a where e: "command_end (cmd_line s) = Page_fault a" using pf by (simp add: command_end_def)
    let ?r = "regs\<lparr>int_no := 14, err_code := 2\<rparr>" and ?s = "s1\<lparr>cr2 := a\<rparr>"
    have "fault_polls dev fl regs (CHR 0x0A) s = map_option io_reads (console_opened dev fl ?r ?s)"
      "run_key dev fl regs (CHR 0x0A) s = map_option after_exception (exception dev fl ?r ?s)"
      unfolding fault_polls_def run_key_def s1(1) e by (simp_all add: map_conv_bind_option comp_def)
    then show ?thesis using s1(3,4) assms(4) by (simp only:) (intro map_option_ex exc s(2), simp_all)
  qed
qed

lemma run_key_edits:
  assumes "kernel_ok s" and "active_view s = 0" and "c \<noteq> CHR 0x0A" and "c \<noteq> CHR 0x0D"
  shows "\<exists>s'. run_key dev fl regs c s = Some (Running, s') \<and> serves s s' \<and> cmd_line s' = edit_line c (cmd_line s) \<and>
    log_lines s' = log_lines s \<and> active_view s' = 0"
proof -
  have "menu_ok s" "active_view s \<noteq> 1" using assms(1,2) by (simp_all add: kernel_ok_def)
  from edit_key[OF this assms(3,4)] obtain s' where s': "menu_handle_key c s = Some (Returns, s')" "menu_ok s'"
    "cmd_line s' = edit_line c (cmd_line s)" "log_lines s' = log_lines s" "active_view s' = active_view s" by blast
  have "length (vga_mem s) = 2000" using assms(1) by (simp add: kernel_ok_def menu_ok_def)
  from beside_serves[OF assms(1) menu_handle_key_beside[OF s'(1) this] s'(2)] s' assms(2) show ?thesis
    by (simp add: run_key_def)
qed

section \<open>A round of the main loop\<close>

lemma kernel_ok_advance:
  assumes "kernel_ok s" and "kbd_queue s \<noteq> []"
  shows "kernel_ok (kbd_advance s)" "kbd_queue (kbd_advance s) = tl (kbd_queue s)"
proof -
  have k: "kbd_ok s" using assms(1) by (simp add: kernel_ok_def)
  note a = kbd_advance_tl[OF k assms(2)]
  show "kbd_queue (kbd_advance s) = tl (kbd_queue s)" by (rule a(2))
  from a(1) assms(1) show "kernel_ok (kbd_advance s)"
    by (simp add: kernel_ok_def kbd_advance_def menu_ok_def cmd_ok_def log_ok_def)
qed

lemma getchar_waiting:
  assumes "kernel_ok s" and "kbd_queue s = c # cs"
  shows "keyboard_has_key s" "keyboard_getchar s = (c, kbd_advance s)" "c \<noteq> CHR 0x00"
proof -
  have k: "kbd_ok s" using assms(1) by (simp add: kernel_ok_def)
  then have ne: "kbd_tail s \<noteq> kbd_head s" using kbd_queue_empty[OF k] assms(2) by simp
  then show "keyboard_has_key s" by (simp add: keyboard_has_key_def)
  show "keyboard_getchar s = (c, kbd_advance s)" using ne kbd_read_hd[OF k assms(2)] by (simp add: keyboard_getchar_def)
  show "c \<noteq> CHR 0x00" using k assms(2) by (auto simp: kbd_ok_def)
qed

lemma drain_empty: "kernel_ok s \<Longrightarrow> kbd_queue s = [] \<Longrightarrow> drain_keys dev fl regs s = Some (Running, s)"
  using kbd_queue_empty[of s] by (subst drain_keys.simps) (simp add: keyboard_has_key_def kernel_ok_def)

lemma drain_keys_total:
  assumes "attended dev" and "kernel_ok s"
  shows "\<exists>out s'. drain_keys dev fl regs s = Some (out, s') \<and> kernel_ok s' \<and> pit_ticks s' = pit_ticks s \<and> memory s' = memory s \<and> idt s' = idt s"
  using assms(2)
proof (induction "length (kbd_queue s)" arbitrary: s)
  case 0
  then have "kbd_queue s = []" by (metis length_0_conv)
  then show ?case using drain_empty[OF 0(2)] 0(2) by simp
next
  case (Suc n)
  then obtain c cs where q: "kbd_queue s = c # cs" by (cases "kbd_queue s") auto
  note g = getchar_waiting[OF Suc.prems q]
  have ne: "kbd_queue s \<noteq> []" using q by simp
  note a = kernel_ok_advance[OF Suc.prems ne]
  obtain out s1 where s1: "run_key dev fl regs c (kbd_advance s) = Some (out, s1)" "serves (kbd_advance s) s1"
    using run_key_serves[OF assms(1) a(1)] by blast
  have k: "kernel_ok s1" "kbd_queue s1 = cs" "pit_ticks s1 = pit_ticks s" "memory s1 = memory s \<and> idt s1 = idt s"
    using s1(2) a(2) q by (simp_all add: serves_def) (simp_all add: kbd_advance_def)
  show ?case
  proof (cases "out = Running")
    case True
    have "n = length (kbd_queue s1)" using k(2) Suc.hyps(2) q by simp
    from Suc.hyps(1)[OF this k(1)] k True s1(1) g show ?thesis by (subst drain_keys.simps) auto
  next
    case False
    then show ?thesis using s1(1) g k by (subst drain_keys.simps) auto
  qed
qed

lemma drain_keys_edits:
  assumes "kernel_ok s" and "active_view s = 0" and "CHR 0x0A \<notin> set (kbd_queue s)" and "CHR 0x0D \<notin> set (kbd_queue s)"
  shows "\<exists>s'. drain_keys dev fl regs s = Some (Running, s') \<and> kernel_ok s' \<and> kbd_queue s' = [] \<and> pit_ticks s' = pit_ticks s \<and>
    cmd_line s' = fold edit_line (kbd_queue s) (cmd_line s) \<and> log_lines s' = log_lines s \<and> active_view s' = 0"
  using assms
proof (induction "kbd_queue s" arbitrary: s)
  case Nil
  then show ?case using drain_empty[of s] by simp
next
  case (Cons c cs)
  have q: "kbd_queue s = c # cs" using Cons.hyps(2) by simp
  note g = getchar_waiting[OF Cons.prems(1) q]
  have ne: "kbd_queue s \<noteq> []" using q by simp
  note a = kernel_ok_advance[OF Cons.prems(1) ne]
  have v: "active_view (kbd_advance s) = 0" "c \<noteq> CHR 0x0A" "c \<noteq> CHR 0x0D"
    "cmd_line (kbd_advance s) = cmd_line s" "log_lines (kbd_advance s) = log_lines s" "pit_ticks (kbd_advance s) = pit_ticks s"
    using Cons.prems(2-4) q by (auto simp: kbd_advance_def cmd_line_def log_lines_def)
  obtain s1 where s1: "run_key dev fl regs c (kbd_advance s) = Some (Running, s1)" "serves (kbd_advance s) s1"
    "cmd_line s1 = edit_line c (cmd_line s)" "log_lines s1 = log_lines s" "active_view s1 = 0"
    using run_key_edits[OF a(1) v(1-3), of dev fl regs] v(4,5) by auto
  have k: "kernel_ok s1" "kbd_queue s1 = cs" "pit_ticks s1 = pit_ticks s"
    using s1(2) a(2) q v(6) by (simp_all add: serves_def)
  have "CHR 0x0A \<notin> set (kbd_queue s1)" "CHR 0x0D \<notin> set (kbd_queue s1)" using Cons.prems(3,4) q k(2) by simp_all
  from Cons.hyps(1)[OF k(2)[symmetric] k(1) s1(5) this] obtain s' where
    "drain_keys dev fl regs s1 = Some (Running, s')" "kernel_ok s'" "kbd_queue s' = []" "pit_ticks s' = pit_ticks s1"
    "cmd_line s' = fold edit_line cs (cmd_line s1)" "log_lines s' = log_lines s1" "active_view s' = 0"
    unfolding k(2) by blast
  then show ?case using s1(1,3,4) k(3) g q by (subst drain_keys.simps) auto
qed

lemma kernel_ok_io [simp]:
  "kernel_ok (s\<lparr>io_reads := n\<rparr>) = kernel_ok s" "kernel_ok (s\<lparr>io_out := out\<rparr>) = kernel_ok s" "kernel_ok (s\<lparr>current_idle := b\<rparr>) = kernel_ok s"
  by (simp_all add: kernel_ok_def menu_ok_def cmd_ok_def log_ok_def kbd_ok_def kbd_queue_def kbd_count_def)

lemma shell_upd [simp]:
  "kbd_queue (s\<lparr>io_reads := n\<rparr>) = kbd_queue s" "kbd_queue (s\<lparr>io_out := out\<rparr>) = kbd_queue s" "kbd_queue (s\<lparr>current_idle := b\<rparr>) = kbd_queue s"
  "cmd_line (s\<lparr>io_reads := n\<rparr>) = cmd_line s" "cmd_line (s\<lparr>io_out := out\<rparr>) = cmd_line s" "cmd_line (s\<lparr>current_idle := b\<rparr>) = cmd_line s"
  "log_lines (s\<lparr>io_reads := n\<rparr>) = log_lines s" "log_lines (s\<lparr>io_out := out\<rparr>) = log_lines s" "log_lines (s\<lparr>current_idle := b\<rparr>) = log_lines s"
  "kbd_queue (s\<lparr>last_refresh := t\<rparr>) = kbd_queue s" "cmd_line (s\<lparr>last_refresh := t\<rparr>) = cmd_line s" "log_lines (s\<lparr>last_refresh := t\<rparr>) = log_lines s"
  by (simp_all add: kbd_queue_def kbd_count_def cmd_line_def log_lines_def)

text \<open>What a step leaves of the shell and of memory.\<close>

definition keeps_shell :: "kernel_state \<Rightarrow> kernel_state \<Rightarrow> bool" where
  "keeps_shell s s' \<longleftrightarrow> kernel_ok s' \<and> cmd_line s' = cmd_line s \<and> log_lines s' = log_lines s \<and> active_view s' = active_view s \<and> memory s' = memory s \<and> idt s' = idt s"

lemma refresh_ok:
  assumes "kernel_ok s"
  shows "\<exists>s'. refresh s = Some s' \<and> keeps_shell s s' \<and> kbd_queue s' = kbd_queue s \<and> pit_ticks s' = pit_ticks s"
proof (cases "200 \<le> pit_ticks s - last_refresh s")
  case False
  then show ?thesis using assms by (simp add: refresh_def sysmon_set_idle_def pit_get_ticks_def keeps_shell_def)
next
  case True
  let ?s = "s\<lparr>current_idle := True\<rparr>"
  have ok: "kernel_ok ?s" using assms by simp
  then obtain s1 where s1: "menu_update ?s = Some s1" "menu_frame ?s s1"
    using menu_update_frame[of ?s] by (auto simp: kernel_ok_def menu_ok_def)
  have "menu_ok s1"
    using ok cmd_ok_frame[OF s1(2)] menu_frame_fields[OF s1(2)] by (simp add: kernel_ok_def menu_ok_def)
  from beside_serves[OF ok beside_keeps(3)[OF s1(2)] this] have k: "serves ?s s1" .
  have "cmd_line s1 = cmd_line s" "log_lines s1 = log_lines s" "active_view s1 = active_view s"
    using cmd_ok_frame(3,4)[OF s1(2)] menu_frame_fields(5)[OF s1(2)] by simp_all
  then show ?thesis
    using True s1(1) k by (simp add: refresh_def sysmon_set_idle_def pit_get_ticks_def keeps_shell_def serves_def)
qed

lemma poll_serial_total:
  assumes "attended dev" and "kernel_ok s"
  shows "\<exists>out s'. poll_serial dev fl regs s = Some (out, s') \<and> kernel_ok s' \<and> pit_ticks s' = pit_ticks s \<and> memory s' = memory s \<and> idt s' = idt s"
proof -
  obtain b s1 where 1: "serial_has_char dev COM1 s = (b, s1)" "\<exists>n. s1 = s\<lparr>io_reads := n\<rparr>"
    by (auto simp: serial_has_char_def inb_def)
  obtain c s2 where c: "serial_getc dev COM1 s1 = (c, s2)" by fastforce
  then have "\<exists>n. s2 = s\<lparr>io_reads := n\<rparr>"
    using 1(2) by (auto simp: serial_getc_def serial_has_char_def inb_def split: if_split_asm)
  note 2 = c this
  have "kernel_ok s2" "pit_ticks s2 = pit_ticks s" "memory s2 = memory s \<and> idt s2 = idt s" using 2(2) assms(2) by auto
  then have r: "\<exists>out s'. run_key dev fl regs ch s2 = Some (out, s') \<and> kernel_ok s' \<and> pit_ticks s' = pit_ticks s \<and> memory s' = memory s \<and> idt s' = idt s" for ch
    using run_key_serves[OF assms(1), of s2 fl regs ch] by (auto simp: serves_def)
  have "kernel_ok s1" "pit_ticks s1 = pit_ticks s" "memory s1 = memory s \<and> idt s1 = idt s" using 1(2) assms(2) by auto
  with r 1(1) 2 \<open>kernel_ok s2\<close> show ?thesis by (auto simp: poll_serial_def)
qed

lemma loop_round_total:
  assumes "attended dev" and "kernel_ok s"
  shows "\<exists>out s'. loop_round dev fl regs s = Some (out, s') \<and> kernel_ok s' \<and> pit_ticks s' = pit_ticks s \<and> memory s' = memory s \<and> idt s' = idt s"
proof -
  obtain o1 s1 where 1: "drain_keys dev fl regs s = Some (o1, s1)" "kernel_ok s1" "pit_ticks s1 = pit_ticks s" "memory s1 = memory s \<and> idt s1 = idt s"
    using drain_keys_total[OF assms, of fl regs] by blast
  obtain o2 s2 where 2: "poll_serial dev fl regs s1 = Some (o2, s2)" "kernel_ok s2" "pit_ticks s2 = pit_ticks s1" "memory s2 = memory s1 \<and> idt s2 = idt s1"
    using poll_serial_total[OF assms(1) 1(2), of fl regs] by blast
  obtain s3 where 3: "refresh s2 = Some s3" "kernel_ok s3" "pit_ticks s3 = pit_ticks s2" "memory s3 = memory s2 \<and> idt s3 = idt s2"
    using refresh_ok[OF 2(2)] by (auto simp: keeps_shell_def)
  show ?thesis using 1 2 3 by (cases "o1 = Running"; cases "o2 = Running") (simp_all add: loop_round_def)
qed

lemma loop_round_edits:
  assumes "kernel_ok s" and "active_view s = 0" and "CHR 0x0A \<notin> set (kbd_queue s)" and "CHR 0x0D \<notin> set (kbd_queue s)"
    and "\<forall>t. dev t (COM1 + 5) AND 1 = 0"
  shows "\<exists>s'. loop_round dev fl regs s = Some (Running, s') \<and> kernel_ok s' \<and> pit_ticks s' = pit_ticks s \<and>
    cmd_line s' = fold edit_line (kbd_queue s) (cmd_line s) \<and> log_lines s' = log_lines s"
proof -
  obtain s1 where 1: "drain_keys dev fl regs s = Some (Running, s1)" "kernel_ok s1" "pit_ticks s1 = pit_ticks s"
    "cmd_line s1 = fold edit_line (kbd_queue s) (cmd_line s)" "log_lines s1 = log_lines s"
    using drain_keys_edits[OF assms(1-4), of dev fl regs] by blast
  let ?s2 = "s1\<lparr>io_reads := Suc (io_reads s1)\<rparr>"
  have 2: "poll_serial dev fl regs s1 = Some (Running, ?s2)"
    using assms(5) by (simp add: poll_serial_def serial_has_char_def inb_def)
  have "kernel_ok ?s2" using 1(2) by simp
  from refresh_ok[OF this] obtain s3 where "refresh ?s2 = Some s3" "keeps_shell ?s2 s3" "pit_ticks s3 = pit_ticks s1" by auto
  then show ?thesis using 1 2 by (auto simp: loop_round_def keeps_shell_def)
qed

section \<open>Interrupts and the invariant\<close>

text \<open>The state without the counters of the monitor.\<close>

definition ticked :: "kernel_state \<Rightarrow> kernel_state" where
  "ticked s = s\<lparr>idle_ticks := 0, current_idle := False, window_idle := 0, window_count := 0, prev_window_idle := 0, prev_window_total := 0\<rparr>"

lemma ticked_timer: "ticked (timer_interrupt s) = ticked (s\<lparr>pit_ticks := pit_ticks s + 1\<rparr>)"
proof -
  have "ticked (sysmon_tick t) = ticked t" for t by (simp add: ticked_def sysmon_tick_def Let_def)
  then show ?thesis
    by (simp add: timer_interrupt_def pit_irq_def run_callback_def Let_def split: option.split pit_callback_t.split)
qed

lemma ticked_fields:
  "kernel_ok (ticked s) = kernel_ok s" "kbd_queue (ticked s) = kbd_queue s" "cmd_line (ticked s) = cmd_line s" "log_lines (ticked s) = log_lines s"
  "active_view (ticked s) = active_view s" "memory (ticked s) = memory s" "io_reads (ticked s) = io_reads s" "pit_ticks (ticked s) = pit_ticks s"
  "idt (ticked s) = idt s"
  by (simp_all add: ticked_def kernel_ok_def menu_ok_def cmd_ok_def log_ok_def kbd_ok_def kbd_queue_def kbd_count_def cmd_line_def log_lines_def)

lemma timer_interrupt_ok:
  "kernel_ok (timer_interrupt s) = kernel_ok s" "kbd_queue (timer_interrupt s) = kbd_queue s" "cmd_line (timer_interrupt s) = cmd_line s"
  "log_lines (timer_interrupt s) = log_lines s" "active_view (timer_interrupt s) = active_view s" "memory (timer_interrupt s) = memory s"
  "io_reads (timer_interrupt s) = io_reads s" "pit_ticks (timer_interrupt s) = pit_ticks s + 1"
  "idt (timer_interrupt s) = idt s"
proof -
  let ?s = "s\<lparr>pit_ticks := pit_ticks s + 1\<rparr>"
  have f: "f (ticked (timer_interrupt s)) = f (ticked ?s)" for f :: "kernel_state \<Rightarrow> 'b" by (simp add: ticked_timer)
  have u: "kernel_ok ?s = kernel_ok s" "kbd_queue ?s = kbd_queue s" "cmd_line ?s = cmd_line s" "log_lines ?s = log_lines s"
    by (simp_all add: kernel_ok_def menu_ok_def cmd_ok_def log_ok_def kbd_ok_def kbd_queue_def kbd_count_def cmd_line_def log_lines_def)
  note t = ticked_timer[of s]
  from arg_cong[OF t, of kernel_ok] show "kernel_ok (timer_interrupt s) = kernel_ok s" by (simp only: ticked_fields u)
  from arg_cong[OF t, of kbd_queue] show "kbd_queue (timer_interrupt s) = kbd_queue s" by (simp only: ticked_fields u)
  from arg_cong[OF t, of cmd_line] show "cmd_line (timer_interrupt s) = cmd_line s" by (simp only: ticked_fields u)
  from arg_cong[OF t, of log_lines] show "log_lines (timer_interrupt s) = log_lines s" by (simp only: ticked_fields u)
  from arg_cong[OF t, of active_view] show "active_view (timer_interrupt s) = active_view s" by (simp add: ticked_fields)
  from arg_cong[OF t, of memory] show "memory (timer_interrupt s) = memory s" by (simp add: ticked_fields)
  from arg_cong[OF t, of io_reads] show "io_reads (timer_interrupt s) = io_reads s" by (simp add: ticked_fields)
  from arg_cong[OF t, of pit_ticks] show "pit_ticks (timer_interrupt s) = pit_ticks s + 1" by (simp add: ticked_fields)
  from arg_cong[OF t, of idt] show "idt (timer_interrupt s) = idt s" by (simp add: ticked_fields)
qed

lemma take_scancode_upd: "\<exists>b h. take_scancode k s = s\<lparr>kbd_buf := b, kbd_head := h\<rparr>"
proof -
  have "s = s\<lparr>kbd_buf := kbd_buf s, kbd_head := kbd_head s\<rparr>" by simp
  moreover have "take_scancode k s = s \<or> (\<exists>b h. take_scancode k s = s\<lparr>kbd_buf := b, kbd_head := h\<rparr>)"
    by (auto simp: take_scancode_def Let_def)
  ultimately show ?thesis by metis
qed

lemma kernel_ok_scancode:
  assumes "kernel_ok s"
  shows "keeps_shell s (take_scancode k s)" "pit_ticks (take_scancode k s) = pit_ticks s" "io_reads (take_scancode k s) = io_reads s"
proof -
  obtain b h where e: "take_scancode k s = s\<lparr>kbd_buf := b, kbd_head := h\<rparr>" using take_scancode_upd[of k s] by blast
  show "pit_ticks (take_scancode k s) = pit_ticks s" "io_reads (take_scancode k s) = io_reads s" by (simp_all add: e)
  have "kbd_ok (take_scancode k s)" using take_scancode_queue(1)[of s k] assms by (simp add: kernel_ok_def)
  then have "kernel_ok (take_scancode k s)"
    using assms unfolding kernel_ok_def by (simp add: e menu_ok_def cmd_ok_def log_ok_def)
  then show "keeps_shell s (take_scancode k s)" by (simp add: keeps_shell_def e cmd_line_def log_lines_def)
qed

text \<open>A request line changes the tick count, the keyboard buffer and the position in the input, and nothing else the shell sees.\<close>

lemma interrupt_ok:
  assumes "kernel_ok s" and "irq_line i regs"
  shows "\<exists>s'. interrupt dev fl regs s = Some s' \<and> keeps_shell s s' \<and> pit_ticks s' = (if i = 0 then pit_ticks s + 1 else pit_ticks s) \<and>
    io_reads s' = (if i = 1 then Suc (io_reads s) else io_reads s) \<and>
    kbd_queue s' = (if i = 1 then kbd_queue (take_scancode (dev (io_reads s) 0x60) s) else kbd_queue s)"
proof -
  have "interrupt_handlers s = installed" using assms(1) by (simp add: kernel_ok_def)
  note e = interrupt_eq[OF this assms(2), of dev fl]
  let ?t = "irq_effect dev i s"
  obtain out where eoi: "pic_send_eoi (of_nat i) ?t = ?t\<lparr>io_out := out\<rparr>"
    by (cases "8 \<le> (of_nat i :: u8)") (auto simp: pic_send_eoi_def outb_def)
  have k: "keeps_shell s ?t \<and> pit_ticks ?t = (if i = 0 then pit_ticks s + 1 else pit_ticks s) \<and>
    io_reads ?t = (if i = 1 then Suc (io_reads s) else io_reads s) \<and>
    kbd_queue ?t = (if i = 1 then kbd_queue (take_scancode (dev (io_reads s) 0x60) s) else kbd_queue s)"
  proof -
    consider "i = 0" | "i = 1" | "i \<noteq> 0" "i \<noteq> 1" by blast
    then show ?thesis
    proof cases
      case 1
      then show ?thesis using assms(1) by (simp add: irq_effect_def keeps_shell_def timer_interrupt_ok)
    next
      case 2
      let ?s = "s\<lparr>io_reads := Suc (io_reads s)\<rparr>" and ?k = "dev (io_reads s) 0x60"
      have q: "kbd_queue (take_scancode ?k ?s) = kbd_queue (take_scancode ?k s)"
        using take_scancode_queue(3)[of ?s ?k] take_scancode_queue(3)[of s ?k] assms(1) by (simp add: kernel_ok_def kbd_ok_def split: option.split)
      have "kernel_ok ?s" using assms(1) by simp
      from kernel_ok_scancode[OF this, of ?k] q 2 show ?thesis
        by (simp add: irq_effect_def keyboard_interrupt_def inb_def keeps_shell_def)
    next
      case 3
      then show ?thesis using assms(1) by (simp add: irq_effect_def keeps_shell_def)
    qed
  qed
  have "keeps_shell s (?t\<lparr>io_out := out\<rparr>) = keeps_shell s ?t" by (simp add: keeps_shell_def)
  then show ?thesis using e k unfolding eoi by simp
qed

section \<open>Runs\<close>

definition event_ok :: "kernel_event \<Rightarrow> bool" where
  "event_ok e = (case e of Interrupt regs \<Rightarrow> \<exists>i. irq_line i regs | Round _ \<Rightarrow> True)"

lemma kernel_step_total:
  assumes "attended dev" and "kernel_ok s" and "event_ok e"
  shows "\<exists>out s'. kernel_step dev fl e s = Some (out, s') \<and> kernel_ok s' \<and> memory s' = memory s \<and> idt s' = idt s"
proof (cases e)
  case (Interrupt regs)
  then obtain i where "irq_line i regs" using assms(3) by (auto simp: event_ok_def)
  from interrupt_ok[OF assms(2) this, of dev fl] Interrupt show ?thesis by (auto simp: kernel_step_def keeps_shell_def)
next
  case (Round regs)
  obtain out s' where r: "loop_round dev fl regs s = Some (out, s')" "kernel_ok s'" "memory s' = memory s \<and> idt s' = idt s"
    using loop_round_total[OF assms(1,2), of fl regs] by blast
  then show ?thesis using Round by (simp add: kernel_step_def resume_def)
qed

lemma kernel_run_keeps:
  "attended dev \<Longrightarrow> kernel_ok s \<Longrightarrow> \<forall>e \<in> set es. event_ok e \<Longrightarrow>
    \<exists>out s'. kernel_run dev fl es s = Some (out, s') \<and> kernel_ok s' \<and> memory s' = memory s \<and> idt s' = idt s"
proof (induction es arbitrary: s)
  case (Cons e es)
  obtain out s1 where s1: "kernel_step dev fl e s = Some (out, s1)" "kernel_ok s1" "memory s1 = memory s \<and> idt s1 = idt s"
    using kernel_step_total[OF Cons.prems(1,2), of e fl] Cons.prems(3) by auto
  then show ?case using Cons.IH[OF Cons.prems(1) s1(2)] Cons.prems(3) by (cases "out = Running") auto
qed simp

lemma kernel_run_append: "kernel_run dev fl es s = Some (Running, t) \<Longrightarrow> kernel_run dev fl (es @ es') s = kernel_run dev fl es' t"
proof (induction es arbitrary: s)
  case (Cons e es)
  then show ?case by (auto simp: bind_eq_Some_conv split: if_split_asm)
qed simp

text \<open>The scancodes the keyboard interrupts among the request lines read.\<close>

definition codes_read :: "device \<Rightarrow> nat \<Rightarrow> nat list \<Rightarrow> u8 list" where
  "codes_read dev n ls = map (\<lambda>j. dev (n + j) 0x60) [0..<count_list ls 1]"

lemma codes_read_Cons: "codes_read dev n (i # ls) = (if i = 1 then dev n 0x60 # codes_read dev (Suc n) ls else codes_read dev n ls)"
proof -
  have "map (\<lambda>j. dev (n + j) 0x60) [0..<Suc k] = dev n 0x60 # map (\<lambda>j. dev (Suc n + j) 0x60) [0..<k]" for k
    by (simp only: map_upt_Suc) simp
  then show ?thesis by (simp add: codes_read_def)
qed

lemma interrupts_run:
  assumes "list_all2 irq_line ls irqs" and "kernel_ok s"
    and "length (kbd_queue s) + length (List.map_filter key_char (codes_read dev (io_reads s) ls)) \<le> 31"
  shows "\<exists>s'. kernel_run dev fl (map Interrupt irqs) s = Some (Running, s') \<and> keeps_shell s s' \<and>
    pit_ticks s' = pit_ticks s + of_nat (count_list ls 0) \<and>
    kbd_queue s' = kbd_queue s @ List.map_filter key_char (codes_read dev (io_reads s) ls)"
  using assms
proof (induction arbitrary: s rule: list_all2_induct)
  case Nil
  then show ?case by (simp add: keeps_shell_def codes_read_def map_filter_simps)
next
  case (Cons i ls regs irqs)
  let ?k = "dev (io_reads s) 0x60"
  obtain s1 where s1: "interrupt dev fl regs s = Some s1" "keeps_shell s s1" "pit_ticks s1 = (if i = 0 then pit_ticks s + 1 else pit_ticks s)"
    "io_reads s1 = (if i = 1 then Suc (io_reads s) else io_reads s)"
    "kbd_queue s1 = (if i = 1 then kbd_queue (take_scancode ?k s) else kbd_queue s)"
    using interrupt_ok[OF Cons.prems(1) Cons.hyps(1), of dev fl] by blast
  have ok1: "kernel_ok s1" using s1(2) by (simp add: keeps_shell_def)
  have q: "kbd_queue s1 @ List.map_filter key_char (codes_read dev (io_reads s1) ls) =
      kbd_queue s @ List.map_filter key_char (codes_read dev (io_reads s) (i # ls))"
    using take_scancode_queue(3)[of s ?k] Cons.prems s1(4,5)
    by (auto simp: codes_read_Cons map_filter_simps kernel_ok_def split: option.splits)
  then have "length (kbd_queue s1) + length (List.map_filter key_char (codes_read dev (io_reads s1) ls)) \<le> 31"
    using Cons.prems(2) by (metis length_append)
  from Cons.IH[OF ok1 this] obtain s' where s': "kernel_run dev fl (map Interrupt irqs) s1 = Some (Running, s')" "keeps_shell s1 s'"
    "pit_ticks s' = pit_ticks s1 + of_nat (count_list ls 0)"
    "kbd_queue s' = kbd_queue s @ List.map_filter key_char (codes_read dev (io_reads s) (i # ls))"
    unfolding q by blast
  have "keeps_shell s s'" using s1(2) s'(2) by (simp add: keeps_shell_def)
  then show ?case using s1(1,3) s' by (simp add: kernel_step_def)
qed

section \<open>Booting\<close>

text \<open>The state without ports, screen and the segment tables and table registers of the processor.\<close>

definition hush :: "kernel_state \<Rightarrow> kernel_state" where
  "hush s = s\<lparr>io_reads := 0, io_out := [], vga_mem := [], vga_row := 0, vga_col := 0, vga_color := 0, gdt_entries := [],
     gdt_tss := write_tss 0 0, tss_bytes := [], gdtr := (0, 0), data_segments := 0, code_segment := 0, task_register := 0,
     idtr := (0, 0)\<rparr>"

text \<open>The call returns a state that is \<open>t\<close> but for these, and the console is well formed.\<close>

definition reaches :: "kernel_state option \<Rightarrow> kernel_state \<Rightarrow> bool" where
  "reaches r t \<longleftrightarrow> (\<exists>s'. r = Some s' \<and> hush s' = hush t \<and> vga_ok s')"

lemma reaches_bind:
  "reaches r t \<Longrightarrow> (\<And>s1. hush s1 = hush t \<Longrightarrow> vga_ok s1 \<Longrightarrow> reaches (q s1) u) \<Longrightarrow> reaches (r \<bind> q) u"
  by (auto simp: reaches_def)

lemma reaches_Some: "hush s = hush t \<Longrightarrow> vga_ok s \<Longrightarrow> reaches (Some s) t"
  by (simp add: reaches_def)

lemma hush_shown: "serial_shown port s t s' \<Longrightarrow> hush s' = hush s \<and> (vga_ok s \<longrightarrow> vga_ok s')" "vga_frame s s' \<Longrightarrow> hush s' = hush s"
proof -
  show "serial_shown port s t s' \<Longrightarrow> hush s' = hush s \<and> (vga_ok s \<longrightarrow> vga_ok s')"
    by (auto simp: serial_shown_def hush_def vga_ok_def)
  have "hush (s\<lparr>vga_mem := m, vga_row := r, vga_col := k\<rparr>) = hush s" for m r k by (simp add: hush_def)
  then show "vga_frame s s' \<Longrightarrow> hush s' = hush s" unfolding vga_frame_def by metis
qed

lemma reaches_serial:
  assumes "uart_live dev COM1" and "hush s = hush t" and "vga_ok s" and "serial_text fmt args \<noteq> None"
  shows "reaches (serial_printf dev COM1 (Some fmt) args s) t"
proof -
  obtain u where "serial_text fmt args = Some u" using assms(4) by blast
  then obtain s' where "serial_printf dev COM1 (Some fmt) args s = Some s'" "serial_shown COM1 s u s'"
    using serial_printf_shown[OF assms(1), of fmt args s] by auto
  then show ?thesis using hush_shown(1)[of COM1 s u s'] assms(2,3) by (simp add: reaches_def)
qed

lemma reaches_vga:
  assumes "hush s = hush t" and "vga_ok s" and "vga_text fmt args \<noteq> None"
  shows "reaches (vga_printf fmt args s) t"
proof -
  obtain u where "vga_text fmt args = Some u" using assms(3) by blast
  then obtain s' where "vga_printf fmt args s = Some s'" "vga_ok s'" "vga_shown s u s'"
    using vga_printf_shown[OF assms(2), of fmt args] by auto
  then show ?thesis using hush_shown(2)[of s s'] assms(1) by (auto simp: reaches_def vga_shown_def)
qed

end
