(* ===== verification/Kernel_Boot.thy ===== *)
theory Kernel_Boot
  imports Kernel_Inv
begin

text \<open>
  Booting the kernel of kernel/main.c: every step returns, the console stays well formed, and what the
  steps do besides writing to ports and screen is the state they reach.
\<close>

section \<open>The steps of booting\<close>

lemma hush_cong:
  assumes "hush s = hush t"
  shows "hush (s\<lparr>memory := f (memory s)\<rparr>) = hush (t\<lparr>memory := f (memory t)\<rparr>)"
    and "hush (s\<lparr>interrupt_handlers := g (interrupt_handlers s)\<rparr>) = hush (t\<lparr>interrupt_handlers := g (interrupt_handlers t)\<rparr>)"
    and "hush (s\<lparr>kbd_head := 0, kbd_tail := 0\<rparr>) = hush (t\<lparr>kbd_head := 0, kbd_tail := 0\<rparr>)"
    and "hush (s\<lparr>vga_color := c\<rparr>) = hush t" "hush (s\<lparr>io_out := out\<rparr>) = hush t"
    and "boot_info s = boot_info t" "pit_ticks s = pit_ticks t" and "hush (s\<lparr>idt := d\<rparr>) = hush (t\<lparr>idt := d\<rparr>)"
proof -
  have "hush (u\<lparr>idt := d\<rparr>) = (hush u)\<lparr>idt := d\<rparr>" for u by (simp add: hush_def)
  then show "hush (s\<lparr>idt := d\<rparr>) = hush (t\<lparr>idt := d\<rparr>)" using assms by simp
  have "hush (u\<lparr>memory := m\<rparr>) = (hush u)\<lparr>memory := m\<rparr>" "hush (u\<lparr>interrupt_handlers := h\<rparr>) = (hush u)\<lparr>interrupt_handlers := h\<rparr>"
    "hush (u\<lparr>kbd_head := 0, kbd_tail := 0\<rparr>) = (hush u)\<lparr>kbd_head := 0, kbd_tail := 0\<rparr>" for u m h by (simp_all add: hush_def)
  moreover have "memory s = memory t" "interrupt_handlers s = interrupt_handlers t"
    using arg_cong[OF assms, of memory] arg_cong[OF assms, of interrupt_handlers] by (simp_all add: hush_def)
  ultimately show "hush (s\<lparr>memory := f (memory s)\<rparr>) = hush (t\<lparr>memory := f (memory t)\<rparr>)"
    "hush (s\<lparr>interrupt_handlers := g (interrupt_handlers s)\<rparr>) = hush (t\<lparr>interrupt_handlers := g (interrupt_handlers t)\<rparr>)"
    "hush (s\<lparr>kbd_head := 0, kbd_tail := 0\<rparr>) = hush (t\<lparr>kbd_head := 0, kbd_tail := 0\<rparr>)" using assms by simp_all
  show "hush (s\<lparr>vga_color := c\<rparr>) = hush t" "hush (s\<lparr>io_out := out\<rparr>) = hush t" using assms by (simp_all add: hush_def)
  show "boot_info s = boot_info t" "pit_ticks s = pit_ticks t"
    using arg_cong[OF assms, of boot_info] arg_cong[OF assms, of pit_ticks] by (simp_all add: hush_def)
qed

lemma vga_ok_upd [simp]:
  "vga_ok (s\<lparr>memory := m\<rparr>) = vga_ok s" "vga_ok (s\<lparr>interrupt_handlers := h\<rparr>) = vga_ok s" "vga_ok (s\<lparr>vga_color := c\<rparr>) = vga_ok s"
  "vga_ok (s\<lparr>io_out := out\<rparr>) = vga_ok s" "vga_ok (s\<lparr>boot_info := b\<rparr>) = vga_ok s" for s :: kernel_state
  by (simp_all add: vga_ok_def)

lemma boot_console_reaches:
  assumes "uart_live dev COM1" and "length (vga_mem s) = 2000"
  shows "reaches (boot_console dev s) s"
proof -
  obtain m c where i: "vga_init s = Some (s\<lparr>vga_color := c, vga_mem := m, vga_row := 0, vga_col := 0\<rparr>)" "length m = 2000"
    using vga_clear_ok[of "vga_set_color 7 0 s"] assms(2) by (auto simp: vga_init_def vga_set_color_def)
  have "reaches (vga_init s) s" unfolding i(1) by (rule reaches_Some) (simp_all add: hush_def vga_ok_def i(2))
  moreover have "reaches (Some (vga_set_color a b u)) s" "reaches (Some (serial_init COM1 baud u)) s"
    if "hush u = hush s" "vga_ok u" for a b baud u
    using that hush_cong(4,5)[OF that(1)]
    by (auto intro!: reaches_Some simp: vga_set_color_def serial_init_def outb_def Let_def)
  ultimately show ?thesis
    unfolding boot_console_def
    by (elim reaches_bind) (intro reaches_bind reaches_serial reaches_vga assms(1); assumption?; simp add: serial_text_def vga_text_def)
qed

lemmas boot_texts = serial_text_def vga_text_def serial_conv_def vga_conv_def megabytes_def in_units_def

lemma reaches_eq: "hush t = hush u \<Longrightarrow> reaches r t \<Longrightarrow> reaches r u"
  by (simp add: reaches_def)

lemma reaches_op: "hush (f s) = hush t \<Longrightarrow> vga_ok (f s) \<Longrightarrow> reaches (q (f s)) u \<Longrightarrow> reaches (Some (f s) \<bind> q) u"
  by simp

lemma report_info_reaches:
  assumes "uart_live dev COM1" and "hush s = hush t" and "vga_ok s"
  shows "reaches (report_info dev info s) t"
proof -
  have 1: "reaches (if 0 < total_memory_bytes info then
        serial_printf dev COM1 (Some ''     Total RAM: %u MB (Available: %u MB)\<newline>'')
            [megabytes (total_memory_bytes info), megabytes (available_memory_bytes info)] u \<bind>
          vga_printf ''     Total RAM: %u MB (Available: %u MB)\<newline>''
            [megabytes (total_memory_bytes info), megabytes (available_memory_bytes info)]
      else Some u) t" if "hush u = hush t" "vga_ok u" for u
  proof (cases "0 < total_memory_bytes info")
    case True
    show ?thesis
      unfolding if_P[OF True]
      by (rule reaches_bind[OF reaches_serial[OF assms(1) that]], simp add: boot_texts, rule reaches_vga, assumption+, simp add: boot_texts)
  qed (use reaches_Some[OF that] in simp)
  have 2: "reaches (if has_framebuffer info \<noteq> 0 then
        serial_printf dev COM1 (Some ''     Linear FB: %ux%u @ %u bpp (Base: %p)\<newline>'')
            [CInt (fb_width info), CInt (fb_height info), CInt (ucast (fb_bpp info)), CPtr (fb_addr info)] u \<bind>
          vga_printf ''     Linear FB: %ux%u @ %u bpp\<newline>'' [CInt (fb_width info), CInt (fb_height info), CInt (ucast (fb_bpp info))]
      else Some u) t" if "hush u = hush t" "vga_ok u" for u
  proof (cases "has_framebuffer info \<noteq> 0")
    case True
    show ?thesis
      unfolding if_P[OF True]
      by (rule reaches_bind[OF reaches_serial[OF assms(1) that]], simp add: boot_texts, rule reaches_vga, assumption+, simp add: boot_texts)
  qed (use reaches_Some[OF that] in simp)
  show ?thesis
    unfolding report_info_def
    by (intro reaches_bind[where t = t] reaches_serial[OF assms(1)] reaches_vga 1 2; (rule assms | assumption)?; simp add: boot_texts)
qed

lemma boot_multiboot_reaches:
  assumes "uart_live dev COM1" and "hush s = hush t" and "vga_ok s" and "multiboot2_parse mem (ucast magic) mbi_addr (Some (boot_info s)) = Some (r, info)"
  shows "reaches (boot_multiboot dev mem magic mbi_addr s) (t\<lparr>boot_info := the info\<rparr>)"
proof -
  let ?s = "s\<lparr>boot_info := the info\<rparr>" and ?t = "t\<lparr>boot_info := the info\<rparr>"
  have "hush (u\<lparr>boot_info := i\<rparr>) = (hush u)\<lparr>boot_info := i\<rparr>" for u i by (simp add: hush_def)
  then have h: "hush ?s = hush ?t" "vga_ok ?s" using assms(2,3) by simp_all
  have "reaches (serial_printf dev COM1 (Some ''[WARN] Multiboot2 magic mismatch or tags missing\<newline>'') [] ?s \<bind>
      vga_printf ''[WARN] Multiboot2 tags missing\<newline>'' []) ?t"
    by (rule reaches_bind[OF reaches_serial[OF assms(1) h]], simp add: boot_texts, rule reaches_vga, assumption+, simp add: boot_texts)
  then show ?thesis
    using report_info_reaches[OF assms(1) h] assms(4) by (simp add: boot_multiboot_def)
qed

lemma gdt_init_hush: "hush (gdt_init g t s) = hush s" "vga_ok (gdt_init g t s) = vga_ok s"
  by (simp_all add: gdt_init_def gdt_set_gate_def hush_def vga_ok_def Let_def)

lemma isr_install_hush:
  "hush (isr_install a isr irq s) = hush (s\<lparr>idt := idt (isr_install a isr irq s), interrupt_handlers := replicate 256 None\<rparr>)" "vga_ok (isr_install a isr irq s) = vga_ok s"
proof -
  obtain gates where e: "isr_install a isr irq s =
      pic_remap 0x20 0x28 (s\<lparr>interrupt_handlers := replicate 256 None\<rparr>)\<lparr>idt := gates, idtr := (4095, a)\<rparr>"
    by (rule isr_install_shape[of a isr irq s]) (rule that)
  show "hush (isr_install a isr irq s) = hush (s\<lparr>idt := idt (isr_install a isr irq s), interrupt_handlers := replicate 256 None\<rparr>)" "vga_ok (isr_install a isr irq s) = vga_ok s"
    unfolding e by (simp_all add: pic_remap_def io_wait_def outb_def hush_def vga_ok_def Let_def)
qed

lemma boot_processor_reaches:
  assumes "uart_live dev COM1" and "hush s = hush t" and "vga_ok s"
  shows "reaches (boot_processor dev g tss i isr irq s)
    (t\<lparr>idt := idt (isr_install i isr irq t), interrupt_handlers := (replicate 256 None)[14 := Some page_fault_handler, 32 := Some pit_irq_handler]\<rparr>)"
proof -
  let ?d = "idt (isr_install i isr irq t)"
  let ?t1 = "t\<lparr>idt := ?d, interrupt_handlers := replicate 256 None\<rparr>"
  let ?t2 = "t\<lparr>idt := ?d, interrupt_handlers := (replicate 256 None)[14 := Some page_fault_handler]\<rparr>"
  let ?t3 = "t\<lparr>idt := ?d, interrupt_handlers := (replicate 256 None)[14 := Some page_fault_handler, 32 := Some pit_irq_handler]\<rparr>"
  have 1: "reaches (Some (gdt_init g tss s)) t" using assms(2,3) by (simp add: reaches_def gdt_init_hush)
  have 2: "reaches (Some (isr_install i isr irq u)) ?t1" if "hush u = hush t" "vga_ok u" for u
    using that hush_cong(2)[OF hush_cong(8)[OF that(1), of ?d], of "\<lambda>_. replicate 256 None"] isr_install_idt[of i isr irq u t]
    by (simp add: reaches_def isr_install_hush)
  have 3: "reaches (Some (pagefault_init u)) ?t2" if "hush u = hush ?t1" "vga_ok u" for u
    using that hush_cong(2)[OF that(1), of "\<lambda>h. h[14 := Some page_fault_handler]"]
    by (simp add: reaches_def pagefault_init_def isr_register_handler_def)
  have 4: "reaches (Some (pit_init u)) ?t3" if "hush u = hush ?t2" "vga_ok u" for u
  proof -
    have "hush (u\<lparr>interrupt_handlers := (interrupt_handlers u)[32 := Some pit_irq_handler]\<rparr>) = hush ?t3"
      using hush_cong(2)[OF that(1), of "\<lambda>h. h[32 := Some pit_irq_handler]"] by simp
    moreover have "hush (pit_init u) = hush (u\<lparr>interrupt_handlers := (interrupt_handlers u)[32 := Some pit_irq_handler]\<rparr>)" "vga_ok (pit_init u) = vga_ok u"
      by (simp_all add: pit_init_def outb_def isr_register_handler_def hush_def vga_ok_def Let_def)
    ultimately show ?thesis using that(2) by (simp add: reaches_def)
  qed
  show ?thesis
    unfolding boot_processor_def
    by (intro reaches_bind[OF 1] reaches_bind[OF 2] reaches_bind[OF 3] reaches_bind[OF 4] reaches_bind reaches_serial reaches_vga assms(1);
        assumption?; simp add: boot_texts)
qed

text \<open>Memory after booting with \<open>ram\<close> bytes.\<close>

definition booted_memory :: "size_t \<Rightarrow> addr \<Rightarrow> zram_state \<Rightarrow> zram_state" where
  "booted_memory ram kernel_end m = snd (zram_init (heap_init 0 (boot_frames ram kernel_end m)))"

lemma boot_memory_reaches:
  assumes "uart_live dev COM1" and "hush s = hush t" and "vga_ok s"
  shows "reaches (boot_memory dev kernel_end s) (t\<lparr>memory := booted_memory (unat (boot_ram_size (boot_info t))) kernel_end (memory t)\<rparr>)"
proof -
  let ?r = "unat (boot_ram_size (boot_info t))"
  let ?t1 = "t\<lparr>memory := boot_frames ?r kernel_end (memory t)\<rparr>" and ?t2 = "t\<lparr>memory := heap_init 0 (boot_frames ?r kernel_end (memory t))\<rparr>"
  let ?t3 = "t\<lparr>memory := booted_memory ?r kernel_end (memory t)\<rparr>"
  have b: "boot_info s = boot_info t" by (rule hush_cong(6)[OF assms(2)])
  have 1: "reaches (Some (s\<lparr>memory := boot_frames ?r kernel_end (memory s)\<rparr>)) ?t1"
    using hush_cong(1)[OF assms(2)] assms(3) by (simp add: reaches_def)
  have 2: "reaches (Some (u\<lparr>memory := heap_init 0 (memory u)\<rparr>)) ?t2" if "hush u = hush ?t1" "vga_ok u" for u
    using hush_cong(1)[OF that(1), of "heap_init 0"] that(2) by (simp add: reaches_def)
  have 3: "reaches (Some (u\<lparr>memory := snd (zram_init (memory u))\<rparr>)) ?t3" if "hush u = hush ?t2" "vga_ok u" for u
    using hush_cong(1)[OF that(1), of "\<lambda>m. snd (zram_init m)"] that(2) by (simp add: reaches_def booted_memory_def)
  show ?thesis
    unfolding boot_memory_def b
    by (subst Option.bind.bind_lunit)
      (intro reaches_bind[OF 1] reaches_bind[OF 2] reaches_bind[OF 3] reaches_bind reaches_serial reaches_vga assms(1);
        assumption?; simp add: boot_texts)
qed

lemma boot_monitor_reaches:
  assumes "uart_live dev COM1" and "hush s = hush t" and "vga_ok s"
  shows "reaches (boot_monitor dev s) (isr_register_handler 33 keyboard_handler ((sysmon_init t)\<lparr>kbd_head := 0, kbd_tail := 0\<rparr>))"
proof -
  have h: "hush (sysmon_init u) = sysmon_init (hush u)" "vga_ok (sysmon_init u) = vga_ok u" for u
    by (simp_all add: sysmon_init_def pit_set_callback_def pit_get_ticks_def hush_def vga_ok_def)
  have 1: "reaches (Some (sysmon_init s)) (sysmon_init t)"
    using assms(2,3) by (simp add: reaches_def h)
  have 2: "reaches (keyboard_init dev u) (isr_register_handler 33 keyboard_handler ((sysmon_init t)\<lparr>kbd_head := 0, kbd_tail := 0\<rparr>))"
    if u: "hush u = hush (sysmon_init t)" "vga_ok u" for u
  proof -
    let ?k = "\<lambda>u. isr_register_handler 33 keyboard_handler (u\<lparr>kbd_head := 0, kbd_tail := 0\<rparr>)"
    have "hush (?k u) = hush (?k (sysmon_init t))"
      using hush_cong(2)[OF hush_cong(3)[OF u(1)], of "\<lambda>h. h[33 := Some keyboard_handler]"] by (simp add: isr_register_handler_def)
    moreover have "vga_ok (?k u)" using u(2) by (simp add: isr_register_handler_def vga_ok_def)
    ultimately show ?thesis
      unfolding keyboard_init_def by (rule reaches_serial[OF assms(1)]) (simp add: boot_texts)
  qed
  show ?thesis
    unfolding boot_monitor_def
    by (intro reaches_bind[OF 1] 2 reaches_bind reaches_serial reaches_vga assms(1); assumption?; simp add: boot_texts)
qed

section \<open>The waits\<close>

text \<open>The state without what interrupts change, too.\<close>

definition calm :: "kernel_state \<Rightarrow> kernel_state" where
  "calm s = (ticked (hush s))\<lparr>pit_ticks := 0, kbd_buf := [], kbd_head := 0\<rparr>"

lemma calm_hush: "hush s = hush t \<Longrightarrow> calm s = calm t \<and> kbd_ok s = kbd_ok t \<and> pit_ticks s = pit_ticks t"
proof -
  assume h: "hush s = hush t"
  have "kbd_ok (hush u) = kbd_ok u" for u by (simp add: hush_def kbd_ok_def kbd_queue_def kbd_count_def)
  then have "kbd_ok s = kbd_ok t" using h by metis
  then show ?thesis using h hush_cong(7)[OF h] by (simp add: calm_def)
qed

lemma calm_irq:
  assumes "interrupt_handlers s = installed" and "irq_line i regs" and "kbd_ok s" and "vga_ok s"
  shows "\<exists>s'. interrupt dev fl regs s = Some s' \<and> calm s' = calm s \<and> kbd_ok s' \<and> vga_ok s' \<and>
    pit_ticks s' = (if i = 0 then pit_ticks s + 1 else pit_ticks s)"
proof -
  note e = interrupt_eq[OF assms(1,2), of dev fl]
  let ?t = "irq_effect dev i s"
  obtain out where eoi: "pic_send_eoi (of_nat i) ?t = ?t\<lparr>io_out := out\<rparr>"
    by (cases "8 \<le> (of_nat i :: u8)") (auto simp: pic_send_eoi_def outb_def)
  have k: "calm ?t = calm s \<and> kbd_ok ?t \<and> vga_ok ?t \<and> pit_ticks ?t = (if i = 0 then pit_ticks s + 1 else pit_ticks s)"
  proof -
    consider "i = 0" | "i = 1" | "i \<noteq> 0" "i \<noteq> 1" by blast
    then show ?thesis
    proof cases
      case 1
      note t = ticked_timer[of s]
      have f: "kbd_ok (ticked u) = kbd_ok u" "vga_ok (ticked u) = vga_ok u" "ticked (hush u) = hush (ticked u)" for u
        by (simp_all add: ticked_def hush_def kbd_ok_def kbd_queue_def kbd_count_def vga_ok_def)
      have p: "kbd_ok (s\<lparr>pit_ticks := n\<rparr>) = kbd_ok s" "vga_ok (s\<lparr>pit_ticks := n\<rparr>) = vga_ok s"
        "(hush (ticked (s\<lparr>pit_ticks := n\<rparr>)))\<lparr>pit_ticks := 0, kbd_buf := [], kbd_head := 0\<rparr> = (hush (ticked s))\<lparr>pit_ticks := 0, kbd_buf := [], kbd_head := 0\<rparr>" for n
        by (simp_all add: ticked_def hush_def kbd_ok_def kbd_queue_def kbd_count_def vga_ok_def)
      have "calm (timer_interrupt s) = calm s" by (simp add: calm_def f(3) t p(3))
      moreover have "kbd_ok (timer_interrupt s)" "vga_ok (timer_interrupt s)"
        using arg_cong[OF t, of kbd_ok] arg_cong[OF t, of vga_ok] assms(3,4) by (simp_all only: f p)
      ultimately show ?thesis using 1 by (simp add: irq_effect_def timer_interrupt_ok)
    next
      case 2
      let ?s = "s\<lparr>io_reads := Suc (io_reads s)\<rparr>" and ?k = "dev (io_reads s) 0x60"
      obtain b h where u: "take_scancode ?k ?s = ?s\<lparr>kbd_buf := b, kbd_head := h\<rparr>" using take_scancode_upd[of ?k ?s] by blast
      have "kbd_ok ?s" using assms(3) by (simp add: kbd_ok_def kbd_queue_def kbd_count_def)
      from take_scancode_queue(1)[OF this, of ?k] show ?thesis
        using 2 assms(4) by (simp add: irq_effect_def keyboard_interrupt_def inb_def u calm_def ticked_def hush_def vga_ok_def)
    next
      case 3
      then show ?thesis using assms(3,4) by (simp add: irq_effect_def)
    qed
  qed
  have "calm (u\<lparr>io_out := out\<rparr>) = calm u" "kbd_ok (u\<lparr>io_out := out\<rparr>) = kbd_ok u" for u
    by (simp_all add: calm_def ticked_def hush_def kbd_ok_def kbd_queue_def kbd_count_def)
  then show ?thesis using e k unfolding eoi by simp
qed

lemma calm_fields:
  assumes "calm s = calm t"
  shows "interrupt_handlers s = interrupt_handlers t" "pit_callback s = pit_callback t" "memory s = memory t" "boot_info s = boot_info t"
    "cmd_buf s = cmd_buf t" "log_history s = log_history t" "idt s = idt t"
  using arg_cong[OF assms, of interrupt_handlers] arg_cong[OF assms, of pit_callback] arg_cong[OF assms, of memory] arg_cong[OF assms, of boot_info]
    arg_cong[OF assms, of cmd_buf] arg_cong[OF assms, of log_history] arg_cong[OF assms, of idt]
  by (simp_all add: calm_def ticked_def hush_def)

lemma wait_ticks_ends:
  assumes "list_all2 irq_line ls irqs" and "interrupt_handlers s = installed" and "kbd_ok s" and "vga_ok s"
    and "unat n \<le> unat (pit_ticks s - start) + count_list ls 0" and "unat (pit_ticks s - start) \<le> unat n"
  shows "\<exists>ls' irqs' s'. wait_ticks dev fl start n irqs s = Some (irqs', s') \<and> list_all2 irq_line ls' irqs' \<and> calm s' = calm s \<and> kbd_ok s' \<and> vga_ok s' \<and>
    pit_ticks s' = start + n \<and> unat n + count_list ls' 0 = unat (pit_ticks s - start) + count_list ls 0"
  using assms
proof (induction arbitrary: s rule: list_all2_induct)
  case Nil
  then have "pit_ticks s - start = n" by (simp add: word_unat_eq_iff)
  then have "\<not> pit_ticks s - start < n" "pit_ticks s = start + n" "unat (pit_ticks s - start) = unat n" by auto
  with Nil show ?case
    by (intro exI[of _ "[]"] exI[of _ s], subst wait_ticks.simps) (simp add: pit_get_ticks_def)
next
  case (Cons i ls regs irqs)
  show ?case
  proof (cases "pit_ticks s - start < n")
    case False
    then have "pit_ticks s - start = n" using Cons.prems(5) by (simp add: word_le_nat_alt[symmetric])
    then have e: "pit_ticks s = start + n" "unat (pit_ticks s - start) = unat n" by auto
    have "list_all2 irq_line (i # ls) (regs # irqs)" using Cons.hyps by simp
    moreover have "wait_ticks dev fl start n (regs # irqs) s = Some (regs # irqs, s)"
      using False by (subst wait_ticks.simps) (simp add: pit_get_ticks_def)
    ultimately show ?thesis
      using e Cons.prems(2,3) by (intro exI[of _ "i # ls"] exI[of _ "regs # irqs"] exI[of _ s]) simp
  next
    case True
    obtain s1 where s1: "interrupt dev fl regs s = Some s1" "calm s1 = calm s" "kbd_ok s1" "vga_ok s1"
      "pit_ticks s1 = (if i = 0 then pit_ticks s + 1 else pit_ticks s)"
      using calm_irq[OF Cons.prems(1) Cons.hyps(1) Cons.prems(2,3), of dev fl] by blast
    have lt: "unat (pit_ticks s - start) < unat n" using True by (simp add: word_less_nat_alt)
    have d: "unat (pit_ticks s1 - start) = (if i = 0 then Suc (unat (pit_ticks s - start)) else unat (pit_ticks s - start))"
    proof (cases "i = 0")
      case True
      have e: "pit_ticks s1 - start = (pit_ticks s - start) + 1" using s1(5) True by simp
      have "unat (w + 1) = Suc (unat w)" if "unat w + 1 < 2 ^ 64" for w :: u64 using that by (simp add: unat_word_ariths)
      moreover have "unat (pit_ticks s - start) + 1 < 2 ^ 64" using lt unsigned_less[where 'a = nat and w = n] by simp
      ultimately have "unat (pit_ticks s1 - start) = Suc (unat (pit_ticks s - start))" unfolding e by blast
      then show ?thesis unfolding if_P[OF True] .
    qed (use s1(5) in simp)
    have h1: "interrupt_handlers s1 = installed" using calm_fields(1)[OF s1(2)] Cons.prems(1) by simp
    have c1: "unat n \<le> unat (pit_ticks s1 - start) + count_list ls 0" "unat (pit_ticks s1 - start) \<le> unat n"
      using Cons.prems(4) lt d by (auto split: if_splits)
    obtain ls' irqs' s' where r: "wait_ticks dev fl start n irqs s1 = Some (irqs', s')" "list_all2 irq_line ls' irqs'" "calm s' = calm s1" "kbd_ok s'" "vga_ok s'"
      "pit_ticks s' = start + n" "unat n + count_list ls' 0 = unat (pit_ticks s1 - start) + count_list ls 0"
      using Cons.IH[OF h1 s1(3,4) c1] by blast
    have "unat n + count_list ls' 0 = unat (pit_ticks s - start) + count_list (i # ls) 0" using r(7) d by simp
    moreover have "wait_ticks dev fl start n (regs # irqs) s = Some (irqs', s')"
      using True s1(1) r(1) by (subst wait_ticks.simps) (simp add: pit_get_ticks_def)
    ultimately show ?thesis
      using r(2-6) s1(2) by (intro exI[of _ ls'] exI[of _ irqs'] exI[of _ s']) simp
  qed
qed

lemma boot_wait_ends:
  assumes "uart_live dev COM1" and "list_all2 irq_line ls irqs" and "1150 \<le> count_list ls 0"
    and "interrupt_handlers s = installed" and "kbd_ok s" and "vga_ok s"
  shows "\<exists>irqs' s'. boot_wait dev fl irqs s = Some (irqs', s') \<and> calm s' = calm s \<and> kbd_ok s' \<and> vga_ok s' \<and> pit_ticks s' = pit_ticks s + 1150"
proof -
  have "unat (50 :: u64) \<le> unat (pit_ticks s - pit_ticks s) + count_list ls 0" "unat (pit_ticks s - pit_ticks s) \<le> unat (50 :: u64)"
    using assms(3) by simp_all
  from wait_ticks_ends[OF assms(2,4-6) this, of dev fl] obtain ls1 irqs1 s1 where w1: "wait_ticks dev fl (pit_ticks s) 50 irqs s = Some (irqs1, s1)"
    "list_all2 irq_line ls1 irqs1" "calm s1 = calm s" "kbd_ok s1" "vga_ok s1" "pit_ticks s1 = pit_ticks s + 50" "50 + count_list ls1 0 = count_list ls 0" by auto
  let ?logs = "\<lambda>s1. do {
     s \<leftarrow> serial_printf dev COM1 (Some ''[OK] Timer heartbeat verified: %u ticks elapsed\<newline>'') [CInt (ucast (pit_get_ticks s1 - pit_ticks s))] s1;
     s \<leftarrow> vga_printf ''[OK] Timer verified: 50 ticks elapsed\<newline>'' [] s;
     s \<leftarrow> serial_printf dev COM1 (Some ''\<newline>>>> AuraOS Stage 1 Boot Complete. System ready. <<<\<newline>\<newline>'') [] s;
     s \<leftarrow> Some (vga_set_color VGA_COLOR_LIGHT_GREEN VGA_COLOR_BLACK s);
     vga_printf ''\<newline>>>> AuraOS Stage 1 Boot Complete. System Ready. <<<\<newline>'' [] s }"
  have c: "reaches (Some (vga_set_color 10 0 u)) s1" if "hush u = hush s1" "vga_ok u" for u
    using that hush_cong(4)[OF that(1)] by (auto intro!: reaches_Some simp: vga_set_color_def)
  have "reaches (?logs s1) s1"
    by (intro reaches_bind[where t = s1] c reaches_serial[OF assms(1)] reaches_vga; (rule refl w1(5) | assumption)?; simp add: boot_texts)
  then obtain s2 where s2: "?logs s1 = Some s2" "hush s2 = hush s1" "vga_ok s2" by (auto simp: reaches_def)
  note k = calm_hush[OF s2(2)]
  have h2: "interrupt_handlers s2 = installed" using calm_fields(1)[of s2 s] k w1(3) assms(4) by simp
  have "unat (1100 :: u64) \<le> unat (pit_ticks s2 - pit_ticks s2) + count_list ls1 0" "unat (pit_ticks s2 - pit_ticks s2) \<le> unat (1100 :: u64)"
    using assms(3) w1(7) by simp_all
  from wait_ticks_ends[OF w1(2) h2 _ s2(3) this, of dev fl] k w1(4) obtain irqs3 s3 where
    w3: "wait_ticks dev fl (pit_ticks s2) 1100 irqs1 s2 = Some (irqs3, s3)" "calm s3 = calm s2" "kbd_ok s3" "vga_ok s3" "pit_ticks s3 = pit_ticks s2 + 1100" by auto
  have "boot_wait dev fl irqs s = (?logs s1 \<bind> (\<lambda>s. wait_ticks dev fl (pit_get_ticks s) 1100 irqs1 s))"
    using w1(1) by (simp add: boot_wait_def pit_get_ticks_def)
  then have "boot_wait dev fl irqs s = Some (irqs3, s3)"
    unfolding s2(1) using w3(1) by (simp add: pit_get_ticks_def)
  then show ?thesis using w3(2-5) k w1(3,6) by auto
qed

lemma boot_shell_ok:
  assumes "length (vga_mem s) = 2000" and "length (cmd_buf s) = CMD_MAX" and "length (log_history s) = LOG_LINES"
    and "\<forall>r \<in> set (log_history s). length r = 80" and "interrupt_handlers s = installed" and "pit_callback s = Some sysmon_tick_callback" and "kbd_ok s"
  shows "\<exists>s'. boot_shell rsp rbp ret s = Some s' \<and> kernel_ok s' \<and> memory s' = memory s \<and> boot_info s' = boot_info s \<and> pit_ticks s' = pit_ticks s \<and>
    cmd_line s' = [] \<and> active_view s' = 0 \<and> idt s' = idt s"
proof -
  have ok: "menu_ok (menu_init s)" by (rule menu_init_ok[OF assms(1-4)])
  then obtain s1 where s1: "menu_render (menu_init s) = Some s1" "menu_ok s1" "cmd_line s1 = cmd_line (menu_init s)" "active_view s1 = active_view (menu_init s)"
    using render_keeps by blast
  have "beside s1 = beside (menu_init s)" using menu_render_beside[OF s1(1)] ok by (simp add: menu_ok_def)
  also have "\<dots> = beside s" by (simp add: menu_init_def)
  finally have b: "beside s1 = beside s" .
  note f = beside_fields[OF b]
  have "cmd_ok (menu_init s)" "cmd_len (menu_init s) = 0" "active_view (menu_init s) = 0" using ok by (simp_all add: menu_ok_def menu_init_def)
  then have c: "cmd_line s1 = []" "active_view s1 = 0" using cmd_line_take(1)[of "menu_init s"] s1(3,4) by simp_all
  let ?s2 = "s1\<lparr>recovery_rsp := rsp, recovery_rbp := rbp, recovery_rip := ret, recovery_valid := True\<rparr>"
  have e: "boot_shell rsp rbp ret s = Some (?s2\<lparr>last_refresh := pit_ticks s1\<rparr>)"
    using s1(1) by (simp add: boot_shell_def panic_set_recovery_point_def pit_get_ticks_def)
  have "menu_ok ?s2" "kbd_ok ?s2" "cmd_line ?s2 = []"
    using s1(2) assms(7) f(1-3) c(1) by (simp_all add: menu_ok_def cmd_ok_def log_ok_def kbd_ok_def kbd_queue_def kbd_count_def cmd_line_def)
  then have "kernel_ok ?s2" using f assms(5,6) by (simp add: kernel_ok_def)
  moreover have "boot_info s1 = boot_info s" using arg_cong[OF b, of boot_info] by (simp add: beside_def)
  ultimately show ?thesis using e c(2) f \<open>cmd_line ?s2 = []\<close> by simp
qed

section \<open>Booting as a whole\<close>

text \<open>The state before the waits, but for ports, screen and tables.\<close>

definition booted :: "aura_boot_info \<Rightarrow> addr \<Rightarrow> idt_entry list \<Rightarrow> kernel_state \<Rightarrow> kernel_state" where
  "booted info kernel_end gates s = isr_register_handler 33 keyboard_handler
     ((sysmon_init (s\<lparr>boot_info := info, idt := gates,
         interrupt_handlers := (replicate 256 None)[14 := Some page_fault_handler, 32 := Some pit_irq_handler],
         memory := booted_memory (unat (boot_ram_size info)) kernel_end (memory s)\<rparr>))\<lparr>kbd_head := 0, kbd_tail := 0\<rparr>)"

lemma booted_fields:
  "interrupt_handlers (booted info kernel_end gates s) = installed" "pit_callback (booted info kernel_end gates s) = Some sysmon_tick_callback"
  "memory (booted info kernel_end gates s) = booted_memory (unat (boot_ram_size info)) kernel_end (memory s)"
  "boot_info (booted info kernel_end gates s) = info" "cmd_buf (booted info kernel_end gates s) = cmd_buf s"
  "log_history (booted info kernel_end gates s) = log_history s" "pit_ticks (booted info kernel_end gates s) = pit_ticks s"
  "kbd_queue (booted info kernel_end gates s) = []" "idt (booted info kernel_end gates s) = gates" "kbd_ok (booted info kernel_end gates s) \<longleftrightarrow> length (kbd_buf s) = KBD_BUF_SIZE"
  by (simp_all add: booted_def isr_register_handler_def sysmon_init_def pit_set_callback_def installed_def list_update_swap
      kbd_ok_def kbd_queue_def kbd_count_def)

lemma boot_drivers_reaches:
  assumes "uart_live dev COM1" and "length (vga_mem s) = 2000"
    and "multiboot2_parse mem (ucast magic) mbi_addr (Some (boot_info s)) = Some (r, info)"
  shows "reaches (do {
      s \<leftarrow> boot_console dev s;
      s \<leftarrow> boot_multiboot dev mem magic mbi_addr s;
      s \<leftarrow> boot_processor dev gdt_addr tss_addr idt_addr isr irq s;
      s \<leftarrow> boot_memory dev kernel_end s;
      boot_monitor dev s }) (booted (the info) kernel_end (idt (isr_install idt_addr isr irq s)) s)"
proof -
  let ?t2 = "s\<lparr>boot_info := the info\<rparr>"
  let ?t3 = "?t2\<lparr>idt := idt (isr_install idt_addr isr irq ?t2), interrupt_handlers := (replicate 256 None)[14 := Some page_fault_handler, 32 := Some pit_irq_handler]\<rparr>"
  let ?t4 = "?t3\<lparr>memory := booted_memory (unat (boot_ram_size (boot_info ?t3))) kernel_end (memory ?t3)\<rparr>"
  have 2: "reaches (boot_multiboot dev mem magic mbi_addr u) ?t2" if "hush u = hush s" "vga_ok u" for u
    using boot_multiboot_reaches[OF assms(1) that] assms(3) hush_cong(6)[OF that(1)] by simp
  have e: "booted (the info) kernel_end (idt (isr_install idt_addr isr irq s)) s = isr_register_handler 33 keyboard_handler ((sysmon_init ?t4)\<lparr>kbd_head := 0, kbd_tail := 0\<rparr>)"
    using isr_install_idt[of idt_addr isr irq ?t2 s] by (simp add: booted_def)
  show ?thesis
    unfolding e
    by (intro reaches_bind[OF boot_console_reaches[OF assms(1,2)]] reaches_bind[OF 2] reaches_bind[OF boot_processor_reaches[OF assms(1), of _ ?t2]]
        reaches_bind[OF boot_memory_reaches[OF assms(1), of _ ?t3]] boot_monitor_reaches[OF assms(1)])
qed

text \<open>What the C compiler puts in the static variables, as far as booting needs it.\<close>

definition static_sizes :: "kernel_state \<Rightarrow> bool" where
  "static_sizes s \<longleftrightarrow> length (vga_mem s) = 2000 \<and> length (cmd_buf s) = CMD_MAX \<and> length (log_history s) = LOG_LINES \<and>
     (\<forall>r \<in> set (log_history s). length r = 80) \<and> length (kbd_buf s) = KBD_BUF_SIZE"

lemma kernel_boot_runs:
  assumes "uart_live dev COM1" and "static_sizes s"
    and "multiboot2_parse mem (ucast magic) mbi_addr (Some (boot_info s)) = Some (r, info)"
    and "list_all2 irq_line ls irqs" and "1150 \<le> count_list ls 0"
  shows "\<exists>irqs' s'. kernel_boot dev fl mem magic mbi_addr tables isr irq kernel_end stack irqs s = Some (irqs', s') \<and> kernel_ok s' \<and>
    memory s' = booted_memory (unat (boot_ram_size (the info))) kernel_end (memory s) \<and> boot_info s' = the info \<and>
    pit_ticks s' = pit_ticks s + 1150 \<and> cmd_line s' = [] \<and> active_view s' = 0 \<and> idt s' = idt (isr_install (snd (snd tables)) isr irq s)"
proof -
  obtain g tss i rsp rbp ret where p: "tables = (g, tss, i)" "stack = (rsp, rbp, ret)" by (cases tables; cases stack) blast
  have sz: "length (vga_mem s) = 2000" using assms(2) by (simp add: static_sizes_def)
  let ?b = "booted (the info) kernel_end (idt (isr_install i isr irq s)) s"
  let ?boot = "do {
      s \<leftarrow> boot_console dev s;
      s \<leftarrow> boot_multiboot dev mem magic mbi_addr s;
      s \<leftarrow> boot_processor dev g tss i isr irq s;
      s \<leftarrow> boot_memory dev kernel_end s;
      boot_monitor dev s }"
  obtain s1 where s1: "?boot = Some s1" "hush s1 = hush ?b" "vga_ok s1"
    using boot_drivers_reaches[OF assms(1) sz assms(3), of g tss i isr irq kernel_end] unfolding reaches_def by blast
  note h = calm_hush[OF s1(2)]
  note f = calm_fields[of s1 ?b]
  have ok1: "interrupt_handlers s1 = installed" "kbd_ok s1"
    using f(1) h assms(2) by (simp_all add: booted_fields static_sizes_def)
  obtain irqs' s2 where s2: "boot_wait dev fl irqs s1 = Some (irqs', s2)" "calm s2 = calm s1" "kbd_ok s2" "vga_ok s2" "pit_ticks s2 = pit_ticks s1 + 1150"
    using boot_wait_ends[OF assms(1,4,5) ok1 s1(3), of fl] by blast
  have c: "calm s2 = calm ?b" using s2(2) h by simp
  note f2 = calm_fields[OF c, unfolded booted_fields]
  obtain s3 where s3: "boot_shell rsp rbp ret s2 = Some s3" "kernel_ok s3" "memory s3 = memory s2" "boot_info s3 = boot_info s2" "pit_ticks s3 = pit_ticks s2"
    "cmd_line s3 = []" "active_view s3 = 0" "idt s3 = idt s2"
    using boot_shell_ok[of s2 rsp rbp ret] f2 s2(3,4) assms(2) by (auto simp: static_sizes_def vga_ok_def)
  have "kernel_boot dev fl mem magic mbi_addr tables isr irq kernel_end stack irqs s =
      (?boot \<bind> (\<lambda>s. do { (irqs, s) \<leftarrow> boot_wait dev fl irqs s; s \<leftarrow> boot_shell rsp rbp ret s; Some (irqs, s) }))"
    by (simp add: kernel_boot_def p Option.bind_assoc)
  also have "\<dots> = Some (irqs', s3)" unfolding s1(1) by (simp add: s2(1) s3(1))
  finally show ?thesis using s3 s2(5) h f2 by (simp add: booted_fields p)
qed

section \<open>Memory after booting\<close>

lemma bitmap_phys_bounds:
  assumes "kernel_end + 4095 < two64"
  shows "kernel_end \<le> bitmap_phys kernel_end" "bitmap_phys kernel_end \<le> kernel_end + 4095" "bitmap_phys kernel_end mod PAGE_SIZE = 0"
proof -
  have b: "bitmap_phys kernel_end = (kernel_end + 4095) div 4096 * 4096"
    using and_not64_pow2[OF add64_lt, of kernel_end 4095 12] assms by (simp add: bitmap_phys_def wrap)
  then show "kernel_end \<le> bitmap_phys kernel_end" "bitmap_phys kernel_end \<le> kernel_end + 4095" "bitmap_phys kernel_end mod PAGE_SIZE = 0"
    using div_mult_mod_eq[of "kernel_end + 4095" 4096] by auto
qed

lemma mark_frames_abs:
  assumes "pmm_wf m" and "k * PAGE_SIZE \<le> two64"
  shows "let m' = fold (\<lambda>f. pmm_mark_used (mul64 f PAGE_SIZE)) [0..<k] m
     in pmm_wf m' \<and> pmm_used m' = pmm_used m \<union> {f. f < k \<and> f < total_frames m} \<and> total_frames m' = total_frames m"
  using assms(2)
proof (induction k)
  case (Suc k)
  let ?m = "fold (\<lambda>f. pmm_mark_used (mul64 f PAGE_SIZE)) [0..<k] m"
  have ih: "pmm_wf ?m" "pmm_used ?m = pmm_used m \<union> {f. f < k \<and> f < total_frames m}" "total_frames ?m = total_frames m"
    using Suc by (simp_all add: Let_def)
  have "mul64 k PAGE_SIZE div PAGE_SIZE = k" using Suc.prems by (simp add: wrap)
  then show ?case
    using pmm_mark_used_abs[OF ih(1), of "mul64 k PAGE_SIZE"] ih by (auto simp: Let_def less_Suc_eq)
qed (simp add: assms(1))

lemma boot_frames_abs:
  assumes "ram < two64"
  shows "pmm_wf (boot_frames ram kernel_end m)"
    "pmm_used (boot_frames ram kernel_end m) = {f. f < reserved_frames ram kernel_end \<and> f < ram div PAGE_SIZE}"
    "total_frames (boot_frames ram kernel_end m) = ram div PAGE_SIZE"
proof -
  let ?i = "pmm_init ram (bitmap_phys kernel_end) m"
  have "reserved_frames ram kernel_end * PAGE_SIZE \<le> two64"
  proof -
    have "n div PAGE_SIZE * PAGE_SIZE \<le> two64" if "n < two64" for n using that by simp
    then show ?thesis unfolding reserved_frames_def Let_def using add64_lt by blast
  qed
  from mark_frames_abs[OF pmm_init_wf[OF assms] this, of "bitmap_phys kernel_end" m] show
    "pmm_wf (boot_frames ram kernel_end m)"
    "pmm_used (boot_frames ram kernel_end m) = {f. f < reserved_frames ram kernel_end \<and> f < ram div PAGE_SIZE}"
    "total_frames (boot_frames ram kernel_end m) = ram div PAGE_SIZE"
    by (simp_all add: boot_frames_def Let_def pmm_init_used) (simp_all add: pmm_init_def Let_def)
qed

text \<open>The kernel and the bitmap lie below the frames that are not reserved.\<close>

lemma reserved_frames_cover:
  assumes "kernel_end + ram + 8192 < two64"
  shows "kernel_end \<le> bitmap_phys kernel_end"
    "bitmap_phys kernel_end + (ram div PAGE_SIZE + 7) div 8 \<le> reserved_frames ram kernel_end * PAGE_SIZE" "PAGE_SIZE \<le> ram \<Longrightarrow> 0 < reserved_frames ram kernel_end"
proof -
  note b = bitmap_phys_bounds[of kernel_end]
  show "kernel_end \<le> bitmap_phys kernel_end" using b assms by simp
  let ?n = "bitmap_phys kernel_end + (ram div PAGE_SIZE + 7) div 8"
  have "?n \<le> kernel_end + 4095 + (ram div 4096 + 7) div 8" using b assms by simp
  also have "\<dots> \<le> kernel_end + 4096 + ram" by simp
  finally have "?n + 4095 < two64" "ram div PAGE_SIZE + 7 < two64" "?n < two64" using assms by simp_all
  then have r: "reserved_frames ram kernel_end = (?n + 4095) div 4096" by (simp add: reserved_frames_def Let_def wrap)
  show "?n \<le> reserved_frames ram kernel_end * PAGE_SIZE" unfolding r by simp
  show "0 < reserved_frames ram kernel_end" if "PAGE_SIZE \<le> ram"
  proof -
    have "0 < ram div PAGE_SIZE" using that by (simp add: div_greater_zero_iff)
    then have "0 < (ram div PAGE_SIZE + 7) div 8" by simp
    then show ?thesis unfolding r by (simp add: div_greater_zero_iff)
  qed
qed

text \<open>The heap and the pool start as their theories assume.\<close>

lemma booted_memory_reach:
  assumes "ram < two64" and "PAGE_SIZE \<le> ram" and "0 < reserved_frames ram kernel_end"
  shows "zram_reach (\<lambda>_. None) {} (booted_memory ram kernel_end m)"
proof -
  note a = boot_frames_abs[OF assms(1), of kernel_end m]
  have "heap_reach {} (heap_init 0 (boot_frames ram kernel_end m))"
    using assms by (intro heap_reach.init) (simp_all add: a)
  then show ?thesis unfolding booted_memory_def by (rule zram_reach.init)
qed

lemma kept_reserved:
  assumes "ram < two64" and "\<forall>f < reserved_frames ram kernel_end. \<forall>c \<in> set calls. \<not> frees c (f * PAGE_SIZE)"
  shows "pmm_wf (pmm_run calls (boot_frames ram kernel_end m))" "total_frames (pmm_run calls (boot_frames ram kernel_end m)) = ram div PAGE_SIZE"
    "f \<notin> pmm_used (pmm_run calls (boot_frames ram kernel_end m)) \<Longrightarrow> f < ram div PAGE_SIZE \<Longrightarrow> reserved_frames ram kernel_end \<le> f"
proof -
  note a = boot_frames_abs[OF assms(1), of kernel_end m]
  show "pmm_wf (pmm_run calls (boot_frames ram kernel_end m))" "total_frames (pmm_run calls (boot_frames ram kernel_end m)) = ram div PAGE_SIZE"
    using pmm_run_wf[OF a(1), of calls] a(3) by simp_all
  show "reserved_frames ram kernel_end \<le> f" if "f \<notin> pmm_used (pmm_run calls (boot_frames ram kernel_end m))" "f < ram div PAGE_SIZE"
  proof (rule ccontr)
    assume "\<not> reserved_frames ram kernel_end \<le> f"
    then have "f * PAGE_SIZE div PAGE_SIZE \<in> pmm_used (pmm_run calls (boot_frames ram kernel_end m))"
      using that(2) assms(2) by (intro pmm_run_keeps_used) (simp_all add: a)
    with that(1) show False by simp
  qed
qed

end
