(* ===== verification/Spec2Isabelle.thy ===== *)
theory Spec2Isabelle
  imports Slab Sched Boot_Entry Isr_Stubs Ia32 Kernel_Boot
begin

text \<open>
  The AuraOS kernel: a model of the C code under src/kernel/ and its correctness.

  The program. \<open>kernel_main\<close> (kernel/main.c) brings up the console, parses the boot information, sets up
  segment and interrupt tables, the memory managers and the drivers, and then serves keys in a loop
  that interrupts keep going. Its parts, the theories that model them and how they depend on each other:

  \<^item> \<^theory_text>\<open>Pmm\<close>, kernel/core/pmm.c: the bitmap of physical frames. The contract \<open>run_provider\<close> of
    \<^theory_text>\<open>Frame_Provider\<close> is what its clients rely on; \<^theory_text>\<open>Slab\<close> (kernel/core/slab.c), \<^theory_text>\<open>Vmm\<close>
    (kernel/arch/x86_64/vmm.c) and the heap are proved against it.
  \<^item> \<^theory_text>\<open>Kheap\<close>, \<^theory_text>\<open>Kheap_Inv\<close>, \<^theory_text>\<open>Kheap_Clients\<close>, kernel/core/heap.c: the free-list heap, its invariant, and
    what its clients see, the contract \<open>byte_allocator\<close> of \<^theory_text>\<open>Byte_Allocator\<close>.
  \<^item> \<^theory_text>\<open>Zram_Codec\<close>, \<^theory_text>\<open>Zram_Pool\<close>, kernel/core/zram.c: the page compressor, and the pool of compressed
    pages, a client of the heap.
  \<^item> \<^theory_text>\<open>Serial\<close>, \<^theory_text>\<open>Vga_Console\<close>, \<^theory_text>\<open>Tui\<close>, kernel/arch/x86_shared/serial.c and kernel/drivers/vga.c and tui.c:
    the consoles. \<^theory_text>\<open>Cformat\<close> holds the loops of their three formatters and the contract \<open>char_device\<close>;
    \<^theory_text>\<open>Screen\<close> composes screens from drawing calls.
  \<^item> \<^theory_text>\<open>Gdt\<close>, \<^theory_text>\<open>Idt\<close>, kernel/arch/x86_shared/gdt.c and idt.c: descriptor tables, interrupt controllers
    and the dispatch of interrupts and exceptions; \<^theory_text>\<open>Isr_Stubs\<close>, kernel/arch/x86_shared/isr.S: the assembly between
    the processor and the C functions, instruction by instruction. \<^theory_text>\<open>Ia32\<close> holds the 32-bit branches of the two files.
  \<^item> \<^theory_text>\<open>Boot_Entry\<close>, boot/entry64.S: the checks, page tables and control registers on the way to \<open>kernel_main\<close>, and
    how the processor translates addresses through the tables.
  \<^item> \<^theory_text>\<open>Keyboard\<close>, \<^theory_text>\<open>Sysmon\<close>, kernel/drivers/keyboard.c, kernel/arch/x86_shared/pit.c and kernel/core/sysmon.c:
    the two interrupt handlers and what they feed, the ring buffer (contract \<open>bounded_queue\<close>) and the
    load of the processor.
  \<^item> \<^theory_text>\<open>Multiboot2\<close>, kernel/core/multiboot2.c: the parser of the boot information.
  \<^item> \<^theory_text>\<open>Dashboard\<close>, \<^theory_text>\<open>Menu\<close>, \<^theory_text>\<open>Panic\<close>, kernel/core/dashboard.c, menu.c, panic.c and pagefault.c: the screens,
    the command shell, the panic console and the page fault handler.
  \<^item> \<^theory_text>\<open>Sched\<close>, kernel/core/sched.c with the switch of kernel/arch/x86_shared/switch.S: the cooperative scheduler,
    which the main program does not start.
  \<^item> \<^theory_text>\<open>Kernel\<close>, \<^theory_text>\<open>Kernel_Inv\<close>, \<^theory_text>\<open>Kernel_Boot\<close>, kernel/main.c: the whole, on one state.

  State. The static variables of each file are a record named after it; records extend each other in
  the order in which files use each other (\<open>io_state\<close>, \<open>vga_state\<close>, \<open>gdt_state\<close>, \<open>idt_state\<close>, \<open>kbd_state\<close>,
  \<open>pit_state\<close>, \<open>sysmon_state\<close>, \<open>dash_state\<close>, \<open>menu_state\<close>, \<open>panic_state\<close>, \<open>kernel_state\<close>, and \<open>pmm_state\<close>,
  \<open>heap_state\<close>, \<open>zram_state\<close>), so that an operation on a part is one on the whole. The memory managers are the
  field \<open>memory\<close> of the others. Each C function is a definition of the same name on that state;
  sizes and addresses are naturals with 64-bit arithmetic written out (\<open>add64\<close> and so on), other
  integers are words.

  Errors and loops. A result of type \<open>option\<close> is None where the code has no defined behaviour or does
  not return: a store outside a buffer, a read of an argument that is not there, a header that is not
  in memory, a poll of a device that never answers. A loop that may not end is a partial function, and what
  ends it is proved: \<open>serial_putc\<close> returns if the transmitter becomes ready, the panic console if one of its
  action keys comes, the waits of booting if enough of the interrupts in their list are ticks (50 and 1100 of
  them), the main loop drains at most the 31 keys the buffer holds. No bound is assumed otherwise.

  Parameters. The device \<open>dev\<close> says what the n-th read of a port returns; port writes are a log. The
  addresses of tables, stubs and of the end of the kernel, the registers at an interrupt, the contents of
  memory at boot and the name the compiler gives a file are arguments. In \<^theory_text>\<open>Isr_Stubs\<close> what compiled C code
  does to the processor is the argument \<open>after\<close>, of which the calling convention is assumed (\<open>abi_calls\<close>);
  in \<^theory_text>\<open>Boot_Entry\<close> the answers of \<open>cpuid\<close>, the flags at the start, the address of the tables and the return
  address of the call are arguments. What is assumed of the keyboard in the panic console is what ends it, a first action
  key (\<open>first_action\<close>) behind any other codes and empty reads.

  What is shown. For each part: the invariant of its state and that every operation keeps it, what
  each operation returns on every branch, and what its clients may rely on, for all the states they can
  reach. For the whole, in this theory: booting ends in a well-formed kernel whose memory is a state
  from which the facts about heap and pool start; a running kernel is never stuck; the keys that are pressed
  reach the command line; a command that faults ends in a restored shell, or stops the machine, as the user says; the memory that is
  handed out never overlaps the kernel or the bitmap; and a hardware interrupt, from its gate to \<open>iretq\<close>,
  leaves the code it interrupts as it was.

  Not modelled. The reload of segment registers, the functions that do nothing, the timing of instructions, nested
  interrupts and changes of privilege level, what the processor checks of the words that \<open>iretq\<close> pops, the linker script. The
  recorded stack pointer is state, but the jump to the recovery point is the value \<open>Restored\<close>, and what the C code behind it finds on
  its stack is not followed. A slab zone of chunk size 0, which only a call before \<open>slab_init\<close> could refill, is cut into no chunks
  where C divides by zero. C code runs on physical addresses: \<open>boot_identity_map\<close> shows
  that the boot code maps the first GB to itself, and the kernel changes no table. An interrupt
  arrives between two rounds of the main loop, not between the keys that one round handles, or, in the keyboard's theory, between any two accesses to its
  buffer. The heap keeps its headers in a map of their own, from which a client's store into a header
  removes it. Tests, build scripts and documents are not part of the kernel.
\<close>

section \<open>The whole kernel\<close>

text \<open>The variables as the C compiler sets them, on a machine whose devices are ready and whose keyboard says R.\<close>

definition kernel_static :: kernel_state where
  "kernel_static = panic_state.extend (menu_state.extend menu_static (panic_state.fields [] 0 0 0 False))
     (kernel_state.fields boot_info_zero 0 0 None)"

lemmas static_defs = kernel_static_def menu_static_def dash_static_def kbd_static_def idt_state.defs kbd_state.defs pit_state.defs
  sysmon_state.defs dash_state.defs menu_state.defs panic_state.defs kernel_state.defs

lemma kernel_static_kbd: "kbd_buf kernel_static = replicate 32 (CHR 0x00)" "kbd_head kernel_static = 0" "kbd_tail kernel_static = 0"
  by (simp_all add: static_defs)

lemma kernel_static_sizes: "static_sizes kernel_static"
  using menu_static_sizes kernel_static_kbd(1)
  by (simp add: static_sizes_def) (simp add: kernel_static_def menu_state.defs panic_state.defs kernel_state.defs)

lemma r_key_attended: "attended r_key_device"
proof -
  have "\<exists>e. first_action r_key_device n e" for n using r_key_first by blast
  with r_key_live show ?thesis by (simp add: attended_def)
qed

lemma timer_ticks: "list_all2 irq_line (replicate n 0) (replicate n (regs_at 32))" "count_list (replicate n (0 :: nat)) 0 = n"
  by (induction n) (simp_all add: irq_line_def regs_at_def)

lemma no_tags: "multiboot2_parse (\<lambda>_. 0) (ucast (0x36d76289 :: u64)) 0x10000 (Some i) = Some (0, Some boot_info_zero)"
proof -
  have "rd32 (\<lambda>_. 0) a = 0" for a by (simp add: rd32_def rd_def numeral_eq_Suc)
  then show ?thesis by (simp add: multiboot2_parse_def) (subst parse_tags.simps, simp)
qed

text \<open>The shell after a boot, with nothing typed.\<close>

definition kernel_ready :: kernel_state where
  "kernel_ready = (menu_init kernel_static)\<lparr>interrupt_handlers := installed, pit_callback := Some sysmon_tick_callback, recovery_valid := True\<rparr>"

lemma kernel_ready_ok: "kernel_ok kernel_ready" "cmd_line kernel_ready = []" "kbd_queue kernel_ready = []" "active_view kernel_ready = 0"
proof -
  let ?m = "menu_init kernel_static"
  have m: "menu_ok ?m" using kernel_static_sizes by (intro menu_init_ok) (simp_all add: static_sizes_def)
  have b: "beside ?m = beside kernel_static" by (simp add: menu_init_def)
  have k: "kbd_ok kernel_static" "kbd_queue kernel_static = []"
    by (simp_all add: kernel_static_kbd kbd_ok_def kbd_queue_def kbd_count_def)
  show "active_view kernel_ready = 0" by (simp add: kernel_ready_def menu_init_def)
  show "kbd_queue kernel_ready = []" "kernel_ok kernel_ready"
    using m k beside_fields[OF b]
    by (simp_all add: kernel_ready_def kernel_ok_def menu_ok_def cmd_ok_def log_ok_def kbd_ok_def kbd_queue_def kbd_count_def)
  have "cmd_ok ?m" "cmd_len ?m = 0" using m by (simp_all add: menu_ok_def menu_init_def)
  then have "cmd_line ?m = []" using cmd_line_take(1)[of ?m] by simp
  then show "cmd_line kernel_ready = []" by (simp add: kernel_ready_def cmd_line_def)
qed

text \<open>
  C1: Booting ends. With a live serial port, an information block that the parser gets through, at
  least a page of memory, and interrupts of which 1150 are timer ticks, whatever else arrives among
  them, the kernel comes up: handlers, keyboard buffer, screen and shell are well formed, the shell
  shows an empty line, exactly 1150 ticks have passed, the interrupt descriptors are those of \<open>isr_install\<close>, and
  memory is as frame manager, heap and pool leave it, the state from which the facts about them start.
\<close>

theorem kernel_boots:
  assumes "uart_live dev COM1" and "static_sizes s"
    and "multiboot2_parse mem (ucast magic) mbi_addr (Some (boot_info s)) = Some (r, info)"
    and "PAGE_SIZE \<le> unat (boot_ram_size (the info))" and "kernel_end + unat (boot_ram_size (the info)) + 8192 < two64"
    and "list_all2 irq_line ls irqs" and "1150 \<le> count_list ls 0"
  shows "\<exists>irqs' s'. kernel_boot dev fl mem magic mbi_addr tables isr irq kernel_end stack irqs s = Some (irqs', s') \<and>
    kernel_ok s' \<and> boot_info s' = the info \<and> pit_ticks s' = pit_ticks s + 1150 \<and> cmd_line s' = [] \<and> active_view s' = 0 \<and>
    idt s' = idt (isr_install (snd (snd tables)) isr irq s) \<and>
    memory s' = booted_memory (unat (boot_ram_size (the info))) kernel_end (memory s) \<and> zram_reach (\<lambda>_. None) {} (memory s')"
proof -
  have "zram_reach (\<lambda>_. None) {} (booted_memory (unat (boot_ram_size (the info))) kernel_end (memory s))"
    using reserved_frames_cover(3)[OF assms(5,4)] assms(4,5) by (intro booted_memory_reach) simp_all
  with kernel_boot_runs[OF assms(1-3,6,7), of fl tables isr irq kernel_end stack] show ?thesis by fastforce
qed

theorem kernel_boots_witness:
  "\<exists>irqs' s'. kernel_boot r_key_device ''pagefault.c'' (\<lambda>_. 0) 0x36d76289 0x10000 (0x105000, 0x105100, 0x105200) (\<lambda>_. 0) (\<lambda>_. 0)
     0x120000 (0x9000, 0x9010, 0x100400) (replicate 1200 (regs_at 32)) kernel_static = Some (irqs', s') \<and> kernel_ok s' \<and> pit_ticks s' = 1150"
proof -
  have u: "uart_live r_key_device COM1" using r_key_attended by (simp add: attended_def)
  have r: "unat (boot_ram_size boot_info_zero) = 67108864" by (simp add: boot_ram_size_def boot_info_zero_def)
  have t: "pit_ticks kernel_static = 0" by (simp add: static_defs)
  have "1150 \<le> count_list (replicate 1200 (0 :: nat)) 0" by (simp only: timer_ticks(2))
  from kernel_boots[OF u kernel_static_sizes no_tags _ _ timer_ticks(1) this, of "0x120000" "''pagefault.c''" "(0x105000, 0x105100, 0x105200)"
      "\<lambda>_. 0" "\<lambda>_. 0" "(0x9000, 0x9010, 0x100400)"]
  show ?thesis by (auto simp: r t)
qed

text \<open>
  C2: The running kernel is never stuck. Whatever keys and serial characters arrive and whatever
  request lines are raised, every interrupt and every round of the loop has a result, nothing is
  written outside a buffer, handlers, buffers, shell and recovery point stay well formed, and memory and the
  interrupt descriptors stay as they are. The commands that fault are no exception: whatever the keyboard delivers in
  the panic console, the console ends with the first of its action keys R, B, O and P. Assumed is only that one of them
  comes sooner or later (without any the console waits for ever) and that the transmitter and the
  keyboard controller become ready again and again.
\<close>

theorem kernel_never_stuck:
  assumes "attended dev" and "kernel_ok s" and "\<forall>e \<in> set es. event_ok e"
  shows "\<exists>out s'. kernel_run dev fl es s = Some (out, s') \<and> kernel_ok s' \<and> memory s' = memory s \<and> idt s' = idt s"
  using kernel_run_keeps[OF assms] .

theorem kernel_never_stuck_witness:
  "\<exists>out s'. kernel_run r_key_device ''pagefault.c'' [Interrupt (regs_at 32), Round (regs_at 0), Interrupt (regs_at 39), Round (regs_at 0)] kernel_ready =
     Some (out, s') \<and> kernel_ok s'"
proof -
  have i: "irq_line 0 (regs_at 32)" "irq_line 7 (regs_at 39)" by (simp_all add: irq_line_def regs_at_def)
  then have "\<forall>e \<in> set [Interrupt (regs_at 32), Round (regs_at 0), Interrupt (regs_at 39), Round (regs_at 0)]. event_ok e"
    by (auto simp: event_ok_def)
  from kernel_never_stuck[OF r_key_attended kernel_ready_ok(1) this] show ?thesis by blast
qed

text \<open>
  C3: From the keyboard to the shell. Interrupts arrive in any order and number, of the keyboard,
  the timer and other lines; then the loop makes a round. The command line is what the line
  editor makes of the characters of exactly the scancodes the keyboard interrupts read, in their order,
  as long as at most 31 are waiting and none of them is return; the ticks count the timer interrupts. The kernel starts with an empty
  keyboard buffer and in the shell, the first of the views, and the serial line, which types into the same command line, is silent.
\<close>

theorem keys_reach_shell:
  assumes "kernel_ok s" and "kbd_queue s = []" and "active_view s = 0"
    and "\<forall>t. dev t (COM1 + 5) AND 1 = 0" and "list_all2 irq_line ls irqs"
    and "keys = List.map_filter key_char (codes_read dev (io_reads s) ls)" and "length keys \<le> 31"
    and "CHR 0x0A \<notin> set keys" and "CHR 0x0D \<notin> set keys"
  shows "\<exists>s'. kernel_run dev fl (map Interrupt irqs @ [Round regs]) s = Some (Running, s') \<and> kernel_ok s' \<and>
    cmd_line s' = fold edit_line keys (cmd_line s) \<and> log_lines s' = log_lines s \<and>
    pit_ticks s' = pit_ticks s + of_nat (count_list ls 0)"
proof -
  have "length (kbd_queue s) + length (List.map_filter key_char (codes_read dev (io_reads s) ls)) \<le> 31"
    using assms(2,6,7) by simp
  from interrupts_run[OF assms(5,1) this, of fl] obtain s1 where s1: "kernel_run dev fl (map Interrupt irqs) s = Some (Running, s1)"
    "keeps_shell s s1" "pit_ticks s1 = pit_ticks s + of_nat (count_list ls 0)" "kbd_queue s1 = keys"
    using assms(2,6) by auto
  have "kernel_ok s1" "active_view s1 = 0" using s1(2) assms(3) by (simp_all add: keeps_shell_def)
  moreover have "CHR 0x0A \<notin> set (kbd_queue s1)" "CHR 0x0D \<notin> set (kbd_queue s1)" using assms(8,9) s1(4) by simp_all
  ultimately obtain s2 where
    "loop_round dev fl regs s1 = Some (Running, s2)" "kernel_ok s2" "pit_ticks s2 = pit_ticks s1"
    "cmd_line s2 = fold edit_line keys (cmd_line s1)" "log_lines s2 = log_lines s1"
    using loop_round_edits[of s1 dev fl regs] assms(4) s1(4) by auto
  then show ?thesis
    using s1 by (simp add: kernel_run_append[OF s1(1)] kernel_step_def resume_def keeps_shell_def)
qed

text \<open>A keyboard on which p and f are pressed and let go.\<close>

definition typing_device :: device where
  "typing_device t p = (if p = 0x60 then [0x19, 0x99, 0x21, 0xA1] ! (t mod 4) else 0x60)"

theorem keys_reach_shell_witness:
  "\<exists>s'. kernel_run typing_device ''pagefault.c'' (map Interrupt (map regs_at [33, 32, 33, 33, 39, 33]) @ [Round (regs_at 0)]) kernel_ready =
     Some (Running, s') \<and> cmd_line s' = ''pf''"
proof -
  have l: "list_all2 irq_line [1, 0, 1, 1, 7, 1] (map regs_at [33, 32, 33, 33, 39, 33])" by (simp add: irq_line_def regs_at_def)
  have r: "io_reads kernel_ready = 0" 
  proof -
    have "io_reads (log_print m s) = io_reads s" for m and s :: kernel_state by (simp add: log_print_def Let_def)
    then show ?thesis by (simp add: kernel_ready_def menu_init_def) (simp add: static_defs idt_static_def)
  qed
  have c: "codes_read typing_device (io_reads kernel_ready) [1, 0, 1, 1, 7, 1] = [0x19, 0x99, 0x21, 0xA1]"
    by (simp add: r codes_read_Cons typing_device_def) (simp add: codes_read_def)
  have k: "List.map_filter key_char (codes_read typing_device (io_reads kernel_ready) [1, 0, 1, 1, 7, 1]) = ''pf''"
    unfolding c by (simp add: map_filter_simps key_char_def scancode_ascii_def)
  have n: "\<forall>t. typing_device t (COM1 + 5) AND 1 = 0" by (simp add: typing_device_def)
  from keys_reach_shell[OF kernel_ready_ok(1,3,4) n l k[symmetric], of "''pagefault.c''" "regs_at 0"]
  show ?thesis by (auto simp: kernel_ready_ok(2) edit_line_def printable_def)
qed

text \<open>
  C4: A command that faults ends as the user says. After \<open>panic\<close> or \<open>pf\<close> and return, the exception goes through the
  handler table to the panic console, which starts to poll the keyboard. Whatever that delivers before the
  first of the action keys, other keys, releases or nothing for a while, the action key decides: with R the kernel
  goes on at the recovery point with a message in the log, with B, O and P the machine stops. In all cases
  the kernel is well formed, all that was typed ahead is still in the keyboard buffer, memory untouched, and
  the command still on the line. Transmitter and keyboard controller are assumed to become ready again and again.
\<close>

theorem fault_command_recovers:
  assumes "uart_live dev COM1" and "controller_live dev" and "kernel_ok s" and "active_view s = 0" and "cmd_line s \<in> {''panic'', ''pf''}"
  shows "\<exists>n. fault_polls dev fl regs (CHR 0x0A) s = Some n \<and>
    (\<forall>e. first_action dev n e \<longrightarrow> (\<exists>s'. run_key dev fl regs (CHR 0x0A) s = Some (if e = Restored then Resumed else Stopped, s') \<and>
      kernel_ok s' \<and> cmd_line s' = cmd_line s \<and> active_view s' = 0 \<and> kbd_queue s' = kbd_queue s \<and> memory s' = memory s \<and>
      panic_ended s' = (if e = Restored then None else Some e) \<and> (e = Restored \<longrightarrow> last (log_lines s') = recovered_message)))"
proof -
  have "last (last_lines (ls @ [x])) = x" for ls :: "string list" and x by (simp add: last_lines_def last_drop)
  with run_fault_key[OF assms, of fl regs] show ?thesis by (fastforce simp: serves_def)
qed

theorem fault_command_recovers_witness:
  "\<exists>s s'. cmd_line s = ''pf'' \<and> run_key r_key_device ''pagefault.c'' (regs_at 0) (CHR 0x0A) s = Some (Resumed, s') \<and>
     last (log_lines s') = recovered_message"
proof -
  obtain s1 where s1: "run_key r_key_device [] (regs_at 0) (CHR ''p'') kernel_ready = Some (Running, s1)" "serves kernel_ready s1"
    "cmd_line s1 = ''p''" "active_view s1 = 0"
    using run_key_edits[OF kernel_ready_ok(1,4), of "CHR ''p''" r_key_device "[]" "regs_at 0"]
    by (auto simp: kernel_ready_ok(2) edit_line_def printable_def)
  have "kernel_ok s1" using s1(2) by (simp add: serves_def)
  from run_key_edits[OF this s1(4), of "CHR ''f''" r_key_device "[]" "regs_at 0"] obtain s2 where
    s2: "serves s1 s2" "cmd_line s2 = ''pf''" "active_view s2 = 0"
    by (auto simp: s1(3) edit_line_def printable_def)
  have "kernel_ok s2" using s2(1) by (simp add: serves_def)
  from fault_command_recovers[OF r_key_live this s2(3), of "''pagefault.c''" "regs_at 0"] s2(2) r_key_first show ?thesis by fastforce
qed

lemma free_above:
  assumes "pmm_wf s" and "pmm_used s = {..<k}" and "0 < k" and "0 < n" and "k + n \<le> total_frames s"
  shows "fst (pmm_alloc_frame s) \<noteq> 0" "fst (pmm_alloc_contiguous n s) \<noteq> 0"
proof -
  have z: "0 \<in> pmm_used s" using assms(2,3) by simp
  have "card (pmm_used s) = k" "k < total_frames s" using assms(2,4,5) by simp_all
  then have "pmm_used s \<noteq> {..<total_frames s}" by (metis card_lessThan less_irrefl)
  then show "fst (pmm_alloc_frame s) \<noteq> 0" using frames.alloc_zero_iff[OF assms(1) z surjective_pairing] by simp
  have "{k..<k + n} \<inter> pmm_used s = {}" unfolding assms(2) by auto
  with assms(5) have "\<exists>st. st + n \<le> total_frames s \<and> {st..<st + n} \<inter> pmm_used s = {}" by blast
  from frames.run_some[OF assms(1,4) this surjective_pairing] obtain st where
    "{st..<st + n} \<inter> pmm_used s = {}" "fst (pmm_alloc_contiguous n s) = st * PAGE_SIZE" by blast
  moreover from this(1) z assms(4) have "st \<noteq> 0" by (cases "st = 0") fastforce+
  ultimately show "fst (pmm_alloc_contiguous n s) \<noteq> 0" by simp
qed

text \<open>
  C5: The kernel image and the bitmap are protected. Booting reserves every frame that holds them,
  so that after any calls of the frame manager that free no reserved frame, no frame and no run that is handed
  out reaches below the end of the bitmap or above the end of memory.
\<close>

theorem boot_memory_protects:
  assumes "kernel_end + ram + 8192 < two64"
    and "\<forall>f < reserved_frames ram kernel_end. \<forall>c \<in> set calls. \<not> frees c (f * PAGE_SIZE)"
    and "s = pmm_run calls (boot_frames ram kernel_end m)"
    and "pmm_alloc_frame s = (p, s1)" and "p \<noteq> 0" and "pmm_alloc_contiguous n s = (q, s2)" and "q \<noteq> 0"
  shows "kernel_end \<le> bitmap_phys kernel_end \<and>
    bitmap_phys kernel_end + (ram div PAGE_SIZE + 7) div 8 \<le> p \<and> p + PAGE_SIZE \<le> ram \<and>
    bitmap_phys kernel_end + (ram div PAGE_SIZE + 7) div 8 \<le> q \<and> q + n * PAGE_SIZE \<le> ram"
proof -
  let ?r = "reserved_frames ram kernel_end"
  have ram: "ram < two64" using assms(1) by simp
  note k = kept_reserved[OF ram assms(2), where m = m, folded assms(3)]
  note c = reserved_frames_cover[OF assms(1)]
  obtain f where f: "f < total_frames s" "f \<notin> pmm_used s" "p = f * PAGE_SIZE" using k(1) assms(4,5) by (rule frames.alloc_nonzero)
  obtain st where st: "0 < n" "st + n \<le> total_frames s" "{st..<st + n} \<inter> pmm_used s = {}" "q = st * PAGE_SIZE"
    using k(1) assms(6,7) by (rule frames.run_nonzero)
  have "st \<in> {st..<st + n}" using st(1) by simp
  then have "st \<notin> pmm_used s" using st(3) by blast
  then have "?r \<le> f" "?r \<le> st" using k(2) k(3)[of f] k(3)[of st] f(1,2) st(1,2) by simp_all
  then have "?r * PAGE_SIZE \<le> p" "?r * PAGE_SIZE \<le> q" using f(3) st(4) by simp_all
  moreover have "p + PAGE_SIZE \<le> ram" "q + n * PAGE_SIZE \<le> ram"
  proof -
  have "Suc f * PAGE_SIZE \<le> ram div PAGE_SIZE * PAGE_SIZE" "(st + n) * PAGE_SIZE \<le> ram div PAGE_SIZE * PAGE_SIZE"
    using f(1) st(2) k(2) by (simp_all only: mult_le_mono1 Suc_le_eq)
  then have "Suc f * PAGE_SIZE \<le> ram" "(st + n) * PAGE_SIZE \<le> ram"
    using le_trans[OF _ div_times_less_eq_dividend[of ram PAGE_SIZE]] by blast+
  then show "p + PAGE_SIZE \<le> ram" "q + n * PAGE_SIZE \<le> ram" using f(3) st(4) by (simp_all add: algebra_simps)
  qed
  ultimately show ?thesis using c(1,2) by simp
qed

theorem boot_memory_protects_witness:
  "0x120800 \<le> fst (pmm_alloc_frame (pmm_run [MarkFree 0x1F4000] (boot_frames 0x4000000 0x120000 pmm_static))) \<and>
   0x120800 \<le> fst (pmm_alloc_contiguous 3 (pmm_run [MarkFree 0x1F4000] (boot_frames 0x4000000 0x120000 pmm_static)))"
proof -
  let ?b = "boot_frames 0x4000000 0x120000 pmm_static" and ?s = "pmm_run [MarkFree 0x1F4000] (boot_frames 0x4000000 0x120000 pmm_static)"
  have phys: "bitmap_phys 0x120000 = 0x120000"
    using and_not64_pow2[of "0x120FFF" 12] by (simp add: bitmap_phys_def wrap)
  have r: "reserved_frames 0x4000000 0x120000 = 289" by (simp add: reserved_frames_def phys Let_def wrap)
  have "{f. f < a \<and> f < b} = {..<min a b}" for a b :: nat by auto
  from this[of 289 16384] have b: "pmm_wf ?b" "pmm_used ?b = {..<289}" "total_frames ?b = 16384"
    by (simp_all add: boot_frames_abs r)
  have s: "pmm_wf ?s" "pmm_used ?s = {..<289}" "total_frames ?s = 16384"
    unfolding pmm_run_def using pmm_mark_free_abs[OF b(1), of "0x1F4000"] b by simp_all
  have nz: "fst (pmm_alloc_frame ?s) \<noteq> 0" "fst (pmm_alloc_contiguous 3 ?s) \<noteq> 0"
    using free_above[OF s(1,2), of 3] by (simp_all add: s(3))
  have "\<forall>f < reserved_frames 0x4000000 0x120000. \<forall>c \<in> set [MarkFree 0x1F4000]. \<not> frees c (f * PAGE_SIZE)"
  proof (intro allI impI ballI)
    fix f c assume "f < reserved_frames 0x4000000 0x120000" "c \<in> set [MarkFree 0x1F4000]"
    then show "\<not> frees c (f * PAGE_SIZE)" by (simp add: r)
  qed
  from boot_memory_protects[OF _ this HOL.refl surjective_pairing nz(1) surjective_pairing nz(2)]
  show ?thesis by (simp add: phys)
qed

text \<open>
  C6: Hardware interrupts are transparent. Whatever the processor is doing when a request line is raised, the gate
  leads through the stub to the registered handler and back: every register is as it was, and so is the stack from the
  stack pointer on. The kernel stays well formed, shell, memory and descriptors are untouched; line 0 counts a tick and
  line 1 puts its scancode into the keyboard buffer. What is assumed of the kernel, booting establishes
  (\<open>kernel_ok\<close> and the descriptors), and this interrupt, as every run of the kernel, keeps it.
\<close>

theorem interrupts_transparent:
  assumes "abi_calls after" and "kernel_ok s" and "idt s = idt (isr_install idt_addr isr irq s0)"
    and "\<forall>k < 32. code (isr k) = isr_stubs ! k" and "\<forall>k < 16. code (irq k) = irq_stubs ! k"
    and "i < 16" and "200 \<le> unat (gpr c RSP)"
  shows "\<exists>m s'. serve_interrupt (c_functions (call_handler dev fl) panic) after code (32 + i) None c s = Some (c\<lparr>stack_mem := m\<rparr>, s') \<and>
    (\<forall>a. gpr c RSP \<le> a \<longrightarrow> m a = stack_mem c a) \<and>
    kernel_ok s' \<and> cmd_line s' = cmd_line s \<and> log_lines s' = log_lines s \<and> memory s' = memory s \<and> idt s' = idt s \<and>
    pit_ticks s' = (if i = 0 then pit_ticks s + 1 else pit_ticks s) \<and>
    kbd_queue s' = (if i = 1 then kbd_queue (take_scancode (dev (io_reads s) PS2_DATA_PORT) s) else kbd_queue s)"
proof -
  let ?regs = "registers_of c (of_nat (32 + i)) 0"
  have "unat (of_nat (32 + i) :: u64) = 32 + i" using assms(6) by (intro unat_of_nat_small) simp
  then have line: "irq_line i ?regs" using assms(6) by (simp add: irq_line_def registers_of_def)
  obtain s' where s': "irq_handler (call_handler dev fl) ?regs s = Some s'" "keeps_shell s s'"
    "pit_ticks s' = (if i = 0 then pit_ticks s + 1 else pit_ticks s)"
    "kbd_queue s' = (if i = 1 then kbd_queue (take_scancode (dev (io_reads s) PS2_DATA_PORT) s) else kbd_queue s)"
    using interrupt_ok[OF assms(2) line, of dev fl] by (auto simp: interrupt_def)
  have n: "32 + i < 48" "32 + i \<notin> {21, 29, 30}" "(None :: u64 option) \<noteq> None \<longleftrightarrow> cpu_error_code (32 + i)"
    using assms(6) by (auto simp: cpu_error_code_def)
  obtain m where "serve_interrupt (c_functions (call_handler dev fl) panic) after code (32 + i) None c s = Some (c\<lparr>stack_mem := m\<rparr>, s')"
    "\<forall>a. gpr c RSP \<le> a \<longrightarrow> m a = stack_mem c a"
    using serve_interrupt_returns[OF assms(1,3,4,5) n assms(7), of "call_handler dev fl" panic] s'(1) by auto
  with s' show ?thesis by (auto simp: keeps_shell_def)
qed

text \<open>The ready kernel with the stubs of \<open>stub_code\<close>.\<close>

definition kernel_stubs :: kernel_state where
  "kernel_stubs = kernel_ready\<lparr>idt := idt (isr_install 0x9000 stub_addr (\<lambda>i. stub_addr (32 + i)) idt_static)\<rparr>"

theorem interrupts_transparent_witness:
  "\<exists>m s'. serve_interrupt (c_functions (call_handler r_key_device ''pagefault.c'') (\<lambda>_ _ _. None)) clobber stub_code 32 None idle_cpu kernel_stubs =
     Some (idle_cpu\<lparr>stack_mem := m\<rparr>, s') \<and> pit_ticks s' = pit_ticks kernel_ready + 1"
proof -
  have abi: "abi_calls (clobber :: c_function \<Rightarrow> kernel_state \<Rightarrow> cpu \<Rightarrow> cpu)" by (simp add: abi_calls_def clobber_keeps)
  have ok: "kernel_ok kernel_stubs"
    using kernel_ready_ok(1) unfolding kernel_stubs_def
    by (simp add: kernel_ok_def menu_ok_def cmd_ok_def log_ok_def kbd_ok_def kbd_queue_def kbd_count_def)
  have i: "idt kernel_stubs = idt (isr_install 0x9000 stub_addr (\<lambda>i. stub_addr (32 + i)) idt_static)" by (simp add: kernel_stubs_def)
  have rsp: "200 \<le> unat (gpr idle_cpu RSP)" by (simp add: idle_cpu_def)
  have t: "pit_ticks kernel_stubs = pit_ticks kernel_ready" by (simp add: kernel_stubs_def)
  from interrupts_transparent[OF abi ok i stub_kernel_code _ rsp, of 0 r_key_device "''pagefault.c''" "\<lambda>_ _ _. None"] t
  show ?thesis by auto
qed

end
